(* ===== verification/Prelude.thy ===== *)
theory Prelude
  imports Main "HOL-Library.Word"
begin

text \<open>
  Shared vocabulary of the development: the machine types of the C sources, the result
  codes their functions return, pointer arguments, and the generic list and word lemmas
  the component theories use.
\<close>

unbundle bit_operations_syntax

subsection \<open>Machine types\<close>

text \<open>
  \<open>byte\<close> is C's \<open>unsigned char\<close>, \<open>u32\<close> an unsigned 32-bit integer, \<open>u64\<close> a
  64-bit \<open>size_t\<close>.
\<close>

type_synonym byte = "8 word"
type_synonym u32 = "32 word"
type_synonym u64 = "64 word"

text \<open>
  The value of an \<open>int\<close> (\<open>int64_t\<close>) that is given \<open>x\<close>: conversions keep the low bits, and
  an addition or multiplication that overflows is taken to wrap around, although C leaves it
  undefined; the theorems are about ranges in which nothing overflows. Division truncates towards 0.
\<close>

definition c_int :: "int \<Rightarrow> int" where
  "c_int x = signed_take_bit 31 x"

definition c_int64 :: "int \<Rightarrow> int" where
  "c_int64 x = signed_take_bit 63 x"

definition c_div :: "int \<Rightarrow> int \<Rightarrow> int" where
  "c_div a b = sgn a * sgn b * (\<bar>a\<bar> div \<bar>b\<bar>)"

lemma c_int_id: "- (2 ^ 31) \<le> x \<Longrightarrow> x < 2 ^ 31 \<Longrightarrow> c_int x = x"
  unfolding c_int_def by (rule signed_take_bit_int_eq_self) simp_all

lemma c_int64_id: "- (2 ^ 63) \<le> x \<Longrightarrow> x < 2 ^ 63 \<Longrightarrow> c_int64 x = x"
  unfolding c_int64_def by (rule signed_take_bit_int_eq_self) simp_all

lemma c_div_nonneg: "0 \<le> a \<Longrightarrow> 0 < b \<Longrightarrow> c_div a b = a div b"
  by (cases "a = 0") (simp_all add: c_div_def)

lemma c_div_bounds:
  assumes "0 < b"
  shows "\<bar>c_div a b\<bar> \<le> \<bar>a\<bar>"
proof -
  have "\<bar>a\<bar> div b \<le> \<bar>a\<bar>" using zdiv_mono2 [of "\<bar>a\<bar>" 1 b] assms by simp
  moreover have "0 \<le> \<bar>a\<bar> div b" using assms by (simp add: pos_imp_zdiv_nonneg_iff)
  ultimately show ?thesis using assms by (auto simp: c_div_def abs_mult sgn_if)
qed

text \<open>Bytes are equal when their eight bits are; \<open>bit_simps\<close> then evaluates each bit.\<close>

lemma byte_eqI:
  assumes "bit x 0 = bit y 0" "bit x 1 = bit y 1" "bit x 2 = bit y 2" "bit x 3 = bit y 3"
    "bit x 4 = bit y 4" "bit x 5 = bit y 5" "bit x 6 = bit y 6" "bit x 7 = bit (y :: byte) 7"
  shows "x = y"
proof (rule bit_word_eqI)
  fix n assume "n < LENGTH(8)"
  then have "n = 0 \<or> n = 1 \<or> n = 2 \<or> n = 3 \<or> n = 4 \<or> n = 5 \<or> n = 6 \<or> n = 7" by simp arith
  with assms show "bit x n = bit y n" by auto
qed

lemma and_mask_less:
  assumes "x AND m = x" and "m < n"
  shows "(x :: 'a::len word) < n"
  using assms word_and_le1 [of x m] by (metis order_le_less_trans)

subsection \<open>Result codes\<close>

text \<open>
  The error numbers of \<open>errno.h\<close> that the sources return. \<open>OK\<close> is the return
  value 0. Only their distinctness matters, so they are constructors and not numbers.
\<close>

datatype rc =
    OK | EPERM | ESRCH | EAGAIN | ENOMEM | EBUSY | EINVAL | ENOSPC | ERANGE
  | EDEADLK | ENOSYS | ENOTSUP | ETIMEDOUT | EOWNERDEAD | ENOTRECOVERABLE | EINTR

text \<open>
  The APR status codes that the modelled APR functions test or return themselves; the
  errors of lower layers, which they pass on, are \<open>APR_OTHER\<close>.
\<close>

datatype apr_status =
    APR_SUCCESS | APR_EOF | APR_EAGAIN | APR_EINTR | APR_EINVAL | APR_NOTFOUND | APR_ENOMEM | APR_BADCH
  | APR_EMISMATCH | APR_BADARG | APR_EBADDATE | APR_EEXIST | APR_ENOSPC | APR_EGENERAL
  | APR_OTHER nat

subsection \<open>Pointer arguments\<close>

text \<open>
  An argument of type \<open>T **\<close> where \<open>T *\<close> is a handle: the outer pointer may be NULL,
  the handle it points to may be NULL, or there is an object. Functions that read through
  a pointer without testing it return \<open>None\<close> where the C code would dereference NULL.
\<close>

datatype 'a ref = NullRef | Cell "'a option"

fun deref :: "'a ref \<Rightarrow> 'a option" where
  "deref NullRef = None"
| "deref (Cell c) = c"

text \<open>\<open>attr != NULL && *attr != NULL\<close>, as the sources test it.\<close>

abbreviation live_ref :: "'a ref \<Rightarrow> bool" where
  "live_ref r \<equiv> deref r \<noteq> None"

lemma live_refE:
  assumes "live_ref r"
  obtains a where "r = Cell (Some a)"
  using assms by (cases r) auto

subsection \<open>Shared fact collections\<close>

text \<open>
  \<open>guards\<close> collects the definitions whose unfolding exposes the code's conditions;
  \<open>bytes\<close> the equations that evaluate byte comparisons.
\<close>

named_theorems guards
named_theorems bytes

subsection \<open>Interface: a map with insertion and deletion\<close>

text \<open>
  What the containers promise to their clients: \<open>look\<close> after \<open>upd\<close>. Keys count as
  equal when \<open>canon\<close> maps them to the same value (the bytes of a key, its lower case).
  \<open>room n t\<close> says that \<open>n\<close> more updates are within the container's size limits.
\<close>

locale finite_map =
  fixes inv :: "'t \<Rightarrow> bool"
    and room :: "nat \<Rightarrow> 't \<Rightarrow> bool"
    and canon :: "'k \<Rightarrow> 'c"
    and look :: "'t \<Rightarrow> 'k \<Rightarrow> 'v option"
    and upd :: "'t \<Rightarrow> 'k \<Rightarrow> 'v option \<Rightarrow> 't"
  assumes upd_inv: "inv t \<Longrightarrow> room (Suc n) t \<Longrightarrow> inv (upd t k v) \<and> room n (upd t k v)"
    and room_less: "room (Suc n) t \<Longrightarrow> room n t"
    and look_upd: "inv t \<Longrightarrow> room (Suc n) t \<Longrightarrow>
          look (upd t k v) k' = (if canon k' = canon k then v else look t k')"
begin

lemma run_inv:
  "inv t \<Longrightarrow> room (length ops + n) t \<Longrightarrow>
     inv (fold (\<lambda>(k, v) t. upd t k v) ops t) \<and> room n (fold (\<lambda>(k, v) t. upd t k v) ops t)"
  by (induction ops arbitrary: t) (use upd_inv in auto)

text \<open>A lookup returns what the last update of the key stored.\<close>

lemma run_look:
  "inv t \<Longrightarrow> room (length ops) t \<Longrightarrow>
     look (fold (\<lambda>(k, v) t. upd t k v) ops t) x =
       (case find (\<lambda>(k, v). canon x = canon k) (rev ops) of None \<Rightarrow> look t x | Some (k, v) \<Rightarrow> v)"
proof (induction ops rule: rev_induct)
  case (snoc op ops)
  obtain k v where op: "op = (k, v)" by (cases op)
  let ?t = "fold (\<lambda>(k, v) t. upd t k v) ops t"
  have "inv ?t \<and> room (Suc 0) ?t" using run_inv [of t ops 1] snoc.prems by simp
  then have "look (upd ?t k v) x = (if canon x = canon k then v else look ?t x)"
    using look_upd by blast
  moreover have "look ?t x = (case find (\<lambda>(k, v). canon x = canon k) (rev ops) of
      None \<Rightarrow> look t x | Some (k, v) \<Rightarrow> v)"
    using snoc.IH snoc.prems room_less by simp
  ultimately show ?case by (auto simp: op)
qed simp

end

subsection \<open>Interface: an encoding\<close>

text \<open>
  What encoders and their decoders promise together: every message with \<open>ok\<close> survives, and
  its code is as long as \<open>enc_len\<close> announces.
\<close>

locale codec =
  fixes ok :: "'a list \<Rightarrow> bool"
    and enc :: "'a list \<Rightarrow> 'b list"
    and dec :: "'b list \<Rightarrow> 'a list option"
    and enc_len :: "'a list \<Rightarrow> nat"
  assumes round_trip: "ok s \<Longrightarrow> dec (enc s) = Some s"
    and announced: "ok s \<Longrightarrow> length (enc s) = enc_len s"
begin

lemma enc_inj: "inj_on enc {s. ok s}"
  by (rule inj_onI) (metis mem_Collect_eq option.inject round_trip)

lemma enc_eq_iff: "ok s \<Longrightarrow> ok t \<Longrightarrow> enc s = enc t \<longleftrightarrow> s = t"
  using enc_inj by (auto dest: inj_onD)

lemma dec_all: "\<forall>s \<in> set ms. ok s \<Longrightarrow> map dec (map enc ms) = map Some ms"
  by (induction ms) (auto simp: round_trip)

end

subsection \<open>Interface: a bounded first-in first-out buffer\<close>

text \<open>
  \<open>view\<close> is the contents, oldest first. The client may put below the capacity and take
  from a buffer that is not empty. The lemmas are about a log of all data put and taken.
\<close>

locale bounded_fifo =
  fixes inv :: "'q \<Rightarrow> bool"
    and cap :: "'q \<Rightarrow> nat"
    and view :: "'q \<Rightarrow> 'a list"
    and put :: "'a \<Rightarrow> 'q \<Rightarrow> 'q"
    and take_first :: "'q \<Rightarrow> 'a \<times> 'q"
  assumes bounded: "inv q \<Longrightarrow> length (view q) \<le> cap q"
    and put_law: "inv q \<Longrightarrow> length (view q) < cap q \<Longrightarrow>
          inv (put x q) \<and> view (put x q) = view q @ [x]"
    and take_law: "inv q \<Longrightarrow> view q \<noteq> [] \<Longrightarrow>
          inv (snd (take_first q)) \<and> view q = fst (take_first q) # view (snd (take_first q))"
begin

lemma log_put:
  "inv q \<Longrightarrow> length (view q) < cap q \<Longrightarrow> ins = outs @ view q \<Longrightarrow> ins @ [x] = outs @ view (put x q)"
  using put_law by simp

lemma log_take:
  "inv q \<Longrightarrow> view q \<noteq> [] \<Longrightarrow> ins = outs @ view q \<Longrightarrow>
     ins = (outs @ [fst (take_first q)]) @ view (snd (take_first q))"
  using take_law by simp

end

end
