(* ===== verification/PT_Attr.thy ===== *)
theory PT_Attr
  imports Prelude
begin

text \<open>
  The attribute objects of pthreads-win32 (\<open>src/pthreads/pthreads.2/pthread_attr_*.c\<close>,
  \<open>pthread_mutexattr_*.c\<close>, \<open>pthread_condattr_*.c\<close>, \<open>pthread_rwlockattr_*.c\<close>,
  \<open>pthread_barrierattr_*.c\<close>, \<open>sched_*.c\<close>). A handle argument is a \<open>ref\<close>: the
  functions test \<open>attr\<close> and \<open>*attr\<close> for NULL. An operation returns its result
  code and the updated argument. An allocating operation takes the outcome of
  \<open>malloc\<close> as the flag \<open>mem\<close>; an out parameter is a flag telling whether the pointer
  is non-NULL, and the value stored through it is the optional second component. Where the
  code reads or writes through a pointer it has not tested, the operation is
  \<open>None\<close> for a NULL pointer.
\<close>

subsection \<open>Constants of pthread.h and sched.h\<close>

abbreviation (input) "PTHREAD_CREATE_JOINABLE \<equiv> 0 :: int"
abbreviation (input) "PTHREAD_CREATE_DETACHED \<equiv> 1 :: int"
abbreviation (input) "PTHREAD_INHERIT_SCHED \<equiv> 0 :: int"
abbreviation (input) "PTHREAD_EXPLICIT_SCHED \<equiv> 1 :: int"
abbreviation (input) "PTHREAD_SCOPE_PROCESS \<equiv> 0 :: int"
abbreviation (input) "PTHREAD_SCOPE_SYSTEM \<equiv> 1 :: int"
abbreviation (input) "PTHREAD_PROCESS_PRIVATE \<equiv> 0 :: int"
abbreviation (input) "PTHREAD_PROCESS_SHARED \<equiv> 1 :: int"
abbreviation (input) "PTHREAD_MUTEX_STALLED \<equiv> 0 :: int"
abbreviation (input) "PTHREAD_MUTEX_ROBUST \<equiv> 1 :: int"
abbreviation (input) "PTHREAD_MUTEX_NORMAL \<equiv> 0 :: int"
abbreviation (input) "PTHREAD_MUTEX_RECURSIVE \<equiv> 1 :: int"
abbreviation (input) "PTHREAD_MUTEX_ERRORCHECK \<equiv> 2 :: int"
abbreviation (input) "PTHREAD_MUTEX_DEFAULT \<equiv> PTHREAD_MUTEX_NORMAL"
abbreviation (input) "SCHED_OTHER \<equiv> 0 :: int"
abbreviation (input) "SCHED_MIN \<equiv> SCHED_OTHER"
abbreviation (input) "SCHED_MAX \<equiv> 2 :: int"

subsection \<open>Thread attributes\<close>

record pthread_attr =
  a_valid :: u32
  a_stackaddr :: u64
  a_stacksize :: u64
  a_detachstate :: int
  a_priority :: int
  a_inheritsched :: int
  a_contentionscope :: int

definition PTW32_ATTR_VALID :: u32 where
  "PTW32_ATTR_VALID = 0xC4C0FFEE"

definition ptw32_is_attr :: "pthread_attr ref \<Rightarrow> bool" where
  "ptw32_is_attr attr \<longleftrightarrow>
     (case attr of
        NullRef \<Rightarrow> True
      | Cell None \<Rightarrow> True
      | Cell (Some a) \<Rightarrow> a_valid a \<noteq> PTW32_ATTR_VALID)"

text \<open>\<open>THREAD_PRIORITY_NORMAL\<close> is a Windows constant, the argument \<open>prio\<close>.\<close>

definition pthread_attr_init :: "int \<Rightarrow> bool \<Rightarrow> pthread_attr ref \<Rightarrow> rc \<times> pthread_attr ref" where
  "pthread_attr_init prio mem attr =
     (case attr of
        NullRef \<Rightarrow> (EINVAL, attr)
      | Cell _ \<Rightarrow>
          if \<not> mem then (ENOMEM, attr)
          else (OK, Cell (Some
            \<lparr>a_valid = PTW32_ATTR_VALID, a_stackaddr = 0, a_stacksize = 0,
             a_detachstate = PTHREAD_CREATE_JOINABLE, a_priority = prio,
             a_inheritsched = PTHREAD_EXPLICIT_SCHED,
             a_contentionscope = PTHREAD_SCOPE_SYSTEM\<rparr>)))"

definition pthread_attr_destroy :: "pthread_attr ref \<Rightarrow> rc \<times> pthread_attr ref" where
  "pthread_attr_destroy attr = (if ptw32_is_attr attr then (EINVAL, attr) else (OK, Cell None))"

text \<open>Store into the object of a handle that passed \<^const>\<open>ptw32_is_attr\<close>.\<close>

fun upd_ref :: "('a \<Rightarrow> 'a) \<Rightarrow> 'a ref \<Rightarrow> 'a ref" where
  "upd_ref f NullRef = NullRef"
| "upd_ref f (Cell c) = Cell (map_option f c)"

lemma deref_upd_ref [simp]: "deref (upd_ref f r) = map_option f (deref r)"
  by (cases r) auto

definition pthread_attr_getdetachstate :: "pthread_attr ref \<Rightarrow> bool \<Rightarrow> rc \<times> int option" where
  "pthread_attr_getdetachstate attr out =
     (if ptw32_is_attr attr \<or> \<not> out then (EINVAL, None)
      else (OK, map_option a_detachstate (deref attr)))"

definition pthread_attr_setdetachstate :: "pthread_attr ref \<Rightarrow> int \<Rightarrow> rc \<times> pthread_attr ref" where
  "pthread_attr_setdetachstate attr detachstate =
     (if ptw32_is_attr attr then (EINVAL, attr)
      else if detachstate \<noteq> PTHREAD_CREATE_JOINABLE \<and> detachstate \<noteq> PTHREAD_CREATE_DETACHED
      then (EINVAL, attr)
      else (OK, upd_ref (a_detachstate_update (\<lambda>_. detachstate)) attr))"

text \<open>
  \<open>stackaddr\<close>, \<open>stacksize\<close>: the feature macros are defined (to -1 and 200809L), so the
  \<open>#else\<close> branches that return \<open>ENOSYS\<close> are not compiled; \<open>PTHREAD_STACK_MIN\<close>
  is 0, so neither is the size test. The out pointers are not tested.
\<close>

definition pthread_attr_getstackaddr :: "pthread_attr ref \<Rightarrow> bool \<Rightarrow> (rc \<times> u64 option) option" where
  "pthread_attr_getstackaddr attr out =
     (if ptw32_is_attr attr then Some (EINVAL, None)
      else if \<not> out then None
      else Some (OK, map_option a_stackaddr (deref attr)))"

definition pthread_attr_setstackaddr :: "pthread_attr ref \<Rightarrow> u64 \<Rightarrow> rc \<times> pthread_attr ref" where
  "pthread_attr_setstackaddr attr stackaddr =
     (if ptw32_is_attr attr then (EINVAL, attr)
      else (OK, upd_ref (a_stackaddr_update (\<lambda>_. stackaddr)) attr))"

definition pthread_attr_getstacksize :: "pthread_attr ref \<Rightarrow> bool \<Rightarrow> (rc \<times> u64 option) option" where
  "pthread_attr_getstacksize attr out =
     (if ptw32_is_attr attr then Some (EINVAL, None)
      else if \<not> out then None
      else Some (OK, map_option a_stacksize (deref attr)))"

definition pthread_attr_setstacksize :: "pthread_attr ref \<Rightarrow> u64 \<Rightarrow> rc \<times> pthread_attr ref" where
  "pthread_attr_setstacksize attr stacksize =
     (if ptw32_is_attr attr then (EINVAL, attr)
      else (OK, upd_ref (a_stacksize_update (\<lambda>_. stacksize)) attr))"

text \<open>
  The Windows priorities \<open>THREAD_PRIORITY_IDLE\<close> and \<open>THREAD_PRIORITY_TIME_CRITICAL\<close>
  are the arguments \<open>idle\<close> and \<open>crit\<close>; on Windows CE the first is the larger one.
\<close>

definition PTW32_MIN :: "int \<Rightarrow> int \<Rightarrow> int" where
  "PTW32_MIN a b = (if a > b then b else a)"

definition PTW32_MAX :: "int \<Rightarrow> int \<Rightarrow> int" where
  "PTW32_MAX a b = (if a < b then b else a)"

definition sched_get_priority_min :: "int \<Rightarrow> int \<Rightarrow> int \<Rightarrow> int \<times> rc option" where
  "sched_get_priority_min idle crit policy =
     (if policy < SCHED_MIN \<or> policy > SCHED_MAX then (-1, Some EINVAL)
      else (PTW32_MIN idle crit, None))"

definition sched_get_priority_max :: "int \<Rightarrow> int \<Rightarrow> int \<Rightarrow> int \<times> rc option" where
  "sched_get_priority_max idle crit policy =
     (if policy < SCHED_MIN \<or> policy > SCHED_MAX then (-1, Some EINVAL)
      else (PTW32_MAX idle crit, None))"

definition pthread_attr_getschedparam :: "pthread_attr ref \<Rightarrow> bool \<Rightarrow> rc \<times> int option" where
  "pthread_attr_getschedparam attr out =
     (if ptw32_is_attr attr \<or> \<not> out then (EINVAL, None)
      else (OK, map_option a_priority (deref attr)))"

definition pthread_attr_setschedparam ::
  "int \<Rightarrow> int \<Rightarrow> pthread_attr ref \<Rightarrow> int option \<Rightarrow> rc \<times> pthread_attr ref" where
  "pthread_attr_setschedparam idle crit attr param =
     (case param of
        None \<Rightarrow> (EINVAL, attr)
      | Some priority \<Rightarrow>
          if ptw32_is_attr attr then (EINVAL, attr)
          else if priority < fst (sched_get_priority_min idle crit SCHED_OTHER)
                \<or> priority > fst (sched_get_priority_max idle crit SCHED_OTHER)
          then (EINVAL, attr)
          else (OK, upd_ref (a_priority_update (\<lambda>_. priority)) attr))"

definition pthread_attr_setschedpolicy :: "pthread_attr ref \<Rightarrow> int \<Rightarrow> rc" where
  "pthread_attr_setschedpolicy attr policy =
     (if ptw32_is_attr attr then EINVAL else if policy \<noteq> SCHED_OTHER then ENOTSUP else OK)"

text \<open>
  \<open>getschedpolicy\<close> compares the out pointer itself with the small number
  \<open>SCHED_MAX\<close>; the argument is the pointer's address.
\<close>

definition pthread_attr_getschedpolicy :: "pthread_attr ref \<Rightarrow> nat \<Rightarrow> rc \<times> int option" where
  "pthread_attr_getschedpolicy attr policy =
     (if ptw32_is_attr attr \<or> policy = 0 then (EINVAL, None)
      else if int policy \<le> SCHED_MAX then (EINVAL, None)
      else (OK, Some SCHED_OTHER))"

definition pthread_attr_getscope :: "pthread_attr ref \<Rightarrow> bool \<Rightarrow> (rc \<times> int) option" where
  "pthread_attr_getscope attr out =
     (if \<not> out then None else map_option (\<lambda>a. (OK, a_contentionscope a)) (deref attr))"

definition pthread_attr_setscope :: "pthread_attr ref \<Rightarrow> int \<Rightarrow> (rc \<times> pthread_attr ref) option" where
  "pthread_attr_setscope attr contentionscope =
     (if contentionscope = PTHREAD_SCOPE_SYSTEM then
        map_option (\<lambda>a. (OK, Cell (Some (a\<lparr>a_contentionscope := contentionscope\<rparr>)))) (deref attr)
      else if contentionscope = PTHREAD_SCOPE_PROCESS then Some (ENOTSUP, attr)
      else Some (EINVAL, attr))"

definition pthread_attr_getinheritsched :: "pthread_attr ref \<Rightarrow> bool \<Rightarrow> rc \<times> int option" where
  "pthread_attr_getinheritsched attr out =
     (if ptw32_is_attr attr \<or> \<not> out then (EINVAL, None)
      else (OK, map_option a_inheritsched (deref attr)))"

definition pthread_attr_setinheritsched :: "pthread_attr ref \<Rightarrow> int \<Rightarrow> rc \<times> pthread_attr ref" where
  "pthread_attr_setinheritsched attr inheritsched =
     (if ptw32_is_attr attr then (EINVAL, attr)
      else if PTHREAD_INHERIT_SCHED \<noteq> inheritsched \<and> PTHREAD_EXPLICIT_SCHED \<noteq> inheritsched
      then (EINVAL, attr)
      else (OK, upd_ref (a_inheritsched_update (\<lambda>_. inheritsched)) attr))"

subsection \<open>Scheduler of a process\<close>

text \<open>
  \<open>self\<close> is the own process id and \<open>open_process\<close> the outcome of \<open>OpenProcess\<close>
  for another process: \<open>None\<close> for a handle, otherwise whether access was denied.
\<close>

definition sched_check_pid :: "int \<Rightarrow> (int \<Rightarrow> bool option) \<Rightarrow> int \<Rightarrow> rc option" where
  "sched_check_pid self open_process pid =
     (if pid \<noteq> 0 \<and> pid \<noteq> self then
        map_option (\<lambda>denied. if denied then EPERM else ESRCH) (open_process pid)
      else None)"

definition sched_setscheduler ::
  "int \<Rightarrow> (int \<Rightarrow> bool option) \<Rightarrow> int \<Rightarrow> int \<Rightarrow> int \<times> rc option" where
  "sched_setscheduler self open_process pid policy =
     (case sched_check_pid self open_process pid of
        Some e \<Rightarrow> (-1, Some e)
      | None \<Rightarrow> if SCHED_OTHER \<noteq> policy then (-1, Some ENOSYS) else (SCHED_OTHER, None))"

definition sched_getscheduler :: "int \<Rightarrow> (int \<Rightarrow> bool option) \<Rightarrow> int \<Rightarrow> int \<times> rc option" where
  "sched_getscheduler self open_process pid =
     (case sched_check_pid self open_process pid of
        Some e \<Rightarrow> (-1, Some e)
      | None \<Rightarrow> (SCHED_OTHER, None))"


subsection \<open>Mutex attributes\<close>

record pthread_mutexattr =
  ma_pshared :: int
  ma_kind :: int
  ma_robustness :: int

text \<open>The argument is dereferenced unchecked; \<open>calloc\<close> leaves \<open>robustness\<close> 0.\<close>

definition pthread_mutexattr_init ::
  "bool \<Rightarrow> pthread_mutexattr ref \<Rightarrow> (rc \<times> pthread_mutexattr ref) option" where
  "pthread_mutexattr_init mem attr =
     (case attr of
        NullRef \<Rightarrow> None
      | Cell _ \<Rightarrow> Some
          (if \<not> mem then (ENOMEM, Cell None)
           else (OK, Cell (Some \<lparr>ma_pshared = PTHREAD_PROCESS_PRIVATE,
                   ma_kind = PTHREAD_MUTEX_DEFAULT, ma_robustness = 0\<rparr>))))"

definition pthread_mutexattr_gettype :: "pthread_mutexattr ref \<Rightarrow> bool \<Rightarrow> rc \<times> int option" where
  "pthread_mutexattr_gettype attr out =
     (if live_ref attr \<and> out then (OK, map_option ma_kind (deref attr)) else (EINVAL, None))"

definition pthread_mutexattr_settype ::
  "pthread_mutexattr ref \<Rightarrow> int \<Rightarrow> rc \<times> pthread_mutexattr ref" where
  "pthread_mutexattr_settype attr kind =
     (if live_ref attr then
        (if kind = PTHREAD_MUTEX_NORMAL \<or> kind = PTHREAD_MUTEX_RECURSIVE \<or>
            kind = PTHREAD_MUTEX_ERRORCHECK
         then (OK, upd_ref (ma_kind_update (\<lambda>_. kind)) attr)
         else (EINVAL, attr))
      else (EINVAL, attr))"

definition pthread_mutexattr_getkind_np :: "pthread_mutexattr ref \<Rightarrow> bool \<Rightarrow> rc \<times> int option" where
  "pthread_mutexattr_getkind_np attr out = pthread_mutexattr_gettype attr out"

definition pthread_mutexattr_setkind_np ::
  "pthread_mutexattr ref \<Rightarrow> int \<Rightarrow> rc \<times> pthread_mutexattr ref" where
  "pthread_mutexattr_setkind_np attr kind = pthread_mutexattr_settype attr kind"

definition pthread_mutexattr_getrobust :: "pthread_mutexattr ref \<Rightarrow> bool \<Rightarrow> rc \<times> int option" where
  "pthread_mutexattr_getrobust attr out =
     (if live_ref attr \<and> out then (OK, map_option ma_robustness (deref attr)) else (EINVAL, None))"

definition pthread_mutexattr_setrobust ::
  "pthread_mutexattr ref \<Rightarrow> int \<Rightarrow> rc \<times> pthread_mutexattr ref" where
  "pthread_mutexattr_setrobust attr robust =
     (if live_ref attr \<and> (robust = PTHREAD_MUTEX_STALLED \<or> robust = PTHREAD_MUTEX_ROBUST)
      then (OK, upd_ref (ma_robustness_update (\<lambda>_. robust)) attr)
      else (EINVAL, attr))"

text \<open>
  The \<open>setpshared\<close> functions test \<open>!defined(_POSIX_THREAD_PROCESS_SHARED)\<close>. The
  macro is defined (to -1), so the branch that would return \<open>ENOSYS\<close> is not compiled and
  \<open>PTHREAD_PROCESS_SHARED\<close> is stored.
\<close>

definition pthread_mutexattr_destroy :: "pthread_mutexattr ref \<Rightarrow> rc \<times> pthread_mutexattr ref" where
  "pthread_mutexattr_destroy attr =
     (if \<not> live_ref attr then (EINVAL, attr) else (OK, Cell None))"

definition pthread_mutexattr_getpshared :: "pthread_mutexattr ref \<Rightarrow> bool \<Rightarrow> rc \<times> int option" where
  "pthread_mutexattr_getpshared attr out =
     (if live_ref attr \<and> out then (OK, map_option ma_pshared (deref attr)) else (EINVAL, None))"

definition pthread_mutexattr_setpshared ::
  "pthread_mutexattr ref \<Rightarrow> int \<Rightarrow> rc \<times> pthread_mutexattr ref" where
  "pthread_mutexattr_setpshared attr pshared =
     (if live_ref attr \<and>
         (pshared = PTHREAD_PROCESS_SHARED \<or> pshared = PTHREAD_PROCESS_PRIVATE)
      then (if pshared = PTHREAD_PROCESS_SHARED
            then (OK, upd_ref (ma_pshared_update (\<lambda>_. pshared)) attr)
            else (OK, upd_ref (ma_pshared_update (\<lambda>_. pshared)) attr))
      else (EINVAL, attr))"


subsection \<open>Condition variable attributes\<close>

record pthread_condattr =
  ca_pshared :: int

definition pthread_condattr_init ::
  "bool \<Rightarrow> pthread_condattr ref \<Rightarrow> (rc \<times> pthread_condattr ref) option" where
  "pthread_condattr_init mem attr =
     (case attr of
        NullRef \<Rightarrow> None
      | Cell _ \<Rightarrow> Some
          (if \<not> mem then (ENOMEM, Cell None)
           else (OK, Cell (Some \<lparr>ca_pshared = PTHREAD_PROCESS_PRIVATE\<rparr>))))"

definition pthread_condattr_destroy :: "pthread_condattr ref \<Rightarrow> rc \<times> pthread_condattr ref" where
  "pthread_condattr_destroy attr =
     (if \<not> live_ref attr then (EINVAL, attr) else (OK, Cell None))"

definition pthread_condattr_getpshared :: "pthread_condattr ref \<Rightarrow> bool \<Rightarrow> rc \<times> int option" where
  "pthread_condattr_getpshared attr out =
     (if live_ref attr \<and> out then (OK, map_option ca_pshared (deref attr)) else (EINVAL, None))"

definition pthread_condattr_setpshared ::
  "pthread_condattr ref \<Rightarrow> int \<Rightarrow> rc \<times> pthread_condattr ref" where
  "pthread_condattr_setpshared attr pshared =
     (if live_ref attr \<and>
         (pshared = PTHREAD_PROCESS_SHARED \<or> pshared = PTHREAD_PROCESS_PRIVATE)
      then (if pshared = PTHREAD_PROCESS_SHARED
            then (OK, upd_ref (ca_pshared_update (\<lambda>_. pshared)) attr)
            else (OK, upd_ref (ca_pshared_update (\<lambda>_. pshared)) attr))
      else (EINVAL, attr))"


subsection \<open>Read-write lock attributes\<close>

record pthread_rwlockattr =
  rwa_pshared :: int

definition pthread_rwlockattr_init ::
  "bool \<Rightarrow> pthread_rwlockattr ref \<Rightarrow> (rc \<times> pthread_rwlockattr ref) option" where
  "pthread_rwlockattr_init mem attr =
     (case attr of
        NullRef \<Rightarrow> None
      | Cell _ \<Rightarrow> Some
          (if \<not> mem then (ENOMEM, Cell None)
           else (OK, Cell (Some \<lparr>rwa_pshared = PTHREAD_PROCESS_PRIVATE\<rparr>))))"

definition pthread_rwlockattr_destroy :: "pthread_rwlockattr ref \<Rightarrow> rc \<times> pthread_rwlockattr ref" where
  "pthread_rwlockattr_destroy attr =
     (if \<not> live_ref attr then (EINVAL, attr) else (OK, Cell None))"

definition pthread_rwlockattr_getpshared :: "pthread_rwlockattr ref \<Rightarrow> bool \<Rightarrow> rc \<times> int option" where
  "pthread_rwlockattr_getpshared attr out =
     (if live_ref attr \<and> out then (OK, map_option rwa_pshared (deref attr)) else (EINVAL, None))"

definition pthread_rwlockattr_setpshared ::
  "pthread_rwlockattr ref \<Rightarrow> int \<Rightarrow> rc \<times> pthread_rwlockattr ref" where
  "pthread_rwlockattr_setpshared attr pshared =
     (if live_ref attr \<and>
         (pshared = PTHREAD_PROCESS_SHARED \<or> pshared = PTHREAD_PROCESS_PRIVATE)
      then (if pshared = PTHREAD_PROCESS_SHARED
            then (OK, upd_ref (rwa_pshared_update (\<lambda>_. pshared)) attr)
            else (OK, upd_ref (rwa_pshared_update (\<lambda>_. pshared)) attr))
      else (EINVAL, attr))"


subsection \<open>Barrier attributes\<close>

record pthread_barrierattr =
  ba_pshared :: int

definition pthread_barrierattr_init ::
  "bool \<Rightarrow> pthread_barrierattr ref \<Rightarrow> (rc \<times> pthread_barrierattr ref) option" where
  "pthread_barrierattr_init mem attr =
     (case attr of
        NullRef \<Rightarrow> None
      | Cell _ \<Rightarrow> Some
          (if \<not> mem then (ENOMEM, Cell None)
           else (OK, Cell (Some \<lparr>ba_pshared = PTHREAD_PROCESS_PRIVATE\<rparr>))))"

definition pthread_barrierattr_destroy :: "pthread_barrierattr ref \<Rightarrow> rc \<times> pthread_barrierattr ref" where
  "pthread_barrierattr_destroy attr =
     (if \<not> live_ref attr then (EINVAL, attr) else (OK, Cell None))"

definition pthread_barrierattr_getpshared :: "pthread_barrierattr ref \<Rightarrow> bool \<Rightarrow> rc \<times> int option" where
  "pthread_barrierattr_getpshared attr out =
     (if live_ref attr \<and> out then (OK, map_option ba_pshared (deref attr)) else (EINVAL, None))"

definition pthread_barrierattr_setpshared ::
  "pthread_barrierattr ref \<Rightarrow> int \<Rightarrow> rc \<times> pthread_barrierattr ref" where
  "pthread_barrierattr_setpshared attr pshared =
     (if live_ref attr \<and>
         (pshared = PTHREAD_PROCESS_SHARED \<or> pshared = PTHREAD_PROCESS_PRIVATE)
      then (if pshared = PTHREAD_PROCESS_SHARED
            then (OK, upd_ref (ba_pshared_update (\<lambda>_. pshared)) attr)
            else (OK, upd_ref (ba_pshared_update (\<lambda>_. pshared)) attr))
      else (EINVAL, attr))"

subsection \<open>One field of an object written by several setters\<close>

text \<open>
  The contract of an attribute field: an operation either writes a value to it
  (\<open>effect\<close> is \<open>Some\<close>) or leaves it alone. Then a reader sees the last value
  written.
\<close>

definition last_or :: "'a \<Rightarrow> 'a list \<Rightarrow> 'a" where
  "last_or d xs = (if xs = [] then d else last xs)"

lemma last_or_simps [simp]:
  "last_or d [] = d"
  "last_or d (x # xs) = last_or x xs"
  by (auto simp: last_or_def)

locale attr_field =
  fixes ok :: "'s \<Rightarrow> bool"
    and step :: "'op \<Rightarrow> 's \<Rightarrow> 's"
    and get :: "'s \<Rightarrow> 'v"
    and effect :: "'op \<Rightarrow> 'v option"
  assumes ok_step: "ok s \<Longrightarrow> ok (step op s)"
    and get_written: "ok s \<Longrightarrow> effect op = Some v \<Longrightarrow> get (step op s) = v"
    and get_kept: "ok s \<Longrightarrow> effect op = None \<Longrightarrow> get (step op s) = get s"
begin

lemma ok_run: "ok s \<Longrightarrow> ok (fold step ops s)"
  by (induction ops arbitrary: s) (auto intro: ok_step)

lemma last_write_wins:
  "ok s \<Longrightarrow> get (fold step ops s) = last_or (get s) (List.map_filter effect ops)"
proof (induction ops arbitrary: s)
  case Nil
  then show ?case by (simp add: map_filter_simps)
next
  case (Cons op ops)
  then have IH: "get (fold step ops (step op s)) =
      last_or (get (step op s)) (List.map_filter effect ops)"
    by (blast intro: ok_step)
  show ?case
    using IH Cons.prems
    by (cases "effect op") (simp_all add: map_filter_simps get_written get_kept)
qed

end

subsection \<open>Histories of a mutex attribute object\<close>

datatype mutexattr_op = SetType int | SetRobust int | SetPshared int

fun mutexattr_step :: "mutexattr_op \<Rightarrow> pthread_mutexattr ref \<Rightarrow> pthread_mutexattr ref" where
  "mutexattr_step (SetType k) r = snd (pthread_mutexattr_settype r k)"
| "mutexattr_step (SetRobust b) r = snd (pthread_mutexattr_setrobust r b)"
| "mutexattr_step (SetPshared p) r = snd (pthread_mutexattr_setpshared r p)"

fun type_effect :: "mutexattr_op \<Rightarrow> int option" where
  "type_effect (SetType k) = (if k \<in> {0, 1, 2} then Some k else None)"
| "type_effect _ = None"

fun robust_effect :: "mutexattr_op \<Rightarrow> int option" where
  "robust_effect (SetRobust b) = (if b \<in> {0, 1} then Some b else None)"
| "robust_effect _ = None"

fun pshared_effect :: "mutexattr_op \<Rightarrow> int option" where
  "pshared_effect (SetPshared p) = (if p \<in> {0, 1} then Some p else None)"
| "pshared_effect _ = None"

lemmas mutexattr_defs =
  pthread_mutexattr_init_def pthread_mutexattr_gettype_def pthread_mutexattr_settype_def
  pthread_mutexattr_getrobust_def pthread_mutexattr_setrobust_def
  pthread_mutexattr_getpshared_def pthread_mutexattr_setpshared_def

lemma mutexattr_step_live: "live_ref r \<Longrightarrow> live_ref (mutexattr_step op r)"
  by (cases op; cases r) (auto simp: mutexattr_defs)

interpretation ma_type: attr_field live_ref mutexattr_step
  "\<lambda>r. pthread_mutexattr_gettype r True" "\<lambda>op. map_option (\<lambda>v. (OK, Some v)) (type_effect op)"
proof (unfold_locales, goal_cases)
  case (1 s op) then show ?case by (rule mutexattr_step_live)
next
  case (2 s op v) then show ?case
    by (cases op) (auto simp: mutexattr_defs split: if_splits)
next
  case (3 s op) then show ?case
    by (cases op) (auto simp: mutexattr_defs split: if_splits)
qed

interpretation ma_robust: attr_field live_ref mutexattr_step
  "\<lambda>r. pthread_mutexattr_getrobust r True" "\<lambda>op. map_option (\<lambda>v. (OK, Some v)) (robust_effect op)"
proof (unfold_locales, goal_cases)
  case (1 s op) then show ?case by (rule mutexattr_step_live)
next
  case (2 s op v) then show ?case
    by (cases op) (auto simp: mutexattr_defs split: if_splits)
next
  case (3 s op) then show ?case
    by (cases op) (auto simp: mutexattr_defs split: if_splits)
qed

interpretation ma_pshared: attr_field live_ref mutexattr_step
  "\<lambda>r. pthread_mutexattr_getpshared r True" "\<lambda>op. map_option (\<lambda>v. (OK, Some v)) (pshared_effect op)"
proof (unfold_locales, goal_cases)
  case (1 s op) then show ?case by (rule mutexattr_step_live)
next
  case (2 s op v) then show ?case
    by (cases op) (auto simp: mutexattr_defs split: if_splits)
next
  case (3 s op) then show ?case
    by (cases op) (auto simp: mutexattr_defs split: if_splits)
qed

lemma map_filter_map_option:
  "List.map_filter (\<lambda>x. map_option f (g x)) xs = map f (List.map_filter g xs)"
  by (induction xs) (auto simp: map_filter_simps split: option.splits)

lemma last_or_map: "last_or (f d) (map f xs) = f (last_or d xs)"
  by (auto simp: last_or_def last_map)

text \<open>
  C28: on an initialised mutex attribute object, after any sequence of calls of
  the three setters (with any arguments, valid or not) each getter succeeds and returns
  the last value its own setter accepted, or the default if it accepted none; rejected
  values and the other setters have no influence.
\<close>

theorem mutexattr_last_write_wins:
  assumes init: "pthread_mutexattr_init True (Cell c) = Some (OK, r)"
  assumes run: "r' = fold mutexattr_step ops r"
  shows "pthread_mutexattr_gettype r' True =
           (OK, Some (last_or PTHREAD_MUTEX_DEFAULT (List.map_filter type_effect ops))) \<and>
         pthread_mutexattr_getrobust r' True =
           (OK, Some (last_or PTHREAD_MUTEX_STALLED (List.map_filter robust_effect ops))) \<and>
         pthread_mutexattr_getpshared r' True =
           (OK, Some (last_or PTHREAD_PROCESS_PRIVATE (List.map_filter pshared_effect ops)))"
proof -
  have r: "r = Cell (Some \<lparr>ma_pshared = 0, ma_kind = 0, ma_robustness = 0\<rparr>)"
    using init by (simp add: pthread_mutexattr_init_def)
  then have live: "live_ref r" by simp
  show ?thesis
    unfolding run
      ma_type.last_write_wins [OF live] ma_robust.last_write_wins [OF live]
      ma_pshared.last_write_wins [OF live]
    by (simp add: r mutexattr_defs map_filter_map_option
        last_or_map [where f = "\<lambda>v. (OK, Some v)"])
qed

theorem mutexattr_last_write_wins_witness:
  "pthread_mutexattr_gettype
     (fold mutexattr_step [SetType 1, SetPshared 1, SetType 7, SetRobust 1]
        (Cell (Some \<lparr>ma_pshared = 0, ma_kind = 0, ma_robustness = 0\<rparr>))) True = (OK, Some 1)"
  using mutexattr_last_write_wins
    [of "None" "Cell (Some \<lparr>ma_pshared = 0, ma_kind = 0, ma_robustness = 0\<rparr>)", OF _ refl,
      where ops = "[SetType 1, SetPshared 1, SetType 7, SetRobust 1]"]
  by (simp add: pthread_mutexattr_init_def map_filter_simps)


subsection \<open>Histories of a thread attribute object\<close>

datatype attr_op =
    SetDetach int | SetInherit int | SetPriority "int option" | SetScope int
  | SetStackAddr u64 | SetStackSize u64

text \<open>An operation that would dereference NULL leaves the argument as it is here.\<close>

fun attr_step :: "int \<Rightarrow> int \<Rightarrow> attr_op \<Rightarrow> pthread_attr ref \<Rightarrow> pthread_attr ref" where
  "attr_step idle crit (SetDetach v) r = snd (pthread_attr_setdetachstate r v)"
| "attr_step idle crit (SetInherit v) r = snd (pthread_attr_setinheritsched r v)"
| "attr_step idle crit (SetPriority p) r = snd (pthread_attr_setschedparam idle crit r p)"
| "attr_step idle crit (SetScope v) r =
     (case pthread_attr_setscope r v of None \<Rightarrow> r | Some res \<Rightarrow> snd res)"
| "attr_step idle crit (SetStackAddr a) r = snd (pthread_attr_setstackaddr r a)"
| "attr_step idle crit (SetStackSize n) r = snd (pthread_attr_setstacksize r n)"

fun detach_effect :: "attr_op \<Rightarrow> int option" where
  "detach_effect (SetDetach v) = (if v \<in> {0, 1} then Some v else None)"
| "detach_effect _ = None"

fun inherit_effect :: "attr_op \<Rightarrow> int option" where
  "inherit_effect (SetInherit v) = (if v \<in> {0, 1} then Some v else None)"
| "inherit_effect _ = None"

fun priority_effect :: "int \<Rightarrow> int \<Rightarrow> attr_op \<Rightarrow> int option" where
  "priority_effect idle crit (SetPriority (Some p)) =
     (if min idle crit \<le> p \<and> p \<le> max idle crit then Some p else None)"
| "priority_effect idle crit _ = None"

definition attr_ok :: "pthread_attr ref \<Rightarrow> bool" where
  "attr_ok r \<longleftrightarrow> \<not> ptw32_is_attr r"

lemma attr_okE:
  assumes "attr_ok r"
  obtains a where "r = Cell (Some a)" and "a_valid a = PTW32_ATTR_VALID"
  using assms by (auto simp: attr_ok_def ptw32_is_attr_def split: ref.splits option.splits)

lemmas attr_defs =
  pthread_attr_setdetachstate_def pthread_attr_setinheritsched_def
  pthread_attr_setschedparam_def pthread_attr_setscope_def pthread_attr_setstackaddr_def
  pthread_attr_setstacksize_def pthread_attr_getdetachstate_def
  pthread_attr_getinheritsched_def pthread_attr_getschedparam_def
  sched_get_priority_min_def sched_get_priority_max_def PTW32_MIN_def PTW32_MAX_def
  ptw32_is_attr_def

lemma attr_step_ok: "attr_ok r \<Longrightarrow> attr_ok (attr_step idle crit op r)"
  by (cases op) (auto simp: attr_ok_def attr_defs split: ref.splits option.splits)

interpretation at_detach: attr_field attr_ok "attr_step idle crit"
  "\<lambda>r. pthread_attr_getdetachstate r True"
  "\<lambda>op. map_option (\<lambda>v. (OK, Some v)) (detach_effect op)" for idle crit
proof (unfold_locales, goal_cases)
  case (1 s op) then show ?case by (rule attr_step_ok)
next
  case (2 s op v) then show ?case
    by (cases op) (auto simp: attr_defs elim!: attr_okE split: if_splits)
next
  case (3 s op) then show ?case
    by (cases op) (auto simp: attr_defs elim!: attr_okE split: if_splits option.splits)
qed

interpretation at_inherit: attr_field attr_ok "attr_step idle crit"
  "\<lambda>r. pthread_attr_getinheritsched r True"
  "\<lambda>op. map_option (\<lambda>v. (OK, Some v)) (inherit_effect op)" for idle crit
proof (unfold_locales, goal_cases)
  case (1 s op) then show ?case by (rule attr_step_ok)
next
  case (2 s op v) then show ?case
    by (cases op) (auto simp: attr_defs elim!: attr_okE split: if_splits)
next
  case (3 s op) then show ?case
    by (cases op) (auto simp: attr_defs elim!: attr_okE split: if_splits option.splits)
qed

interpretation at_priority: attr_field attr_ok "attr_step idle crit"
  "\<lambda>r. pthread_attr_getschedparam r True"
  "\<lambda>op. map_option (\<lambda>v. (OK, Some v)) (priority_effect idle crit op)" for idle crit
proof (unfold_locales, goal_cases)
  case (1 s op) then show ?case by (rule attr_step_ok)
next
  case (2 s op v) then show ?case
    by (cases op)
      (auto simp: attr_defs elim!: attr_okE priority_effect.elims split: if_splits option.splits)
next
  case (3 s op) then show ?case
    by (cases op)
      (auto simp: attr_defs elim!: attr_okE priority_effect.elims split: if_splits option.splits)
qed

text \<open>
  On an initialised thread attribute object, after any sequence of setter calls
  the detach state, the inheritance flag and the priority read back are the last
  accepted ones; a priority is accepted exactly when it lies between the two Windows
  bounds, whichever of them is the larger.
\<close>

lemma attr_last_write_wins:
  assumes init: "pthread_attr_init prio True (Cell c) = (OK, r)"
  assumes run: "r' = fold (attr_step idle crit) ops r"
  shows "pthread_attr_getdetachstate r' True =
           (OK, Some (last_or PTHREAD_CREATE_JOINABLE (List.map_filter detach_effect ops))) \<and>
         pthread_attr_getinheritsched r' True =
           (OK, Some (last_or PTHREAD_EXPLICIT_SCHED (List.map_filter inherit_effect ops))) \<and>
         pthread_attr_getschedparam r' True =
           (OK, Some (last_or prio (List.map_filter (priority_effect idle crit) ops)))"
proof -
  have ok: "attr_ok r"
    using init by (auto simp: pthread_attr_init_def attr_ok_def ptw32_is_attr_def)
  have fields: "pthread_attr_getdetachstate r True = (OK, Some 0)"
      "pthread_attr_getinheritsched r True = (OK, Some 1)"
      "pthread_attr_getschedparam r True = (OK, Some prio)"
    using init by (auto simp: pthread_attr_init_def attr_defs)
  show ?thesis
    unfolding run
      at_detach.last_write_wins [OF ok] at_inherit.last_write_wins [OF ok]
      at_priority.last_write_wins [OF ok] fields
    by (simp add: map_filter_map_option last_or_map [where f = "\<lambda>v. (OK, Some v)"])
qed

end
