(* ===== verification/PT_Mutex.thy ===== *)
theory PT_Mutex
  imports PT_Attr
begin

text \<open>
  The non-robust mutexes of pthreads-win32 (\<open>pthread_mutex_init.c\<close>,
  \<open>pthread_mutex_lock.c\<close>, \<open>pthread_mutex_timedlock.c\<close>, \<open>pthread_mutex_trylock.c\<close>,
  \<open>pthread_mutex_unlock.c\<close>, \<open>ptw32_mutex_check_need_init.c\<close>). Each operation is a
  program counter machine whose steps are the interlocked operations, waits, and
  reads and writes of shared fields of the C code; the threads of a process interleave
  these steps freely. Ghost field \<open>depth\<close> counts, per thread, the acquisitions that
  have returned success and have not been released.
\<close>

subsection \<open>The mutex object\<close>

type_synonym tid = nat

record mutex =
  lock_idx :: int
  recursive_count :: int
  kind :: int
  owner :: "tid option"
  event :: bool

text \<open>
  \<open>event\<close> is the state of the auto-reset Win32 event, \<open>owner\<close> is \<open>None\<close> for
  \<open>ownerThread.p == NULL\<close>. The C code keeps \<open>recursive_count\<close> in an \<open>int\<close> and does not
  check it: the model is the code as long as fewer than \<open>2 ^ 31\<close> levels are held
  (\<open>reachable_in_range\<close>). The three static initialisers are distinguished pointer values.
\<close>

datatype 'm mutex_ref =
    MutexNull
  | MutexInitializer | RecursiveMutexInitializer | ErrorcheckMutexInitializer
  | MutexObj 'm

definition new_mutex :: "int \<Rightarrow> mutex" where
  "new_mutex k = \<lparr>lock_idx = 0, recursive_count = 0, kind = k, owner = None, event = False\<rparr>"

text \<open>
  \<open>pthread_mutex_init\<close>: \<open>mem\<close> and \<open>ev\<close> are the outcomes of \<open>calloc\<close> and
  \<open>CreateEvent\<close>. A robust kind is stored as \<open>-kind - 1\<close>. The process-shared test
  happens before anything is written.
\<close>

definition pthread_mutex_init ::
  "bool \<Rightarrow> bool \<Rightarrow> mutex mutex_ref option \<Rightarrow> pthread_mutexattr ref \<Rightarrow>
   rc \<times> mutex mutex_ref option" where
  "pthread_mutex_init mem ev mutex attr =
     (case mutex of
        None \<Rightarrow> (EINVAL, mutex)
      | Some _ \<Rightarrow>
          (case deref attr of
             Some a \<Rightarrow>
               if ma_pshared a = PTHREAD_PROCESS_SHARED then (ENOSYS, mutex)
               else if \<not> mem then (ENOMEM, Some MutexNull)
               else if \<not> ev then (ENOSPC, Some MutexNull)
               else (OK, Some (MutexObj (new_mutex
                      (if ma_robustness a = PTHREAD_MUTEX_ROBUST
                       then - ma_kind a - 1 else ma_kind a))))
           | None \<Rightarrow>
               if \<not> mem then (ENOMEM, Some MutexNull)
               else if \<not> ev then (ENOSPC, Some MutexNull)
               else (OK, Some (MutexObj (new_mutex PTHREAD_MUTEX_DEFAULT)))))"

text \<open>
  \<open>ptw32_mutex_check_need_init\<close> runs under the global lock
  \<open>ptw32_mutex_test_init_lock\<close>, so it is one step.
\<close>

definition static_mutexattr :: "int \<Rightarrow> pthread_mutexattr ref" where
  "static_mutexattr k =
     Cell (Some \<lparr>ma_pshared = PTHREAD_PROCESS_PRIVATE, ma_kind = k, ma_robustness = 0\<rparr>)"

definition ptw32_mutex_check_need_init ::
  "bool \<Rightarrow> bool \<Rightarrow> mutex mutex_ref \<Rightarrow> rc \<times> mutex mutex_ref" where
  "ptw32_mutex_check_need_init mem ev mutex =
     (let via = (\<lambda>attr. case pthread_mutex_init mem ev (Some mutex) attr of
                   (r, m') \<Rightarrow> (r, the m'))
      in case mutex of
           MutexInitializer \<Rightarrow> via NullRef
         | RecursiveMutexInitializer \<Rightarrow> via (static_mutexattr PTHREAD_MUTEX_RECURSIVE)
         | ErrorcheckMutexInitializer \<Rightarrow> via (static_mutexattr PTHREAD_MUTEX_ERRORCHECK)
         | MutexNull \<Rightarrow> (EINVAL, mutex)
         | MutexObj _ \<Rightarrow> (OK, mutex))"

text \<open>
  The prologue of \<open>pthread_mutex_lock\<close>: a NULL handle is refused, a statically
  initialised one is initialised first.
\<close>

definition mutex_lock_entry ::
  "bool \<Rightarrow> bool \<Rightarrow> mutex mutex_ref \<Rightarrow> rc \<times> mutex mutex_ref" where
  "mutex_lock_entry mem ev mutex =
     (case mutex of
        MutexNull \<Rightarrow> (EINVAL, mutex)
      | MutexObj _ \<Rightarrow> (OK, mutex)
      | _ \<Rightarrow> ptw32_mutex_check_need_init mem ev mutex)"

subsection \<open>Waiting with a timeout\<close>

definition INFINITE :: u32 where
  "INFINITE = 0xFFFFFFFF"

text \<open>
  \<open>ptw32_relmillisecs\<close>: the absolute time in milliseconds (rounded to nearest), less the
  current time \<open>now\<close> in milliseconds, in \<open>int64_t\<close> arithmetic; the difference is cut to a
  32-bit \<open>DWORD\<close>.
\<close>

definition abs_millisecs :: "int \<Rightarrow> int \<Rightarrow> int" where
  "abs_millisecs sec nsec = c_int64 (c_int64 (sec * 1000) + c_div (c_int64 (nsec + 500000)) 1000000)"

definition ptw32_relmillisecs :: "int \<Rightarrow> int \<Rightarrow> int \<Rightarrow> u32" where
  "ptw32_relmillisecs sec nsec now =
     (let tmpAbs = abs_millisecs sec nsec
      in if tmpAbs > now
         then (let milliseconds = word_of_int (c_int64 (tmpAbs - now)) :: u32
               in if milliseconds = INFINITE then milliseconds - 1 else milliseconds)
         else 0)"

datatype wait_status = WaitObject0 | WaitTimeout | WaitFailed

text \<open>
  \<open>ptw32_timed_eventwait\<close>: \<open>has_event\<close> tells whether the handle is not NULL, \<open>abstime\<close> is the
  deadline if there is one, \<open>wait\<close> is \<open>WaitForSingleObject\<close> on the event, as a function of the
  timeout. \<open>eventwait_result\<close> is how its status is reported.
\<close>

fun eventwait_result :: "wait_status \<Rightarrow> rc" where
  "eventwait_result WaitObject0 = OK"
| "eventwait_result WaitTimeout = ETIMEDOUT"
| "eventwait_result WaitFailed = EINVAL"

definition ptw32_timed_eventwait ::
  "bool \<Rightarrow> (int \<times> int) option \<Rightarrow> int \<Rightarrow> (u32 \<Rightarrow> wait_status) \<Rightarrow> rc" where
  "ptw32_timed_eventwait has_event abstime now wait =
     (if \<not> has_event then EINVAL
      else (let milliseconds = (case abstime of None \<Rightarrow> INFINITE
                                | Some (sec, nsec) \<Rightarrow> ptw32_relmillisecs sec nsec now)
            in eventwait_result (wait milliseconds)))"

subsection \<open>The operations as step machines\<close>

datatype lock_pc = LkEnter | LkCompare | LkExchange | LkWait | LkCount | LkOwner
datatype try_pc = TrEnter | TrCount | TrOwner | TrCompare
datatype un_pc = UnEnter | UnCount | UnClear | UnExchange | UnSignal

text \<open>What the environment decides in a step: the outcome of a wait or of \<open>SetEvent\<close>.\<close>

datatype choice = Go | Wait wait_status | SetEventFails

datatype 'pc outcome = Next 'pc | Return rc

text \<open>
  \<open>pthread_mutex_lock\<close> and, with \<open>timed\<close>, \<open>pthread_mutex_timedlock\<close>, for
  \<open>kind >= 0\<close>. \<open>None\<close>: the step is not possible (a wait on an event that is not set
  does not return \<open>WAIT_OBJECT_0\<close>, an untimed wait does not time out).
\<close>

fun lock_step ::
  "bool \<Rightarrow> tid \<Rightarrow> choice \<Rightarrow> lock_pc \<Rightarrow> mutex \<Rightarrow> (mutex \<times> lock_pc outcome) option" where
  "lock_step timed self c LkEnter m =
     (if c \<noteq> Go then None
      else if kind m = PTHREAD_MUTEX_NORMAL then
        Some (m\<lparr>lock_idx := 1\<rparr>, if lock_idx m \<noteq> 0 then Next LkExchange else Return OK)
      else if lock_idx m = 0 then Some (m\<lparr>lock_idx := 1\<rparr>, Next LkCount)
      else Some (m, Next LkCompare))"
| "lock_step timed self c LkCompare m =
     (if c \<noteq> Go then None
      else if owner m = Some self then
        (if kind m = PTHREAD_MUTEX_RECURSIVE
         then Some (m\<lparr>recursive_count := recursive_count m + 1\<rparr>, Return OK)
         else Some (m, Return EDEADLK))
      else Some (m, Next LkExchange))"
| "lock_step timed self c LkExchange m =
     (if c \<noteq> Go then None
      else Some (m\<lparr>lock_idx := -1\<rparr>,
        if lock_idx m \<noteq> 0 then Next LkWait
        else if kind m = PTHREAD_MUTEX_NORMAL then Return OK else Next LkCount))"
| "lock_step timed self c LkWait m =
     (case c of
        Wait WaitObject0 \<Rightarrow> if event m then Some (m\<lparr>event := False\<rparr>, Next LkExchange) else None
      | Wait WaitTimeout \<Rightarrow>
          if timed then Some (m, Return (eventwait_result WaitTimeout)) else None
      | Wait WaitFailed \<Rightarrow> Some (m, Return EINVAL)
      | _ \<Rightarrow> None)"
| "lock_step timed self c LkCount m =
     (if c \<noteq> Go then None else Some (m\<lparr>recursive_count := 1\<rparr>, Next LkOwner))"
| "lock_step timed self c LkOwner m =
     (if c \<noteq> Go then None else Some (m\<lparr>owner := Some self\<rparr>, Return OK))"

text \<open>
  \<open>pthread_mutex_timedlock\<close> has the same steps; its wait goes through
  \<open>ptw32_timed_eventwait\<close> and may time out.
\<close>

definition timedlock_step ::
  "tid \<Rightarrow> choice \<Rightarrow> lock_pc \<Rightarrow> mutex \<Rightarrow> (mutex \<times> lock_pc outcome) option" where
  "timedlock_step = lock_step True"

text \<open>\<open>pthread_mutex_trylock\<close>.\<close>

fun trylock_step ::
  "tid \<Rightarrow> choice \<Rightarrow> try_pc \<Rightarrow> mutex \<Rightarrow> (mutex \<times> try_pc outcome) option" where
  "trylock_step self c TrEnter m =
     (if c \<noteq> Go then None
      else if lock_idx m = 0 then
        Some (m\<lparr>lock_idx := 1\<rparr>,
          if kind m \<noteq> PTHREAD_MUTEX_NORMAL then Next TrCount else Return OK)
      else Some (m, Next TrCompare))"
| "trylock_step self c TrCount m =
     (if c \<noteq> Go then None else Some (m\<lparr>recursive_count := 1\<rparr>, Next TrOwner))"
| "trylock_step self c TrOwner m =
     (if c \<noteq> Go then None else Some (m\<lparr>owner := Some self\<rparr>, Return OK))"
| "trylock_step self c TrCompare m =
     (if c \<noteq> Go then None
      else if kind m = PTHREAD_MUTEX_RECURSIVE \<and> owner m = Some self
      then Some (m\<lparr>recursive_count := recursive_count m + 1\<rparr>, Return OK)
      else Some (m, Return EBUSY))"

text \<open>\<open>pthread_mutex_unlock\<close>.\<close>

fun unlock_step ::
  "tid \<Rightarrow> choice \<Rightarrow> un_pc \<Rightarrow> mutex \<Rightarrow> (mutex \<times> un_pc outcome) option" where
  "unlock_step self c UnEnter m =
     (if c \<noteq> Go then None
      else if kind m = PTHREAD_MUTEX_NORMAL then
        Some (m\<lparr>lock_idx := 0\<rparr>, if lock_idx m < 0 then Next UnSignal else Return OK)
      else if owner m = Some self then Some (m, Next UnCount)
      else Some (m, Return EPERM))"
| "unlock_step self c UnCount m =
     (if c \<noteq> Go then None
      else if kind m \<noteq> PTHREAD_MUTEX_RECURSIVE then Some (m, Next UnClear)
      else Some (m\<lparr>recursive_count := recursive_count m - 1\<rparr>,
             if recursive_count m - 1 = 0 then Next UnClear else Return OK))"
| "unlock_step self c UnClear m =
     (if c \<noteq> Go then None else Some (m\<lparr>owner := None\<rparr>, Next UnExchange))"
| "unlock_step self c UnExchange m =
     (if c \<noteq> Go then None
      else Some (m\<lparr>lock_idx := 0\<rparr>, if lock_idx m < 0 then Next UnSignal else Return OK))"
| "unlock_step self c UnSignal m =
     (case c of
        Go \<Rightarrow> Some (m\<lparr>event := True\<rparr>, Return OK)
      | SetEventFails \<Rightarrow> Some (m, Return EINVAL)
      | _ \<Rightarrow> None)"

subsection \<open>Threads sharing one mutex\<close>

datatype pc = Idle | InLock bool lock_pc | InTry try_pc | InUnlock un_pc

record sys =
  mx :: mutex
  pcs :: "tid \<Rightarrow> pc"
  depth :: "tid \<Rightarrow> nat"
  result :: "tid \<Rightarrow> rc option"

definition init_sys :: "int \<Rightarrow> sys" where
  "init_sys k = \<lparr>mx = new_mutex k, pcs = (\<lambda>_. Idle), depth = (\<lambda>_. 0),
                 result = (\<lambda>_. None)\<rparr>"

datatype action = CallLock bool | CallTry | CallUnlock | Internal choice

fun next_pc :: "('p \<Rightarrow> pc) \<Rightarrow> 'p outcome \<Rightarrow> pc" where
  "next_pc f (Next p) = f p"
| "next_pc f (Return r) = Idle"

fun next_result :: "'p outcome \<Rightarrow> rc option" where
  "next_result (Next p) = None"
| "next_result (Return r) = Some r"

text \<open>
  An acquisition counts when the operation returns success, a release in the step that
  gives the level up: the exchange of a normal mutex, the decrement of the others.
\<close>

definition acquired :: "'p outcome \<Rightarrow> nat \<Rightarrow> nat" where
  "acquired r d = (if r = Return OK then Suc d else d)"

definition released :: "mutex \<Rightarrow> un_pc \<Rightarrow> nat \<Rightarrow> nat" where
  "released m p d =
     (if p = UnEnter \<and> kind m = PTHREAD_MUTEX_NORMAL \<or> p = UnCount then d - 1 else d)"

fun thread_step :: "tid \<Rightarrow> action \<Rightarrow> sys \<Rightarrow> sys option" where
  "thread_step t (CallLock timed) s =
     (if pcs s t = Idle then Some (s\<lparr>pcs := (pcs s)(t := InLock timed LkEnter)\<rparr>) else None)"
| "thread_step t CallTry s =
     (if pcs s t = Idle then Some (s\<lparr>pcs := (pcs s)(t := InTry TrEnter)\<rparr>) else None)"
| "thread_step t CallUnlock s =
     (if pcs s t = Idle then Some (s\<lparr>pcs := (pcs s)(t := InUnlock UnEnter)\<rparr>) else None)"
| "thread_step t (Internal c) s =
     (case pcs s t of
        Idle \<Rightarrow> None
      | InLock timed p \<Rightarrow>
          map_option (\<lambda>(m, r). s\<lparr>mx := m, pcs := (pcs s)(t := next_pc (InLock timed) r),
                                 depth := (depth s)(t := acquired r (depth s t)),
                                 result := (result s)(t := next_result r)\<rparr>)
            (if timed then timedlock_step t c p (mx s) else lock_step False t c p (mx s))
      | InTry p \<Rightarrow>
          map_option (\<lambda>(m, r). s\<lparr>mx := m, pcs := (pcs s)(t := next_pc InTry r),
                                 depth := (depth s)(t := acquired r (depth s t)),
                                 result := (result s)(t := next_result r)\<rparr>)
            (trylock_step t c p (mx s))
      | InUnlock p \<Rightarrow>
          map_option (\<lambda>(m, r). s\<lparr>mx := m, pcs := (pcs s)(t := next_pc InUnlock r),
                                 depth := (depth s)(t := released (mx s) p (depth s t)),
                                 result := (result s)(t := next_result r)\<rparr>)
            (unlock_step t c p (mx s)))"

text \<open>
  A normal mutex records no owner and does not check one, so its clients must not unlock a
  mutex they do not hold; the other kinds need no such discipline. \<open>faulty\<close> tells whether
  \<open>SetEvent\<close> may fail.
\<close>

definition allowed :: "bool \<Rightarrow> tid \<Rightarrow> action \<Rightarrow> sys \<Rightarrow> bool" where
  "allowed faulty t a s \<longleftrightarrow>
     (a = CallUnlock \<and> kind (mx s) = PTHREAD_MUTEX_NORMAL \<longrightarrow> depth s t > 0) \<and>
     (a = Internal SetEventFails \<longrightarrow> faulty)"

inductive reachable :: "bool \<Rightarrow> int \<Rightarrow> sys \<Rightarrow> bool" for faulty k where
  start: "reachable faulty k (init_sys k)"
| step: "reachable faulty k s \<Longrightarrow> allowed faulty t a s \<Longrightarrow> thread_step t a s = Some s' \<Longrightarrow>
     reachable faulty k s'"

text \<open>The runs in which the recursion counter stays an \<open>int\<close> of the C code.\<close>

inductive reachable_in_range :: "bool \<Rightarrow> int \<Rightarrow> sys \<Rightarrow> bool" for faulty k where
  range_start: "reachable_in_range faulty k (init_sys k)"
| range_step: "reachable_in_range faulty k s \<Longrightarrow> allowed faulty t a s \<Longrightarrow> thread_step t a s = Some s' \<Longrightarrow>
     recursive_count (mx s') < 2 ^ 31 \<Longrightarrow> reachable_in_range faulty k s'"

lemma in_range_reachable:
  "reachable_in_range faulty k s \<Longrightarrow> reachable faulty k s \<and> recursive_count (mx s) < 2 ^ 31"
proof (induction rule: reachable_in_range.induct)
  case range_start
  show ?case by (rule conjI [OF reachable.start]) (simp add: init_sys_def new_mutex_def)
next
  case (range_step s t a s')
  then show ?case using reachable.step [of faulty k s t a s'] by blast
qed

lemma lock_dispatch [simp]:
  "(if timed then timedlock_step t c p m else lock_step False t c p m) = lock_step timed t c p m"
  by (cases timed) (simp_all add: timedlock_step_def)

subsection \<open>The mutex invariant\<close>

text \<open>
  The invariant has a part about the shared fields and the thread \<open>h\<close> that holds the
  lock, and a part for each thread \<open>u\<close> with program counter \<open>p\<close> and depth \<open>d\<close>.
  A thread holds the lock with an acquisition it has been told about, or inside an
  operation: between winning the lock and recording itself as the owner, or between giving
  up its last level and freeing the lock.
\<close>

fun pending_hold :: "pc \<Rightarrow> bool" where
  "pending_hold (InLock _ p) = (p = LkCount \<or> p = LkOwner)"
| "pending_hold (InTry p) = (p = TrCount \<or> p = TrOwner)"
| "pending_hold (InUnlock p) = (p = UnClear \<or> p = UnExchange)"
| "pending_hold Idle = False"

fun counted :: "pc \<Rightarrow> bool" where
  "counted (InLock _ p) = (p = LkOwner)"
| "counted (InTry p) = (p = TrOwner)"
| "counted _ = False"

definition shared_ok :: "int \<Rightarrow> tid option \<Rightarrow> mutex \<Rightarrow> bool" where
  "shared_ok k h m \<longleftrightarrow> kind m = k \<and> (lock_idx m = 0 \<longleftrightarrow> h = None) \<and>
     (k \<noteq> 0 \<and> h = None \<longrightarrow> owner m = None)"

definition holder_ok :: "int \<Rightarrow> mutex \<Rightarrow> tid \<Rightarrow> pc \<Rightarrow> nat \<Rightarrow> bool" where
  "holder_ok k m u p d \<longleftrightarrow>
     (if pending_hold p
      then d = 0 \<and> k \<noteq> 0 \<and> owner m = (if p = InUnlock UnClear then Some u else None) \<and>
           (counted p \<longrightarrow> recursive_count m = 1)
      else d > 0 \<and> (k \<noteq> 0 \<longrightarrow> owner m = Some u) \<and>
           (p = InUnlock UnCount \<longrightarrow> k \<noteq> 0) \<and>
           (if k = 1 then recursive_count m = int d else d = 1))"

definition waiter_ok :: "int \<Rightarrow> mutex \<Rightarrow> tid \<Rightarrow> pc \<Rightarrow> nat \<Rightarrow> bool" where
  "waiter_ok k m u p d \<longleftrightarrow>
     d = 0 \<and> \<not> pending_hold p \<and> p \<noteq> InUnlock UnCount \<and>
     (if k = 0 then p \<noteq> InUnlock UnEnter else owner m \<noteq> Some u)"

definition thread_ok :: "int \<Rightarrow> tid option \<Rightarrow> mutex \<Rightarrow> tid \<Rightarrow> pc \<Rightarrow> nat \<Rightarrow> bool" where
  "thread_ok k h m u p d \<longleftrightarrow>
     (if h = Some u then holder_ok k m u p d else waiter_ok k m u p d)"

definition mutex_inv :: "int \<Rightarrow> tid option \<Rightarrow> sys \<Rightarrow> bool" where
  "mutex_inv k h s \<longleftrightarrow>
     shared_ok k h (mx s) \<and> (\<forall>u. thread_ok k h (mx s) u (pcs s u) (depth s u))"

text \<open>The holder after a step of \<open>t\<close>.\<close>

definition next_holder :: "tid \<Rightarrow> mutex \<Rightarrow> mutex \<Rightarrow> tid option \<Rightarrow> tid option" where
  "next_holder t m m' h =
     (if lock_idx m' = 0 then None else if lock_idx m = 0 then Some t else h)"

text \<open>
  What one step of \<open>t\<close> has to establish: the shared part, its own part, and that the
  part of every other thread survives.
\<close>

definition step_ok ::
  "int \<Rightarrow> tid option \<Rightarrow> mutex \<Rightarrow> tid \<Rightarrow> tid option \<Rightarrow> mutex \<Rightarrow> pc \<Rightarrow> nat \<Rightarrow> bool" where
  "step_ok k h m t h' m' p' d' \<longleftrightarrow>
     shared_ok k h' m' \<and> thread_ok k h' m' t p' d' \<and>
     (\<forall>u p d. u \<noteq> t \<longrightarrow> thread_ok k h m u p d \<longrightarrow> thread_ok k h' m' u p d)"

lemma mutex_inv_update:
  assumes "mutex_inv k h s" and "step_ok k h (mx s) t h' m' p' d'"
  shows "mutex_inv k h' (s\<lparr>mx := m', pcs := (pcs s)(t := p'), depth := (depth s)(t := d'), result := res\<rparr>)"
  using assms by (auto simp: mutex_inv_def step_ok_def)

lemma thread_ok_other:
  assumes "thread_ok k h m u p d"
    and "h' = Some u \<longleftrightarrow> h = Some u"
    and "k \<noteq> 0 \<Longrightarrow> owner m' = Some u \<longleftrightarrow> owner m = Some u"
    and "h = Some u \<Longrightarrow> recursive_count m' = recursive_count m \<and> owner m' = owner m"
  shows "thread_ok k h' m' u p d"
proof (cases "h = Some u")
  case True
  then show ?thesis
    using assms by (simp add: thread_ok_def holder_ok_def)
next
  case False
  then show ?thesis
    using assms by (simp add: thread_ok_def waiter_ok_def)
qed

lemma step_okI:
  assumes "shared_ok k h' m'" and "thread_ok k h' m' t p' d'"
    and "\<And>u. u \<noteq> t \<Longrightarrow> h' = Some u \<longleftrightarrow> h = Some u"
    and "\<And>u. u \<noteq> t \<Longrightarrow> k \<noteq> 0 \<Longrightarrow> owner m' = Some u \<longleftrightarrow> owner m = Some u"
    and "\<And>u. u \<noteq> t \<Longrightarrow> h = Some u \<Longrightarrow> recursive_count m' = recursive_count m \<and> owner m' = owner m"
  shows "step_ok k h m t h' m' p' d'"
  unfolding step_ok_def
proof (intro conjI allI impI)
  fix u p d assume "u \<noteq> t" and "thread_ok k h m u p d"
  show "thread_ok k h' m' u p d"
    by (rule thread_ok_other [OF \<open>thread_ok k h m u p d\<close>])
      (use assms(3-5) [OF \<open>u \<noteq> t\<close>] in simp_all)
qed (rule assms(1), rule assms(2))

lemmas mutex_step_defs = shared_ok_def thread_ok_def holder_ok_def waiter_ok_def
  next_holder_def acquired_def released_def

lemma lock_step_ok:
  assumes "shared_ok k h m" and "thread_ok k h m t (InLock timed p) d"
    and "lock_step timed t c p m = Some (m', r)"
  shows "step_ok k h m t (next_holder t m m' h) m' (next_pc (InLock timed) r) (acquired r d)"
proof (cases p)
  case LkEnter
  then show ?thesis using assms
    by (intro step_okI) (auto simp: mutex_step_defs split: if_splits)
next
  case LkCompare
  then show ?thesis using assms
    by (intro step_okI) (auto simp: mutex_step_defs split: if_splits)
next
  case LkExchange
  then show ?thesis using assms
    by (intro step_okI) (auto simp: mutex_step_defs split: if_splits)
next
  case LkWait
  then show ?thesis using assms
    by (intro step_okI)
      (auto simp: mutex_step_defs split: if_splits choice.splits wait_status.splits)
next
  case LkCount
  then show ?thesis using assms
    by (intro step_okI) (auto simp: mutex_step_defs split: if_splits)
next
  case LkOwner
  then show ?thesis using assms
    by (intro step_okI) (auto simp: mutex_step_defs split: if_splits)
qed

lemma trylock_step_ok:
  assumes "shared_ok k h m" and "thread_ok k h m t (InTry p) d"
    and "trylock_step t c p m = Some (m', r)"
  shows "step_ok k h m t (next_holder t m m' h) m' (next_pc InTry r) (acquired r d)"
proof (cases p)
  case TrEnter
  then show ?thesis using assms
    by (intro step_okI) (auto simp: mutex_step_defs split: if_splits)
next
  case TrCompare
  then show ?thesis using assms
    by (intro step_okI) (auto simp: mutex_step_defs split: if_splits)
next
  case TrCount
  then show ?thesis using assms
    by (intro step_okI) (auto simp: mutex_step_defs split: if_splits)
next
  case TrOwner
  then show ?thesis using assms
    by (intro step_okI) (auto simp: mutex_step_defs split: if_splits)
qed

lemma unlock_step_ok:
  assumes "shared_ok k h m" and "thread_ok k h m t (InUnlock p) d"
    and "unlock_step t c p m = Some (m', r)"
  shows "step_ok k h m t (next_holder t m m' h) m' (next_pc InUnlock r) (released m p d)"
proof (cases p)
  case UnEnter
  then show ?thesis using assms
    by (intro step_okI) (auto simp: mutex_step_defs split: if_splits)
next
  case UnCount
  then show ?thesis using assms
    by (intro step_okI) (auto simp: mutex_step_defs split: if_splits)
next
  case UnClear
  then show ?thesis using assms
    by (intro step_okI) (auto simp: mutex_step_defs split: if_splits)
next
  case UnExchange
  then show ?thesis using assms
    by (intro step_okI) (auto simp: mutex_step_defs split: if_splits)
next
  case UnSignal
  then show ?thesis using assms
    by (intro step_okI) (auto simp: mutex_step_defs split: if_splits choice.splits)
qed

text \<open>Entering an operation changes only the program counter.\<close>

lemma mutex_inv_call:
  assumes inv: "mutex_inv k h s" and idle: "pcs s t = Idle"
    and p: "p \<in> {InLock timed LkEnter, InTry TrEnter, InUnlock UnEnter}"
    and hold: "p = InUnlock UnEnter \<Longrightarrow> k = 0 \<Longrightarrow> depth s t > 0"
  shows "mutex_inv k h (s\<lparr>pcs := (pcs s)(t := p)\<rparr>)"
proof -
  have "thread_ok k h (mx s) t Idle (depth s t)"
    using inv idle by (metis mutex_inv_def)
  then have "thread_ok k h (mx s) t p (depth s t)"
    using p hold by (auto simp: thread_ok_def holder_ok_def waiter_ok_def split: if_splits)
  then show ?thesis
    using inv by (simp add: mutex_inv_def)
qed

lemma thread_step_inv:
  assumes inv: "mutex_inv k h s" and al: "allowed faulty t a s" and st: "thread_step t a s = Some s'"
  shows "\<exists>h'. mutex_inv k h' s'"
proof -
  have sh: "shared_ok k h (mx s)" and th: "thread_ok k h (mx s) t (pcs s t) (depth s t)"
    and k: "kind (mx s) = k"
    using inv by (auto simp: mutex_inv_def shared_ok_def)
  show ?thesis
  proof (cases a)
    case (CallLock timed)
    then show ?thesis
      using st mutex_inv_call [OF inv, of t "InLock timed LkEnter"] by (auto split: if_splits)
  next
    case CallTry
    then show ?thesis
      using st mutex_inv_call [OF inv, of t "InTry TrEnter"] by (auto split: if_splits)
  next
    case CallUnlock
    then show ?thesis
      using st al k mutex_inv_call [OF inv, of t "InUnlock UnEnter"]
      by (auto simp: allowed_def split: if_splits)
  next
    case (Internal c)
    show ?thesis
    proof (cases "pcs s t")
      case Idle
      then show ?thesis using st Internal by simp
    next
      case (InLock timed p)
      then obtain m r where m: "lock_step timed t c p (mx s) = Some (m, r)"
        and s': "s' = s\<lparr>mx := m, pcs := (pcs s)(t := next_pc (InLock timed) r),
                        depth := (depth s)(t := acquired r (depth s t)),
                        result := (result s)(t := next_result r)\<rparr>"
        using st Internal by auto
      show ?thesis unfolding s'
        by (rule exI, rule mutex_inv_update [OF inv lock_step_ok [OF sh th [unfolded InLock] m]])
    next
      case (InTry p)
      then obtain m r where m: "trylock_step t c p (mx s) = Some (m, r)"
        and s': "s' = s\<lparr>mx := m, pcs := (pcs s)(t := next_pc InTry r),
                        depth := (depth s)(t := acquired r (depth s t)),
                        result := (result s)(t := next_result r)\<rparr>"
        using st Internal by auto
      show ?thesis unfolding s'
        by (rule exI, rule mutex_inv_update [OF inv trylock_step_ok [OF sh th [unfolded InTry] m]])
    next
      case (InUnlock p)
      then obtain m r where m: "unlock_step t c p (mx s) = Some (m, r)"
        and s': "s' = s\<lparr>mx := m, pcs := (pcs s)(t := next_pc InUnlock r),
                        depth := (depth s)(t := released (mx s) p (depth s t)),
                        result := (result s)(t := next_result r)\<rparr>"
        using st Internal by auto
      show ?thesis unfolding s'
        by (rule exI, rule mutex_inv_update [OF inv unlock_step_ok [OF sh th [unfolded InUnlock] m]])
    qed
  qed
qed

lemma mutex_inv_init: "mutex_inv k None (init_sys k)"
  by (simp add: mutex_inv_def shared_ok_def thread_ok_def waiter_ok_def init_sys_def new_mutex_def)

lemma reachable_inv: "reachable faulty k s \<Longrightarrow> \<exists>h. mutex_inv k h s"
proof (induction rule: reachable.induct)
  case start
  show ?case using mutex_inv_init by blast
next
  case (step s t a s')
  then show ?case using thread_step_inv by blast
qed

text \<open>Concrete schedules, for examples: each pair is a thread and what it does.\<close>

fun run :: "bool \<Rightarrow> (tid \<times> action) list \<Rightarrow> sys \<Rightarrow> sys option" where
  "run faulty [] s = Some s"
| "run faulty ((t, a) # as) s =
     (if allowed faulty t a s
      then (case thread_step t a s of None \<Rightarrow> None | Some s' \<Rightarrow> run faulty as s')
      else None)"

lemma run_reachable:
  "reachable faulty k s \<Longrightarrow> run faulty as s = Some s' \<Longrightarrow> reachable faulty k s'"
proof (induction as arbitrary: s)
  case (Cons x as)
  then show ?case
    by (cases x) (auto split: if_splits option.splits dest: reachable.step)
qed simp

lemmas schedule_reachable = run_reachable [OF reachable.start]

lemmas schedule_simps = allowed_def init_sys_def new_mutex_def acquired_def released_def

text \<open>
  C1: in every state reachable by any interleaving of any number of
  threads calling lock, timedlock, trylock and unlock on a mutex of any non-robust kind,
  waits and \<open>SetEvent\<close> failing or not, at most one thread has an acquisition that
  returned success and is not released. Clients of a normal mutex are assumed to unlock
  only what they hold; the recursive and error-checking kinds need no such assumption.
\<close>

theorem mutex_mutual_exclusion:
  assumes "reachable faulty k s" and "depth s t > 0" and "depth s u > 0"
  shows "t = u"
proof -
  obtain h where inv: "mutex_inv k h s"
    using reachable_inv [OF assms(1)] by blast
  have "h = Some v" if "depth s v > 0" for v
    using inv that by (auto simp: mutex_inv_def thread_ok_def waiter_ok_def split: if_splits)
  with assms(2,3) show ?thesis by auto
qed

definition busy_schedule :: "(tid \<times> action) list" where
  "busy_schedule =
     [(0, CallLock False), (1, CallLock True), (0, Internal Go), (1, Internal Go),
      (1, Internal Go), (0, Internal Go), (0, Internal Go), (1, Internal Go)]"

text \<open>
  Thread 0 wins a recursive mutex while thread 1 fails the compare, marks the lock and is
  about to wait.
\<close>

theorem mutex_mutual_exclusion_witness:
  "\<exists>s. run False busy_schedule (init_sys 1) = Some s \<and> depth s 0 = 1 \<and>
       pcs s 1 = InLock True LkWait \<and> (0 :: tid) = 0"
proof -
  obtain s where s: "run False busy_schedule (init_sys 1) = Some s" and d: "depth s 0 = 1"
    and p: "pcs s 1 = InLock True LkWait"
    by (simp add: busy_schedule_def schedule_simps)
  have "(0 :: tid) = 0"
    by (rule mutex_mutual_exclusion [OF schedule_reachable [OF s]]) (simp_all add: d)
  with s d p show ?thesis by blast
qed

text \<open>
  C29: with a recorded owner (recursive and error-checking kinds), in any
  state of a run in which the recursion counter stays an \<open>int\<close> (fewer than \<open>2 ^ 31\<close>
  levels held at any time), a thread that does not hold the mutex gets \<open>EPERM\<close> from unlock and
  changes nothing; a holder that locks an error-checking mutex again gets \<open>EDEADLK\<close>
  and keeps it; a holder that locks a recursive one again gets success one level deeper,
  and the object's counter is exactly the number of levels.
\<close>

theorem mutex_misuse_reported:
  assumes "reachable_in_range faulty k s" and "k = PTHREAD_MUTEX_RECURSIVE \<or> k = PTHREAD_MUTEX_ERRORCHECK"
  shows "(pcs s t = InUnlock UnEnter \<and> depth s t = 0 \<longrightarrow>
            (\<exists>s'. thread_step t (Internal Go) s = Some s' \<and> mx s' = mx s \<and>
               depth s' = depth s \<and> pcs s' t = Idle \<and> result s' t = Some EPERM)) \<and>
         (pcs s t = InLock timed LkEnter \<and> depth s t > 0 \<longrightarrow>
            (\<exists>s'. thread_step t (Internal Go) s = Some s' \<and> mx s' = mx s \<and>
               depth s' = depth s \<and> pcs s' t = InLock timed LkCompare \<and> result s' t = None)) \<and>
         (pcs s t = InLock timed LkCompare \<and> depth s t > 0 \<and> k = PTHREAD_MUTEX_ERRORCHECK \<longrightarrow>
            (\<exists>s'. thread_step t (Internal Go) s = Some s' \<and> mx s' = mx s \<and>
               depth s' = depth s \<and> pcs s' t = Idle \<and> result s' t = Some EDEADLK)) \<and>
         (pcs s t = InLock timed LkCompare \<and> depth s t > 0 \<and> k = PTHREAD_MUTEX_RECURSIVE \<longrightarrow>
            (\<exists>s'. thread_step t (Internal Go) s = Some s' \<and>
               mx s' = mx s\<lparr>recursive_count := int (Suc (depth s t))\<rparr> \<and>
               depth s' = (depth s)(t := Suc (depth s t)) \<and> pcs s' t = Idle \<and> result s' t = Some OK)) \<and>
         (depth s t > 0 \<and> k = PTHREAD_MUTEX_RECURSIVE \<longrightarrow>
            recursive_count (mx s) = int (depth s t) \<and> depth s t < 2 ^ 31)"
proof -
  have re: "reachable faulty k s" and rng: "recursive_count (mx s) < 2 ^ 31"
    using in_range_reachable [OF assms(1)] by simp_all
  obtain h where inv: "mutex_inv k h s"
    using reachable_inv [OF re] by blast
  then have k: "kind (mx s) = k" and sh: "lock_idx (mx s) = 0 \<longleftrightarrow> h = None"
    and th: "thread_ok k h (mx s) t (pcs s t) (depth s t)"
    by (auto simp: mutex_inv_def shared_ok_def)
  have cnt: "recursive_count (mx s) = int (depth s t)" if "depth s t > 0" "k = PTHREAD_MUTEX_RECURSIVE"
    using th that by (auto simp: thread_ok_def holder_ok_def waiter_ok_def split: if_splits)
  show ?thesis
  proof (intro conjI impI; (elim conjE)?)
    assume "pcs s t = InUnlock UnEnter" "depth s t = 0"
    then show "(\<exists>s'. thread_step t (Internal Go) s = Some s' \<and> mx s' = mx s \<and>
         depth s' = depth s \<and> pcs s' t = Idle \<and> result s' t = Some EPERM)"
      using th k assms(2)
      by (auto simp: thread_ok_def holder_ok_def waiter_ok_def released_def fun_upd_idem
          split: if_splits)
  next
    assume "pcs s t = InLock timed LkEnter" "depth s t > 0"
    then show "(\<exists>s'. thread_step t (Internal Go) s = Some s' \<and> mx s' = mx s \<and>
         depth s' = depth s \<and> pcs s' t = InLock timed LkCompare \<and> result s' t = None)"
      using th k sh assms(2)
      by (auto simp: thread_ok_def holder_ok_def waiter_ok_def acquired_def split: if_splits)
  next
    assume "pcs s t = InLock timed LkCompare" "depth s t > 0" "k = PTHREAD_MUTEX_ERRORCHECK"
    then show "(\<exists>s'. thread_step t (Internal Go) s = Some s' \<and> mx s' = mx s \<and>
         depth s' = depth s \<and> pcs s' t = Idle \<and> result s' t = Some EDEADLK)"
      using th k assms(2)
      by (auto simp: thread_ok_def holder_ok_def waiter_ok_def acquired_def split: if_splits)
  next
    assume p: "pcs s t = InLock timed LkCompare" "depth s t > 0" "k = PTHREAD_MUTEX_RECURSIVE"
    then have "owner (mx s) = Some t"
      using th by (auto simp: thread_ok_def holder_ok_def waiter_ok_def split: if_splits)
    with p k cnt [OF p(2,3)] show "(\<exists>s'. thread_step t (Internal Go) s = Some s' \<and>
         mx s' = mx s\<lparr>recursive_count := int (Suc (depth s t))\<rparr> \<and>
         depth s' = (depth s)(t := Suc (depth s t)) \<and> pcs s' t = Idle \<and> result s' t = Some OK)"
      by (simp add: acquired_def add.commute)
  next
    assume p: "depth s t > 0" "k = PTHREAD_MUTEX_RECURSIVE"
    then show "recursive_count (mx s) = int (depth s t)" by (rule cnt)
    with rng show "depth s t < 2 ^ 31" by simp
  qed
qed

text \<open>The schedule of \<open>mutex_mutual_exclusion_witness\<close>, with the counter in range at every step.\<close>

fun range_run :: "(tid \<times> action) list \<Rightarrow> sys \<Rightarrow> sys option" where
  "range_run [] s = Some s"
| "range_run ((t, a) # xs) s =
     (if allowed False t a s then
        (case thread_step t a s of
           None \<Rightarrow> None
         | Some s' \<Rightarrow> if recursive_count (mx s') < 2 ^ 31 then range_run xs s' else None)
      else None)"

lemma range_run_reachable:
  "reachable_in_range False k s \<Longrightarrow> range_run xs s = Some s' \<Longrightarrow> reachable_in_range False k s'"
proof (induction xs arbitrary: s)
  case (Cons x xs)
  obtain t a where "x = (t, a)" by (cases x)
  then obtain s2 where st: "allowed False t a s" "thread_step t a s = Some s2" "recursive_count (mx s2) < 2 ^ 31"
    "range_run xs s2 = Some s'"
    using Cons.prems(2) by (auto split: if_splits option.splits)
  from Cons.IH [OF reachable_in_range.range_step [OF Cons.prems(1) st(1-3)] st(4)] show ?case .
qed simp

theorem mutex_misuse_reported_witness:
  "\<exists>s s'. range_run (busy_schedule @ [(2, CallUnlock)]) (init_sys 1) = Some s \<and>
      thread_step 2 (Internal Go) s = Some s' \<and> mx s' = mx s \<and> result s' 2 = Some EPERM"
proof -
  obtain s where s: "range_run (busy_schedule @ [(2, CallUnlock)]) (init_sys 1) = Some s"
    and p: "pcs s 2 = InUnlock UnEnter" "depth s 2 = 0"
    by (simp add: busy_schedule_def schedule_simps)
  have "\<exists>s'. thread_step 2 (Internal Go) s = Some s' \<and> mx s' = mx s \<and> result s' 2 = Some EPERM"
    using mutex_misuse_reported [OF range_run_reachable [OF reachable_in_range.range_start s] disjI1 [OF refl], of 2] p
    by blast
  with s show ?thesis by blast
qed

subsection \<open>No lost wakeup\<close>

text \<open>
  A thread that is about to exchange -1 into the lock, or about to set the event, will
  look after the waiting threads.
\<close>

fun pending_wake :: "pc \<Rightarrow> bool" where
  "pending_wake (InLock _ p) = (p = LkExchange)"
| "pending_wake (InUnlock p) = (p = UnSignal)"
| "pending_wake _ = False"

fun waiting :: "pc \<Rightarrow> bool" where
  "waiting (InLock _ p) = (p = LkWait)"
| "waiting _ = False"

definition wake_ok :: "mutex \<Rightarrow> pc \<Rightarrow> bool" where
  "wake_ok m p \<longleftrightarrow> lock_idx m = -1 \<or> event m \<or> pending_wake p"

lemma lock_step_wake:
  assumes "lock_step timed t c p m = Some (m', r)" and "wake_ok m (InLock timed p)"
  shows "wake_ok m' (next_pc (InLock timed) r)"
  using assms
  by (cases p) (auto simp: wake_ok_def split: if_splits choice.splits wait_status.splits)

lemma lock_step_new_waiter:
  assumes "lock_step timed t c p m = Some (m', r)" and "waiting (next_pc (InLock timed) r)"
  shows "lock_idx m' = -1"
  using assms by (cases p) (auto split: if_splits choice.splits wait_status.splits)

lemma trylock_step_wake:
  assumes "trylock_step t c p m = Some (m', r)" and "wake_ok m (InTry p)"
  shows "wake_ok m' (next_pc InTry r)"
  using assms by (cases p) (auto simp: wake_ok_def split: if_splits)

lemma trylock_step_no_waiter: "\<not> waiting (next_pc InTry r)"
  by (cases r) auto

lemma unlock_step_wake:
  assumes "unlock_step t c p m = Some (m', r)" and "c \<noteq> SetEventFails"
    and "wake_ok m (InUnlock p)"
  shows "wake_ok m' (next_pc InUnlock r)"
  using assms by (cases p) (auto simp: wake_ok_def split: if_splits choice.splits)

lemma unlock_step_no_waiter: "\<not> waiting (next_pc InUnlock r)"
  by (cases r) auto

definition wake_inv :: "sys \<Rightarrow> bool" where
  "wake_inv s \<longleftrightarrow> (\<exists>t. waiting (pcs s t)) \<longrightarrow> (\<exists>u. wake_ok (mx s) (pcs s u))"

lemma wake_ok_shared: "wake_ok m p \<Longrightarrow> pending_wake p \<or> (\<forall>q. wake_ok m q)"
  by (auto simp: wake_ok_def)

text \<open>
  A step of \<open>t\<close> preserves the invariant when it hands its own wake-up duty on and when
  it becomes a waiter only with the lock marked as contended.
\<close>

lemma wake_inv_update:
  assumes inv: "wake_inv s"
    and wake: "wake_ok (mx s) (pcs s t) \<Longrightarrow> wake_ok m p"
    and waits: "waiting p \<Longrightarrow> lock_idx m = -1"
  shows "wake_inv (s\<lparr>mx := m, pcs := (pcs s)(t := p), depth := d, result := r\<rparr>)"
proof -
  let ?s = "s\<lparr>mx := m, pcs := (pcs s)(t := p), depth := d, result := r\<rparr>"
  have "\<exists>u. wake_ok (mx ?s) (pcs ?s u)" if w: "waiting (pcs ?s v)" for v
  proof (cases "v = t")
    case True
    then show ?thesis using w waits by (auto simp: wake_ok_def)
  next
    case False
    then have "waiting (pcs s v)" using w by simp
    then obtain u where u: "wake_ok (mx s) (pcs s u)"
      using inv by (auto simp: wake_inv_def)
    show ?thesis
    proof (cases "u \<noteq> t \<and> pending_wake (pcs s u)")
      case True
      then show ?thesis by (auto simp: wake_ok_def intro!: exI [of _ u])
    next
      case False
      then have "wake_ok (mx s) (pcs s t)"
        using u wake_ok_shared by blast
      then show ?thesis using wake by (auto intro!: exI [of _ t])
    qed
  qed
  then show ?thesis unfolding wake_inv_def by blast
qed

lemma wake_inv_call:
  assumes inv: "wake_inv s" and idle: "pcs s t = Idle" and p: "\<not> waiting p"
  shows "wake_inv (s\<lparr>pcs := (pcs s)(t := p)\<rparr>)"
proof -
  have "wake_ok (mx s) Idle \<Longrightarrow> wake_ok (mx s) p"
    by (auto simp: wake_ok_def)
  then show ?thesis
    using wake_inv_update [OF inv, where t = t and m = "mx s" and p = p and d = "depth s" and r = "result s"]
      idle p by (simp add: wake_inv_def)
qed

lemma thread_step_wake:
  assumes inv: "wake_inv s" and al: "allowed False t a s" and st: "thread_step t a s = Some s'"
  shows "wake_inv s'"
proof (cases a)
  case (Internal c)
  then have c: "c \<noteq> SetEventFails" using al by (auto simp: allowed_def)
  show ?thesis
  proof (cases "pcs s t")
    case Idle
    then show ?thesis using st Internal by simp
  next
    case (InLock timed p)
    then obtain m r where m: "lock_step timed t c p (mx s) = Some (m, r)"
      using st Internal by auto
    have "wake_ok m (next_pc (InLock timed) r)" if "wake_ok (mx s) (pcs s t)"
      using lock_step_wake [OF m] that InLock by simp
    then show ?thesis
      using st Internal InLock m
      by (auto intro!: wake_inv_update [OF inv] lock_step_new_waiter [OF m])
  next
    case (InTry p)
    then obtain m r where m: "trylock_step t c p (mx s) = Some (m, r)"
      using st Internal by auto
    have "wake_ok m (next_pc InTry r)" if "wake_ok (mx s) (pcs s t)"
      using trylock_step_wake [OF m] that InTry by simp
    then show ?thesis
      using st Internal InTry m
      by (auto intro!: wake_inv_update [OF inv] simp: trylock_step_no_waiter)
  next
    case (InUnlock p)
    then obtain m r where m: "unlock_step t c p (mx s) = Some (m, r)"
      using st Internal by auto
    have "wake_ok m (next_pc InUnlock r)" if "wake_ok (mx s) (pcs s t)"
      using unlock_step_wake [OF m c] that InUnlock by simp
    then show ?thesis
      using st Internal InUnlock m
      by (auto intro!: wake_inv_update [OF inv] simp: unlock_step_no_waiter)
  qed
qed (use st inv in \<open>auto intro!: wake_inv_call split: if_splits\<close>)

lemma reachable_wake_inv: "reachable False k s \<Longrightarrow> wake_inv s"
proof (induction rule: reachable.induct)
  case start
  show ?case by (simp add: wake_inv_def init_sys_def)
next
  case (step s t a s')
  then show ?case using thread_step_wake by blast
qed

text \<open>
  C9: as long as \<open>SetEvent\<close> succeeds, a thread that waits for a mutex
  which has become free is never forgotten: the event is set, so its wait can return, or
  another thread is inside lock or unlock at a step that it can take and that exchanges
  -1 into the lock or sets the event. This covers the exchange by which a newcomer
  overwrites the mark -1 that tells of waiters.
\<close>

theorem mutex_no_lost_wakeup:
  assumes "reachable False k s" and "pcs s t = InLock timed LkWait" and "lock_idx (mx s) = 0"
  shows "(\<exists>s'. thread_step t (Internal (Wait WaitObject0)) s = Some s') \<or>
         (\<exists>u s'. pending_wake (pcs s u) \<and> thread_step u (Internal Go) s = Some s')"
proof -
  have "waiting (pcs s t)" using assms(2) by simp
  then obtain u where u: "wake_ok (mx s) (pcs s u)"
    using reachable_wake_inv [OF assms(1)] by (auto simp: wake_inv_def)
  show ?thesis
  proof (cases "event (mx s)")
    case True
    then show ?thesis using assms(2) by simp
  next
    case False
    then have "pending_wake (pcs s u)"
      using u assms(3) by (simp add: wake_ok_def)
    then have "\<exists>s'. thread_step u (Internal Go) s = Some s'"
      by (cases "pcs s u") auto
    then show ?thesis using \<open>pending_wake (pcs s u)\<close> by blast
  qed
qed

theorem mutex_no_lost_wakeup_witness:
  "\<exists>s. run False [(0, CallLock False), (0, Internal Go), (1, CallLock False), (1, Internal Go),
                  (1, Internal Go), (0, CallUnlock), (0, Internal Go)] (init_sys 0) = Some s \<and>
       ((\<exists>s'. thread_step 1 (Internal (Wait WaitObject0)) s = Some s') \<or>
        (\<exists>u s'. pending_wake (pcs s u) \<and> thread_step u (Internal Go) s = Some s'))"
proof -
  obtain s where s: "run False [(0, CallLock False), (0, Internal Go), (1, CallLock False),
      (1, Internal Go), (1, Internal Go), (0, CallUnlock), (0, Internal Go)] (init_sys 0) = Some s"
    and p: "pcs s 1 = InLock False LkWait" "lock_idx (mx s) = 0"
    by (simp add: schedule_simps)
  from mutex_no_lost_wakeup [OF schedule_reachable [OF s] p] s show ?thesis by blast
qed

subsection \<open>Timeouts and creation\<close>

text \<open>
  C30: for times whose sums are in the range of an \<open>int64_t\<close> (seconds below \<open>2 ^ 53\<close>,
  nanoseconds and the current time below \<open>2 ^ 62\<close>), with \<open>d\<close> the distance of the deadline in
  milliseconds (the nanoseconds rounded to the nearest one): the timeout handed to Windows is 0 for a deadline that has
  passed, and otherwise \<open>d\<close> modulo \<open>2 ^ 32\<close>, with \<open>INFINITE\<close> replaced by the value
  before it. So it is never \<open>INFINITE\<close> and never longer than asked for, it is exact for distances below
  \<open>2 ^ 32 - 1\<close> milliseconds (49.7 days), and for a longer one it can be much too short: none at
  all for \<open>2 ^ 32\<close>.
\<close>

theorem relmillisecs_bounds:
  assumes "\<bar>sec\<bar> < 2 ^ 53" and "\<bar>nsec\<bar> < 2 ^ 62" and "0 \<le> now" "now < 2 ^ 62"
    and "d = sec * 1000 + c_div (nsec + 500000) 1000000 - now"
  shows "uint (ptw32_relmillisecs sec nsec now) =
           (if d \<le> 0 then 0
            else if d mod 2 ^ 32 = 2 ^ 32 - 1 then 2 ^ 32 - 2
            else d mod 2 ^ 32) \<and>
         ptw32_relmillisecs sec nsec now \<noteq> INFINITE \<and>
         uint (ptw32_relmillisecs sec nsec now) \<le> max 0 d \<and>
         (0 < d \<and> d < 2 ^ 32 - 1 \<longrightarrow> uint (ptw32_relmillisecs sec nsec now) = d) \<and>
         (d = 2 ^ 32 \<longrightarrow> ptw32_relmillisecs sec nsec now = 0)"
proof -
  define q where "q = c_div (nsec + 500000) 1000000"
  have q: "\<bar>q\<bar> < 2 ^ 62 + 500000"
    using c_div_bounds [of 1000000 "nsec + 500000"] assms(2) unfolding q_def by linarith
  have "\<bar>q\<bar> \<le> 2 ^ 43"
  proof -
    have "\<bar>nsec + 500000\<bar> div 1000000 \<le> (2 ^ 62 + 500000) div 1000000"
      using assms(2) by (intro zdiv_mono1) linarith+
    moreover have "\<bar>q\<bar> = \<bar>nsec + 500000\<bar> div 1000000"
      by (auto simp: q_def c_div_def abs_mult sgn_if pos_imp_zdiv_nonneg_iff)
    ultimately show ?thesis by simp
  qed
  with assms(1,2) have a: "abs_millisecs sec nsec = sec * 1000 + q"
    by (simp add: abs_millisecs_def q_def c_int64_id)
  let ?r = "ptw32_relmillisecs sec nsec now"
  let ?w = "word_of_int d :: u32"
  have d: "d = sec * 1000 + q - now" by (simp add: assms(5) q_def)
  have r: "?r = (if d > 0 then (if ?w = INFINITE then ?w - 1 else ?w) else 0)"
  proof (cases "d > 0")
    case True
    then have "c_int64 d = d" using d \<open>\<bar>q\<bar> \<le> 2 ^ 43\<close> assms(1,3) by (intro c_int64_id; simp)
    then show ?thesis using True d by (simp add: ptw32_relmillisecs_def Let_def a)
  next
    case False
    then show ?thesis using d by (simp add: ptw32_relmillisecs_def Let_def a)
  qed
  have w: "uint ?w = d mod 2 ^ 32" by (simp add: uint_word_of_int)
  have inf: "?w = INFINITE \<longleftrightarrow> d mod 2 ^ 32 = 2 ^ 32 - 1"
    unfolding word_uint_eq_iff w by (simp add: INFINITE_def)
  have pred: "?w = INFINITE \<Longrightarrow> ?w - 1 = 0xFFFFFFFE" by (simp add: INFINITE_def)
  have val: "uint ?r = (if d \<le> 0 then 0 else if d mod 2 ^ 32 = 2 ^ 32 - 1 then 2 ^ 32 - 2 else d mod 2 ^ 32)"
    unfolding r using w inf pred by auto
  have "?r \<noteq> INFINITE"
  proof
    assume "?r = INFINITE"
    then have "uint ?r = 2 ^ 32 - 1" by (simp add: INFINITE_def)
    with val show False by (auto split: if_splits)
  qed
  moreover have "uint ?r \<le> max 0 d"
    using val zmod_le_nonneg_dividend [of d "2 ^ 32"] by (auto split: if_splits)
  moreover have "uint ?r = d" if "0 < d" "d < 2 ^ 32 - 1"
    using val that by (simp add: mod_pos_pos_trivial)
  moreover have "?r = 0" if "d = 2 ^ 32"
    using val that by (simp add: word_uint_eq_iff)
  ultimately show ?thesis using val by blast
qed

lemma relmillisecs_bounds_witness:
  "uint (ptw32_relmillisecs 100 600000 99000) = 1001"
  using relmillisecs_bounds [of 100 600000 99000 1001] by (simp add: c_div_def)

text \<open>
  On an initialised attribute object \<open>pthread_mutexattr_setpshared\<close> accepts
  \<open>PTHREAD_PROCESS_SHARED\<close> and \<open>getpshared\<close> reports it, and then
  \<open>pthread_mutex_init\<close> refuses the attribute object with \<open>ENOSYS\<close>, whatever memory
  and events are available, and leaves the mutex variable unwritten.
\<close>

lemma mutex_init_refuses_shared:
  assumes "pthread_mutexattr_init True (Cell c) = Some (OK, r)"
  shows "\<exists>r'. pthread_mutexattr_setpshared r PTHREAD_PROCESS_SHARED = (OK, r') \<and>
              pthread_mutexattr_getpshared r' True = (OK, Some PTHREAD_PROCESS_SHARED) \<and>
              pthread_mutex_init mem ev (Some m) r' = (ENOSYS, Some m)"
  using assms
  by (auto simp: pthread_mutexattr_init_def pthread_mutexattr_setpshared_def
      pthread_mutexattr_getpshared_def pthread_mutex_init_def)

end
