(* ===== verification/PT_Sem.thy ===== *)
theory PT_Sem
  imports Prelude
begin

text \<open>
  The semaphores of pthreads-win32 (\<open>src/pthreads/pthreads.2/sem_*.c\<close>, built without
  \<open>NEED_SEM\<close>): a counter under a mutex and a Windows semaphore on which the waiters block.
  Each part of a function between taking and releasing \<open>s->lock\<close> is one step. The results
  of the mutex, of the Windows calls and of the second test of \<open>*sem\<close> are arguments.
\<close>

subsection \<open>The object\<close>

text \<open>\<open>sem_value\<close> is an int of the C code; \<open>sem_handle\<close> is the count of the Windows semaphore.\<close>

record sem =
  sem_value :: int
  sem_handle :: nat

definition SEM_VALUE_MAX :: int where
  "SEM_VALUE_MAX = 2147483647"

text \<open>0, or -1 with \<open>errno\<close> set to a code or left as it was.\<close>

datatype sem_result = Zero | MinusOne "rc option"

definition sem_return :: "rc \<Rightarrow> sem_result" where
  "sem_return result = (if result \<noteq> OK then MinusOne (Some result) else Zero)"

text \<open>\<open>alloc\<close>, \<open>mutex_rc\<close> and \<open>create\<close>: whether calloc and CreateSemaphore succeed.\<close>

definition sem_init :: "bool \<Rightarrow> rc \<Rightarrow> bool \<Rightarrow> int \<Rightarrow> nat \<Rightarrow> sem option \<times> sem_result" where
  "sem_init alloc mutex_rc create pshared val =
     (let result =
        (if pshared \<noteq> 0 then EPERM
         else if int val > SEM_VALUE_MAX then EINVAL
         else if \<not> alloc then ENOMEM
         else if mutex_rc = OK then (if \<not> create then ENOSPC else OK)
         else ENOSPC)
      in if result \<noteq> OK then (None, MinusOne (Some result))
         else (Some \<lparr>sem_value = int val, sem_handle = 0\<rparr>, Zero))"

subsection \<open>Posting\<close>

definition sem_post_locked :: "bool \<Rightarrow> sem \<Rightarrow> sem \<times> rc" where
  "sem_post_locked release s =
     (if sem_value s < SEM_VALUE_MAX then
        (let s = s\<lparr>sem_value := sem_value s + 1\<rparr>
         in if sem_value s \<le> 0 then
              (if release then (s\<lparr>sem_handle := sem_handle s + 1\<rparr>, OK)
               else (s\<lparr>sem_value := sem_value s - 1\<rparr>, EINVAL))
            else (s, OK))
      else (s, ERANGE))"

definition sem_post :: "rc \<Rightarrow> bool \<Rightarrow> bool \<Rightarrow> sem option \<Rightarrow> sem option \<times> sem_result" where
  "sem_post lock_rc gone release sem =
     (case sem of
        None \<Rightarrow> (sem, MinusOne (Some EINVAL))
      | Some s \<Rightarrow>
          if lock_rc \<noteq> OK then (sem, MinusOne (Some lock_rc))
          else if gone then (sem, MinusOne None)
          else (case sem_post_locked release s of (s', result) \<Rightarrow> (Some s', sem_return result)))"

definition sem_post_multiple_locked :: "bool \<Rightarrow> int \<Rightarrow> sem \<Rightarrow> sem \<times> rc" where
  "sem_post_multiple_locked release count s =
     (if sem_value s \<le> SEM_VALUE_MAX - count then
        (let waiters = - sem_value s;
             s = s\<lparr>sem_value := sem_value s + count\<rparr>
         in if waiters > 0 then
              (if release then
                 (s\<lparr>sem_handle := sem_handle s + nat (if waiters \<le> count then waiters else count)\<rparr>, OK)
               else (s\<lparr>sem_value := sem_value s - count\<rparr>, EINVAL))
            else (s, OK))
      else (s, ERANGE))"

definition sem_post_multiple ::
  "rc \<Rightarrow> bool \<Rightarrow> bool \<Rightarrow> sem option \<Rightarrow> int \<Rightarrow> sem option \<times> sem_result" where
  "sem_post_multiple lock_rc gone release sem count =
     (case sem of
        None \<Rightarrow> (sem, MinusOne (Some EINVAL))
      | Some s \<Rightarrow>
          if count \<le> 0 then (sem, MinusOne (Some EINVAL))
          else if lock_rc \<noteq> OK then (sem, MinusOne (Some lock_rc))
          else if gone then (sem, MinusOne None)
          else (case sem_post_multiple_locked release count s of
                  (s', result) \<Rightarrow> (Some s', sem_return result)))"

subsection \<open>Waiting\<close>

definition sem_trywait_locked :: "sem \<Rightarrow> sem \<times> rc" where
  "sem_trywait_locked s =
     (if sem_value s > 0 then (s\<lparr>sem_value := sem_value s - 1\<rparr>, OK) else (s, EAGAIN))"

definition sem_trywait :: "rc \<Rightarrow> bool \<Rightarrow> sem option \<Rightarrow> sem option \<times> sem_result" where
  "sem_trywait lock_rc gone sem =
     (case sem of
        None \<Rightarrow> (sem, MinusOne (Some EINVAL))
      | Some s \<Rightarrow>
          if lock_rc \<noteq> OK then (sem, MinusOne (Some lock_rc))
          else if gone then (sem, MinusOne (Some EINVAL))
          else (case sem_trywait_locked s of (s', result) \<Rightarrow> (Some s', sem_return result)))"

text \<open>
  The locked part that \<open>sem_wait\<close>, \<open>sem_timedwait\<close> and \<open>ptw32_semwait\<close> share, from
  the entry: \<open>Inr True\<close> goes on to wait on the Windows semaphore, \<open>Inr False\<close> returns 0.
\<close>

definition sem_wait_enter :: "rc \<Rightarrow> bool \<Rightarrow> sem option \<Rightarrow> sem option \<times> (rc + bool)" where
  "sem_wait_enter lock_rc gone sem =
     (case sem of
        None \<Rightarrow> (sem, Inl EINVAL)
      | Some s \<Rightarrow>
          if lock_rc \<noteq> OK then (sem, Inl lock_rc)
          else if gone then (sem, Inl EINVAL)
          else (let v = sem_value s - 1; s = s\<lparr>sem_value := v\<rparr> in (Some s, Inr (v < 0))))"

text \<open>\<open>WaitForSingleObject\<close> succeeds and takes one unit when the Windows count is positive.\<close>

definition wait_object :: "sem \<Rightarrow> sem option" where
  "wait_object s =
     (if sem_handle s > 0 then Some (s\<lparr>sem_handle := sem_handle s - 1\<rparr>) else None)"

text \<open>
  The cleanup handler of \<open>sem_wait\<close>. It is registered with \<open>s\<close> itself and tests
  \<open>*((sem_t *) sem)\<close>: the first word of the object, which is its \<open>value\<close> (followed, with
  64-bit pointers, by padding that calloc has zeroed).
\<close>

definition ptw32_sem_wait_cleanup :: "sem \<Rightarrow> sem" where
  "ptw32_sem_wait_cleanup s =
     (if sem_value s \<noteq> 0 then
        (case wait_object s of
           Some s' \<Rightarrow> s'
         | None \<Rightarrow> s\<lparr>sem_value := sem_value s + 1\<rparr>)
      else s)"

text \<open>The cleanup handler of \<open>sem_timedwait\<close>; True sets the result to 0.\<close>

definition ptw32_sem_timedwait_cleanup :: "sem \<Rightarrow> sem \<times> bool" where
  "ptw32_sem_timedwait_cleanup s =
     (case wait_object s of
        Some s' \<Rightarrow> (s', True)
      | None \<Rightarrow> (s\<lparr>sem_value := sem_value s + 1\<rparr>, False))"

subsection \<open>The rest\<close>

text \<open>A failing lock is returned as it is: -1 and \<open>errno\<close> are used for EINVAL only.\<close>

datatype getvalue_result = Sval int | GetMinusOne rc | GetCode rc

definition sem_getvalue :: "rc \<Rightarrow> bool \<Rightarrow> bool \<Rightarrow> sem option \<Rightarrow> getvalue_result" where
  "sem_getvalue lock_rc gone sval sem =
     (case sem of
        None \<Rightarrow> GetMinusOne EINVAL
      | Some s \<Rightarrow>
          if \<not> sval then GetMinusOne EINVAL
          else if lock_rc = OK then (if gone then GetMinusOne EINVAL else Sval (sem_value s))
          else GetCode lock_rc)"

definition sem_destroy :: "rc \<Rightarrow> bool \<Rightarrow> sem option \<Rightarrow> sem option \<times> sem_result" where
  "sem_destroy lock_rc close sem =
     (case sem of
        None \<Rightarrow> (sem, MinusOne (Some EINVAL))
      | Some s \<Rightarrow>
          if lock_rc \<noteq> OK then (sem, MinusOne (Some lock_rc))
          else if sem_value s < 0 then (sem, MinusOne (Some EBUSY))
          else if \<not> close then (sem, MinusOne (Some EINVAL))
          else (None, Zero))"

definition sem_open :: sem_result where "sem_open = MinusOne (Some ENOSYS)"
definition sem_close :: sem_result where "sem_close = MinusOne (Some ENOSYS)"
definition sem_unlink :: sem_result where "sem_unlink = MinusOne (Some ENOSYS)"

subsection \<open>Threads\<close>

text \<open>
  A thread is outside, or blocked on the Windows semaphore inside \<open>sem_wait\<close>
  (or \<open>ptw32_semwait\<close>) or \<open>sem_timedwait\<close>. \<open>posted\<close> and \<open>passed\<close> count the units
  posted and the waits that have returned 0, \<open>consumed\<close> the units taken by a
  cancelled wait.
\<close>

datatype sem_pc = SemOut | SemWait | SemTimedWait

record sem_system =
  obj :: sem
  pc :: "nat \<Rightarrow> sem_pc"
  posted :: int
  passed :: int
  consumed :: int

text \<open>
  The steps. A post is given with its result; \<open>cancel\<close> also stands for a wait that
  returned an error. \<open>timeout\<close> is every end of the timed wait other than its success.
\<close>

inductive sem_step :: "sem_system \<Rightarrow> sem_system \<Rightarrow> bool" where
  enter: "pc s t = SemOut \<Longrightarrow> w \<in> {SemWait, SemTimedWait} \<Longrightarrow>
      sem_wait_enter OK False (Some (obj s)) = (Some o', Inr blocks) \<Longrightarrow>
    sem_step s (s\<lparr>obj := o', pc := (pc s)(t := if blocks then w else SemOut),
                  passed := passed s + (if blocks then 0 else 1)\<rparr>)"
| wake: "pc s t \<noteq> SemOut \<Longrightarrow> wait_object (obj s) = Some o' \<Longrightarrow>
    sem_step s (s\<lparr>obj := o', pc := (pc s)(t := SemOut), passed := passed s + 1\<rparr>)"
| timeout: "pc s t = SemTimedWait \<Longrightarrow> ptw32_sem_timedwait_cleanup (obj s) = (o', ok) \<Longrightarrow>
    sem_step s (s\<lparr>obj := o', pc := (pc s)(t := SemOut), passed := passed s + (if ok then 1 else 0)\<rparr>)"
| timed_cancel: "pc s t = SemTimedWait \<Longrightarrow> ptw32_sem_timedwait_cleanup (obj s) = (o', ok) \<Longrightarrow>
    sem_step s (s\<lparr>obj := o', pc := (pc s)(t := SemOut), consumed := consumed s + (if ok then 1 else 0)\<rparr>)"
| cancel: "pc s t = SemWait \<Longrightarrow> ptw32_sem_wait_cleanup (obj s) = o' \<Longrightarrow>
    sem_step s (s\<lparr>obj := o', pc := (pc s)(t := SemOut),
                  consumed := consumed s + (if sem_value o' = sem_value (obj s) then 1 else 0)\<rparr>)"
| trywait: "sem_trywait_locked (obj s) = (o', r) \<Longrightarrow>
    sem_step s (s\<lparr>obj := o', passed := passed s + (if r = OK then 1 else 0)\<rparr>)"
| post: "sem_post_locked release (obj s) = (o', r) \<Longrightarrow>
    sem_step s (s\<lparr>obj := o', posted := posted s + (if r = OK then 1 else 0)\<rparr>)"
| post_multiple: "0 < count \<Longrightarrow> sem_post_multiple_locked release count (obj s) = (o', r) \<Longrightarrow>
    sem_step s (s\<lparr>obj := o', posted := posted s + (if r = OK then count else 0)\<rparr>)"

definition sem_start :: "sem \<Rightarrow> sem_system" where
  "sem_start s = \<lparr>obj = s, pc = (\<lambda>t. SemOut), posted = 0, passed = 0, consumed = 0\<rparr>"

text \<open>
  \<open>allowed\<close> is a condition on the steps: the runs in which every step satisfies it.
\<close>

inductive sem_reachable :: "(sem_system \<Rightarrow> sem_system \<Rightarrow> bool) \<Rightarrow> nat \<Rightarrow> sem_system \<Rightarrow> bool"
  for allowed n where
  start: "sem_init True OK True 0 n = (Some s, Zero) \<Longrightarrow> sem_reachable allowed n (sem_start s)"
| step: "sem_reachable allowed n s \<Longrightarrow> sem_step s s' \<Longrightarrow> allowed s s' \<Longrightarrow>
    sem_reachable allowed n s'"

definition waiting :: "sem_system \<Rightarrow> nat set" where
  "waiting s = {t. pc s t \<noteq> SemOut}"

text \<open>No \<open>sem_wait\<close> is cancelled in the moment between a post and its wakeup.\<close>

definition no_late_cancel :: "sem_system \<Rightarrow> sem_system \<Rightarrow> bool" where
  "no_late_cancel s s' \<longleftrightarrow>
     \<not> (sem_value (obj s) = 0 \<and> obj s' = obj s \<and> (\<exists>t. pc s t = SemWait \<and> pc s' t = SemOut))"

subsection \<open>Accounting\<close>

definition waiters :: "sem_system \<Rightarrow> int" where
  "waiters s = int (card (waiting s))"

definition sem_inv :: "nat \<Rightarrow> sem_system \<Rightarrow> bool" where
  "sem_inv n s \<longleftrightarrow>
     finite (waiting s) \<and> sem_value (obj s) \<le> SEM_VALUE_MAX \<and>
     waiters s = int (sem_handle (obj s)) + (if sem_value (obj s) < 0 then - sem_value (obj s) else 0) \<and>
     sem_value (obj s) + waiters s + passed s + consumed s = int n + posted s \<and>
     0 \<le> consumed s"

text \<open>How blocking and leaving change the number of waiters.\<close>

lemma sem_waiters_block:
  assumes "pc s t = SemOut" "finite (waiting s)" "w \<noteq> SemOut"
  shows "finite (waiting (s\<lparr>obj := o', pc := (pc s)(t := w), passed := p\<rparr>)) \<and>
         waiters (s\<lparr>obj := o', pc := (pc s)(t := w), passed := p\<rparr>) = waiters s + 1"
proof -
  have "waiting (s\<lparr>obj := o', pc := (pc s)(t := w), passed := p\<rparr>) = insert t (waiting s)"
    unfolding waiting_def using assms(3) by auto
  moreover have "t \<notin> waiting s" using assms(1) by (simp add: waiting_def)
  ultimately show ?thesis using assms(2) by (simp add: waiters_def)
qed

lemma sem_waiters_leave:
  assumes "pc s t \<noteq> SemOut" "finite (waiting s)"
  shows "finite (waiting s - {t}) \<and> int (card (waiting s - {t})) = waiters s - 1 \<and> waiters s > 0"
proof -
  have "t \<in> waiting s" using assms(1) by (simp add: waiting_def)
  with card_Suc_Diff1 [OF assms(2) this] assms(2) show ?thesis
    by (simp add: waiters_def del: card_Diff_insert)
qed

lemma leave_fields:
  "waiting (s\<lparr>obj := o', pc := (pc s)(t := SemOut), passed := p\<rparr>) = waiting s - {t}"
  "waiting (s\<lparr>obj := o', pc := (pc s)(t := SemOut), consumed := p\<rparr>) = waiting s - {t}"
  unfolding waiting_def by auto

lemma same_waiting [simp]:
  "waiting (s\<lparr>obj := o', passed := p\<rparr>) = waiting s"
  "waiting (s\<lparr>obj := o', posted := p\<rparr>) = waiting s"
  by (simp_all add: waiting_def)

lemma sem_inv_step:
  assumes "sem_step s s'" and "no_late_cancel s s'" and "sem_inv n s"
  shows "sem_inv n s'"
  using assms
proof (induction rule: sem_step.induct)
  case (enter s t w o' blocks)
  show ?case
  proof (cases blocks)
    case True
    with enter sem_waiters_block [where s = s and t = t and w = w and o' = o' and p = "passed s"] show ?thesis
      by (auto simp: sem_inv_def sem_wait_enter_def Let_def)
  next
    case False
    have "(pc s)(t := SemOut) = pc s" using enter(1) by (simp add: fun_upd_idem)
    with enter False show ?thesis
      by (auto simp: sem_inv_def sem_wait_enter_def waiters_def waiting_def Let_def)
  qed
next
  case (wake s t o')
  with sem_waiters_leave [of s t] show ?case
    by (auto simp: sem_inv_def waiters_def [of "s\<lparr>obj := _, pc := _, passed := _\<rparr>"] leave_fields
        wait_object_def of_nat_diff split: if_splits)
next
  case (timeout s t o' ok)
  with sem_waiters_leave [of s t] show ?case
    by (auto simp: sem_inv_def waiters_def [of "s\<lparr>obj := _, pc := _, passed := _\<rparr>"] leave_fields
        ptw32_sem_timedwait_cleanup_def wait_object_def of_nat_diff SEM_VALUE_MAX_def split: if_splits)
next
  case (timed_cancel s t o' ok)
  with sem_waiters_leave [of s t] show ?case
    by (auto simp: sem_inv_def waiters_def [of "s\<lparr>obj := _, pc := _, consumed := _\<rparr>"] leave_fields
        ptw32_sem_timedwait_cleanup_def wait_object_def of_nat_diff SEM_VALUE_MAX_def split: if_splits)
next
  case (cancel s t o')
  have "sem_value (obj s) \<noteq> 0"
    using cancel by (auto simp: no_late_cancel_def ptw32_sem_wait_cleanup_def)
  with cancel sem_waiters_leave [of s t] show ?case
    by (auto simp: sem_inv_def waiters_def [of "s\<lparr>obj := _, pc := _, consumed := _\<rparr>"] leave_fields
        ptw32_sem_wait_cleanup_def wait_object_def of_nat_diff SEM_VALUE_MAX_def split: if_splits)
next
  case (trywait s o' r)
  then show ?case
    by (auto simp: sem_inv_def waiters_def sem_trywait_locked_def split: if_splits)
next
  case (post release s o' r)
  then show ?case
    by (auto simp: sem_inv_def waiters_def sem_post_locked_def Let_def split: if_splits)
next
  case (post_multiple count release s o' r)
  then show ?case
    by (auto simp: sem_inv_def waiters_def sem_post_multiple_locked_def Let_def split: if_splits)
qed

lemma sem_inv_reachable: "sem_reachable no_late_cancel n s \<Longrightarrow> sem_inv n s"
proof (induction rule: sem_reachable.induct)
  case (start s)
  then show ?case
    by (auto simp: sem_init_def sem_inv_def sem_start_def waiters_def waiting_def Let_def
        split: if_splits)
qed (blast intro: sem_inv_step)

subsection \<open>Posting several units\<close>

definition post1 :: "sem \<Rightarrow> sem" where
  "post1 s = fst (sem_post_locked True s)"

lemma post_funpow:
  "sem_value s + int n \<le> SEM_VALUE_MAX \<Longrightarrow>
     (post1 ^^ n) s = s\<lparr>sem_value := sem_value s + int n,
       sem_handle := sem_handle s + nat (if - sem_value s \<le> int n then - sem_value s else int n)\<rparr>"
proof (induction n)
  case (Suc n)
  then show ?case by (simp add: post1_def sem_post_locked_def Let_def)
qed simp

subsection \<open>Properties\<close>

text \<open>
  C16: over any interleaving of waits, timed waits that time out or are
  cancelled, non-blocking waits and posts by any number of threads, as long as no
  \<open>sem_wait\<close> is cancelled in the moment between a post and its wakeup: every unit, initial
  or posted, is either still in the counter, taken by one wait that returned 0, or taken by
  one cancelled wait. So no more waits return 0 than there are units. A negative counter is
  minus the number of waiters that have no wakeup yet, and when it is not negative every
  waiter has one: none is forgotten.
\<close>

theorem sem_conserves_units:
  assumes "sem_reachable no_late_cancel n s"
  shows "sem_value (obj s) + waiters s + passed s + consumed s = int n + posted s \<and>
         passed s \<le> int n + posted s \<and>
         (if sem_value (obj s) < 0 then waiters s - int (sem_handle (obj s)) = - sem_value (obj s)
          else waiters s = int (sem_handle (obj s)))"
  using sem_inv_reachable [OF assms] by (auto simp: sem_inv_def split: if_splits)

text \<open>
  C34: the cleanup handler of \<open>sem_wait\<close> is given \<open>s\<close> where it expects
  \<open>sem\<close> and so tests the counter instead of the handle. A wait cancelled just after a post
  leaves its wakeup behind: with no thread waiting the counter is 0, \<open>sem_trywait\<close> fails
  with EAGAIN, and yet a \<open>sem_wait\<close> gets through at once and leaves the counter at -1 with
  no thread waiting.
\<close>

theorem sem_wait_cancel_race:
  "\<exists>s. sem_reachable (\<lambda>_ _. True) 0 s \<and> waiting s = {} \<and>
       sem_getvalue OK False True (Some (obj s)) = Sval 0 \<and>
       snd (sem_trywait OK False (Some (obj s))) = MinusOne (Some EAGAIN) \<and>
       (\<exists>o1 o2. sem_wait_enter OK False (Some (obj s)) = (Some o1, Inr True) \<and>
          wait_object o1 = Some o2 \<and> sem_value o2 = -1)"
proof -
  let ?o = "\<lparr>sem_value = 0, sem_handle = 0\<rparr>"
  let ?s0 = "sem_start ?o"
  let ?s1 = "?s0\<lparr>obj := ?o\<lparr>sem_value := -1\<rparr>, pc := (pc ?s0)(7 := SemWait)\<rparr>"
  let ?s2 = "?s1\<lparr>obj := \<lparr>sem_value = 0, sem_handle = 1\<rparr>, posted := 1\<rparr>"
  let ?s3 = "?s2\<lparr>pc := (pc ?s2)(7 := SemOut), consumed := 1\<rparr>"
  have s0: "sem_reachable (\<lambda>_ _. True) 0 ?s0"
    by (rule sem_reachable.start) (simp add: sem_init_def SEM_VALUE_MAX_def Let_def)
  have e1: "sem_step ?s0 ?s1"
    using sem_step.enter [of ?s0 7 SemWait "?o\<lparr>sem_value := -1\<rparr>" True]
    by (simp add: sem_start_def sem_wait_enter_def Let_def)
  have e2: "sem_step ?s1 ?s2"
    using sem_step.post [of True ?s1 "\<lparr>sem_value = 0, sem_handle = 1\<rparr>" OK]
    by (simp add: sem_start_def sem_post_locked_def SEM_VALUE_MAX_def Let_def)
  have e3: "sem_step ?s2 ?s3"
    using sem_step.cancel [of ?s2 7 "\<lparr>sem_value = 0, sem_handle = 1\<rparr>"]
    by (simp add: sem_start_def ptw32_sem_wait_cleanup_def)
  have "sem_reachable (\<lambda>_ _. True) 0 ?s3"
    by (rule sem_reachable.step [OF sem_reachable.step [OF sem_reachable.step [OF s0 e1] e2] e3]; simp)
  then show ?thesis
    by (intro exI [of _ ?s3])
      (simp add: waiting_def sem_start_def sem_getvalue_def sem_trywait_def sem_trywait_locked_def
        sem_return_def sem_wait_enter_def wait_object_def Let_def)
qed

text \<open>
  Posting \<open>count\<close> units at once has the same effect as \<open>count\<close>
  single posts, within the bound \<open>SEM_VALUE_MAX\<close>; beyond it the result is ERANGE and nothing
  changes.
\<close>

lemma sem_post_multiple_posts:
  "sem_post_multiple OK False True (Some s) (int (Suc n)) =
     (if sem_value s + int (Suc n) \<le> SEM_VALUE_MAX
      then (Some ((post1 ^^ Suc n) s), Zero)
      else (Some s, MinusOne (Some ERANGE)))"
proof (cases "sem_value s + int (Suc n) \<le> SEM_VALUE_MAX")
  case True
  then show ?thesis
    unfolding post_funpow [OF True]
    by (auto simp: sem_post_multiple_def sem_post_multiple_locked_def sem_return_def Let_def)
next
  case False
  then show ?thesis
    by (simp add: sem_post_multiple_def sem_post_multiple_locked_def sem_return_def)
qed

subsection \<open>Witnesses\<close>

lemma sem_conserves_units_witness:
  "\<exists>s. sem_reachable no_late_cancel 2 s \<and> passed s \<le> 2 + posted s"
proof -
  have "sem_reachable no_late_cancel 2 (sem_start \<lparr>sem_value = 2, sem_handle = 0\<rparr>)"
    by (rule sem_reachable.start) (simp add: sem_init_def SEM_VALUE_MAX_def Let_def)
  from sem_conserves_units [OF this] this show ?thesis by auto
qed

end
