(* ===== verification/PT_Rwlock.thy ===== *)
theory PT_Rwlock
  imports Prelude
begin

text \<open>
  Read-write locks (\<open>src/pthreads/pthreads.2/pthread_rwlock_*.c\<close>): three counters, two
  mutexes and a condition variable. The first mutex (\<open>mtxExclusiveAccess\<close>) is taken by
  every lock operation and kept by a writer, the second (\<open>mtxSharedAccessCompleted\<close>)
  protects the count of finished readers. A step of the transition relation is a piece of
  code between two operations on the mutexes; the mutexes exclude one another, as
  \<open>PT_Mutex\<close> shows. Threads only release locks they hold.
\<close>

subsection \<open>The object\<close>

text \<open>The mutex fields are the thread that holds the mutex.\<close>

record rwlock =
  mtx_exclusive :: "nat option"
  mtx_completed :: "nat option"
  nShared :: int
  nExclusive :: int
  nCompleted :: int

definition INT_MAX :: int where
  "INT_MAX = 2147483647"

text \<open>\<open>*rwlock\<close>: NULL, the static initialiser, or an object whose magic number may be gone.\<close>

datatype rwlock_handle = RwNull | RwInitializer | RwObject bool rwlock

definition new_rwlock :: rwlock where
  "new_rwlock = \<lparr>mtx_exclusive = None, mtx_completed = None, nShared = 0, nExclusive = 0,
                 nCompleted = 0\<rparr>"

text \<open>
  \<open>attr\<close>: \<open>attr != NULL && *attr != NULL\<close>; \<open>alloc\<close> and the codes are the results of
  calloc and of initialising the two mutexes and the condition variable.
\<close>

definition pthread_rwlock_init ::
  "bool \<Rightarrow> rc \<Rightarrow> rc \<Rightarrow> rc \<Rightarrow> bool \<Rightarrow> rwlock_handle option \<Rightarrow> rwlock_handle option \<times> rc" where
  "pthread_rwlock_init alloc mtx1_rc mtx2_rc cond_rc attr rwlock =
     (case rwlock of
        None \<Rightarrow> (None, EINVAL)
      | Some _ \<Rightarrow>
          if attr then (Some RwNull, EINVAL)
          else if \<not> alloc then (Some RwNull, ENOMEM)
          else if mtx1_rc \<noteq> OK then (Some RwNull, mtx1_rc)
          else if mtx2_rc \<noteq> OK then (Some RwNull, mtx2_rc)
          else if cond_rc \<noteq> OK then (Some RwNull, cond_rc)
          else (Some (RwObject True new_rwlock), OK))"

definition ptw32_rwlock_check_need_init :: "rwlock_handle \<Rightarrow> rwlock_handle \<times> rc" where
  "ptw32_rwlock_check_need_init rwlock =
     (case rwlock of
        RwInitializer \<Rightarrow>
          (case pthread_rwlock_init True OK OK OK False (Some rwlock) of
             (h, result) \<Rightarrow> (the h, result))
      | RwNull \<Rightarrow> (rwlock, EINVAL)
      | RwObject _ _ \<Rightarrow> (rwlock, OK))"

text \<open>The entry of the lock operations: a usable object or the error to return.\<close>

definition rwlock_entry :: "rwlock_handle option \<Rightarrow> rwlock_handle option \<times> (rc + rwlock)" where
  "rwlock_entry rwlock =
     (case rwlock of
        None \<Rightarrow> (None, Inl EINVAL)
      | Some RwNull \<Rightarrow> (rwlock, Inl EINVAL)
      | Some h \<Rightarrow>
          (case (if h = RwInitializer then ptw32_rwlock_check_need_init h else (h, OK)) of
             (h', result) \<Rightarrow>
               if result \<noteq> OK \<and> result \<noteq> EBUSY then (Some h', Inl result)
               else (case h' of
                       RwObject magic rwl \<Rightarrow>
                         if \<not> magic then (Some h', Inl EINVAL) else (Some h', Inr rwl)
                     | _ \<Rightarrow> (Some h', Inl EINVAL))))"

text \<open>
  \<open>pthread_rwlock_destroy\<close>; the outer \<open>None\<close> means that it blocks, because it locks both
  mutexes before it looks at the counters.
\<close>

definition pthread_rwlock_destroy ::
  "rwlock_handle option \<Rightarrow> (rwlock_handle option \<times> rc) option" where
  "pthread_rwlock_destroy rwlock =
     (case rwlock of
        None \<Rightarrow> Some (None, EINVAL)
      | Some RwNull \<Rightarrow> Some (rwlock, EINVAL)
      | Some RwInitializer \<Rightarrow> Some (Some RwNull, OK)
      | Some (RwObject magic rwl) \<Rightarrow>
          if \<not> magic then Some (rwlock, EINVAL)
          else if mtx_exclusive rwl \<noteq> None \<or> mtx_completed rwl \<noteq> None then None
          else if nExclusive rwl > 0 \<or> nShared rwl > nCompleted rwl then Some (rwlock, EBUSY)
          else Some (Some RwNull, OK))"

subsection \<open>The counters\<close>

text \<open>\<open>++rwl->nSharedAccessCount == INT_MAX\<close>\<close>

definition count_reader :: "rwlock \<Rightarrow> rwlock \<times> bool" where
  "count_reader rwl =
     (let rwl = rwl\<lparr>nShared := nShared rwl + 1\<rparr> in (rwl, nShared rwl = INT_MAX))"

definition settle_readers :: "rwlock \<Rightarrow> rwlock" where
  "settle_readers rwl =
     rwl\<lparr>nShared := nShared rwl - nCompleted rwl, nCompleted := 0\<rparr>"

text \<open>What a writer does with both mutexes: True if it has to wait for readers.\<close>

definition wrlock_decide :: "rwlock \<Rightarrow> rwlock \<times> bool" where
  "wrlock_decide rwl =
     (if nExclusive rwl = 0 then
        (let rwl = (if nCompleted rwl > 0 then settle_readers rwl else rwl)
         in if nShared rwl > 0 then (rwl\<lparr>nCompleted := - nShared rwl\<rparr>, True)
            else (rwl\<lparr>nExclusive := nExclusive rwl + 1\<rparr>, False))
      else (rwl\<lparr>nExclusive := nExclusive rwl + 1\<rparr>, False))"

text \<open>The end of a successful wait.\<close>

definition wrlock_resume :: "rwlock \<Rightarrow> rwlock" where
  "wrlock_resume rwl = rwl\<lparr>nShared := 0, nExclusive := nExclusive rwl + 1\<rparr>"

definition ptw32_rwlock_cancelwrwait :: "rwlock \<Rightarrow> rwlock" where
  "ptw32_rwlock_cancelwrwait rwl =
     rwl\<lparr>nShared := - nCompleted rwl, nCompleted := 0, mtx_completed := None,
         mtx_exclusive := None\<rparr>"

text \<open>\<open>pthread_rwlock_trywrlock\<close> with both mutexes: the object, EBUSY or OK, and whether the mutexes are released.\<close>

definition trywrlock_decide :: "rwlock \<Rightarrow> rwlock \<times> rc \<times> bool" where
  "trywrlock_decide rwl =
     (if nExclusive rwl = 0 then
        (let rwl = (if nCompleted rwl > 0 then settle_readers rwl else rwl)
         in if nShared rwl > 0 then (rwl, EBUSY, True)
            else (rwl\<lparr>nExclusive := 1\<rparr>, OK, False))
      else (rwl, EBUSY, False))"

text \<open>\<open>++rwl->nCompletedSharedAccessCount == 0\<close>: whether to signal the writer.\<close>

definition finish_reader :: "rwlock \<Rightarrow> rwlock \<times> bool" where
  "finish_reader rwl =
     (let rwl = rwl\<lparr>nCompleted := nCompleted rwl + 1\<rparr> in (rwl, nCompleted rwl = 0))"

subsection \<open>Threads\<close>

text \<open>
  Where a thread is: outside; a reader that has to settle the counters first
  (\<open>RdSettle\<close>), that reads, or that is about to count itself finished (\<open>RdLeave\<close>); a
  writer that has the first mutex (\<open>WrEnter\<close>, or \<open>WrTry\<close> in \<open>trywrlock\<close>), that waits on
  the condition variable, that writes, or that has released the second mutex
  (\<open>WrLeave\<close>).
\<close>

datatype rw_pc =
  RwOut | RdSettle | Reading | RdLeave | WrEnter | WrTry | WrWait | Writing | WrLeave

record rw_system =
  rwl :: rwlock
  rw_pc :: "nat \<Rightarrow> rw_pc"
  signalled :: bool

text \<open>
  \<open>N\<close> bounds the thread numbers; \<open>T\<close> allows \<open>pthread_rwlock_timedrdlock\<close> to time
  out while it waits to settle the counters.
\<close>

inductive rw_step :: "bool \<Rightarrow> nat \<Rightarrow> rw_system \<Rightarrow> nat \<Rightarrow> rw_system \<Rightarrow> bool" for T N where
  rdlock: "t < N \<Longrightarrow> rw_pc s t = RwOut \<Longrightarrow> mtx_exclusive (rwl s) = None \<Longrightarrow>
      count_reader (rwl s) = (l, False) \<Longrightarrow>
    rw_step T N s t (s\<lparr>rwl := l, rw_pc := (rw_pc s)(t := Reading)\<rparr>)"
| rdlock_full: "t < N \<Longrightarrow> rw_pc s t = RwOut \<Longrightarrow> mtx_exclusive (rwl s) = None \<Longrightarrow>
      count_reader (rwl s) = (l, True) \<Longrightarrow>
    rw_step T N s t (s\<lparr>rwl := l\<lparr>mtx_exclusive := Some t\<rparr>, rw_pc := (rw_pc s)(t := RdSettle)\<rparr>)"
| settle: "t < N \<Longrightarrow> rw_pc s t = RdSettle \<Longrightarrow> mtx_completed (rwl s) = None \<Longrightarrow>
    rw_step T N s t (s\<lparr>rwl := (settle_readers (rwl s))\<lparr>mtx_exclusive := None\<rparr>,
                     rw_pc := (rw_pc s)(t := Reading)\<rparr>)"
| settle_timeout: "T \<Longrightarrow> t < N \<Longrightarrow> rw_pc s t = RdSettle \<Longrightarrow>
    rw_step T N s t (s\<lparr>rwl := (rwl s)\<lparr>nCompleted := nCompleted (rwl s) + 1, mtx_exclusive := None\<rparr>,
                     rw_pc := (rw_pc s)(t := RwOut)\<rparr>)"
| unlock_reader: "t < N \<Longrightarrow> rw_pc s t \<in> {Reading, Writing} \<Longrightarrow> nExclusive (rwl s) = 0 \<Longrightarrow>
    rw_step T N s t (s\<lparr>rw_pc := (rw_pc s)(t := RdLeave)\<rparr>)"
| finish: "t < N \<Longrightarrow> rw_pc s t = RdLeave \<Longrightarrow> mtx_completed (rwl s) = None \<Longrightarrow>
      finish_reader (rwl s) = (l, signal) \<Longrightarrow>
    rw_step T N s t (s\<lparr>rwl := l, rw_pc := (rw_pc s)(t := RwOut), signalled := signalled s \<or> signal\<rparr>)"
| unlock_writer: "t < N \<Longrightarrow> rw_pc s t \<in> {Reading, Writing} \<Longrightarrow> nExclusive (rwl s) \<noteq> 0 \<Longrightarrow>
    rw_step T N s t (s\<lparr>rwl := (rwl s)\<lparr>nExclusive := nExclusive (rwl s) - 1, mtx_completed := None\<rparr>,
                     rw_pc := (rw_pc s)(t := WrLeave)\<rparr>)"
| leave_writer: "t < N \<Longrightarrow> rw_pc s t = WrLeave \<Longrightarrow>
    rw_step T N s t (s\<lparr>rwl := (rwl s)\<lparr>mtx_exclusive := None\<rparr>, rw_pc := (rw_pc s)(t := RwOut)\<rparr>)"
| wrlock: "t < N \<Longrightarrow> rw_pc s t = RwOut \<Longrightarrow> mtx_exclusive (rwl s) = None \<Longrightarrow> c \<in> {WrEnter, WrTry} \<Longrightarrow>
    rw_step T N s t (s\<lparr>rwl := (rwl s)\<lparr>mtx_exclusive := Some t\<rparr>, rw_pc := (rw_pc s)(t := c)\<rparr>)"
| wrlock_gives_up: "t < N \<Longrightarrow> rw_pc s t \<in> {WrEnter, WrTry} \<Longrightarrow>
    rw_step T N s t (s\<lparr>rwl := (rwl s)\<lparr>mtx_exclusive := None\<rparr>, rw_pc := (rw_pc s)(t := RwOut)\<rparr>)"
| wrlock_waits: "t < N \<Longrightarrow> rw_pc s t = WrEnter \<Longrightarrow> mtx_completed (rwl s) = None \<Longrightarrow>
      wrlock_decide (rwl s) = (l, True) \<Longrightarrow>
    rw_step T N s t (s\<lparr>rwl := l, rw_pc := (rw_pc s)(t := WrWait), signalled := False\<rparr>)"
| wrlock_enters: "t < N \<Longrightarrow> rw_pc s t = WrEnter \<Longrightarrow> mtx_completed (rwl s) = None \<Longrightarrow>
      wrlock_decide (rwl s) = (l, False) \<Longrightarrow>
    rw_step T N s t (s\<lparr>rwl := l\<lparr>mtx_completed := Some t\<rparr>, rw_pc := (rw_pc s)(t := Writing)\<rparr>)"
| wakes: "t < N \<Longrightarrow> rw_pc s t = WrWait \<Longrightarrow> mtx_completed (rwl s) = None \<Longrightarrow>
      \<not> nCompleted (rwl s) < 0 \<Longrightarrow>
    rw_step T N s t (s\<lparr>rwl := (wrlock_resume (rwl s))\<lparr>mtx_completed := Some t\<rparr>,
                     rw_pc := (rw_pc s)(t := Writing)\<rparr>)"
| cancelled: "t < N \<Longrightarrow> rw_pc s t = WrWait \<Longrightarrow> mtx_completed (rwl s) = None \<Longrightarrow>
    rw_step T N s t (s\<lparr>rwl := ptw32_rwlock_cancelwrwait (rwl s), rw_pc := (rw_pc s)(t := RwOut)\<rparr>)"
| trywrlock: "t < N \<Longrightarrow> rw_pc s t = WrTry \<Longrightarrow> mtx_completed (rwl s) = None \<Longrightarrow>
      trywrlock_decide (rwl s) = (l, r, release) \<Longrightarrow>
    rw_step T N s t (s\<lparr>rwl := (if release then l\<lparr>mtx_exclusive := None\<rparr> else l\<lparr>mtx_completed := Some t\<rparr>),
                     rw_pc := (rw_pc s)(t := if r = OK then Writing else RwOut)\<rparr>)"

inductive rw_reachable :: "bool \<Rightarrow> nat \<Rightarrow> rw_system \<Rightarrow> bool" for T N where
  start: "rw_reachable T N \<lparr>rwl = new_rwlock, rw_pc = (\<lambda>t. RwOut), signalled = False\<rparr>"
| step: "rw_reachable T N s \<Longrightarrow> rw_step T N s t s' \<Longrightarrow> rw_reachable T N s'"

text \<open>
  The runs in which the shared count stays an \<open>int\<close> of the C code. Only a timed read lock that
  times out while it settles the counters can lead out of them.
\<close>

inductive rw_within :: "bool \<Rightarrow> nat \<Rightarrow> rw_system \<Rightarrow> bool" for T N where
  within_start: "rw_within T N \<lparr>rwl = new_rwlock, rw_pc = (\<lambda>t. RwOut), signalled = False\<rparr>"
| within_step: "rw_within T N s \<Longrightarrow> rw_step T N s t s' \<Longrightarrow> nShared (rwl s') \<le> INT_MAX \<Longrightarrow> rw_within T N s'"

subsection \<open>The invariant\<close>

fun is_reader :: "rw_pc \<Rightarrow> int" where
  "is_reader RdSettle = 1" | "is_reader Reading = 1" | "is_reader RdLeave = 1" | "is_reader _ = 0"

text \<open>The number of threads that have counted themselves in and not yet finished.\<close>

definition readers :: "nat \<Rightarrow> rw_system \<Rightarrow> int" where
  "readers N s = (\<Sum>t<N. is_reader (rw_pc s t))"

definition has_exclusive :: "rw_pc \<Rightarrow> bool" where
  "has_exclusive c \<longleftrightarrow> c \<in> {RdSettle, WrEnter, WrTry, WrWait, Writing, WrLeave}"

definition quiet :: "rwlock \<Rightarrow> int \<Rightarrow> bool" where
  "quiet l r \<longleftrightarrow>
     mtx_completed l = None \<and> nExclusive l = 0 \<and> nShared l - nCompleted l = r \<and> 0 \<le> nCompleted l"

text \<open>What holds of the object, by the program point of the thread with the first mutex.\<close>

definition owner_ok :: "rwlock \<Rightarrow> int \<Rightarrow> bool \<Rightarrow> nat \<Rightarrow> rw_pc \<Rightarrow> bool" where
  "owner_ok l r sig u c \<longleftrightarrow>
     (case c of
        RdSettle \<Rightarrow> quiet l r \<and> nShared l = INT_MAX
      | WrEnter \<Rightarrow> quiet l r \<and> nShared l \<le> INT_MAX
      | WrTry \<Rightarrow> quiet l r \<and> nShared l \<le> INT_MAX
      | WrWait \<Rightarrow> mtx_completed l = None \<and> nExclusive l = 0 \<and> nCompleted l = - r \<and>
                  0 < nShared l \<and> nShared l \<le> INT_MAX \<and> (nCompleted l = 0 \<longrightarrow> sig)
      | Writing \<Rightarrow> mtx_completed l = Some u \<and> nExclusive l = 1 \<and> r = 0 \<and> nShared l = 0 \<and>
                   nCompleted l = 0
      | WrLeave \<Rightarrow> mtx_completed l = None \<and> nExclusive l = 0 \<and> r = 0 \<and> nShared l = 0 \<and>
                   nCompleted l = 0
      | _ \<Rightarrow> False)"

definition rw_inv :: "nat \<Rightarrow> rw_system \<Rightarrow> bool" where
  "rw_inv N s \<longleftrightarrow>
     (\<forall>t. has_exclusive (rw_pc s t) \<longleftrightarrow> mtx_exclusive (rwl s) = Some t) \<and>
     (\<forall>t. rw_pc s t \<noteq> RwOut \<longrightarrow> t < N) \<and>
     (case mtx_exclusive (rwl s) of
        None \<Rightarrow> quiet (rwl s) (readers N s) \<and> nShared (rwl s) \<le> INT_MAX
      | Some u \<Rightarrow> owner_ok (rwl s) (readers N s) (signalled s) u (rw_pc s u))"

lemma readers_update:
  assumes "t < N"
  shows "(\<Sum>i<N. is_reader (((rw_pc s)(t := c)) i)) = readers N s - is_reader (rw_pc s t) + is_reader c"
proof -
  have "(\<Sum>i\<in>{..<N} - {t}. is_reader (((rw_pc s)(t := c)) i)) = (\<Sum>i\<in>{..<N} - {t}. is_reader (rw_pc s i))"
    by (rule sum.cong) auto
  then show ?thesis
    using assms by (simp add: readers_def sum.remove [of "{..<N}" t])
qed

lemma is_reader_nonneg: "0 \<le> is_reader c"
  by (cases c) auto

lemma readers_nonneg: "0 \<le> readers N s"
  by (simp add: readers_def sum_nonneg is_reader_nonneg)

lemma readers_pos:
  assumes "t < N" and "is_reader (rw_pc s t) = 1"
  shows "1 \<le> readers N s"
  using assms member_le_sum [of t "{..<N}" "\<lambda>t. is_reader (rw_pc s t)"]
  by (simp add: readers_def is_reader_nonneg)

lemma readers_le: "readers N s \<le> int N"
proof -
  have "is_reader c \<le> 1" for c by (cases c) auto
  then have "readers N s \<le> (\<Sum>t<N. 1)" unfolding readers_def by (intro sum_mono) simp
  then show ?thesis by simp
qed

text \<open>A step of one thread, in terms of what it changes.\<close>

lemma rw_invI:
  assumes inv: "rw_inv N s" and t: "t < N"
    and own: "has_exclusive c \<Longrightarrow> has_exclusive (rw_pc s t) \<or> mtx_exclusive (rwl s) = None"
      "mtx_exclusive l = (if has_exclusive c then Some t
         else if has_exclusive (rw_pc s t) then None else mtx_exclusive (rwl s))"
    and r: "r = readers N s - is_reader (rw_pc s t) + is_reader c"
    and ok: "case mtx_exclusive l of
        None \<Rightarrow> quiet l r \<and> nShared l \<le> INT_MAX
      | Some u \<Rightarrow> owner_ok l r g u (if u = t then c else rw_pc s u)"
  shows "rw_inv N (s\<lparr>rwl := l, rw_pc := (rw_pc s)(t := c), signalled := g\<rparr>)"
proof -
  let ?s = "s\<lparr>rwl := l, rw_pc := (rw_pc s)(t := c), signalled := g\<rparr>"
  have excl: "has_exclusive (rw_pc s u) \<longleftrightarrow> mtx_exclusive (rwl s) = Some u" for u
    using inv by (simp add: rw_inv_def)
  have "readers N ?s = r"
    using readers_update [OF t, of s c] r by (simp add: readers_def)
  moreover have "has_exclusive (rw_pc ?s u) \<longleftrightarrow> mtx_exclusive l = Some u" for u
  proof (cases "u = t")
    case True
    with excl [of t] own show ?thesis by (cases "has_exclusive c") auto
  next
    case False
    with excl [of t] excl [of u] own show ?thesis by (auto split: if_splits)
  qed
  moreover have "\<forall>u. rw_pc ?s u \<noteq> RwOut \<longrightarrow> u < N"
    using inv t by (simp add: rw_inv_def)
  moreover have "case mtx_exclusive l of
        None \<Rightarrow> quiet l r \<and> nShared l \<le> INT_MAX
      | Some u \<Rightarrow> owner_ok l r g u (rw_pc ?s u)"
    using ok by (cases "mtx_exclusive l") (auto split: if_splits)
  ultimately show ?thesis
    unfolding rw_inv_def by (cases "mtx_exclusive l") simp_all
qed

lemma rw_inv_free:
  "rw_inv N s \<Longrightarrow> mtx_exclusive (rwl s) = None \<Longrightarrow> quiet (rwl s) (readers N s) \<and> nShared (rwl s) \<le> INT_MAX"
  by (simp add: rw_inv_def)

lemma rw_inv_owner:
  assumes "rw_inv N s" and "has_exclusive (rw_pc s t)"
  shows "mtx_exclusive (rwl s) = Some t" and "owner_ok (rwl s) (readers N s) (signalled s) t (rw_pc s t)"
proof -
  show e: "mtx_exclusive (rwl s) = Some t" using assms by (simp add: rw_inv_def)
  then show "owner_ok (rwl s) (readers N s) (signalled s) t (rw_pc s t)"
    using assms(1) by (simp add: rw_inv_def)
qed

text \<open>While there is a reader, nobody writes; its program point does not own the first mutex.\<close>

lemma rw_inv_reader:
  assumes inv: "rw_inv N s" and t: "rw_pc s t \<in> {Reading, RdLeave}"
  shows "nExclusive (rwl s) = 0" and "1 \<le> readers N s"
    and "(case mtx_exclusive (rwl s) of
            None \<Rightarrow> quiet (rwl s) (readers N s) \<and> nShared (rwl s) \<le> INT_MAX
          | Some u \<Rightarrow> owner_ok (rwl s) (readers N s) (signalled s) u (rw_pc s u) \<and> u \<noteq> t \<and>
                      rw_pc s u \<in> {RdSettle, WrEnter, WrTry, WrWait})"
proof -
  have "t < N" using inv t by (auto simp: rw_inv_def)
  then show r: "1 \<le> readers N s" using t by (intro readers_pos) auto
  have "\<not> has_exclusive (rw_pc s t)" using t by (auto simp: has_exclusive_def)
  then have u: "mtx_exclusive (rwl s) \<noteq> Some t" using inv by (simp add: rw_inv_def)
  show c: "(case mtx_exclusive (rwl s) of
            None \<Rightarrow> quiet (rwl s) (readers N s) \<and> nShared (rwl s) \<le> INT_MAX
          | Some u \<Rightarrow> owner_ok (rwl s) (readers N s) (signalled s) u (rw_pc s u) \<and> u \<noteq> t \<and>
                      rw_pc s u \<in> {RdSettle, WrEnter, WrTry, WrWait})"
  proof (cases "mtx_exclusive (rwl s)")
    case None
    then show ?thesis using rw_inv_free [OF inv] by simp
  next
    case (Some v)
    then have "owner_ok (rwl s) (readers N s) (signalled s) v (rw_pc s v)"
      using inv by (simp add: rw_inv_def)
    then show ?thesis using Some u r by (cases "rw_pc s v") (auto simp: owner_ok_def)
  qed
  then show "nExclusive (rwl s) = 0"
    by (auto simp: quiet_def owner_ok_def split: option.splits)
qed

lemma rw_inv_step:
  assumes "rw_step T N s t s'" and "rw_inv N s" and "int N < INT_MAX"
    and "nShared (rwl s') \<le> INT_MAX"
  shows "rw_inv N s'"
  using assms
proof (induction rule: rw_step.induct)
  case (rdlock t s l)
  note q = rw_inv_free [OF rdlock(5,3)]
  have "rw_inv N (s\<lparr>rwl := l, rw_pc := (rw_pc s)(t := Reading), signalled := signalled s\<rparr>)"
    by (rule rw_invI [OF rdlock(5,1)])
      (use q rdlock in \<open>auto simp: has_exclusive_def count_reader_def quiet_def Let_def\<close>)
  then show ?case by simp
next
  case (rdlock_full t s l)
  note q = rw_inv_free [OF rdlock_full(5,3)]
  have "rw_inv N (s\<lparr>rwl := l\<lparr>mtx_exclusive := Some t\<rparr>, rw_pc := (rw_pc s)(t := RdSettle),
      signalled := signalled s\<rparr>)"
    by (rule rw_invI [OF rdlock_full(5,1)])
      (use q rdlock_full in \<open>auto simp: has_exclusive_def count_reader_def quiet_def owner_ok_def Let_def\<close>)
  then show ?case by simp
next
  case (settle t s)
  have "has_exclusive (rw_pc s t)" using settle(2) by (simp add: has_exclusive_def)
  note o = rw_inv_owner [OF settle(4) this]
  have "rw_inv N (s\<lparr>rwl := (settle_readers (rwl s))\<lparr>mtx_exclusive := None\<rparr>,
      rw_pc := (rw_pc s)(t := Reading), signalled := signalled s\<rparr>)"
    by (rule rw_invI [OF settle(4,1)])
      (use o settle readers_le [of N s] in
        \<open>auto simp: has_exclusive_def settle_readers_def quiet_def owner_ok_def\<close>)
  then show ?case by simp
next
  case (settle_timeout t s)
  have "has_exclusive (rw_pc s t)" using settle_timeout(3) by (simp add: has_exclusive_def)
  note o = rw_inv_owner [OF settle_timeout(4) this]
  have "rw_inv N (s\<lparr>rwl := (rwl s)\<lparr>nCompleted := nCompleted (rwl s) + 1, mtx_exclusive := None\<rparr>,
      rw_pc := (rw_pc s)(t := RwOut), signalled := signalled s\<rparr>)"
    by (rule rw_invI [OF settle_timeout(4,2)])
      (use o settle_timeout in \<open>auto simp: has_exclusive_def quiet_def owner_ok_def\<close>)
  then show ?case by simp
next
  case (unlock_reader t s)
  have "rw_pc s t \<noteq> Writing"
    using rw_inv_owner(2) [OF unlock_reader(4), of t] unlock_reader(3)
    by (auto simp: has_exclusive_def owner_ok_def)
  then have rd: "rw_pc s t = Reading" using unlock_reader(2) by simp
  then have "rw_pc s t \<in> {Reading, RdLeave}" by simp
  note c = rw_inv_reader(3) [OF unlock_reader(4) this]
  have "rw_inv N (s\<lparr>rwl := rwl s, rw_pc := (rw_pc s)(t := RdLeave), signalled := signalled s\<rparr>)"
    by (rule rw_invI [OF unlock_reader(4,1)])
      (use c rd in \<open>auto simp: has_exclusive_def split: option.splits\<close>)
  then show ?case by simp
next
  case (finish t s l signal)
  then have rd: "rw_pc s t \<in> {Reading, RdLeave}" by simp
  note c = rw_inv_reader(3) [OF finish(5) rd]
  have "rw_inv N (s\<lparr>rwl := l, rw_pc := (rw_pc s)(t := RwOut), signalled := signalled s \<or> signal\<rparr>)"
    by (rule rw_invI [OF finish(5,1)])
      (use c finish(2-4) in \<open>auto simp: has_exclusive_def finish_reader_def quiet_def owner_ok_def
        Let_def split: option.splits\<close>)
  then show ?case .
next
  case (unlock_writer t s)
  have "rw_pc s t \<noteq> Reading"
    using rw_inv_reader(1) [OF unlock_writer(4), of t] unlock_writer(3) by auto
  then have wr: "rw_pc s t = Writing" using unlock_writer(2) by simp
  then have "has_exclusive (rw_pc s t)" by (simp add: has_exclusive_def)
  note o = rw_inv_owner [OF unlock_writer(4) this]
  have "rw_inv N (s\<lparr>rwl := (rwl s)\<lparr>nExclusive := nExclusive (rwl s) - 1, mtx_completed := None\<rparr>,
      rw_pc := (rw_pc s)(t := WrLeave), signalled := signalled s\<rparr>)"
    by (rule rw_invI [OF unlock_writer(4,1)]) (use o wr in \<open>auto simp: has_exclusive_def owner_ok_def\<close>)
  then show ?case by simp
next
  case (leave_writer t s)
  then have "has_exclusive (rw_pc s t)" by (simp add: has_exclusive_def)
  note o = rw_inv_owner [OF leave_writer(3) this]
  have "rw_inv N (s\<lparr>rwl := (rwl s)\<lparr>mtx_exclusive := None\<rparr>,
      rw_pc := (rw_pc s)(t := RwOut), signalled := signalled s\<rparr>)"
    by (rule rw_invI [OF leave_writer(3,1)])
      (use o leave_writer(2) in \<open>auto simp: has_exclusive_def owner_ok_def quiet_def INT_MAX_def\<close>)
  then show ?case by simp
next
  case (wrlock t s c)
  note q = rw_inv_free [OF wrlock(5,3)]
  have "rw_inv N (s\<lparr>rwl := (rwl s)\<lparr>mtx_exclusive := Some t\<rparr>,
      rw_pc := (rw_pc s)(t := c), signalled := signalled s\<rparr>)"
    by (rule rw_invI [OF wrlock(5,1)])
      (use q wrlock(2-4) in \<open>auto simp: has_exclusive_def owner_ok_def quiet_def\<close>)
  then show ?case by simp
next
  case (wrlock_gives_up t s)
  then have "has_exclusive (rw_pc s t)" by (auto simp: has_exclusive_def)
  note o = rw_inv_owner [OF wrlock_gives_up(3) this]
  have "rw_inv N (s\<lparr>rwl := (rwl s)\<lparr>mtx_exclusive := None\<rparr>,
      rw_pc := (rw_pc s)(t := RwOut), signalled := signalled s\<rparr>)"
    by (rule rw_invI [OF wrlock_gives_up(3,1)])
      (use o wrlock_gives_up(2) in \<open>auto simp: has_exclusive_def owner_ok_def quiet_def\<close>)
  then show ?case by simp
next
  case (wrlock_waits t s l)
  then have "has_exclusive (rw_pc s t)" by (auto simp: has_exclusive_def)
  note o = rw_inv_owner [OF wrlock_waits(5) this]
  show ?case
    by (rule rw_invI [OF wrlock_waits(5,1)])
      (use o wrlock_waits(2-4) in \<open>auto simp: has_exclusive_def owner_ok_def quiet_def
        wrlock_decide_def settle_readers_def Let_def split: if_splits\<close>)
next
  case (wrlock_enters t s l)
  then have "has_exclusive (rw_pc s t)" by (auto simp: has_exclusive_def)
  note o = rw_inv_owner [OF wrlock_enters(5) this]
  have "rw_inv N (s\<lparr>rwl := l\<lparr>mtx_completed := Some t\<rparr>,
      rw_pc := (rw_pc s)(t := Writing), signalled := signalled s\<rparr>)"
    by (rule rw_invI [OF wrlock_enters(5,1)])
      (use o wrlock_enters(2-4) readers_nonneg [of N s] in \<open>auto simp: has_exclusive_def owner_ok_def
        quiet_def wrlock_decide_def settle_readers_def Let_def split: if_splits\<close>)
  then show ?case by simp
next
  case (wakes t s)
  then have "has_exclusive (rw_pc s t)" by (auto simp: has_exclusive_def)
  note o = rw_inv_owner [OF wakes(5) this]
  have "rw_inv N (s\<lparr>rwl := (wrlock_resume (rwl s))\<lparr>mtx_completed := Some t\<rparr>,
      rw_pc := (rw_pc s)(t := Writing), signalled := signalled s\<rparr>)"
    by (rule rw_invI [OF wakes(5,1)])
      (use o wakes(2-4) readers_nonneg [of N s] in \<open>auto simp: has_exclusive_def owner_ok_def
        quiet_def wrlock_resume_def\<close>)
  then show ?case by simp
next
  case (cancelled t s)
  then have "has_exclusive (rw_pc s t)" by (auto simp: has_exclusive_def)
  note o = rw_inv_owner [OF cancelled(4) this]
  have "rw_inv N (s\<lparr>rwl := ptw32_rwlock_cancelwrwait (rwl s),
      rw_pc := (rw_pc s)(t := RwOut), signalled := signalled s\<rparr>)"
    by (rule rw_invI [OF cancelled(4,1)])
      (use o cancelled(2,5) readers_le [of N s] in \<open>auto simp: has_exclusive_def owner_ok_def
        quiet_def ptw32_rwlock_cancelwrwait_def\<close>)
  then show ?case by simp
next
  case (trywrlock t s l r release)
  then have "has_exclusive (rw_pc s t)" by (auto simp: has_exclusive_def)
  note o = rw_inv_owner [OF trywrlock(5) this]
  have "rw_inv N (s\<lparr>rwl := (if release then l\<lparr>mtx_exclusive := None\<rparr> else l\<lparr>mtx_completed := Some t\<rparr>),
      rw_pc := (rw_pc s)(t := if r = OK then Writing else RwOut), signalled := signalled s\<rparr>)"
    by (rule rw_invI [OF trywrlock(5,1)])
      (use o trywrlock(2-4,6) readers_nonneg [of N s] readers_le [of N s] in
        \<open>auto simp: has_exclusive_def owner_ok_def quiet_def trywrlock_decide_def settle_readers_def
          Let_def split: if_splits\<close>)
  then show ?case by simp
qed

lemma rw_inv_start: "rw_inv N \<lparr>rwl = new_rwlock, rw_pc = (\<lambda>t. RwOut), signalled = False\<rparr>"
  by (simp add: rw_inv_def new_rwlock_def quiet_def readers_def has_exclusive_def INT_MAX_def)

lemma rw_inv_within: "rw_within T N s \<Longrightarrow> int N < INT_MAX \<Longrightarrow> rw_inv N s"
proof (induction rule: rw_within.induct)
  case (within_step s t s')
  then show ?case using rw_inv_step by blast
qed (rule rw_inv_start)

text \<open>What the invariant says of the counters.\<close>

lemma rw_inv_counters:
  assumes "rw_inv N s" and "int N < INT_MAX"
  shows "0 \<le> nShared (rwl s)" and "nShared (rwl s) \<le> INT_MAX"
    and "\<bar>nCompleted (rwl s)\<bar> \<le> INT_MAX" and "nExclusive (rwl s) \<in> {0, 1}"
proof -
  have "0 \<le> nShared (rwl s) \<and> nShared (rwl s) \<le> INT_MAX \<and> \<bar>nCompleted (rwl s)\<bar> \<le> INT_MAX \<and>
      nExclusive (rwl s) \<in> {0, 1}"
  proof (cases "mtx_exclusive (rwl s)")
    case None
    from rw_inv_free [OF assms(1) this] show ?thesis
      using readers_nonneg [of N s] by (auto simp: quiet_def)
  next
    case (Some u)
    then have "owner_ok (rwl s) (readers N s) (signalled s) u (rw_pc s u)"
      using assms(1) by (simp add: rw_inv_def)
    then show ?thesis
      using readers_nonneg [of N s] readers_le [of N s] assms(2)
      by (cases "rw_pc s u") (auto simp: owner_ok_def quiet_def INT_MAX_def)
  qed
  then show "0 \<le> nShared (rwl s)" and "nShared (rwl s) \<le> INT_MAX"
    and "\<bar>nCompleted (rwl s)\<bar> \<le> INT_MAX" and "nExclusive (rwl s) \<in> {0, 1}" by simp_all
qed

text \<open>Without such a timeout only the reader that settles the counters sees the count at INT_MAX.\<close>

definition rw_below :: "rw_system \<Rightarrow> bool" where
  "rw_below s \<longleftrightarrow> nShared (rwl s) < INT_MAX \<or> (\<exists>u. rw_pc s u = RdSettle)"

lemma rw_below_keep:
  assumes "rw_below s" and "rw_pc s t \<noteq> RdSettle" and "nShared l \<le> nShared (rwl s)"
  shows "rw_below (s\<lparr>rwl := l, rw_pc := (rw_pc s)(t := c), signalled := g\<rparr>)"
  using assms by (auto simp: rw_below_def)

lemma rw_below_free:
  assumes "rw_below s" and "rw_inv N s" and "mtx_exclusive (rwl s) = None"
  shows "nShared (rwl s) < INT_MAX"
  using assms by (auto simp: rw_below_def rw_inv_def has_exclusive_def)

lemma rw_below_step:
  assumes "rw_step False N s t s'" and "rw_inv N s" and "int N < INT_MAX" and "rw_below s"
  shows "rw_below s' \<and> nShared (rwl s') \<le> INT_MAX"
  using assms
proof (induction rule: rw_step.induct)
  case (rdlock t s l)
  then show ?case
    using rw_below_free [of s N] by (auto simp: rw_below_def count_reader_def Let_def)
next
  case (rdlock_full t s l)
  then show ?case by (auto simp: rw_below_def count_reader_def Let_def)
next
  case (settle t s)
  then have "has_exclusive (rw_pc s t)" by (simp add: has_exclusive_def)
  from rw_inv_owner(2) [OF settle(4) this] settle(2,5) readers_le [of N s] show ?case
    by (auto simp: rw_below_def settle_readers_def owner_ok_def quiet_def)
next
  case (unlock_reader t s)
  then show ?case
    using rw_below_keep [of s t "rwl s" "signalled s" RdLeave] rw_inv_counters(2) [of N s] by auto
next
  case (finish t s l signal)
  then show ?case
    using rw_below_keep [of s t l "signalled s \<or> signal" RwOut] rw_inv_counters(2) [of N s]
    by (auto simp: finish_reader_def Let_def)
next
  case (unlock_writer t s)
  then show ?case
    using rw_below_keep [of s t "(rwl s)\<lparr>nExclusive := nExclusive (rwl s) - 1, mtx_completed := None\<rparr>"
        "signalled s" WrLeave] rw_inv_counters(2) [of N s] by auto
next
  case (leave_writer t s)
  then show ?case
    using rw_below_keep [of s t "(rwl s)\<lparr>mtx_exclusive := None\<rparr>" "signalled s" RwOut]
      rw_inv_counters(2) [of N s] by auto
next
  case (wrlock t s c)
  then show ?case
    using rw_below_keep [of s t "(rwl s)\<lparr>mtx_exclusive := Some t\<rparr>" "signalled s" c]
      rw_inv_counters(2) [of N s] by auto
next
  case (wrlock_gives_up t s)
  then show ?case
    using rw_below_keep [of s t "(rwl s)\<lparr>mtx_exclusive := None\<rparr>" "signalled s" RwOut]
      rw_inv_counters(2) [of N s] by auto
next
  case (wrlock_waits t s l)
  then have "nShared l \<le> nShared (rwl s)"
    by (auto simp: wrlock_decide_def settle_readers_def Let_def split: if_splits)
  then show ?case
    using wrlock_waits rw_below_keep [of s t l False WrWait] rw_inv_counters(2) [of N s] by auto
next
  case (wrlock_enters t s l)
  then have "nShared l \<le> nShared (rwl s)"
    by (auto simp: wrlock_decide_def settle_readers_def Let_def split: if_splits)
  then show ?case
    using wrlock_enters rw_below_keep [of s t "l\<lparr>mtx_completed := Some t\<rparr>" "signalled s" Writing]
      rw_inv_counters(2) [of N s] by auto
next
  case (wakes t s)
  then show ?case by (auto simp: rw_below_def wrlock_resume_def INT_MAX_def)
next
  case (cancelled t s)
  then have "has_exclusive (rw_pc s t)" by (simp add: has_exclusive_def)
  from rw_inv_owner(2) [OF cancelled(4) this] cancelled(2,5) readers_le [of N s] show ?case
    by (auto simp: rw_below_def ptw32_rwlock_cancelwrwait_def owner_ok_def)
next
  case (trywrlock t s l r release)
  then have "nShared l \<le> nShared (rwl s)"
    by (auto simp: trywrlock_decide_def settle_readers_def Let_def split: if_splits)
  then show ?case
    using trywrlock rw_below_keep [of s t "if release then l\<lparr>mtx_exclusive := None\<rparr>
        else l\<lparr>mtx_completed := Some t\<rparr>" "signalled s" "if r = OK then Writing else RwOut"]
      rw_inv_counters(2) [of N s] by auto
qed simp

lemma rw_reachable_below:
  assumes "rw_reachable False N s" and "int N < INT_MAX"
  shows "rw_within False N s \<and> rw_below s"
  using assms
proof (induction rule: rw_reachable.induct)
  case start
  show ?case
    using rw_within.within_start by (auto simp: rw_below_def new_rwlock_def INT_MAX_def)
next
  case (step s t s')
  then have w: "rw_within False N s" and b: "rw_below s" by auto
  note n = rw_below_step [OF step.hyps(2) rw_inv_within [OF w step.prems] step.prems b]
  with rw_within.within_step [OF w step.hyps(2)] show ?case by simp
qed

lemma rw_inv_reachable: "rw_reachable False N s \<Longrightarrow> int N < INT_MAX \<Longrightarrow> rw_inv N s"
  using rw_reachable_below rw_inv_within by blast

subsection \<open>Properties\<close>


text \<open>
  C17: a writer that waits for readers is never forgotten: the counter is minus
  the number of readers that have still to finish, and when there are none the condition variable
  has been signalled and the test of the wait loop fails, so that the writer goes on.
\<close>

theorem rwlock_writer_wakes:
  assumes "rw_reachable False N s" and "int N < INT_MAX" and "rw_pc s t = WrWait"
  shows "nCompleted (rwl s) = - readers N s \<and>
         (readers N s = 0 \<longrightarrow> signalled s \<and>
            (\<exists>s'. rw_step False N s t s' \<and> rw_pc s' t = Writing))"
proof -
  note inv = rw_inv_reachable [OF assms(1,2)]
  have "has_exclusive (rw_pc s t)" using assms(3) by (simp add: has_exclusive_def)
  note o = rw_inv_owner [OF inv this]
  have t: "t < N" using inv assms(3) by (auto simp: rw_inv_def)
  have "\<exists>s'. rw_step False N s t s' \<and> rw_pc s' t = Writing" if "readers N s = 0"
  proof (intro exI conjI)
    show "rw_step False N s t (s\<lparr>rwl := (wrlock_resume (rwl s))\<lparr>mtx_completed := Some t\<rparr>,
        rw_pc := (rw_pc s)(t := Writing)\<rparr>)"
      by (rule rw_step.wakes) (use o(2) that assms(3) t in \<open>auto simp: owner_ok_def\<close>)
  qed simp
  then show ?thesis using o(2) assms(3) by (auto simp: owner_ok_def)
qed




text \<open>
  C36: \<open>pthread_rwlock_destroy\<close> never destroys a lock that is held: with
  readers alone it returns EBUSY, and while a thread writes or waits to write it blocks on the
  first mutex, so that its test of the writer count can never succeed.
\<close>

theorem rwlock_destroy_held:
  assumes "rw_reachable False N s" and "int N < INT_MAX"
    and "rw_pc s t \<in> {Reading, RdLeave, Writing, WrWait}"
  shows "pthread_rwlock_destroy (Some (RwObject True (rwl s))) =
           (if mtx_exclusive (rwl s) \<noteq> None then None
            else Some (Some (RwObject True (rwl s)), EBUSY)) \<and>
         (rw_pc s t \<in> {Writing, WrWait} \<longrightarrow> mtx_exclusive (rwl s) = Some t)"
proof -
  note inv = rw_inv_reachable [OF assms(1,2)]
  show ?thesis
  proof (cases "rw_pc s t \<in> {Writing, WrWait}")
    case True
    then have "has_exclusive (rw_pc s t)" by (auto simp: has_exclusive_def)
    from rw_inv_owner(1) [OF inv this] True show ?thesis
      by (simp add: pthread_rwlock_destroy_def)
  next
    case False
    then have "rw_pc s t \<in> {Reading, RdLeave}" using assms(3) by simp
    from rw_inv_reader(2,3) [OF inv this] False show ?thesis
      by (auto simp: pthread_rwlock_destroy_def quiet_def split: option.splits)
  qed
qed

subsection \<open>Witnesses\<close>

text \<open>One thread reads, then another asks for writing, and the first leaves.\<close>

definition rw0 :: rw_system where
  "rw0 = \<lparr>rwl = new_rwlock, rw_pc = (\<lambda>t. RwOut), signalled = False\<rparr>"
definition rw1 :: rw_system where
  "rw1 = rw0\<lparr>rwl := (rwl rw0)\<lparr>nShared := 1\<rparr>, rw_pc := (rw_pc rw0)(0 := Reading)\<rparr>"
definition rw2 :: rw_system where
  "rw2 = rw1\<lparr>rwl := (rwl rw1)\<lparr>mtx_exclusive := Some 1\<rparr>, rw_pc := (rw_pc rw1)(1 := WrEnter)\<rparr>"
definition rw3 :: rw_system where
  "rw3 = rw2\<lparr>rwl := (rwl rw2)\<lparr>nCompleted := -1\<rparr>, rw_pc := (rw_pc rw2)(1 := WrWait), signalled := False\<rparr>"
definition rw_w :: rw_system where
  "rw_w = rw0\<lparr>rwl := (rwl rw0)\<lparr>mtx_exclusive := Some 1, nExclusive := 1, mtx_completed := Some 1\<rparr>,
              rw_pc := (rw_pc rw0)(1 := Writing)\<rparr>"

lemma rw_samples:
  "rw_reachable False 2 rw1" "rw_reachable False 2 rw3" "rw_reachable False 2 rw_w"
proof -
  have r0: "rw_reachable False 2 rw0" unfolding rw0_def by (rule rw_reachable.start)
  have "rw_step False 2 rw0 0 rw1"
    unfolding rw1_def by (rule rw_step.rdlock)
      (simp_all add: rw0_def new_rwlock_def count_reader_def Let_def INT_MAX_def)
  with r0 show r1: "rw_reachable False 2 rw1" by (rule rw_reachable.step)
  have "rw_step False 2 rw1 1 rw2"
    unfolding rw2_def by (rule rw_step.wrlock) (simp_all add: rw1_def rw0_def new_rwlock_def)
  with r1 have r2: "rw_reachable False 2 rw2" by (rule rw_reachable.step)
  have "rw_step False 2 rw2 1 rw3"
    unfolding rw3_def by (rule rw_step.wrlock_waits)
      (simp_all add: rw2_def rw1_def rw0_def new_rwlock_def wrlock_decide_def Let_def)
  with r2 show "rw_reachable False 2 rw3" by (rule rw_reachable.step)
  let ?e = "rw0\<lparr>rwl := (rwl rw0)\<lparr>mtx_exclusive := Some 1\<rparr>, rw_pc := (rw_pc rw0)(1 := WrEnter)\<rparr>"
  have "rw_step False 2 rw0 1 ?e"
    by (rule rw_step.wrlock) (simp_all add: rw0_def new_rwlock_def)
  with r0 have re: "rw_reachable False 2 ?e" by (rule rw_reachable.step)
  have "rw_step False 2 ?e 1 rw_w"
    using rw_step.wrlock_enters [of 1 2 ?e "(rwl ?e)\<lparr>nExclusive := 1\<rparr>" False]
    by (simp add: rw_w_def rw0_def new_rwlock_def wrlock_decide_def Let_def)
  with re show "rw_reachable False 2 rw_w" by (rule rw_reachable.step)
qed


lemma rwlock_writer_wakes_witness:
  "rw_pc rw3 1 = WrWait \<and> nCompleted (rwl rw3) = - readers 2 rw3"
  using rwlock_writer_wakes [OF rw_samples(2), of 1] by (simp add: INT_MAX_def rw3_def)

lemma rwlock_destroy_held_witness:
  "pthread_rwlock_destroy (Some (RwObject True (rwl rw1))) = Some (Some (RwObject True (rwl rw1)), EBUSY)"
  using rwlock_destroy_held [OF rw_samples(1), of 0]
  by (simp add: INT_MAX_def rw1_def rw0_def new_rwlock_def)

end
