(* ===== verification/PT_Mcs.thy ===== *)
theory PT_Mcs
  imports Prelude
begin

text \<open>
  The MCS queue lock (\<open>src/pthreads/pthreads.2/ptw32_MCS_lock.c\<close>). A thread waits in a
  queue of nodes; its node is a local variable of the caller, here named after the thread: a
  thread that comes back to the same call finds the node at the same address. Every access to
  shared memory is a step of its own.
\<close>

subsection \<open>The flags\<close>

text \<open>
  A flag is 0, the handle of the event its waiter has created, or -1. One thread sets it
  and one waits for it. \<open>signalled\<close> is the state of the event. The bool of a waiter tells
  whether it has an event: the handle is NULL if CreateEvent fails.
\<close>

datatype flag = FlagZero | FlagEvent | FlagSet

datatype setter_pc = SetStart | SetDone
datatype waiter_pc = WaitStart | WaitCreated bool | WaitBlocked bool | WaitDone

record flag_system =
  flag :: flag
  signalled :: bool
  setter :: setter_pc
  waiter :: waiter_pc

definition ptw32_mcs_flag_set :: "flag_system \<Rightarrow> flag_system" where
  "ptw32_mcs_flag_set s =
     (case flag s of
        FlagZero \<Rightarrow> s\<lparr>flag := FlagSet, setter := SetDone\<rparr>
      | _ \<Rightarrow> s\<lparr>signalled := True, setter := SetDone\<rparr>)"

text \<open>
  The first read, the compare-exchange with the new event, and the wait for it. \<open>creates\<close>
  tells whether CreateEvent succeeds, \<open>wait_fails\<close> whether WaitForSingleObject fails, as it
  does for the handle NULL; the code looks at neither result.
\<close>

fun ptw32_mcs_flag_wait :: "bool \<Rightarrow> bool \<Rightarrow> flag_system \<Rightarrow> flag_system option" where
  "ptw32_mcs_flag_wait creates wait_fails s =
     (case waiter s of
        WaitStart \<Rightarrow>
          Some (s\<lparr>waiter := if flag s = FlagZero then WaitCreated creates else WaitDone\<rparr>)
      | WaitCreated e \<Rightarrow>
          Some (if flag s = FlagZero
                then s\<lparr>flag := if e then FlagEvent else FlagZero, waiter := WaitBlocked e\<rparr>
                else s\<lparr>waiter := WaitDone\<rparr>)
      | WaitBlocked e \<Rightarrow>
          if \<not> e \<or> wait_fails then Some (s\<lparr>waiter := WaitDone\<rparr>)
          else if signalled s then Some (s\<lparr>signalled := False, waiter := WaitDone\<rparr>) else None
      | WaitDone \<Rightarrow> None)"

text \<open>\<open>faulty\<close> allows the two system calls to fail.\<close>

inductive flag_reachable :: "bool \<Rightarrow> flag_system \<Rightarrow> bool" for faulty where
  start: "flag_reachable faulty \<lparr>flag = FlagZero, signalled = False, setter = SetStart, waiter = WaitStart\<rparr>"
| sets: "flag_reachable faulty s \<Longrightarrow> setter s = SetStart \<Longrightarrow> flag_reachable faulty (ptw32_mcs_flag_set s)"
| waits: "flag_reachable faulty s \<Longrightarrow> ptw32_mcs_flag_wait creates wait_fails s = Some s' \<Longrightarrow>
    faulty \<or> creates \<and> \<not> wait_fails \<Longrightarrow> flag_reachable faulty s'"

text \<open>
  C38: as long as CreateEvent and WaitForSingleObject succeed, the waiter returns only after the
  flag was set, and once it was set the waiter is never stuck before it has returned.
\<close>

theorem mcs_flag_handshake:
  assumes "flag_reachable False s"
  shows "(waiter s = WaitDone \<longrightarrow> setter s = SetDone) \<and>
         (setter s = SetDone \<and> waiter s \<noteq> WaitDone \<longrightarrow> ptw32_mcs_flag_wait True False s \<noteq> None)"
proof -
  have "(setter s = SetStart \<longrightarrow> \<not> signalled s \<and>
           (flag s = FlagZero \<and> waiter s \<in> {WaitStart, WaitCreated True} \<or>
            flag s = FlagEvent \<and> waiter s = WaitBlocked True)) \<and>
        (setter s = SetDone \<longrightarrow>
           flag s = FlagSet \<and> waiter s \<in> {WaitStart, WaitCreated True, WaitDone} \<or>
           flag s = FlagEvent \<and> (waiter s = WaitBlocked True \<and> signalled s \<or> waiter s = WaitDone))"
    using assms
  proof (induction rule: flag_reachable.induct)
    case (sets s)
    then show ?case by (auto simp: ptw32_mcs_flag_set_def split: flag.splits)
  next
    case (waits s creates wait_fails s')
    then show ?case
      by (cases "setter s"; cases "waiter s") (auto split: if_splits)
  qed simp
  then show ?thesis
    by (cases "setter s"; cases "waiter s") auto
qed

lemma mcs_flag_handshake_witness:
  "ptw32_mcs_flag_wait True False \<lparr>flag = FlagSet, signalled = False, setter = SetDone, waiter = WaitStart\<rparr> \<noteq> None"
proof -
  let ?s = "\<lparr>flag = FlagSet, signalled = False, setter = SetDone, waiter = WaitStart\<rparr>"
  have "flag_reachable False ?s"
    using flag_reachable.sets [OF flag_reachable.start] by (simp add: ptw32_mcs_flag_set_def)
  from mcs_flag_handshake [OF this] show ?thesis by simp
qed

text \<open>If the event cannot be created, the waiter does not wait: it returns before the flag is set.\<close>

lemma mcs_flag_no_event:
  "\<exists>s. flag_reachable True s \<and> waiter s = WaitDone \<and> setter s = SetStart \<and> flag s = FlagZero"
proof -
  let ?s = "\<lambda>w. \<lparr>flag = FlagZero, signalled = False, setter = SetStart, waiter = w\<rparr>"
  have "flag_reachable True (?s (WaitCreated False))"
    by (rule flag_reachable.waits [OF flag_reachable.start, of False False]) simp_all
  then have "flag_reachable True (?s (WaitBlocked False))"
    by (rule flag_reachable.waits [of _ _ False False]) simp_all
  then have "flag_reachable True (?s WaitDone)"
    by (rule flag_reachable.waits [of _ _ False False]) simp_all
  then show ?thesis by (intro exI [of _ "?s WaitDone"]) simp
qed

subsection \<open>The queue\<close>

text \<open>
  The two flags of a node are set or not here: \<open>mcs_flag_handshake\<close> is what a wait for
  them comes to when the event can be created. \<open>NullNode\<close> is a release that has read a NULL successor, and is about to
  set its ready flag through the NULL pointer.
\<close>

datatype mcs_pc =
    Out
  | Linking nat | Linked nat | Waiting
  | Holding | RelTail | RelWait | Granting nat | NullNode

record mcs =
  lock :: "nat option"
  node_next :: "nat \<Rightarrow> nat option"
  readyFlag :: "nat \<Rightarrow> bool"
  nextFlag :: "nat \<Rightarrow> bool"
  mpc :: "nat \<Rightarrow> mcs_pc"

definition init_node :: "nat \<Rightarrow> mcs \<Rightarrow> mcs" where
  "init_node t s =
     s\<lparr>nextFlag := (nextFlag s)(t := False), readyFlag := (readyFlag s)(t := False),
       node_next := (node_next s)(t := None)\<rparr>"

text \<open>\<open>ptw32_mcs_lock_acquire\<close> and \<open>ptw32_mcs_lock_try_acquire\<close>, one step at a time.\<close>

definition acquire_swap :: "nat \<Rightarrow> mcs \<Rightarrow> mcs" where
  "acquire_swap t s =
     (let s = init_node t s; pred = lock s
      in s\<lparr>lock := Some t,
           mpc := (mpc s)(t := (case pred of None \<Rightarrow> Holding | Some p \<Rightarrow> Linking p))\<rparr>)"

definition try_acquire :: "nat \<Rightarrow> mcs \<Rightarrow> mcs \<times> rc" where
  "try_acquire t s =
     (let s = init_node t s
      in if lock s = None then (s\<lparr>lock := Some t, mpc := (mpc s)(t := Holding)\<rparr>, OK)
         else (s, EBUSY))"

definition acquire_link :: "nat \<Rightarrow> nat \<Rightarrow> mcs \<Rightarrow> mcs" where
  "acquire_link t p s =
     s\<lparr>node_next := (node_next s)(p := Some t), mpc := (mpc s)(t := Linked p)\<rparr>"

definition acquire_flag :: "nat \<Rightarrow> nat \<Rightarrow> mcs \<Rightarrow> mcs" where
  "acquire_flag t p s =
     s\<lparr>nextFlag := (nextFlag s)(p := True), mpc := (mpc s)(t := Waiting)\<rparr>"

definition acquire_ready :: "nat \<Rightarrow> mcs \<Rightarrow> mcs option" where
  "acquire_ready t s =
     (if readyFlag s t then Some (s\<lparr>mpc := (mpc s)(t := Holding)\<rparr>) else None)"

text \<open>\<open>ptw32_mcs_lock_release\<close>\<close>

definition release_read :: "nat \<Rightarrow> mcs \<Rightarrow> mcs" where
  "release_read t s =
     s\<lparr>mpc := (mpc s)(t := (case node_next s t of None \<Rightarrow> RelTail | Some n \<Rightarrow> Granting n))\<rparr>"

definition release_tail :: "nat \<Rightarrow> mcs \<Rightarrow> mcs" where
  "release_tail t s =
     (if lock s = Some t then s\<lparr>lock := None, mpc := (mpc s)(t := Out)\<rparr>
      else s\<lparr>mpc := (mpc s)(t := RelWait)\<rparr>)"

definition release_wait :: "nat \<Rightarrow> mcs \<Rightarrow> mcs option" where
  "release_wait t s =
     (if nextFlag s t
      then Some (s\<lparr>mpc := (mpc s)(t := (case node_next s t of None \<Rightarrow> NullNode | Some n \<Rightarrow> Granting n))\<rparr>)
      else None)"

definition release_grant :: "nat \<Rightarrow> nat \<Rightarrow> mcs \<Rightarrow> mcs" where
  "release_grant t n s =
     s\<lparr>readyFlag := (readyFlag s)(n := True), mpc := (mpc s)(t := Out)\<rparr>"

inductive mcs_step :: "mcs \<Rightarrow> nat \<Rightarrow> mcs \<Rightarrow> bool" where
  swap: "mpc s t = Out \<Longrightarrow> mcs_step s t (acquire_swap t s)"
| try_lock: "mpc s t = Out \<Longrightarrow> try_acquire t s = (s', r) \<Longrightarrow> mcs_step s t s'"
| link: "mpc s t = Linking p \<Longrightarrow> mcs_step s t (acquire_link t p s)"
| flag: "mpc s t = Linked p \<Longrightarrow> mcs_step s t (acquire_flag t p s)"
| ready: "mpc s t = Waiting \<Longrightarrow> acquire_ready t s = Some s' \<Longrightarrow> mcs_step s t s'"
| read_next: "mpc s t = Holding \<Longrightarrow> mcs_step s t (release_read t s)"
| tail: "mpc s t = RelTail \<Longrightarrow> mcs_step s t (release_tail t s)"
| wait_next: "mpc s t = RelWait \<Longrightarrow> release_wait t s = Some s' \<Longrightarrow> mcs_step s t s'"
| grant: "mpc s t = Granting n \<Longrightarrow> mcs_step s t (release_grant t n s)"

definition mcs_start :: mcs where
  "mcs_start = \<lparr>lock = None, node_next = (\<lambda>_. None), readyFlag = (\<lambda>_. False),
                nextFlag = (\<lambda>_. False), mpc = (\<lambda>_. Out)\<rparr>"

text \<open>
  Runs in which every step satisfies \<open>allowed\<close>. \<open>no_reuse\<close> excludes that a thread enters
  again with a node that its former successor has still to flag.
\<close>

inductive mcs_reachable :: "(mcs \<Rightarrow> nat \<Rightarrow> bool) \<Rightarrow> mcs \<Rightarrow> bool" for allowed where
  start: "mcs_reachable allowed mcs_start"
| step: "mcs_reachable allowed s \<Longrightarrow> allowed s t \<Longrightarrow> mcs_step s t s' \<Longrightarrow> mcs_reachable allowed s'"

definition any_step :: "mcs \<Rightarrow> nat \<Rightarrow> bool" where
  "any_step s t \<longleftrightarrow> True"

definition no_reuse :: "mcs \<Rightarrow> nat \<Rightarrow> bool" where
  "no_reuse s t \<longleftrightarrow> mpc s t = Out \<longrightarrow> (\<forall>u. mpc s u \<noteq> Linked t)"

subsection \<open>The invariant\<close>

text \<open>
  The threads inside form a queue, oldest first. Each one after the first has put itself, or
  is about to put itself, behind the one before it, and has not been woken.
\<close>

definition behind :: "mcs \<Rightarrow> nat \<Rightarrow> nat \<Rightarrow> bool" where
  "behind s a b \<longleftrightarrow>
     \<not> readyFlag s b \<and>
     (mpc s b = Linking a \<and> node_next s a = None \<or>
      mpc s b \<in> {Linked a, Waiting} \<and> node_next s a = Some b)"

definition head_ok :: "mcs \<Rightarrow> nat list \<Rightarrow> bool" where
  "head_ok s q \<longleftrightarrow>
     (case mpc s (q ! 0) of
        Out \<Rightarrow> False
      | Linking _ \<Rightarrow> False
      | Linked _ \<Rightarrow> readyFlag s (q ! 0)
      | Waiting \<Rightarrow> readyFlag s (q ! 0)
      | Granting n \<Rightarrow> Suc 0 < length q \<and> n = q ! 1 \<and> node_next s (q ! 0) = Some n
      | RelWait \<Rightarrow> Suc 0 < length q
      | _ \<Rightarrow> True)"

definition mcs_inv :: "nat list \<Rightarrow> mcs \<Rightarrow> bool" where
  "mcs_inv q s \<longleftrightarrow>
     distinct q \<and> (\<forall>t. t \<in> set q \<longleftrightarrow> mpc s t \<noteq> Out) \<and>
     lock s = (if q = [] then None else Some (last q)) \<and>
     (\<forall>i. Suc i < length q \<longrightarrow> behind s (q ! i) (q ! Suc i)) \<and>
     (q \<noteq> [] \<longrightarrow> head_ok s q \<and> node_next s (last q) = None)"

lemma behind_index:
  assumes inv: "mcs_inv q s" and t: "mpc s t \<noteq> Out"
  obtains "q \<noteq> []" "t = q ! 0"
  | i where "Suc i < length q" "t = q ! Suc i" "behind s (q ! i) t"
proof -
  have "t \<in> set q" using inv t by (simp add: mcs_inv_def)
  then obtain k where k: "k < length q" "t = q ! k" by (auto simp: in_set_conv_nth)
  show ?thesis
  proof (cases k)
    case 0
    then show ?thesis using k that(1) by auto
  next
    case (Suc i)
    then show ?thesis using k inv that(2) [of i] by (simp add: mcs_inv_def)
  qed
qed

lemma head_pc:
  assumes inv: "mcs_inv q s" and t: "mpc s t \<in> {Holding, RelTail, RelWait, NullNode} \<union> range Granting"
  shows "q \<noteq> [] \<and> t = q ! 0"
proof -
  have "mpc s t \<noteq> Out" using t by auto
  from inv this show ?thesis
    by (rule behind_index) (use t in \<open>auto simp: behind_def\<close>)
qed

lemma behind_cong:
  assumes "readyFlag s' b = readyFlag s b" "mpc s' b = mpc s b" "node_next s' a = node_next s a"
  shows "behind s' a b = behind s a b"
  using assms by (simp add: behind_def)

lemma inv_distinct_nth:
  "mcs_inv q s \<Longrightarrow> i < length q \<Longrightarrow> j < length q \<Longrightarrow> q ! i = q ! j \<longleftrightarrow> i = j"
  by (simp add: mcs_inv_def nth_eq_iff_index_eq)

lemma lock_head:
  assumes inv: "mcs_inv q s" and q: "q \<noteq> []" and l: "lock s = Some (q ! 0)"
  shows "q = [q ! 0]"
proof -
  have "q ! (length q - 1) = q ! 0" using inv q l by (simp add: mcs_inv_def last_conv_nth)
  then have "length q - 1 = 0" using inv_distinct_nth [OF inv, of "length q - 1" 0] q by simp
  then have "length q = Suc 0" using q by (cases q) auto
  then show ?thesis by (auto simp: length_Suc_conv)
qed

lemma step_swap:
  assumes inv: "mcs_inv q s" and t: "mpc s t = Out"
  shows "mcs_inv (q @ [t]) (acquire_swap t s)"
proof -
  let ?s = "acquire_swap t s"
  have tq: "t \<notin> set q" using inv t by (auto simp: mcs_inv_def)
  have other: "mpc ?s u = mpc s u" "readyFlag ?s u = readyFlag s u" "node_next ?s u = node_next s u"
    if "u \<noteq> t" for u
    using that by (simp_all add: acquire_swap_def init_node_def Let_def)
  have own: "mpc ?s t = (if q = [] then Holding else Linking (last q))" "\<not> readyFlag ?s t"
    "node_next ?s t = None" "lock ?s = Some t"
    using inv by (auto simp: acquire_swap_def init_node_def mcs_inv_def Let_def)
  have ne: "q ! i \<noteq> t" if "i < length q" for i using tq that by auto
  have b: "behind ?s ((q @ [t]) ! i) ((q @ [t]) ! Suc i)" if "Suc i < length (q @ [t])" for i
  proof (cases "Suc i < length q")
    case True
    then have "behind s (q ! i) (q ! Suc i)" using inv by (simp add: mcs_inv_def)
    then show ?thesis
      using True ne [of i] ne [of "Suc i"] other by (simp add: nth_append behind_def)
  next
    case False
    with that have i: "Suc i = length q" by simp
    then have "q \<noteq> []" "i = length q - 1" by auto
    then have "q \<noteq> []" "q ! i = last q" by (simp_all add: last_conv_nth)
    moreover from this have "node_next s (last q) = None" "last q \<noteq> t"
      using inv tq by (auto simp: mcs_inv_def)
    ultimately show ?thesis using i own other by (simp add: nth_append behind_def)
  qed
  have h: "head_ok ?s (q @ [t])"
  proof (cases "q = []")
    case True
    then show ?thesis using own by (simp add: head_ok_def)
  next
    case False
    then have "head_ok s q" "q ! 0 \<noteq> t" using inv ne [of 0] by (auto simp: mcs_inv_def)
    then show ?thesis
      using False other [of "q ! 0"] by (auto simp: head_ok_def nth_append split: mcs_pc.splits)
  qed
  have "u \<in> set (q @ [t]) \<longleftrightarrow> mpc ?s u \<noteq> Out" for u
    using inv own(1) other(1) [of u] by (cases "u = t") (auto simp: mcs_inv_def)
  then show ?thesis
    using inv tq b h own(3,4) by (simp add: mcs_inv_def)
qed

lemma step_link:
  assumes inv: "mcs_inv q s" and t: "mpc s t = Linking p"
  shows "mcs_inv q (acquire_link t p s)"
proof -
  let ?s = "acquire_link t p s"
  have "mpc s t \<noteq> Out" using t by simp
  from inv this obtain i where i: "Suc i < length q" "t = q ! Suc i" "behind s (q ! i) t"
  proof (rule behind_index)
    assume "q \<noteq> []" "t = q ! 0"
    then have False using inv t by (simp add: mcs_inv_def head_ok_def)
    then show thesis ..
  qed
  then have p: "p = q ! i" "node_next s p = None" using t by (auto simp: behind_def)
  note d = inv_distinct_nth [OF inv]
  have b: "behind ?s (q ! j) (q ! Suc j)" if "Suc j < length q" for j
  proof -
    have "behind s (q ! j) (q ! Suc j)" using inv that by (simp add: mcs_inv_def)
    then show ?thesis
      using that i p d [of "Suc j" "Suc i"] d [of j i]
      by (auto simp: behind_def acquire_link_def)
  qed
  have "q \<noteq> []" using i by auto
  then have "q ! 0 \<noteq> t" using d [of 0 "Suc i"] i by auto
  then have h: "head_ok ?s q"
    using inv i p by (auto simp: mcs_inv_def head_ok_def acquire_link_def split: mcs_pc.splits)
  have "last q = q ! (length q - 1)" using \<open>q \<noteq> []\<close> by (rule last_conv_nth)
  moreover have "q ! (length q - 1) \<noteq> q ! i" using d [of "length q - 1" i] i(1) by simp
  ultimately have "last q \<noteq> p" using p(1) by simp
  then show ?thesis
    using inv b h t by (auto simp: mcs_inv_def acquire_link_def)
qed

lemma step_pc_head:
  assumes inv: "mcs_inv q s" and t: "q \<noteq> []" "t = q ! 0"
    and s': "s' = s\<lparr>mpc := (mpc s)(t := c)\<rparr>" and c: "c \<noteq> Out" "head_ok s' q"
  shows "mcs_inv q s'"
proof -
  note d = inv_distinct_nth [OF inv]
  have "behind s' (q ! j) (q ! Suc j)" if "Suc j < length q" for j
  proof -
    have "q ! Suc j \<noteq> t" using d [of "Suc j" 0] that t by auto
    moreover have "behind s (q ! j) (q ! Suc j)" using inv that by (simp add: mcs_inv_def)
    ultimately show ?thesis by (simp add: behind_def s')
  qed
  then show ?thesis using inv t c by (auto simp: mcs_inv_def s')
qed

lemma step_flag:
  assumes inv: "mcs_inv q s" and t: "mpc s t = Linked p"
  shows "mcs_inv q (acquire_flag t p s)"
proof -
  have "behind s a b \<Longrightarrow> behind (acquire_flag t p s) a b" for a b
    using t by (auto simp: behind_def acquire_flag_def)
  moreover have "head_ok s q \<Longrightarrow> head_ok (acquire_flag t p s) q"
    using t by (auto simp: head_ok_def acquire_flag_def split: mcs_pc.splits)
  ultimately show ?thesis
    using inv t by (auto simp: mcs_inv_def acquire_flag_def)
qed

lemma step_ready:
  assumes inv: "mcs_inv q s" and t: "mpc s t = Waiting" and r: "acquire_ready t s = Some s'"
  shows "mcs_inv q s'"
proof -
  have s': "readyFlag s t" "s' = s\<lparr>mpc := (mpc s)(t := Holding)\<rparr>"
    using r by (auto simp: acquire_ready_def split: if_splits)
  have "mpc s t \<noteq> Out" using t by simp
  from inv this have "q \<noteq> [] \<and> t = q ! 0"
    by (rule behind_index) (use s' in \<open>auto simp: behind_def\<close>)
  then show ?thesis
    using step_pc_head [OF inv _ _ s'(2)] by (simp add: head_ok_def s'(2))
qed

text \<open>The successor that the head of the queue can read is the second thread.\<close>

lemma head_next:
  assumes inv: "mcs_inv q s" and q: "q \<noteq> []" and n: "node_next s (q ! 0) = Some n"
  shows "Suc 0 < length q \<and> n = q ! 1"
proof -
  have l: "Suc 0 < length q"
  proof (rule ccontr)
    assume "\<not> Suc 0 < length q"
    then have "last q = q ! 0" using q by (cases q) auto
    then show False using inv q n by (simp add: mcs_inv_def)
  qed
  then have "behind s (q ! 0) (q ! Suc 0)" using inv by (simp add: mcs_inv_def)
  with n l show ?thesis by (auto simp: behind_def)
qed

lemma step_read:
  assumes inv: "mcs_inv q s" and t: "mpc s t = Holding"
  shows "mcs_inv q (release_read t s)"
proof -
  have q: "q \<noteq> []" "t = q ! 0" using head_pc [OF inv, of t] t by auto
  show ?thesis
    by (rule step_pc_head [OF inv q release_read_def])
      (use head_next [OF inv q(1)] q(2) in
        \<open>auto simp: head_ok_def release_read_def split: option.splits\<close>)
qed

lemma step_wait:
  assumes inv: "mcs_inv q s" and t: "mpc s t = RelWait" and r: "release_wait t s = Some s'"
  shows "mcs_inv q s'"
proof -
  have q: "q \<noteq> []" "t = q ! 0" using head_pc [OF inv, of t] t by auto
  have s': "s' = s\<lparr>mpc := (mpc s)(t := (case node_next s t of None \<Rightarrow> NullNode | Some n \<Rightarrow> Granting n))\<rparr>"
    using r by (auto simp: release_wait_def split: if_splits)
  show ?thesis
    by (rule step_pc_head [OF inv q s'])
      (use head_next [OF inv q(1)] q(2) in \<open>auto simp: head_ok_def s' split: option.splits\<close>)
qed

lemma step_tail:
  assumes inv: "mcs_inv q s" and t: "mpc s t = RelTail"
  shows "mcs_inv (if lock s = Some t then [] else q) (release_tail t s)"
proof -
  have q: "q \<noteq> []" "t = q ! 0" using head_pc [OF inv, of t] t by auto
  have lk: "lock s = Some (last q)" using inv q(1) by (simp add: mcs_inv_def)
  show ?thesis
  proof (cases "lock s = Some t")
    case True
    then have "set q = {t}" using lock_head [OF inv q(1)] q(2) by (metis list.set(1,2))
    then show ?thesis using True inv by (auto simp: mcs_inv_def release_tail_def)
  next
    case False
    then have "last q \<noteq> q ! 0" using lk q by simp
    then have "Suc 0 < length q" using q(1) by (cases q) (auto split: if_splits)
    then have "mcs_inv q (release_tail t s)"
      using step_pc_head [OF inv q, of "release_tail t s" RelWait] False q(2)
      by (simp add: release_tail_def head_ok_def)
    with False show ?thesis by simp
  qed
qed

lemma step_grant:
  assumes inv: "mcs_inv q s" and t: "mpc s t = Granting n"
  shows "mcs_inv (tl q) (release_grant t n s)"
proof -
  let ?s = "release_grant t n s"
  have q: "q \<noteq> []" "t = q ! 0" using head_pc [OF inv, of t] t by auto
  have "head_ok s q" using inv q(1) by (simp add: mcs_inv_def)
  then have n: "Suc 0 < length q" "n = q ! Suc 0" "node_next s t = Some n"
    using t q(2) by (auto simp: head_ok_def)
  note d = inv_distinct_nth [OF inv]
  obtain b r where qs: "q = t # b # r" using q n by (cases q; cases "tl q") auto
  have nb: "n = b" using n qs by simp
  have bh: "behind s (q ! i) (q ! Suc i)" if "Suc i < length q" for i
    using inv that by (simp add: mcs_inv_def)
  have "behind s t b" using bh [of 0] qs by simp
  then have h: "head_ok ?s (tl q)"
    using n nb qs inv by (auto simp: behind_def head_ok_def release_grant_def mcs_inv_def)
  have beh: "behind ?s (tl q ! i) (tl q ! Suc i)" if "Suc i < length (tl q)" for i
  proof -
    have "behind s (q ! Suc i) (q ! Suc (Suc i))" using bh [of "Suc i"] that by simp
    moreover have "q ! Suc (Suc i) \<noteq> t" "q ! Suc (Suc i) \<noteq> n"
      using d [of "Suc (Suc i)" 0] d [of "Suc (Suc i)" "Suc 0"] that q n by auto
    ultimately show ?thesis using that by (simp add: nth_tl behind_def release_grant_def)
  qed
  have "u \<in> set (tl q) \<longleftrightarrow> mpc ?s u \<noteq> Out" for u
    using inv qs by (auto simp: mcs_inv_def release_grant_def)
  then show ?thesis
    using inv qs h beh by (auto simp: mcs_inv_def release_grant_def)
qed

lemma step_try:
  assumes inv: "mcs_inv q s" and t: "mpc s t = Out" and r: "try_acquire t s = (s', r)"
  shows "mcs_inv (if r = OK then q @ [t] else q) s'"
proof (cases "lock s = None")
  case True
  then have "r = OK" "s' = acquire_swap t s"
    using r by (auto simp: try_acquire_def acquire_swap_def init_node_def Let_def)
  then show ?thesis using step_swap [OF inv t] by simp
next
  case False
  then have s': "r = EBUSY" "s' = init_node t s"
    using r by (auto simp: try_acquire_def init_node_def Let_def)
  have tq: "t \<notin> set q" using inv t by (auto simp: mcs_inv_def)
  have ne: "q ! i \<noteq> t" if "i < length q" for i using tq that by auto
  have "behind s' (q ! i) (q ! Suc i)" if "Suc i < length q" for i
    using inv that ne [of i] ne [of "Suc i"] by (simp add: mcs_inv_def behind_def s' init_node_def)
  moreover have "q \<noteq> [] \<Longrightarrow> head_ok s' q"
    using inv ne [of 0] by (auto simp: mcs_inv_def head_ok_def s' init_node_def split: mcs_pc.splits)
  moreover have "q \<noteq> [] \<Longrightarrow> last q \<noteq> t" using tq by auto
  ultimately show ?thesis using inv by (simp add: mcs_inv_def s' init_node_def)
qed

definition owner :: "mcs \<Rightarrow> nat \<Rightarrow> bool" where
  "owner s t \<longleftrightarrow> mpc s t \<in> {Holding, RelTail, RelWait, NullNode} \<union> range Granting"

lemma inv_step:
  assumes "mcs_inv q s" and "mcs_step s t s'"
  shows "\<exists>q'. mcs_inv q' s' \<and> (q' = q \<or> q' = q @ [t] \<or> q \<noteq> [] \<and> q' = tl q \<and> t = hd q)"
  using assms(2,1)
proof (cases rule: mcs_step.cases)
  case tail
  have q: "q \<noteq> [] \<and> t = q ! 0" using head_pc [OF assms(1), of t] tail by auto
  show ?thesis
  proof (cases "lock s = Some t")
    case True
    then have "q = [t]" using lock_head [OF assms(1)] q by simp
    then show ?thesis using step_tail [OF assms(1), of t] tail True by (intro exI [of _ "[]"]) simp
  next
    case False
    then have "mcs_inv q s'" using step_tail [OF assms(1), of t] tail by simp
    then show ?thesis by blast
  qed
next
  case (grant n)
  then have "q \<noteq> [] \<and> t = q ! 0" using head_pc [OF assms(1), of t] by auto
  then show ?thesis using step_grant [OF assms(1)] grant by (auto simp: hd_conv_nth)
next
  case (try_lock r)
  from step_try [OF assms(1) this] show ?thesis by (auto split: if_splits)
next
  case swap
  from step_swap [OF assms(1) swap(2)] show ?thesis unfolding swap(1) by blast
next
  case (link p)
  from step_link [OF assms(1) link(2)] show ?thesis unfolding link(1) by blast
next
  case (flag p)
  from step_flag [OF assms(1) flag(2)] show ?thesis unfolding flag(1) by blast
next
  case ready
  from step_ready [OF assms(1) ready] show ?thesis by blast
next
  case read_next
  from step_read [OF assms(1) read_next(2)] show ?thesis unfolding read_next(1) by blast
next
  case wait_next
  from step_wait [OF assms(1) wait_next] show ?thesis by blast
qed

lemma inv_reachable: "mcs_reachable allowed s \<Longrightarrow> \<exists>q. mcs_inv q s"
proof (induction rule: mcs_reachable.induct)
  case start
  then show ?case by (intro exI [of _ "[]"]) (simp add: mcs_inv_def mcs_start_def)
qed (use inv_step in blast)

subsection \<open>Progress\<close>

definition flags_ok :: "nat list \<Rightarrow> mcs \<Rightarrow> bool" where
  "flags_ok q s \<longleftrightarrow>
     (\<forall>a. mpc s a \<noteq> Out \<and> nextFlag s a \<longrightarrow> node_next s a \<noteq> None) \<and>
     (\<forall>u a. mpc s u = Linked a \<and> mpc s a \<noteq> Out \<longrightarrow> node_next s a = Some u) \<and>
     (\<forall>u. mpc s u \<noteq> NullNode) \<and>
     (\<forall>i. Suc i < length q \<and> mpc s (q ! Suc i) = Waiting \<longrightarrow> nextFlag s (q ! i))"

lemma flags_linked:
  "flags_ok q s \<Longrightarrow> mpc s u = Linked a \<Longrightarrow> mpc s a \<noteq> Out \<Longrightarrow> node_next s a = Some u"
  by (simp add: flags_ok_def)

lemma flags_step:
  assumes inv: "mcs_inv q s" and fl: "flags_ok q s" and al: "no_reuse s t" and st: "mcs_step s t s'"
  shows "\<exists>q'. mcs_inv q' s' \<and> flags_ok q' s'"
  using st
proof (cases rule: mcs_step.cases)
  case swap
  have tq: "t \<notin> set q" using inv swap by (auto simp: mcs_inv_def)
  have "flags_ok (q @ [t]) (acquire_swap t s)"
  proof -
    have w: "nextFlag (acquire_swap t s) ((q @ [t]) ! i)"
      if "Suc i < length (q @ [t])" "mpc (acquire_swap t s) ((q @ [t]) ! Suc i) = Waiting" for i
    proof (cases "Suc i < length q")
      case True
      then have "q ! i \<noteq> t" "q ! Suc i \<noteq> t" using tq by (auto dest: nth_mem)
      then show ?thesis
        using fl True that by (auto simp: flags_ok_def acquire_swap_def init_node_def nth_append Let_def)
    next
      case False
      then have "Suc i = length q" using that by simp
      then show ?thesis
        using that by (auto simp: acquire_swap_def nth_append Let_def split: option.splits)
    qed
    have "\<forall>a. mpc (acquire_swap t s) a \<noteq> Out \<and> nextFlag (acquire_swap t s) a \<longrightarrow>
        node_next (acquire_swap t s) a \<noteq> None"
      using fl by (auto simp: flags_ok_def acquire_swap_def init_node_def Let_def)
    moreover have "\<forall>u a. mpc (acquire_swap t s) u = Linked a \<and> mpc (acquire_swap t s) a \<noteq> Out \<longrightarrow>
        node_next (acquire_swap t s) a = Some u"
      using fl al swap unfolding flags_ok_def no_reuse_def
      by (auto simp: acquire_swap_def init_node_def Let_def split: option.splits)
    moreover have "\<forall>u. mpc (acquire_swap t s) u \<noteq> NullNode"
      using fl by (auto simp: flags_ok_def acquire_swap_def init_node_def Let_def split: option.splits)
    ultimately show ?thesis using w unfolding flags_ok_def by blast
  qed
  then show ?thesis using step_swap [OF inv] swap by blast
next
  case (try_lock r)
  show ?thesis
  proof (cases "lock s = None")
    case True
    then have "q = []" using inv by (auto simp: mcs_inv_def split: if_splits)
    then have "flags_ok [t] s'"
      using fl al try_lock True unfolding flags_ok_def no_reuse_def
      by (auto simp: try_acquire_def init_node_def Let_def split: if_splits)
    moreover have "r = OK" using try_lock(2) True by (simp add: try_acquire_def init_node_def Let_def)
    ultimately show ?thesis using step_try [OF inv try_lock] \<open>q = []\<close> by auto
  next
    case False
    have tq: "t \<notin> set q" using inv try_lock by (auto simp: mcs_inv_def)
    have s': "s' = init_node t s" "r = EBUSY"
      using try_lock False by (auto simp: try_acquire_def init_node_def Let_def)
    have "flags_ok q s'"
      using fl tq try_lock(1) unfolding flags_ok_def
      by (auto simp: s' init_node_def dest: nth_mem)
    then show ?thesis using step_try [OF inv try_lock] s' by auto
  qed
next
  case (link p)
  have "mpc s t \<noteq> Out" using link by simp
  from inv this have p: "node_next s p = None"
    by (rule behind_index) (use inv link in \<open>auto simp: mcs_inv_def head_ok_def behind_def\<close>)
  have "mpc s u \<noteq> Linked p" if "mpc s p \<noteq> Out" for u
    using flags_linked [OF fl] that p by fastforce
  then have "flags_ok q (acquire_link t p s)"
    using fl link unfolding flags_ok_def by (auto simp: acquire_link_def)
  then show ?thesis using step_link [OF inv] link by blast
next
  case (flag p)
  have w: "q ! i = p" if "Suc i < length q" "q ! Suc i = t" for i
  proof -
    have "behind s (q ! i) (q ! Suc i)" using inv that(1) by (simp add: mcs_inv_def)
    then show ?thesis using flag that(2) by (auto simp: behind_def)
  qed
  have "flags_ok q (acquire_flag t p s)"
    using fl flag w flags_linked [OF fl, of t p] unfolding flags_ok_def
    by (auto simp: acquire_flag_def)
  then show ?thesis using step_flag [OF inv] flag by blast
next
  case ready
  then have "flags_ok q s'"
    using fl unfolding flags_ok_def by (auto simp: acquire_ready_def split: if_splits)
  then show ?thesis using step_ready [OF inv] ready by blast
next
  case read_next
  then have "flags_ok q s'"
    using fl unfolding flags_ok_def by (auto simp: release_read_def split: option.splits if_splits)
  then show ?thesis using step_read [OF inv] read_next by blast
next
  case tail
  have "flags_ok (if lock s = Some t then [] else q) s'"
    using fl tail unfolding flags_ok_def by (auto simp: release_tail_def split: if_splits)
  then show ?thesis using step_tail [OF inv, of t] tail by auto
next
  case wait_next
  then have "nextFlag s t" by (simp add: release_wait_def split: if_splits)
  then have "node_next s t \<noteq> None" using fl wait_next by (auto simp: flags_ok_def)
  then have "flags_ok q s'"
    using fl wait_next unfolding flags_ok_def by (auto simp: release_wait_def split: if_splits)
  then show ?thesis using step_wait [OF inv] wait_next by blast
next
  case (grant n)
  have "flags_ok (tl q) s'"
    using fl grant unfolding flags_ok_def by (auto simp: release_grant_def nth_tl split: if_splits)
  then show ?thesis using step_grant [OF inv] grant by blast
qed

lemma flags_reachable: "mcs_reachable no_reuse s \<Longrightarrow> \<exists>q. mcs_inv q s \<and> flags_ok q s"
proof (induction rule: mcs_reachable.induct)
  case start
  then show ?case
    by (intro exI [of _ "[]"]) (simp add: mcs_inv_def flags_ok_def mcs_start_def)
qed (use flags_step in blast)

text \<open>A release that waits for its successor's link flag lets the successor run.\<close>

lemma progress:
  assumes inv: "mcs_inv q s" and fl: "flags_ok q s" and q: "q \<noteq> []"
  shows "\<exists>t s'. mpc s t \<noteq> Out \<and> mcs_step s t s'"
proof -
  let ?h = "q ! 0"
  have h: "head_ok s q" "mpc s ?h \<noteq> Out" "mpc s ?h \<noteq> NullNode"
    using inv fl q by (auto simp: mcs_inv_def flags_ok_def)
  show ?thesis
  proof (cases "mpc s ?h")
    case RelWait
    then have l: "Suc 0 < length q" using h(1) by (simp add: head_ok_def)
    then have b: "behind s ?h (q ! Suc 0)" using inv by (simp add: mcs_inv_def)
    show ?thesis
    proof (cases "mpc s (q ! Suc 0) = Waiting")
      case True
      then have "nextFlag s ?h" using fl l by (auto simp: flags_ok_def)
      then obtain s' where "release_wait ?h s = Some s'" by (auto simp: release_wait_def)
      from mcs_step.wait_next [OF RelWait this] h(2) show ?thesis by blast
    next
      case False
      with b consider "mpc s (q ! Suc 0) = Linking ?h" | "mpc s (q ! Suc 0) = Linked ?h"
        by (auto simp: behind_def)
      then show ?thesis
      proof cases
        case 1
        from mcs_step.link [OF this] this show ?thesis by (metis mcs_pc.distinct(1))
      next
        case 2
        from mcs_step.flag [OF this] this show ?thesis by (metis mcs_pc.distinct(3))
      qed
    qed
  next
    case Waiting
    then have "readyFlag s ?h" using h(1) by (simp add: head_ok_def)
    then obtain s' where "acquire_ready ?h s = Some s'" by (auto simp: acquire_ready_def)
    from mcs_step.ready [OF Waiting this] h(2) show ?thesis by blast
  next
    case (Linked p)
    from mcs_step.flag [OF this] h(2) show ?thesis by blast
  next
    case Holding
    from mcs_step.read_next [OF this] h(2) show ?thesis by blast
  next
    case RelTail
    from mcs_step.tail [OF this] h(2) show ?thesis by blast
  next
    case (Granting n)
    from mcs_step.grant [OF this] h(2) show ?thesis by blast
  qed (use h in \<open>simp_all add: head_ok_def\<close>)
qed

subsection \<open>Properties\<close>

text \<open>
  Runs with a log: \<open>arr\<close> lists the threads in the order of their swaps (or successful
  tries), \<open>got\<close> in the order in which they get the lock, once for each time.
\<close>

inductive mcs_run :: "nat list \<Rightarrow> nat list \<Rightarrow> mcs \<Rightarrow> bool" where
  run_start: "mcs_run [] [] mcs_start"
| run_next: "mcs_run arr got s \<Longrightarrow> mcs_step s t s' \<Longrightarrow>
    mcs_run (arr @ (if mpc s t = Out \<and> mpc s' t \<noteq> Out then [t] else []))
      (got @ (if mpc s t \<noteq> Holding \<and> mpc s' t = Holding then [t] else [])) s'"

lemma reachable_run: "mcs_reachable any_step s \<longleftrightarrow> (\<exists>arr got. mcs_run arr got s)"
proof
  show "mcs_reachable any_step s \<Longrightarrow> \<exists>arr got. mcs_run arr got s"
    by (induction rule: mcs_reachable.induct) (blast intro: mcs_run.intros)+
  have "mcs_run arr got s \<Longrightarrow> mcs_reachable any_step s" for arr got
    by (induction rule: mcs_run.induct) (auto intro: mcs_reachable.intros simp: any_step_def)
  then show "\<exists>arr got. mcs_run arr got s \<Longrightarrow> mcs_reachable any_step s" by blast
qed

text \<open>The queue without its first thread, if that one has the lock.\<close>

definition still_waiting :: "nat list \<Rightarrow> mcs \<Rightarrow> nat list" where
  "still_waiting q s = (if q \<noteq> [] \<and> owner s (hd q) then tl q else q)"

definition log_inv :: "nat list \<Rightarrow> nat list \<Rightarrow> nat list \<Rightarrow> mcs \<Rightarrow> bool" where
  "log_inv arr got q s \<longleftrightarrow> mcs_inv q s \<and> arr = got @ still_waiting q s \<and>
     (q \<noteq> [] \<and> owner s (hd q) \<longrightarrow> got \<noteq> [] \<and> last got = hd q)"

lemma log_inv_same:
  assumes "log_inv arr got q s" and "mcs_inv q s'" and "q \<noteq> [] \<Longrightarrow> owner s' (hd q) \<longleftrightarrow> owner s (hd q)"
  shows "log_inv arr got q s'"
  using assms by (auto simp: log_inv_def still_waiting_def)

lemma owner_simps [simp]:
  "mpc s t = Out \<Longrightarrow> \<not> owner s t" "mpc s t = Linking p \<Longrightarrow> \<not> owner s t"
  "mpc s t = Linked p \<Longrightarrow> \<not> owner s t" "mpc s t = Waiting \<Longrightarrow> \<not> owner s t"
  "mpc s t = Holding \<Longrightarrow> owner s t" "mpc s t = RelTail \<Longrightarrow> owner s t" "mpc s t = RelWait \<Longrightarrow> owner s t"
  "mpc s t = NullNode \<Longrightarrow> owner s t" "mpc s t = Granting n \<Longrightarrow> owner s t"
  by (auto simp: owner_def)

lemma owner_other: "mpc s' u = mpc s u \<Longrightarrow> owner s' u = owner s u"
  by (simp add: owner_def)

text \<open>A thread that joins the queue gets the lock at once if the queue was empty.\<close>

lemma log_joins:
  assumes inv: "log_inv arr got q s" and t: "mpc s t = Out" and inv': "mcs_inv (q @ [t]) s'"
    and pc: "mpc s' t = (if q = [] then Holding else Linking (last q))" "\<And>u. u \<noteq> t \<Longrightarrow> mpc s' u = mpc s u"
  shows "log_inv (arr @ [t]) (got @ (if q = [] then [t] else [])) (q @ [t]) s'"
proof (cases "q = []")
  case True
  then show ?thesis using inv inv' pc(1) by (simp add: log_inv_def still_waiting_def)
next
  case False
  have "hd q \<in> set q" using False by simp
  moreover have "t \<notin> set q" using inv t by (auto simp: log_inv_def mcs_inv_def)
  ultimately have "hd q \<noteq> t" by blast
  then have "owner s' (hd q) = owner s (hd q)" by (intro owner_other pc(2))
  then show ?thesis using inv inv' False by (auto simp: log_inv_def still_waiting_def)
qed

lemma log_step:
  assumes inv: "log_inv arr got q s" and st: "mcs_step s t s'"
  shows "\<exists>q'. log_inv (arr @ (if mpc s t = Out \<and> mpc s' t \<noteq> Out then [t] else []))
      (got @ (if mpc s t \<noteq> Holding \<and> mpc s' t = Holding then [t] else [])) q' s'"
proof -
  have qi: "mcs_inv q s" using inv by (simp add: log_inv_def)
  have head: "owner s u \<Longrightarrow> q \<noteq> [] \<and> u = hd q" for u
    using head_pc [OF qi, of u] by (auto simp: owner_def hd_conv_nth)
  from st show ?thesis
  proof (cases rule: mcs_step.cases)
    case swap
    have pc: "mpc s' t = (if q = [] then Holding else Linking (last q))" "\<And>u. u \<noteq> t \<Longrightarrow> mpc s' u = mpc s u"
      using qi by (auto simp: swap(1) acquire_swap_def init_node_def mcs_inv_def Let_def)
    have "mcs_inv (q @ [t]) s'" using step_swap [OF qi swap(2)] swap(1) by simp
    from log_joins [OF inv swap(2) this pc] pc(1) swap(2) show ?thesis
      by (intro exI [of _ "q @ [t]"]) auto
  next
    case (try_lock r)
    note i = step_try [OF qi try_lock]
    show ?thesis
    proof (cases "lock s = None")
      case True
      then have q: "q = []" using qi by (auto simp: mcs_inv_def split: if_splits)
      have pc: "mpc s' t = Holding" "\<And>u. u \<noteq> t \<Longrightarrow> mpc s' u = mpc s u" and r: "r = OK"
        using try_lock(2) True by (auto simp: try_acquire_def init_node_def Let_def)
      have "log_inv (arr @ [t]) (got @ [t]) (q @ [t]) s'"
        using log_joins [OF inv try_lock(1), of s'] pc q i r by simp
      then show ?thesis using pc(1) try_lock(1) by (intro exI [of _ "q @ [t]"]) simp
    next
      case False
      then have pc: "mpc s' = mpc s" and r: "r \<noteq> OK"
        using try_lock(2) by (auto simp: try_acquire_def init_node_def Let_def)
      have "log_inv arr got q s'"
        by (rule log_inv_same [OF inv]) (use i r pc in \<open>simp_all add: owner_def\<close>)
      then show ?thesis using try_lock(1) pc by auto
    qed
  next
    case (link p)
    have "log_inv arr got q s'"
      by (rule log_inv_same [OF inv])
        (use step_link [OF qi link(2)] link in \<open>auto simp: acquire_link_def owner_def\<close>)
    then show ?thesis using link by (auto simp: acquire_link_def)
  next
    case (flag p)
    have "log_inv arr got q s'"
      by (rule log_inv_same [OF inv])
        (use step_flag [OF qi flag(2)] flag in \<open>auto simp: acquire_flag_def owner_def\<close>)
    then show ?thesis using flag by (auto simp: acquire_flag_def)
  next
    case ready
    have s': "readyFlag s t" "s' = s\<lparr>mpc := (mpc s)(t := Holding)\<rparr>"
      using ready(2) by (auto simp: acquire_ready_def split: if_splits)
    have "mpc s t \<noteq> Out" using ready by simp
    from qi this have h: "q \<noteq> [] \<and> t = q ! 0"
      by (rule behind_index) (use s'(1) in \<open>auto simp: behind_def\<close>)
    then have h: "q \<noteq> []" "hd q = t" by (simp_all add: hd_conv_nth)
    have "arr = got @ q" using inv h ready(1) by (simp add: log_inv_def still_waiting_def)
    then have "arr = (got @ [t]) @ tl q" using h by (cases q) auto
    then have "log_inv arr (got @ [t]) q s'"
      using step_ready [OF qi ready] h s'(2) by (simp add: log_inv_def still_waiting_def)
    then show ?thesis using ready(1) s'(2) by (intro exI [of _ q]) simp
  next
    case read_next
    have "log_inv arr got q s'"
      by (rule log_inv_same [OF inv])
        (use step_read [OF qi read_next(2)] read_next in \<open>auto simp: release_read_def owner_def split: option.splits\<close>)
    then show ?thesis using read_next by (intro exI [of _ q]) (auto simp: release_read_def split: option.splits)
  next
    case tail
    have h: "q \<noteq> []" "t = hd q" using head [of t] tail by simp_all
    show ?thesis
    proof (cases "lock s = Some t")
      case True
      then have "q = [t]" using lock_head [OF qi] h by (simp add: hd_conv_nth)
      then have "log_inv arr got [] s'"
        using inv step_tail [OF qi, of t] tail True by (simp add: log_inv_def still_waiting_def)
      then show ?thesis using tail True by (intro exI [of _ "[]"]) (simp add: release_tail_def)
    next
      case False
      have "log_inv arr got q s'"
        by (rule log_inv_same [OF inv])
          (use step_tail [OF qi, of t] tail False in \<open>auto simp: release_tail_def owner_def\<close>)
      then show ?thesis using tail False by (intro exI [of _ q]) (simp add: release_tail_def)
    qed
  next
    case wait_next
    have s': "s' = s\<lparr>mpc := (mpc s)(t := (case node_next s t of None \<Rightarrow> NullNode | Some n \<Rightarrow> Granting n))\<rparr>"
      using wait_next(2) by (auto simp: release_wait_def split: if_splits)
    have "log_inv arr got q s'"
      by (rule log_inv_same [OF inv])
        (use step_wait [OF qi wait_next] wait_next s' in \<open>auto simp: owner_def split: option.splits\<close>)
    then show ?thesis using wait_next s' by (intro exI [of _ q]) (auto split: option.splits)
  next
    case (grant n)
    have h: "q \<noteq> []" "t = hd q" using head [of t] grant by simp_all
    have i: "mcs_inv (tl q) s'" using step_grant [OF qi grant(2)] grant(1) by simp
    have pc: "mpc s' = (mpc s)(t := Out)" using grant(1) by (simp add: release_grant_def)
    have "\<not> owner s' (hd (tl q))" if "tl q \<noteq> []"
    proof -
      have "distinct q" using qi by (simp add: mcs_inv_def)
      then have "hd (tl q) \<noteq> t" using h that by (cases q; cases "tl q") auto
      then show ?thesis using head [of "hd (tl q)"] h pc by (auto simp: owner_def)
    qed
    then have "log_inv arr got (tl q) s'"
      using inv h grant(2) i by (auto simp: log_inv_def still_waiting_def)
    then show ?thesis using grant(2) pc by (intro exI [of _ "tl q"]) simp
  qed
qed

lemma log_reachable: "mcs_run arr got s \<Longrightarrow> \<exists>q. log_inv arr got q s"
proof (induction rule: mcs_run.induct)
  case run_start
  show ?case
    by (intro exI [of _ "[]"]) (simp add: log_inv_def mcs_inv_def still_waiting_def mcs_start_def)
next
  case (run_next arr got s t s')
  then show ?case using log_step by blast
qed

text \<open>
  C11: threads get the lock in the order of their swaps, and one at a time. In every run, with
  \<open>arr\<close> the threads in the order of their swaps and successful tries and \<open>got\<close> those that got the lock,
  in that order: \<open>got\<close> is an initial part of \<open>arr\<close>; the rest of \<open>arr\<close> is, without
  repetition, the threads inside that do not have the lock yet; and only the last one of \<open>got\<close>
  can have the lock, be leaving it or be handing it over. Every reachable state is the end of such a run.
\<close>

theorem mcs_fifo_exclusion:
  "(mcs_run arr got s \<longrightarrow>
      (\<exists>rest. arr = got @ rest \<and> distinct rest \<and>
         set rest = {t. mpc s t \<noteq> Out \<and> \<not> owner s t}) \<and>
      (\<forall>t. owner s t \<longrightarrow> got \<noteq> [] \<and> t = last got)) \<and>
   (mcs_reachable any_step s \<longrightarrow> (\<exists>arr got. mcs_run arr got s))"
proof -
  have "(\<exists>rest. arr = got @ rest \<and> distinct rest \<and> set rest = {t. mpc s t \<noteq> Out \<and> \<not> owner s t}) \<and>
      (\<forall>t. owner s t \<longrightarrow> got \<noteq> [] \<and> t = last got)" if run: "mcs_run arr got s"
  proof -
    obtain q where q: "log_inv arr got q s" using log_reachable [OF run] by blast
    have qi: "mcs_inv q s" using q by (simp add: log_inv_def)
    have head: "owner s t \<Longrightarrow> q \<noteq> [] \<and> t = hd q" for t
      using head_pc [OF qi, of t] by (auto simp: owner_def hd_conv_nth)
    have d: "distinct q" "\<And>t. t \<in> set q \<longleftrightarrow> mpc s t \<noteq> Out" using qi by (simp_all add: mcs_inv_def)
    have "set (still_waiting q s) = {t. mpc s t \<noteq> Out \<and> \<not> owner s t}"
    proof (cases "q \<noteq> [] \<and> owner s (hd q)")
      case True
      then obtain h q' where h: "q = h # q'" by (cases q) auto
      have own: "owner s u \<longleftrightarrow> u = h" for u using head [of u] True h by auto
      have "u \<in> set q' \<longleftrightarrow> mpc s u \<noteq> Out \<and> u \<noteq> h" for u using d(1) d(2) [of u] h by auto
      then show ?thesis using True by (auto simp: still_waiting_def h own)
    next
      case False
      then have own: "\<not> owner s t" for t using head [of t] by auto
      show ?thesis unfolding still_waiting_def if_not_P [OF False] by (auto simp: d(2) own)
    qed
    moreover have "distinct (still_waiting q s)" using d(1) by (simp add: still_waiting_def distinct_tl)
    moreover have "got \<noteq> [] \<and> t = last got" if "owner s t" for t
      using head [OF that] that q by (auto simp: log_inv_def)
    ultimately show ?thesis using q unfolding log_inv_def by blast
  qed
  then show ?thesis using reachable_run [of s] by (intro conjI impI) (assumption | simp)+
qed

text \<open>
  C12: as long as no thread enters again while its former successor has still to
  set the link flag of its node, no release dereferences a NULL successor, and while any
  thread is inside, some thread inside can make a step.
\<close>

theorem mcs_deadlock_free:
  assumes "mcs_reachable no_reuse s"
  shows "(\<forall>t. mpc s t \<noteq> NullNode) \<and>
         ((\<exists>t. mpc s t \<noteq> Out) \<longrightarrow> (\<exists>t s'. mpc s t \<noteq> Out \<and> mcs_step s t s'))"
proof -
  obtain q where q: "mcs_inv q s" "flags_ok q s" using flags_reachable [OF assms] by blast
  have "(\<exists>t. mpc s t \<noteq> Out) \<Longrightarrow> q \<noteq> []" using q(1) by (auto simp: mcs_inv_def)
  then show ?thesis using progress [OF q] q(2) by (auto simp: flags_ok_def)
qed

text \<open>
  The run of the next theorem. Thread 1 queues behind 0 and links itself, but does not yet set
  the flag of the node of 0. Thread 0 releases to 1 and enters again, with the same node, behind
  1. Only now 1 sets the flag, gets the lock and hands it to 0. Thread 2 swaps itself in
  behind 0, and 0 releases before 2 has linked itself.
\<close>

definition fun3 :: "'a \<Rightarrow> 'a \<times> 'a \<times> 'a \<Rightarrow> nat \<Rightarrow> 'a" where
  "fun3 d v t = (if t = 0 then fst v else if t = 1 then fst (snd v) else if t = 2 then snd (snd v) else d)"

lemma fun3_const: "fun3 d (d, d, d) = (\<lambda>_. d)"
  by (simp add: fun3_def fun_eq_iff)

definition mk ::
  "nat option \<Rightarrow> nat option \<times> nat option \<times> nat option \<Rightarrow> bool \<times> bool \<times> bool \<Rightarrow>
   bool \<times> bool \<times> bool \<Rightarrow> mcs_pc \<times> mcs_pc \<times> mcs_pc \<Rightarrow> mcs" where
  "mk l n r f p = \<lparr>lock = l, node_next = fun3 None n, readyFlag = fun3 False r,
     nextFlag = fun3 False f, mpc = fun3 Out p\<rparr>"

lemmas mk_defs = mk_def fun3_def fun_eq_iff Let_def acquire_swap_def init_node_def
  acquire_link_def acquire_flag_def acquire_ready_def release_read_def release_tail_def
  release_wait_def release_grant_def

lemma run_step:
  assumes "mcs_reachable any_step s" and "mcs_step s t s'" and "s' = s''"
  shows "mcs_reachable any_step s''"
  using mcs_reachable.step [OF assms(1) _ assms(2)] assms(3) by (simp add: any_step_def)

lemma stale_first_half:
  "mcs_reachable any_step
    (mk (Some 0) (None, Some 0, None) (False, True, False) (False, True, False) (Waiting, Linked 0, Out))"
proof -
  have s0: "mcs_reachable any_step
      (mk None (None, None, None) (False, False, False) (False, False, False) (Out, Out, Out))"
    using mcs_reachable.start [of any_step] by (simp add: mk_def fun3_const mcs_start_def)
  have s1: "mcs_reachable any_step
      (mk (Some 0) (None, None, None) (False, False, False) (False, False, False) (Holding, Out, Out))"
    by (rule run_step [OF s0 mcs_step.swap [of _ 0]]) (auto simp: mk_defs)
  have s2: "mcs_reachable any_step
      (mk (Some 1) (None, None, None) (False, False, False) (False, False, False) (Holding, Linking 0, Out))"
    by (rule run_step [OF s1 mcs_step.swap [of _ 1]]) (auto simp: mk_defs)
  have s3: "mcs_reachable any_step
      (mk (Some 1) (Some 1, None, None) (False, False, False) (False, False, False) (Holding, Linked 0, Out))"
    by (rule run_step [OF s2 mcs_step.link [of _ 1]]) (auto simp: mk_defs)
  have s4: "mcs_reachable any_step
      (mk (Some 1) (Some 1, None, None) (False, False, False) (False, False, False) (Granting 1, Linked 0, Out))"
    by (rule run_step [OF s3 mcs_step.read_next [of _ 0]]) (auto simp: mk_defs)
  have s5: "mcs_reachable any_step
      (mk (Some 1) (Some 1, None, None) (False, True, False) (False, False, False) (Out, Linked 0, Out))"
    by (rule run_step [OF s4 mcs_step.grant [of _ 0]]) (auto simp: mk_defs)
  have s6: "mcs_reachable any_step
      (mk (Some 0) (None, None, None) (False, True, False) (False, False, False) (Linking 1, Linked 0, Out))"
    by (rule run_step [OF s5 mcs_step.swap [of _ 0]]) (auto simp: mk_defs)
  have s7: "mcs_reachable any_step
      (mk (Some 0) (None, Some 0, None) (False, True, False) (False, False, False) (Linked 1, Linked 0, Out))"
    by (rule run_step [OF s6 mcs_step.link [of _ 0]]) (auto simp: mk_defs)
  have s8: "mcs_reachable any_step
      (mk (Some 0) (None, Some 0, None) (False, True, False) (False, True, False) (Waiting, Linked 0, Out))"
    by (rule run_step [OF s7 mcs_step.flag [of _ 0]]) (auto simp: mk_defs)
  show ?thesis by (rule s8)
qed

lemma stale_second_half:
  "mcs_reachable any_step
    (mk (Some 2) (None, Some 0, None) (True, True, False) (True, True, False) (NullNode, Out, Linking 0))"
proof -
  note s8 = stale_first_half
  have s9: "mcs_reachable any_step
      (mk (Some 0) (None, Some 0, None) (False, True, False) (True, True, False) (Waiting, Waiting, Out))"
    by (rule run_step [OF s8 mcs_step.flag [of _ 1]]) (auto simp: mk_defs)
  have s10: "mcs_reachable any_step
      (mk (Some 0) (None, Some 0, None) (False, True, False) (True, True, False) (Waiting, Holding, Out))"
    by (rule run_step [OF s9 mcs_step.ready [of _ 1]]) (auto simp: mk_defs)
  have s11: "mcs_reachable any_step
      (mk (Some 0) (None, Some 0, None) (False, True, False) (True, True, False) (Waiting, Granting 0, Out))"
    by (rule run_step [OF s10 mcs_step.read_next [of _ 1]]) (auto simp: mk_defs)
  have s12: "mcs_reachable any_step
      (mk (Some 0) (None, Some 0, None) (True, True, False) (True, True, False) (Waiting, Out, Out))"
    by (rule run_step [OF s11 mcs_step.grant [of _ 1]]) (auto simp: mk_defs)
  have s13: "mcs_reachable any_step
      (mk (Some 0) (None, Some 0, None) (True, True, False) (True, True, False) (Holding, Out, Out))"
    by (rule run_step [OF s12 mcs_step.ready [of _ 0]]) (auto simp: mk_defs)
  have s14: "mcs_reachable any_step
      (mk (Some 2) (None, Some 0, None) (True, True, False) (True, True, False) (Holding, Out, Linking 0))"
    by (rule run_step [OF s13 mcs_step.swap [of _ 2]]) (auto simp: mk_defs)
  have s15: "mcs_reachable any_step
      (mk (Some 2) (None, Some 0, None) (True, True, False) (True, True, False) (RelTail, Out, Linking 0))"
    by (rule run_step [OF s14 mcs_step.read_next [of _ 0]]) (auto simp: mk_defs)
  have s16: "mcs_reachable any_step
      (mk (Some 2) (None, Some 0, None) (True, True, False) (True, True, False) (RelWait, Out, Linking 0))"
    by (rule run_step [OF s15 mcs_step.tail [of _ 0]]) (auto simp: mk_defs)
  have s17: "mcs_reachable any_step
      (mk (Some 2) (None, Some 0, None) (True, True, False) (True, True, False) (NullNode, Out, Linking 0))"
    by (rule run_step [OF s16 mcs_step.wait_next [of _ 0]]) (auto simp: mk_defs)
  show ?thesis by (rule s17)
qed

text \<open>
  C37: without that restriction the lock fails: a successor sets the link flag
  after it has published itself, so it can write to a node that its owner has already left
  and uses again; the owner's next release then takes the flag for the link of a newer
  successor and dereferences NULL.
\<close>

theorem mcs_stale_flag:
  "\<exists>s t. mcs_reachable any_step s \<and> mpc s t = NullNode"
  by (intro exI [of _ 0] exI conjI, rule stale_second_half) (simp add: mk_def fun3_def)

subsection \<open>Witnesses\<close>

definition sample_mcs :: mcs where
  "sample_mcs = acquire_swap 1 (acquire_swap 0 mcs_start)"

lemma sample_mcs_pc: "mpc sample_mcs 0 = Holding" "mpc sample_mcs 1 = Linking 0"
  by (simp_all add: sample_mcs_def acquire_swap_def init_node_def mcs_start_def Let_def)

lemma sample_mcs_reachable:
  assumes "\<And>s t. (\<forall>u. mpc s u \<noteq> Linked t) \<Longrightarrow> allowed s t"
  shows "mcs_reachable allowed sample_mcs"
proof -
  have "mcs_reachable allowed (acquire_swap 0 mcs_start)"
    by (rule mcs_reachable.step [OF mcs_reachable.start assms mcs_step.swap])
      (simp_all add: mcs_start_def)
  then show ?thesis
    unfolding sample_mcs_def
    by (rule mcs_reachable.step [OF _ assms mcs_step.swap])
      (simp_all add: acquire_swap_def init_node_def mcs_start_def Let_def)
qed

lemma mcs_fifo_exclusion_witness:
  "mcs_run [0, 1] [0] sample_mcs \<and> owner sample_mcs 0 \<and> (0 :: nat) = last [0]"
proof -
  let ?s = "acquire_swap 0 mcs_start"
  have s: "mpc mcs_start 0 = Out" "mpc ?s 0 = Holding" "mpc ?s 1 = Out"
    by (simp_all add: mcs_start_def acquire_swap_def init_node_def Let_def)
  have "mcs_run [0] [0] ?s"
    using mcs_run.run_next [OF mcs_run.run_start mcs_step.swap [of mcs_start 0]] s by simp
  from mcs_run.run_next [OF this mcs_step.swap [of ?s 1]]
  have r: "mcs_run [0, 1] [0] sample_mcs"
    using s sample_mcs_pc by (simp add: sample_mcs_def)
  have "owner sample_mcs 0" by (simp add: sample_mcs_pc)
  moreover from this mcs_fifo_exclusion [of "[0, 1]" "[0]" sample_mcs] r have "(0 :: nat) = last [0]" by blast
  ultimately show ?thesis using r by blast
qed

lemma mcs_deadlock_free_witness:
  "\<exists>t s'. mpc sample_mcs t \<noteq> Out \<and> mcs_step sample_mcs t s'"
proof -
  have "mcs_reachable no_reuse sample_mcs"
    by (rule sample_mcs_reachable) (simp add: no_reuse_def)
  moreover have "mpc sample_mcs 0 \<noteq> Out" by (simp add: sample_mcs_pc)
  ultimately show ?thesis using mcs_deadlock_free by blast
qed

end
