(* ===== verification/Apr_Hash.thy ===== *)
theory Apr_Hash
  imports Prelude
begin

text \<open>
  The hash tables of APR (\<open>src/log4cxx/apr-1.5.2/tables/apr_hash.c\<close>). A table is an
  array of chains indexed by \<open>hash & max\<close>; the pointer to a chain cell is the list
  that starts there. Keys are the bytes they designate (the table stores the caller's
  pointer, and its callers must not change the bytes); \<open>NULL\<close> values are \<open>None\<close>.
  Integers keep their 32 bits.
\<close>

subsection \<open>Data\<close>

record 'v hash_entry =
  he_hash :: u32
  he_key :: "byte list"
  he_val :: 'v

record 'v apr_hash =
  ht_array :: "'v hash_entry list list"
  ht_count :: u32
  ht_max :: u32
  ht_seed :: u32
  ht_func :: "(byte list \<Rightarrow> u32) option"
  ht_free :: "'v hash_entry list"

text \<open>
  A key argument: \<open>KeyString\<close> is \<open>APR_HASH_KEY_STRING\<close>, the memory at the pointer up
  to the first NUL byte (the end of the list counts as one); \<open>KeyBytes\<close> comes with its
  length.
\<close>

datatype hash_key = KeyString "byte list" | KeyBytes "byte list"

definition INITIAL_MAX :: u32 where
  "INITIAL_MAX = 15"

definition alloc_array :: "u32 \<Rightarrow> 'v hash_entry list list" where
  "alloc_array m = replicate (unat (m + 1)) []"

text \<open>
  \<open>now\<close>, \<open>pool\<close>, \<open>ht\<close> and \<open>stack\<close> are the current time (64 bits) and the
  addresses the seed is mixed from, truncated to an unsigned int.
\<close>

definition apr_hash_make :: "u64 \<Rightarrow> u64 \<Rightarrow> u64 \<Rightarrow> u64 \<Rightarrow> 'v apr_hash" where
  "apr_hash_make now pool ht stack =
     \<lparr>ht_array = alloc_array INITIAL_MAX, ht_count = 0, ht_max = INITIAL_MAX,
      ht_seed = (ucast ((drop_bit 32 now) XOR now XOR pool XOR ht XOR stack) :: u32) - 1,
      ht_func = None, ht_free = []\<rparr>"

definition apr_hash_make_custom ::
  "u64 \<Rightarrow> u64 \<Rightarrow> u64 \<Rightarrow> u64 \<Rightarrow> (byte list \<Rightarrow> u32) \<Rightarrow> 'v apr_hash" where
  "apr_hash_make_custom now pool ht stack f = (apr_hash_make now pool ht stack)\<lparr>ht_func := Some f\<rparr>"

subsection \<open>Hashing\<close>

fun hash_times33 :: "byte list \<Rightarrow> u32 \<Rightarrow> u32" where
  "hash_times33 [] hash = hash"
| "hash_times33 (p # ps) hash = hash_times33 ps (hash * 33 + ucast p)"

text \<open>The string loop, which also yields the bytes it has consumed (\<open>*klen = p - key\<close>).\<close>

fun hash_string :: "byte list \<Rightarrow> u32 \<Rightarrow> u32 \<times> byte list" where
  "hash_string [] hash = (hash, [])"
| "hash_string (p # ps) hash =
     (if p = 0 then (hash, [])
      else (case hash_string ps (hash * 33 + ucast p) of (h, k) \<Rightarrow> (h, p # k)))"

fun hashfunc_default :: "hash_key \<Rightarrow> u32 \<Rightarrow> u32 \<times> byte list" where
  "hashfunc_default (KeyString mem) hash = hash_string mem hash"
| "hashfunc_default (KeyBytes key) hash = (hash_times33 key hash, key)"

definition apr_hashfunc_default :: "hash_key \<Rightarrow> u32 \<times> byte list" where
  "apr_hashfunc_default key = hashfunc_default key 0"

text \<open>
  The key bytes of an argument. A custom hash function is code of the caller; it gets the
  key and is documented to report the length of a string key as the default one does.
\<close>

fun key_bytes :: "hash_key \<Rightarrow> byte list" where
  "key_bytes (KeyString mem) = takeWhile (\<lambda>b. b \<noteq> 0) mem"
| "key_bytes (KeyBytes key) = key"

definition key_hash :: "'v apr_hash \<Rightarrow> hash_key \<Rightarrow> u32 \<times> byte list" where
  "key_hash ht key =
     (case ht_func ht of
        Some f \<Rightarrow> (f (key_bytes key), key_bytes key)
      | None \<Rightarrow> hashfunc_default key (ht_seed ht))"

subsection \<open>Iteration\<close>

text \<open>
  An iterator holds the cells \<open>this\<close> and \<open>next\<close> (as the chains that start there) and
  the index of the next chain.
\<close>

record 'v hash_index =
  hi_this :: "'v hash_entry list"
  hi_next :: "'v hash_entry list"
  hi_index :: nat

text \<open>The loop of \<open>apr_hash_next\<close> over empty chains.\<close>

function hash_advance :: "'v apr_hash \<Rightarrow> nat \<Rightarrow> ('v hash_entry list \<times> nat) option" where
  "hash_advance ht i =
     (if i > unat (ht_max ht) then None
      else if ht_array ht ! i \<noteq> [] then Some (ht_array ht ! i, i + 1)
      else hash_advance ht (i + 1))"
  by pat_completeness auto
termination
  by (relation "measure (\<lambda>(ht, i). Suc (unat (ht_max ht)) - i)") auto

definition apr_hash_next :: "'v apr_hash \<Rightarrow> 'v hash_index \<Rightarrow> 'v hash_index option" where
  "apr_hash_next ht hi =
     (if hi_next hi \<noteq> []
      then Some \<lparr>hi_this = hi_next hi, hi_next = tl (hi_next hi), hi_index = hi_index hi\<rparr>
      else map_option (\<lambda>(this, i). \<lparr>hi_this = this, hi_next = tl this, hi_index = i\<rparr>)
             (hash_advance ht (hi_index hi)))"

definition apr_hash_first :: "'v apr_hash \<Rightarrow> 'v hash_index option" where
  "apr_hash_first ht = apr_hash_next ht \<lparr>hi_this = [], hi_next = [], hi_index = 0\<rparr>"

definition apr_hash_this :: "'v hash_index \<Rightarrow> byte list \<times> nat \<times> 'v" where
  "apr_hash_this hi =
     (let e = hd (hi_this hi) in (he_key e, length (he_key e), he_val e))"

definition apr_hash_this_key :: "'v hash_index \<Rightarrow> byte list" where
  "apr_hash_this_key hi = fst (apr_hash_this hi)"

definition apr_hash_this_key_len :: "'v hash_index \<Rightarrow> nat" where
  "apr_hash_this_key_len hi = fst (snd (apr_hash_this hi))"

definition apr_hash_this_val :: "'v hash_index \<Rightarrow> 'v" where
  "apr_hash_this_val hi = snd (snd (apr_hash_this hi))"

declare hash_advance.simps [simp del]

lemma hash_advance_mono: "hash_advance ht i = Some (c, j) \<Longrightarrow> i < j \<and> i \<le> unat (ht_max ht)"
proof (induction ht i rule: hash_advance.induct)
  case (1 ht i)
  then show ?case
    by (subst (asm) hash_advance.simps) (fastforce split: if_splits)
qed

definition iter_measure :: "'v apr_hash \<Rightarrow> 'v hash_index option \<Rightarrow> nat \<times> nat" where
  "iter_measure ht hi =
     (case hi of None \<Rightarrow> (0, 0)
      | Some h \<Rightarrow> (Suc (Suc (unat (ht_max ht)) - hi_index h), length (hi_next h)))"

lemma apr_hash_next_less:
  "(iter_measure ht (apr_hash_next ht hi), iter_measure ht (Some hi)) \<in> less_than <*lex*> less_than"
  by (auto simp: apr_hash_next_def iter_measure_def dest: hash_advance_mono
      split: option.splits if_splits)

text \<open>The cells a \<open>for (hi = ...; hi; hi = apr_hash_next(hi))\<close> loop visits.\<close>

function hash_visit :: "'v apr_hash \<Rightarrow> 'v hash_index option \<Rightarrow> 'v hash_entry list" where
  "hash_visit ht None = []"
| "hash_visit ht (Some hi) = hd (hi_this hi) # hash_visit ht (apr_hash_next ht hi)"
  by pat_completeness auto
termination
  by (relation "inv_image (less_than <*lex*> less_than) (\<lambda>(ht, hi). iter_measure ht hi)")
    (use apr_hash_next_less in auto)

subsection \<open>Growth\<close>

definition chain_index :: "u32 \<Rightarrow> u32 \<Rightarrow> nat" where
  "chain_index hash m = unat (hash AND m)"

definition push_entry ::
  "u32 \<Rightarrow> 'v hash_entry \<Rightarrow> 'v hash_entry list list \<Rightarrow> 'v hash_entry list list" where
  "push_entry m e arr =
     (let i = chain_index (he_hash e) m in arr[i := e # arr ! i])"

definition expand_array :: "'v apr_hash \<Rightarrow> 'v apr_hash" where
  "expand_array ht =
     (let new_max = ht_max ht * 2 + 1;
          new_array = fold (push_entry new_max) (hash_visit ht (apr_hash_first ht))
                        (alloc_array new_max)
      in ht\<lparr>ht_array := new_array, ht_max := new_max\<rparr>)"

subsection \<open>Lookup and update\<close>

text \<open>
  \<open>find_entry\<close> returns the address of the link to the entry: here the number of the
  chain and the position in it, which is the length of the chain if the link is NULL.
\<close>

fun find_in_chain :: "u32 \<Rightarrow> byte list \<Rightarrow> 'v hash_entry list \<Rightarrow> nat" where
  "find_in_chain hash key [] = 0"
| "find_in_chain hash key (he # hes) =
     (if he_hash he = hash \<and> length (he_key he) = length key \<and> he_key he = key then 0
      else Suc (find_in_chain hash key hes))"

definition find_entry ::
  "'v apr_hash \<Rightarrow> hash_key \<Rightarrow> 'v option \<Rightarrow> 'v apr_hash \<times> nat \<times> nat" where
  "find_entry ht key val =
     (case key_hash ht key of (hash, k) \<Rightarrow>
        (let i = chain_index hash (ht_max ht);
             chain = ht_array ht ! i;
             p = find_in_chain hash k chain
         in if p < length chain then (ht, i, p)
            else (case val of
              None \<Rightarrow> (ht, i, p)
            | Some v \<Rightarrow>
                (ht\<lparr>ht_free := tl (ht_free ht),
                    ht_array := (ht_array ht)
                      [i := chain @ [\<lparr>he_hash = hash, he_key = k, he_val = v\<rparr>]],
                    ht_count := ht_count ht + 1\<rparr>, i, p))))"

definition apr_hash_get :: "'v apr_hash \<Rightarrow> hash_key \<Rightarrow> 'v option" where
  "apr_hash_get ht key =
     (case find_entry ht key None of (_, i, p) \<Rightarrow>
        if p < length (ht_array ht ! i) then Some (he_val (ht_array ht ! i ! p)) else None)"

definition apr_hash_set :: "'v apr_hash \<Rightarrow> hash_key \<Rightarrow> 'v option \<Rightarrow> 'v apr_hash" where
  "apr_hash_set ht key val =
     (case find_entry ht key val of (ht', i, p) \<Rightarrow>
        (let chain = ht_array ht' ! i
         in if p < length chain then
              (case val of
                 None \<Rightarrow>
                   ht'\<lparr>ht_array := (ht_array ht')[i := take p chain @ drop (Suc p) chain],
                       ht_free := chain ! p # ht_free ht',
                       ht_count := ht_count ht' - 1\<rparr>
               | Some v \<Rightarrow>
                   (let ht'' = ht'\<lparr>ht_array := (ht_array ht')
                                    [i := chain[p := (chain ! p)\<lparr>he_val := v\<rparr>]]\<rparr>
                    in if ht_count ht'' > ht_max ht'' then expand_array ht'' else ht''))
            else ht'))"

definition apr_hash_count :: "'v apr_hash \<Rightarrow> u32" where
  "apr_hash_count ht = ht_count ht"

subsection \<open>Whole tables\<close>

fun copy_chain :: "'v hash_entry list \<Rightarrow> 'v hash_entry list" where
  "copy_chain [] = []"
| "copy_chain (e # es) =
     \<lparr>he_hash = he_hash e, he_key = he_key e, he_val = he_val e\<rparr> # copy_chain es"

definition apr_hash_copy :: "'v apr_hash \<Rightarrow> 'v apr_hash" where
  "apr_hash_copy orig =
     \<lparr>ht_array = map (\<lambda>i. copy_chain (ht_array orig ! i)) [0..<unat (ht_max orig) + 1],
      ht_count = ht_count orig, ht_max = ht_max orig, ht_seed = ht_seed orig,
      ht_func = ht_func orig, ht_free = []\<rparr>"

lemma apr_hash_set_None_max [simp]: "ht_max (apr_hash_set ht key None) = ht_max ht"
  by (auto simp: apr_hash_set_def find_entry_def Let_def split: prod.splits)

lemma iter_measure_max: "ht_max ht' = ht_max ht \<Longrightarrow> iter_measure ht' = iter_measure ht"
  by (auto simp: iter_measure_def fun_eq_iff split: option.splits)

text \<open>
  \<open>apr_hash_clear\<close> deletes each entry while it iterates; the iterator has already saved
  the next cell.
\<close>

function hash_clear_loop :: "'v apr_hash \<Rightarrow> 'v hash_index option \<Rightarrow> 'v apr_hash" where
  "hash_clear_loop ht None = ht"
| "hash_clear_loop ht (Some hi) =
     (let ht' = apr_hash_set ht (KeyBytes (apr_hash_this_key hi)) None
      in hash_clear_loop ht' (apr_hash_next ht' hi))"
  by pat_completeness auto
termination
proof (relation "inv_image (less_than <*lex*> less_than) (\<lambda>(ht, hi). iter_measure ht hi)",
    goal_cases)
  case (2 ht hi ht')
  then have "ht_max ht' = ht_max ht" by simp
  then show ?case
    using apr_hash_next_less [of ht' hi] iter_measure_max [of ht' ht] by simp
qed auto

definition apr_hash_clear :: "'v apr_hash \<Rightarrow> 'v apr_hash" where
  "apr_hash_clear ht = hash_clear_loop ht (apr_hash_first ht)"

text \<open>
  \<open>apr_hash_merge\<close>: \<open>merger\<close> gets the key and the two values; without one the overlay's
  value replaces the base's. The inner loop compares keys only, not hashes.
\<close>

fun merge_into_chain ::
  "(byte list \<Rightarrow> 'v \<Rightarrow> 'v \<Rightarrow> 'v) option \<Rightarrow> 'v hash_entry \<Rightarrow> 'v hash_entry list \<Rightarrow>
   'v hash_entry list option" where
  "merge_into_chain merger iter [] = None"
| "merge_into_chain merger iter (ent # ents) =
     (if length (he_key ent) = length (he_key iter) \<and> he_key ent = he_key iter then
        (case merger of
           Some f \<Rightarrow> Some (ent\<lparr>he_val := f (he_key iter) (he_val iter) (he_val ent)\<rparr> # ents)
         | None \<Rightarrow> Some (ent\<lparr>he_val := he_val iter\<rparr> # ents))
      else map_option ((#) ent) (merge_into_chain merger iter ents))"

definition merge_entry ::
  "(byte list \<Rightarrow> 'v \<Rightarrow> 'v \<Rightarrow> 'v) option \<Rightarrow> 'v hash_entry \<Rightarrow> 'v apr_hash \<Rightarrow> 'v apr_hash" where
  "merge_entry merger iter res =
     (let hash = fst (key_hash res (KeyBytes (he_key iter)));
          i = chain_index hash (ht_max res)
      in case merge_into_chain merger iter (ht_array res ! i) of
           Some chain \<Rightarrow> res\<lparr>ht_array := (ht_array res)[i := chain]\<rparr>
         | None \<Rightarrow>
             res\<lparr>ht_array := (ht_array res)
                   [i := \<lparr>he_hash = hash, he_key = he_key iter, he_val = he_val iter\<rparr>
                         # ht_array res ! i],
                 ht_count := ht_count res + 1\<rparr>)"

definition apr_hash_merge ::
  "'v apr_hash \<Rightarrow> 'v apr_hash \<Rightarrow> (byte list \<Rightarrow> 'v \<Rightarrow> 'v \<Rightarrow> 'v) option \<Rightarrow> 'v apr_hash" where
  "apr_hash_merge overlay base merger =
     (let m = (if ht_max overlay > ht_max base then ht_max overlay else ht_max base);
          m = (if ht_count base + ht_count overlay > m then m * 2 + 1 else m);
          based = fold (push_entry m)
                    (concat (map (\<lambda>k. ht_array base ! k) [0..<unat (ht_max base) + 1]))
                    (alloc_array m);
          res = \<lparr>ht_array = based, ht_count = ht_count base, ht_max = m,
                 ht_seed = ht_seed base, ht_func = ht_func base, ht_free = []\<rparr>
      in fold (merge_entry merger)
           (concat (map (\<lambda>k. ht_array overlay ! k) [0..<unat (ht_max overlay) + 1])) res)"

definition apr_hash_overlay :: "'v apr_hash \<Rightarrow> 'v apr_hash \<Rightarrow> 'v apr_hash" where
  "apr_hash_overlay overlay base = apr_hash_merge overlay base None"

text \<open>\<open>apr_hash_do\<close>: the callback threads its own record \<open>r\<close>; False stops the walk.\<close>

function hash_do_loop ::
  "('r \<Rightarrow> byte list \<Rightarrow> 'v \<Rightarrow> 'r \<times> bool) \<Rightarrow> 'r \<Rightarrow> 'v apr_hash \<Rightarrow> 'v hash_index option \<Rightarrow> 'r \<times> bool"
where
  "hash_do_loop cb r ht None = (r, True)"
| "hash_do_loop cb r ht (Some hi) =
     (case cb r (apr_hash_this_key hi) (apr_hash_this_val hi) of
        (r', rv) \<Rightarrow>
          if rv then hash_do_loop cb r' ht (apr_hash_next ht hi) else (r', False))"
  by pat_completeness auto
termination
  by (relation "inv_image (less_than <*lex*> less_than) (\<lambda>(cb, r, ht, hi). iter_measure ht hi)")
    (use apr_hash_next_less in auto)

definition apr_hash_do ::
  "('r \<Rightarrow> byte list \<Rightarrow> 'v \<Rightarrow> 'r \<times> bool) \<Rightarrow> 'r \<Rightarrow> 'v apr_hash \<Rightarrow> 'r \<times> bool" where
  "apr_hash_do cb r ht = hash_do_loop cb r ht (apr_hash_first ht)"

subsection \<open>The table as a finite map\<close>

definition kvs :: "'v hash_entry list \<Rightarrow> (byte list \<times> 'v) list" where
  "kvs es = map (\<lambda>e. (he_key e, he_val e)) es"

lemma kvs_simps [simp]:
  "kvs [] = []"
  "kvs (e # es) = (he_key e, he_val e) # kvs es"
  "kvs (xs @ ys) = kvs xs @ kvs ys"
  by (auto simp: kvs_def)

lemma map_fst_kvs [simp]: "map fst (kvs es) = map he_key es"
  by (simp add: kvs_def comp_def)

lemma fst_set_kvs [simp]: "fst ` set (kvs es) = he_key ` set es"
  by (force simp: kvs_def)

definition hash_map :: "'v apr_hash \<Rightarrow> byte list \<Rightarrow> 'v option" where
  "hash_map ht = map_of (kvs (concat (ht_array ht)))"

definition bytes_hash :: "'v apr_hash \<Rightarrow> byte list \<Rightarrow> u32" where
  "bytes_hash ht k = fst (key_hash ht (KeyBytes k))"

definition bucket :: "'v apr_hash \<Rightarrow> byte list \<Rightarrow> nat" where
  "bucket ht k = chain_index (bytes_hash ht k) (ht_max ht)"

definition entry_ok :: "'v apr_hash \<Rightarrow> nat \<Rightarrow> 'v hash_entry \<Rightarrow> bool" where
  "entry_ok ht i e \<longleftrightarrow> he_hash e = bytes_hash ht (he_key e) \<and> bucket ht (he_key e) = i"

definition hash_shape :: "'v apr_hash \<Rightarrow> bool" where
  "hash_shape ht \<longleftrightarrow>
     length (ht_array ht) = unat (ht_max ht) + 1 \<and>
     (\<forall>i < length (ht_array ht).
        (\<forall>e \<in> set (ht_array ht ! i). entry_ok ht i e) \<and> distinct (map he_key (ht_array ht ! i)))"

definition hash_inv :: "'v apr_hash \<Rightarrow> bool" where
  "hash_inv ht \<longleftrightarrow>
     hash_shape ht \<and>
     ht_count ht = of_nat (length (concat (ht_array ht))) \<and>
     length (concat (ht_array ht)) \<le> unat (ht_max ht)"

text \<open>All the ways to name the same key bytes reach the same hash.\<close>

lemma hash_string_eq:
  "hash_string mem h = (hash_times33 (takeWhile (\<lambda>b. b \<noteq> 0) mem) h, takeWhile (\<lambda>b. b \<noteq> 0) mem)"
  by (induction mem arbitrary: h) auto

lemma key_hash_eq: "key_hash ht key = (bytes_hash ht (key_bytes key), key_bytes key)"
  by (cases key) (auto simp: key_hash_def bytes_hash_def hash_string_eq split: option.splits)

lemma bytes_hash_cong:
  "ht_func ht' = ht_func ht \<Longrightarrow> ht_seed ht' = ht_seed ht \<Longrightarrow> bytes_hash ht' = bytes_hash ht"
  by (auto simp: bytes_hash_def key_hash_def fun_eq_iff cong: option.case_cong)

lemma bucket_bound: "length (ht_array ht) = unat (ht_max ht) + 1 \<Longrightarrow> bucket ht k < length (ht_array ht)"
proof -
  assume l: "length (ht_array ht) = unat (ht_max ht) + 1"
  have "bytes_hash ht k AND ht_max ht \<le> ht_max ht" by (rule word_and_le1)
  then have "unat (bytes_hash ht k AND ht_max ht) \<le> unat (ht_max ht)"
    by (simp add: word_le_nat_alt)
  with l show ?thesis by (simp add: bucket_def chain_index_def)
qed

subsection \<open>Chains\<close>

lemma find_in_chain_le: "find_in_chain h k c \<le> length c"
  by (induction c) auto

lemma find_in_chain_spec:
  assumes "\<forall>e \<in> set c. he_key e = k \<longrightarrow> he_hash e = h"
  shows "find_in_chain h k c < length c \<longleftrightarrow> k \<in> he_key ` set c"
    and "find_in_chain h k c < length c \<Longrightarrow> he_key (c ! find_in_chain h k c) = k"
    and "k \<notin> he_key ` set (take (find_in_chain h k c) c)"
  using assms by (induction c) auto

lemma map_of_kvs_found:
  assumes "p < length c" and "he_key (c ! p) = k" and "k \<notin> he_key ` set (take p c)"
  shows "map_of (kvs c) k = Some (he_val (c ! p))"
  using assms
proof (induction c arbitrary: p)
  case (Cons e c)
  then show ?case by (cases p) auto
qed simp

lemma map_of_kvs_None [simp]: "map_of (kvs c) k = None \<longleftrightarrow> k \<notin> he_key ` set c"
  by (simp add: map_of_eq_None_iff)

text \<open>A key is looked up in its own chain only.\<close>

lemma map_of_concat:
  assumes "i < length A" and "\<forall>j < length A. j \<noteq> i \<longrightarrow> k \<notin> he_key ` set (A ! j)"
  shows "map_of (kvs (concat A)) k = map_of (kvs (A ! i)) k"
  using assms
proof (induction A arbitrary: i)
  case (Cons c A)
  show ?case
  proof (cases i)
    case 0
    have "k \<notin> he_key ` set (concat A)"
    proof
      assume "k \<in> he_key ` set (concat A)"
      then obtain j where "j < length A" "k \<in> he_key ` set (A ! j)"
        by (auto simp: in_set_conv_nth) (metis image_eqI nth_mem)
      with Cons.prems(2) 0 show False by (auto dest: spec [of _ "Suc j"])
    qed
    then have "map_of (kvs (concat A)) k = None" by simp
    with 0 show ?thesis
      by (simp add: map_add_def del: map_of_kvs_None split: option.splits)
  next
    case (Suc i')
    have "k \<notin> he_key ` set c"
      using Cons.prems(2) Suc by (auto dest: spec [of _ 0])
    moreover have "map_of (kvs (concat A)) k = map_of (kvs (A ! i')) k"
      using Cons.prems Suc by (intro Cons.IH) auto
    ultimately show ?thesis
      using Suc by (simp add: map_add_def map_of_kvs_None [THEN iffD2])
  qed
qed simp

lemma bytes_hash_update [simp]:
  "bytes_hash (ht\<lparr>ht_array := A\<rparr>) = bytes_hash ht"
  "bytes_hash (ht\<lparr>ht_count := n\<rparr>) = bytes_hash ht"
  "bytes_hash (ht\<lparr>ht_free := F\<rparr>) = bytes_hash ht"
  "bytes_hash (ht\<lparr>ht_max := m\<rparr>) = bytes_hash ht"
  by (rule bytes_hash_cong; simp)+

lemma bucket_update [simp]:
  "bucket (ht\<lparr>ht_array := A\<rparr>) = bucket ht"
  "bucket (ht\<lparr>ht_count := n\<rparr>) = bucket ht"
  "bucket (ht\<lparr>ht_free := F\<rparr>) = bucket ht"
  by (simp_all add: bucket_def fun_eq_iff)

lemma entry_ok_update [simp]:
  "entry_ok (ht\<lparr>ht_array := A\<rparr>) = entry_ok ht"
  "entry_ok (ht\<lparr>ht_count := n\<rparr>) = entry_ok ht"
  "entry_ok (ht\<lparr>ht_free := F\<rparr>) = entry_ok ht"
  by (simp_all add: entry_ok_def fun_eq_iff)

lemma hash_shape_update [simp]:
  "hash_shape (ht\<lparr>ht_count := n\<rparr>) = hash_shape ht"
  "hash_shape (ht\<lparr>ht_free := F\<rparr>) = hash_shape ht"
  by (simp_all add: hash_shape_def)

lemma hash_map_update [simp]:
  "hash_map (ht\<lparr>ht_count := n\<rparr>) = hash_map ht"
  "hash_map (ht\<lparr>ht_free := F\<rparr>) = hash_map ht"
  by (simp_all add: hash_map_def)

lemma shape_bucket: "hash_shape ht \<Longrightarrow> bucket ht k < length (ht_array ht)"
  by (rule bucket_bound) (simp add: hash_shape_def)

lemma shape_entry:
  assumes "hash_shape ht" and "i < length (ht_array ht)" and "e \<in> set (ht_array ht ! i)"
  shows "he_hash e = bytes_hash ht (he_key e)" and "bucket ht (he_key e) = i"
  using assms by (auto simp: hash_shape_def entry_ok_def)

lemma hash_map_bucket:
  assumes "hash_shape ht"
  shows "hash_map ht k = map_of (kvs (ht_array ht ! bucket ht k)) k"
  unfolding hash_map_def
  by (rule map_of_concat) (use assms in \<open>auto simp: shape_bucket dest: shape_entry\<close>)

lemma shape_chain_update:
  assumes "hash_shape ht" and "\<forall>e \<in> set c. entry_ok ht i e" and "distinct (map he_key c)"
  shows "hash_shape (ht\<lparr>ht_array := (ht_array ht)[i := c]\<rparr>)"
proof (cases "i < length (ht_array ht)")
  case True
  with assms show ?thesis by (simp add: hash_shape_def nth_list_update)
next
  case False
  with assms show ?thesis by (simp add: list_update_beyond)
qed

lemma map_chain_update:
  assumes sh: "hash_shape ht" and c: "\<forall>e \<in> set c. entry_ok ht i e" "distinct (map he_key c)"
    and i: "i < length (ht_array ht)"
  shows "hash_map (ht\<lparr>ht_array := (ht_array ht)[i := c]\<rparr>) k =
           (if bucket ht k = i then map_of (kvs c) k else hash_map ht k)"
  using hash_map_bucket [OF shape_chain_update [OF sh c]] hash_map_bucket [OF sh] i
  by (simp add: nth_list_update)

lemma length_concat_update:
  "i < length A \<Longrightarrow> length (concat (A[i := c])) + length (A ! i) = length (concat A) + length c"
proof (induction A arbitrary: i)
  case (Cons a A)
  then show ?case by (cases i) auto
qed simp

subsection \<open>Lookup\<close>

lemma find_entry_None:
  "find_entry ht key None =
     (ht, bucket ht (key_bytes key),
      find_in_chain (bytes_hash ht (key_bytes key)) (key_bytes key)
        (ht_array ht ! bucket ht (key_bytes key)))"
  by (simp add: find_entry_def key_hash_eq bucket_def Let_def)

lemma chain_hash: "hash_shape ht \<Longrightarrow>
    \<forall>e \<in> set (ht_array ht ! bucket ht k). he_key e = k \<longrightarrow> he_hash e = bytes_hash ht k"
  using shape_entry(1) shape_bucket by blast

lemma apr_hash_get_map:
  assumes "hash_shape ht"
  shows "apr_hash_get ht key = hash_map ht (key_bytes key)"
proof -
  let ?k = "key_bytes key"
  let ?c = "ht_array ht ! bucket ht ?k"
  let ?p = "find_in_chain (bytes_hash ht ?k) ?k ?c"
  note spec = find_in_chain_spec [OF chain_hash [OF assms, of ?k]]
  show ?thesis
  proof (cases "?p < length ?c")
    case True
    then have "map_of (kvs ?c) ?k = Some (he_val (?c ! ?p))"
      using spec by (intro map_of_kvs_found) auto
    with True show ?thesis
      by (simp add: apr_hash_get_def find_entry_None hash_map_bucket [OF assms])
  next
    case False
    then have "map_of (kvs ?c) ?k = None" using spec by simp
    with False show ?thesis
      by (simp add: apr_hash_get_def find_entry_None hash_map_bucket [OF assms] del: map_of_kvs_None)
  qed
qed

subsection \<open>Iteration\<close>

lemma hash_advance_spec:
  assumes "length (ht_array ht) = unat (ht_max ht) + 1"
  shows "(case hash_advance ht i of
            None \<Rightarrow> concat (drop i (ht_array ht)) = []
          | Some (c, j) \<Rightarrow> c \<noteq> [] \<and> i < j \<and> j \<le> length (ht_array ht) \<and> c = ht_array ht ! (j - 1) \<and>
                 concat (drop i (ht_array ht)) = c @ concat (drop j (ht_array ht)))"
  using assms
proof (induction ht i rule: hash_advance.induct)
  case (1 ht i)
  show ?case
  proof (cases "i < length (ht_array ht)")
    case True
    then have d: "drop i (ht_array ht) = ht_array ht ! i # drop (i + 1) (ht_array ht)"
      by (simp add: Cons_nth_drop_Suc)
    show ?thesis
    proof (cases "ht_array ht ! i = []")
      case e: True
      have step: "hash_advance ht i = hash_advance ht (i + 1)"
        using True e 1(2) by (subst hash_advance.simps) simp
      have "\<not> i > unat (ht_max ht)" using True 1(2) by simp
      from 1(1) [OF this _ 1(2)] e show ?thesis
        unfolding step d by (auto split: option.splits)
    next
      case False
      then have "hash_advance ht i = Some (ht_array ht ! i, i + 1)"
        using True 1(2) by (subst hash_advance.simps) simp
      with False True show ?thesis unfolding d by simp
    qed
  next
    case False
    then show ?thesis
      using 1(2) by (subst hash_advance.simps) simp
  qed
qed

lemma hash_visit_next:
  assumes "length (ht_array ht) = unat (ht_max ht) + 1"
  shows "hash_visit ht (apr_hash_next ht \<lparr>hi_this = this, hi_next = nxt, hi_index = i\<rparr>) =
           nxt @ concat (drop i (ht_array ht))"
proof (induction "length (ht_array ht) + 1 - i" arbitrary: this nxt i rule: less_induct)
  case less
  show ?case
  proof (induction nxt arbitrary: this)
    case Nil
    note adv = hash_advance_spec [OF assms, of i]
    show ?case
    proof (cases "hash_advance ht i")
      case None
      with adv show ?thesis by (simp add: apr_hash_next_def)
    next
      case (Some cj)
      obtain c j where cj: "cj = (c, j)" by (cases cj)
      from adv Some cj have c: "c \<noteq> []" "i < j"
        and eq: "concat (drop i (ht_array ht)) = c @ concat (drop j (ht_array ht))" by auto
      have "i \<le> unat (ht_max ht)" using hash_advance_mono Some cj by blast
      then have "length (ht_array ht) + 1 - j < length (ht_array ht) + 1 - i"
        using c assms by simp
      from less [OF this, of c "tl c"] c eq Some cj show ?thesis
        by (simp add: apr_hash_next_def)
    qed
  next
    case (Cons e es)
    then show ?case by (simp add: apr_hash_next_def)
  qed
qed

text \<open>The iterator visits every cell of every chain once, in array order.\<close>

lemma hash_visit_first:
  assumes "length (ht_array ht) = unat (ht_max ht) + 1"
  shows "hash_visit ht (apr_hash_first ht) = concat (ht_array ht)"
  using hash_visit_next [OF assms, of "[]" "[]" 0] by (simp add: apr_hash_first_def)

text \<open>\<open>apr_hash_do\<close> with a callback that never stops the walk is a fold over those cells.\<close>

lemma hash_do_loop_visit:
  assumes "\<And>r k v. snd (cb r k v)"
  shows "hash_do_loop cb r ht hi =
           (fold (\<lambda>e r. fst (cb r (he_key e) (he_val e))) (hash_visit ht hi) r, True)"
proof (induction ht hi arbitrary: r rule: hash_visit.induct)
  case (2 ht hi)
  obtain r' b where cb: "cb r (he_key (hd (hi_this hi))) (he_val (hd (hi_this hi))) = (r', b)" by fastforce
  have "snd (cb r (he_key (hd (hi_this hi))) (he_val (hd (hi_this hi))))" by (rule assms)
  with cb 2 show ?case
    by (simp add: apr_hash_this_key_def apr_hash_this_val_def apr_hash_this_def Let_def)
qed simp

lemma apr_hash_do_visit:
  assumes "\<And>r k v. snd (cb r k v)"
  shows "apr_hash_do cb r ht =
           (fold (\<lambda>e r. fst (cb r (he_key e) (he_val e))) (hash_visit ht (apr_hash_first ht)) r, True)"
  unfolding apr_hash_do_def by (rule hash_do_loop_visit [OF assms])

subsection \<open>Rehashing\<close>

lemma chain_index_less: "chain_index h m < unat m + 1"
proof -
  have "h AND m \<le> m" by (rule word_and_le1)
  then show ?thesis by (simp add: chain_index_def word_le_nat_alt)
qed

lemma fold_push_nth:
  assumes "length arr = unat m + 1" and "i < length arr"
  shows "length (fold (push_entry m) es arr) = length arr \<and>
         fold (push_entry m) es arr ! i =
           rev (filter (\<lambda>e. chain_index (he_hash e) m = i) es) @ arr ! i"
  using assms
proof (induction es arbitrary: arr)
  case (Cons e es)
  have l: "length (push_entry m e arr) = length arr"
    by (simp add: push_entry_def Let_def)
  have n: "push_entry m e arr ! i = (if chain_index (he_hash e) m = i then e # arr ! i else arr ! i)"
    using Cons.prems(2) by (auto simp: push_entry_def Let_def nth_list_update)
  show ?case using Cons.IH [of "push_entry m e arr"] Cons.prems l n by simp
qed simp

lemma fold_push_length:
  assumes "length arr = unat m + 1"
  shows "length (concat (fold (push_entry m) es arr)) = length es + length (concat arr)"
  using assms
proof (induction es arbitrary: arr)
  case (Cons e es)
  let ?i = "chain_index (he_hash e) m"
  have i: "?i < length arr" using Cons.prems chain_index_less by simp
  have "length (concat (push_entry m e arr)) = Suc (length (concat arr))"
    using length_concat_update [OF i, of "e # arr ! ?i"] by (simp add: push_entry_def Let_def)
  moreover have "length (push_entry m e arr) = unat m + 1"
    using Cons.prems by (simp add: push_entry_def Let_def)
  ultimately show ?case using Cons.IH by simp
qed simp

lemma map_of_kvs_filter:
  "\<forall>e \<in> set es. he_key e = k \<longrightarrow> Q e \<Longrightarrow> map_of (kvs (filter Q es)) k = map_of (kvs es) k"
  by (induction es) auto

lemma map_of_kvs_rev:
  assumes "distinct (map he_key es)"
  shows "map_of (kvs (rev es)) = map_of (kvs es)"
proof (rule map_of_inject_set [THEN iffD2])
  show "distinct (map fst (kvs (rev es)))" "distinct (map fst (kvs es))"
    using assms by (simp_all add: rev_map [symmetric])
  show "set (kvs (rev es)) = set (kvs es)" by (simp add: kvs_def)
qed

lemma distinct_keys_filter: "distinct (map he_key es) \<Longrightarrow> distinct (map he_key (filter Q es))"
  by (induction es) auto

lemma alloc_array_length: "unat m < 2 ^ 32 - 1 \<Longrightarrow> length (alloc_array m) = unat m + 1"
  by (simp add: alloc_array_def unat_word_ariths)

lemma concat_alloc [simp]: "concat (alloc_array m) = []"
  by (simp add: alloc_array_def concat_replicate_trivial)

text \<open>Pushing entries with distinct keys and true hashes into an empty array.\<close>

lemma rehash_shape:
  fixes ht :: "'v apr_hash"
  assumes es: "\<forall>e \<in> set es. he_hash e = bytes_hash ht (he_key e)" "distinct (map he_key es)"
    and m: "unat m < 2 ^ 32 - 1"
    and ht': "ht' = ht\<lparr>ht_array := fold (push_entry m) es (alloc_array m), ht_max := m\<rparr>"
  shows "hash_shape ht' \<and> hash_map ht' = map_of (kvs es) \<and> length (concat (ht_array ht')) = length es"
proof (intro conjI ext)
  let ?B = "alloc_array m :: 'v hash_entry list list"
  have al: "length ?B = unat m + 1" by (rule alloc_array_length [OF m])
  let ?A = "fold (push_entry m) es (alloc_array m)"
  have "0 < length ?B" by (simp only: al)
  from fold_push_nth [OF al this, of es] al have len: "length ?A = unat m + 1" by simp
  have nth: "?A ! i = rev (filter (\<lambda>e. chain_index (he_hash e) m = i) es)" if "i < unat m + 1" for i
  proof -
    have "i < unat (m + 1)" using that al by (simp add: alloc_array_def)
    then have "?B ! i = []" unfolding alloc_array_def by (rule nth_replicate)
    moreover have "i < length ?B" using that by (simp only: al)
    ultimately show ?thesis using fold_push_nth [OF al, of i es] by simp
  qed
  have bh: "bytes_hash ht' = bytes_hash ht" by (simp add: ht')
  show sh: "hash_shape ht'"
    unfolding hash_shape_def
  proof (intro conjI allI impI)
    show "length (ht_array ht') = unat (ht_max ht') + 1" by (simp add: ht' len)
    fix i assume "i < length (ht_array ht')"
    then have i: "i < unat m + 1" by (simp add: ht' len)
    show "distinct (map he_key (ht_array ht' ! i))"
      using distinct_keys_filter [OF es(2)] nth [OF i] by (simp add: ht' rev_map [symmetric])
    show "\<forall>e \<in> set (ht_array ht' ! i). entry_ok ht' i e"
    proof
      fix e assume "e \<in> set (ht_array ht' ! i)"
      then have e: "e \<in> set es" "chain_index (he_hash e) m = i"
        using nth [OF i] by (auto simp: ht')
      moreover have "he_hash e = bytes_hash ht (he_key e)" using es(1) e(1) by blast
      ultimately show "entry_ok ht' i e" by (simp add: entry_ok_def bucket_def bh) (simp add: ht')
    qed
  qed
  show "hash_map ht' k = map_of (kvs es) k" for k
  proof -
    let ?Q = "\<lambda>e. chain_index (he_hash e) m = bucket ht' k"
    have b: "bucket ht' k < unat m + 1"
      using chain_index_less by (simp add: bucket_def ht')
    have "map_of (kvs (rev (filter ?Q es))) k = map_of (kvs (filter ?Q es)) k"
      by (simp add: map_of_kvs_rev distinct_keys_filter es(2))
    also have "\<dots> = map_of (kvs es) k"
      by (rule map_of_kvs_filter) (use es(1) in \<open>auto simp: bucket_def bh ht'\<close>)
    finally show ?thesis
      using nth [OF b] hash_map_bucket [OF sh, of k] by (simp add: ht')
  qed
  show "length (concat (ht_array ht')) = length es"
    using fold_push_length [OF al, of es] by (simp add: ht')
qed

lemma shape_distinct:
  assumes "hash_shape ht"
  shows "distinct (map he_key (concat (ht_array ht)))"
proof -
  let ?A = "ht_array ht"
  have "n \<le> length ?A \<Longrightarrow> distinct (map he_key (concat (take n ?A)))" for n
  proof (induction n)
    case (Suc n)
    have "he_key ` set (concat (take n ?A)) \<inter> he_key ` set (?A ! n) = {}"
    proof (rule ccontr)
      assume "\<not> ?thesis"
      then obtain c e e' where "c \<in> set (take n ?A)" "e \<in> set c" "e' \<in> set (?A ! n)"
        and eq: "he_key e = he_key e'" by auto
      then obtain j where "j < n" "e \<in> set (?A ! j)"
        by (auto simp: in_set_conv_nth [of _ "take n ?A"])
      with \<open>e' \<in> set (?A ! n)\<close> eq Suc.prems shape_entry(2) [OF assms]
      show False by (metis Suc_le_lessD less_trans nat_neq_iff)
    qed
    with Suc assms show ?case
      by (auto simp: take_Suc_conv_app_nth hash_shape_def)
  qed simp
  from this [of "length ?A"] show ?thesis by simp
qed

lemma hash_map_dom: "dom (hash_map ht) = he_key ` set (concat (ht_array ht))"
  by (simp add: hash_map_def dom_map_of_conv_image_fst del: set_concat)

lemma hash_map_finite: "finite (dom (hash_map ht))"
  by (simp add: hash_map_dom)

lemma shape_card:
  assumes "hash_shape ht"
  shows "card (dom (hash_map ht)) = length (concat (ht_array ht))"
  using distinct_card [OF shape_distinct [OF assms]]
  by (simp add: hash_map_dom del: set_concat)

lemma shape_true_hash:
  "hash_shape ht \<Longrightarrow> \<forall>e \<in> set (concat (ht_array ht)). he_hash e = bytes_hash ht (he_key e)"
  using shape_entry(1) by (force simp: in_set_conv_nth [of _ "ht_array ht"])

lemma expand_array_map:
  assumes sh: "hash_shape ht" and m: "unat (ht_max ht) < 2 ^ 30"
  shows "hash_shape (expand_array ht) \<and> hash_map (expand_array ht) = hash_map ht \<and>
         length (concat (ht_array (expand_array ht))) = length (concat (ht_array ht)) \<and>
         unat (ht_max (expand_array ht)) = 2 * unat (ht_max ht) + 1"
proof -
  let ?m = "ht_max ht * 2 + 1"
  have um: "unat ?m = 2 * unat (ht_max ht) + 1"
    using m by (simp add: unat_word_ariths)
  have v: "hash_visit ht (apr_hash_first ht) = concat (ht_array ht)"
    using sh by (intro hash_visit_first) (simp add: hash_shape_def)
  have "unat ?m < 2 ^ 32 - 1" using um m by simp
  from rehash_shape [OF shape_true_hash [OF sh] shape_distinct [OF sh] this refl] um
  show ?thesis by (simp add: expand_array_def Let_def v hash_map_def)
qed

subsection \<open>Update\<close>

lemma hash_invD:
  assumes "hash_inv ht"
  shows "hash_shape ht" and "ht_count ht = of_nat (length (concat (ht_array ht)))"
    and "length (concat (ht_array ht)) \<le> unat (ht_max ht)"
    and "unat (ht_count ht) = length (concat (ht_array ht))"
proof -
  show *: "hash_shape ht" "ht_count ht = of_nat (length (concat (ht_array ht)))"
    "length (concat (ht_array ht)) \<le> unat (ht_max ht)"
    using assms by (auto simp: hash_inv_def)
  have "unat (ht_max ht) < 2 ^ 32" using unsigned_less [of "ht_max ht"] by simp
  with * show "unat (ht_count ht) = length (concat (ht_array ht))"
    by (simp add: unat_of_nat take_bit_nat_eq_self del: length_concat)
qed

lemma hash_map_card: "hash_inv ht \<Longrightarrow> unat (apr_hash_count ht) = card (dom (hash_map ht))"
  using hash_invD shape_card by (metis apr_hash_count_def)

text \<open>The three ways an update changes a chain.\<close>

lemma map_of_kvs_snoc:
  "he_key e \<notin> he_key ` set c \<Longrightarrow>
     map_of (kvs (c @ [e])) k = (if k = he_key e then Some (he_val e) else map_of (kvs c) k)"
  by (induction c) auto

lemma map_of_kvs_val:
  assumes "p < length c" "distinct (map he_key c)"
  shows "map_of (kvs (c[p := (c ! p)\<lparr>he_val := v\<rparr>])) k =
           (if k = he_key (c ! p) then Some v else map_of (kvs c) k)"
  using assms
proof (induction c arbitrary: p)
  case (Cons e c)
  show ?case
  proof (cases p)
    case (Suc q)
    then have "he_key (c ! q) \<in> he_key ` set c" using Cons.prems by simp
    then have "he_key e \<noteq> he_key (c ! q)" using Cons.prems by auto
    then show ?thesis using Cons Suc by auto
  qed simp
qed simp

lemma map_of_kvs_del:
  assumes "p < length c" "distinct (map he_key c)"
  shows "map_of (kvs (take p c @ drop (Suc p) c)) k =
           (if k = he_key (c ! p) then None else map_of (kvs c) k)"
  using assms
proof (induction c arbitrary: p)
  case (Cons e c)
  show ?case
  proof (cases p)
    case 0
    then show ?thesis using Cons.prems by (auto simp: map_of_kvs_None [THEN iffD2])
  next
    case (Suc q)
    then have "he_key (c ! q) \<in> he_key ` set c" using Cons.prems by simp
    then have "he_key e \<noteq> he_key (c ! q)" using Cons.prems by auto
    then show ?thesis using Cons.IH [of q] Cons.prems Suc
      by (cases "k = he_key (c ! q)") (simp_all del: kvs_simps(3) map_of_kvs_None)
  qed
qed simp

lemma map_key_update:
  "p < length c \<Longrightarrow> map he_key (c[p := (c ! p)\<lparr>he_val := v\<rparr>]) = map he_key c"
  by (simp add: map_update) (metis list_update_id nth_map)

text \<open>Replacing one chain, as \<open>apr_hash_set\<close> does.\<close>

lemma chain_step:
  assumes inv: "hash_inv ht" and i: "i < length (ht_array ht)"
    and c: "\<forall>e \<in> set c. entry_ok ht i e" "distinct (map he_key c)"
    and m: "\<And>k. bucket ht k = i \<Longrightarrow> map_of (kvs c) k = (if k = x then v else hash_map ht k)"
    and x: "bucket ht x = i"
    and ht': "ht' = ht\<lparr>ht_array := (ht_array ht)[i := c], ht_count := n, ht_free := F\<rparr>"
  shows "hash_shape ht' \<and> hash_map ht' = (hash_map ht)(x := v) \<and>
         length (concat (ht_array ht')) + length (ht_array ht ! i) =
           length (concat (ht_array ht)) + length c"
proof -
  note sh = hash_invD(1) [OF inv]
  have "hash_map ht' k = ((hash_map ht)(x := v)) k" for k
    using map_chain_update [OF sh c i, of k] m [of k] x by (auto simp: ht')
  moreover have "hash_shape ht'" using shape_chain_update [OF sh c] by (simp add: ht')
  ultimately show ?thesis using length_concat_update [OF i, of c] by (simp add: ht' fun_eq_iff del: length_concat)
qed

definition set_grow :: "'v apr_hash \<Rightarrow> 'v apr_hash" where
  "set_grow ht = (if ht_count ht > ht_max ht then expand_array ht else ht)"

lemma set_grow_inv:
  assumes sh: "hash_shape ht" and n: "ht_count ht = of_nat (length (concat (ht_array ht)))"
    and le: "length (concat (ht_array ht)) \<le> unat (ht_max ht) + 1"
    and m: "unat (ht_max ht) < 2 ^ 30"
  shows "hash_inv (set_grow ht) \<and> hash_map (set_grow ht) = hash_map ht"
proof -
  have c: "unat (ht_count ht) = length (concat (ht_array ht))"
    using n le m by (simp add: unat_of_nat take_bit_nat_eq_self del: length_concat)
  show ?thesis
  proof (cases "ht_count ht > ht_max ht")
    case True
    note x = expand_array_map [OF sh m]
    have "ht_count (expand_array ht) = ht_count ht" by (simp add: expand_array_def Let_def)
    with x True le n show ?thesis by (simp add: set_grow_def hash_inv_def del: length_concat)
  next
    case False
    with c have "length (concat (ht_array ht)) \<le> unat (ht_max ht)"
      by (simp add: word_less_nat_alt del: length_concat)
    with False sh n show ?thesis by (simp add: set_grow_def hash_inv_def del: length_concat)
  qed
qed

lemma ht_update_order:
  "ht\<lparr>ht_free := F, ht_array := A, ht_count := n\<rparr> = ht\<lparr>ht_array := A, ht_count := n, ht_free := F\<rparr>"
  "ht\<lparr>ht_count := n, ht_free := F, ht_array := A\<rparr> = ht\<lparr>ht_array := A, ht_count := n, ht_free := F\<rparr>"
  by simp_all

text \<open>The key argument only matters through its bytes; the position is the key's own chain.\<close>

lemma apr_hash_set_cases:
  fixes ht key
  defines "k \<equiv> key_bytes key"
  defines "i \<equiv> bucket ht k"
  defines "c \<equiv> ht_array ht ! i"
  defines "p \<equiv> find_in_chain (bytes_hash ht k) k c"
  assumes i: "i < length (ht_array ht)"
  shows "apr_hash_set ht key val =
    (if p < length c then
       (case val of
          None \<Rightarrow> ht\<lparr>ht_array := (ht_array ht)[i := take p c @ drop (Suc p) c],
                     ht_count := ht_count ht - 1, ht_free := c ! p # ht_free ht\<rparr>
        | Some v \<Rightarrow> set_grow (ht\<lparr>ht_array := (ht_array ht)[i := c[p := (c ! p)\<lparr>he_val := v\<rparr>]]\<rparr>))
     else (case val of
          None \<Rightarrow> ht
        | Some v \<Rightarrow> set_grow (ht\<lparr>
            ht_array := (ht_array ht)[i := c @ [\<lparr>he_hash = bytes_hash ht k, he_key = k, he_val = v\<rparr>]],
            ht_count := ht_count ht + 1, ht_free := tl (ht_free ht)\<rparr>)))"
proof -
  have "p \<le> length c" by (simp add: p_def find_in_chain_le)
  moreover have fe: "find_entry ht key val = (if p < length c then (ht, i, p) else
      (case val of None \<Rightarrow> (ht, i, p)
        | Some v \<Rightarrow> (ht\<lparr>
            ht_array := (ht_array ht)[i := c @ [\<lparr>he_hash = bytes_hash ht k, he_key = k, he_val = v\<rparr>]],
            ht_count := ht_count ht + 1, ht_free := tl (ht_free ht)\<rparr>, i, p)))"
    unfolding find_entry_def key_hash_eq Let_def ht_update_order(1)
    by (simp add: k_def i_def c_def p_def bucket_def split: option.split)
  ultimately show ?thesis
    using i by (auto simp: apr_hash_set_def Let_def set_grow_def c_def [symmetric] list_update_append
        ht_update_order(2) split: option.splits)
qed

lemma apr_hash_set_map:
  assumes inv: "hash_inv ht" and m: "unat (ht_max ht) < 2 ^ 30"
  shows "hash_inv (apr_hash_set ht key val) \<and>
         hash_map (apr_hash_set ht key val) = (hash_map ht)(key_bytes key := val)"
proof -
  define k where "k = key_bytes key"
  define i where "i = bucket ht k"
  define c where "c = ht_array ht ! i"
  define p where "p = find_in_chain (bytes_hash ht k) k c"
  note sh = hash_invD(1) [OF inv] and cnt = hash_invD(2-) [OF inv]
  have i: "i < length (ht_array ht)" using shape_bucket [OF sh] by (simp add: i_def)
  have cok: "\<forall>e \<in> set c. entry_ok ht i e" "distinct (map he_key c)"
    using sh i by (auto simp: hash_shape_def c_def)
  note spec = find_in_chain_spec [OF chain_hash [OF sh, of k, folded i_def, folded c_def], folded p_def]
  have hm: "hash_map ht x = map_of (kvs c) x" if "bucket ht x = i" for x
    using hash_map_bucket [OF sh, of x] that by (simp add: c_def)
  have bk: "bucket ht k = i" by (simp add: i_def)
  note eq = apr_hash_set_cases [where ht = ht and key = key and val = val, folded k_def, folded i_def,
      folded c_def, folded p_def, OF i]
  consider (del) "p < length c" "val = None" | (upd) v where "p < length c" "val = Some v"
    | (none) "\<not> p < length c" "val = None" | (ins) v where "\<not> p < length c" "val = Some v"
    by (cases val) auto
  then show ?thesis
  proof cases
    case del
    let ?c = "take p c @ drop (Suc p) c"
    let ?ht = "ht\<lparr>ht_array := (ht_array ht)[i := ?c], ht_count := ht_count ht - 1,
                 ht_free := c ! p # ht_free ht\<rparr>"
    have key: "he_key (c ! p) = k" using del spec(2) by simp
    have "\<forall>e \<in> set ?c. entry_ok ht i e" using cok(1) by (auto dest: in_set_takeD in_set_dropD)
    moreover have "distinct (map he_key ?c)"
    proof -
      have "distinct (map he_key (take p c @ c ! p # drop (Suc p) c))"
        by (rule subst [where P = "\<lambda>c. distinct (map he_key c)", OF id_take_nth_drop [OF del(1)] cok(2)])
      then show ?thesis by simp
    qed
    moreover have "map_of (kvs ?c) x = (if x = k then None else hash_map ht x)" if "bucket ht x = i" for x
      using map_of_kvs_del [OF del(1) cok(2)] key hm [OF that] by simp
    ultimately have st: "hash_shape ?ht \<and> hash_map ?ht = (hash_map ht)(k := None) \<and>
        length (concat (ht_array ?ht)) + length c = length (concat (ht_array ht)) + length ?c"
      unfolding c_def by (intro chain_step [OF inv i _ _ _ bk refl]) (auto simp: c_def)
    have "length ?c + 1 = length c" using del by simp
    with st have len: "length (concat (ht_array ht)) = Suc (length (concat (ht_array ?ht)))" by linarith
    moreover have "ht_count ?ht = of_nat (length (concat (ht_array ?ht)))"
      using cnt(1) unfolding len by (simp del: length_concat)
    ultimately have "hash_inv ?ht" using st cnt(2) by (simp add: hash_inv_def del: length_concat)
    with st del eq show ?thesis by (simp add: k_def)
  next
    case upd
    let ?c = "c[p := (c ! p)\<lparr>he_val := v\<rparr>]"
    let ?ht = "ht\<lparr>ht_array := (ht_array ht)[i := ?c], ht_count := ht_count ht, ht_free := ht_free ht\<rparr>"
    have key: "he_key (c ! p) = k" using upd spec(2) by simp
    have "entry_ok ht i (c ! p)" using cok(1) upd(1) by simp
    then have "\<forall>e \<in> set ?c. entry_ok ht i e"
      using cok(1) by (auto simp: entry_ok_def dest!: subsetD [OF set_update_subset_insert])
    moreover have "distinct (map he_key ?c)" using cok(2) map_key_update [OF upd(1)] by simp
    moreover have "map_of (kvs ?c) x = (if x = k then Some v else hash_map ht x)" if "bucket ht x = i" for x
      using map_of_kvs_val [OF upd(1) cok(2)] key hm [OF that] by simp
    ultimately have st: "hash_shape ?ht \<and> hash_map ?ht = (hash_map ht)(k := Some v) \<and>
        length (concat (ht_array ?ht)) + length c = length (concat (ht_array ht)) + length ?c"
      unfolding c_def by (intro chain_step [OF inv i _ _ _ bk refl]) (auto simp: c_def)
    then have "hash_inv (set_grow ?ht) \<and> hash_map (set_grow ?ht) = hash_map ?ht"
      using cnt m by (intro set_grow_inv) (auto simp del: length_concat)
    with st upd eq show ?thesis by (simp add: k_def)
  next
    case none
    then have "hash_map ht k = None" using spec(1) hm [OF bk] by simp
    with none inv eq show ?thesis by (simp add: k_def fun_upd_idem)
  next
    case ins
    let ?e = "\<lparr>he_hash = bytes_hash ht k, he_key = k, he_val = v\<rparr>"
    let ?c = "c @ [?e]"
    let ?ht = "ht\<lparr>ht_array := (ht_array ht)[i := ?c], ht_count := ht_count ht + 1,
                 ht_free := tl (ht_free ht)\<rparr>"
    have new: "k \<notin> he_key ` set c" using ins spec(1) by simp
    have "\<forall>e \<in> set ?c. entry_ok ht i e" using cok(1) by (auto simp: entry_ok_def i_def)
    moreover have "distinct (map he_key ?c)" using cok(2) new by simp
    moreover have "map_of (kvs ?c) x = (if x = k then Some v else hash_map ht x)" if "bucket ht x = i" for x
      using map_of_kvs_snoc [of ?e c x] new hm [OF that] by simp
    ultimately have st: "hash_shape ?ht \<and> hash_map ?ht = (hash_map ht)(k := Some v) \<and>
        length (concat (ht_array ?ht)) + length c = length (concat (ht_array ht)) + length ?c"
      unfolding c_def by (intro chain_step [OF inv i _ _ _ bk refl]) (auto simp: c_def)
    then have len: "length (concat (ht_array ?ht)) = length (concat (ht_array ht)) + 1" by simp
    then have "ht_count ?ht = of_nat (length (concat (ht_array ?ht)))"
      using cnt(1) by (simp del: length_concat)
    with st len have "hash_inv (set_grow ?ht) \<and> hash_map (set_grow ?ht) = hash_map ?ht"
      using cnt m by (intro set_grow_inv) (auto simp del: length_concat)
    with st ins eq show ?thesis by (simp add: k_def)
  qed
qed

subsection \<open>New tables, copies and clearing\<close>

lemma hash_map_make:
  "hash_inv ((apr_hash_make now pool addr stack)\<lparr>ht_func := F\<rparr>) \<and>
   hash_map ((apr_hash_make now pool addr stack)\<lparr>ht_func := F\<rparr>) = Map.empty"
  by (auto simp: hash_inv_def hash_shape_def hash_map_def apr_hash_make_def alloc_array_def
      INITIAL_MAX_def fun_eq_iff)

lemma copy_chain_id [simp]: "copy_chain c = c"
  by (induction c) auto

lemma apr_hash_copy_eq:
  assumes "hash_shape ht"
  shows "apr_hash_copy ht = ht\<lparr>ht_free := []\<rparr>"
proof -
  have "map (\<lambda>i. copy_chain (ht_array ht ! i)) [0..<unat (ht_max ht) + 1] = ht_array ht"
    using assms map_nth [of "ht_array ht"] by (simp add: hash_shape_def del: upt_Suc)
  then show ?thesis by (simp add: apr_hash_copy_def)
qed

definition clear_ok :: "'v apr_hash \<Rightarrow> 'v hash_index option \<Rightarrow> bool" where
  "clear_ok ht hi \<longleftrightarrow>
     (case hi of
        None \<Rightarrow> hash_map ht = Map.empty
      | Some h \<Rightarrow>
          hi_this h \<noteq> [] \<and> hi_next h = tl (hi_this h) \<and>
          (\<forall>e \<in> set (hi_this h). bucket ht (he_key e) < hi_index h) \<and>
          distinct (map he_key (hi_this h @ concat (drop (hi_index h) (ht_array ht)))) \<and>
          dom (hash_map ht) = he_key ` set (hi_this h @ concat (drop (hi_index h) (ht_array ht))))"

text \<open>The iterator's next position, for a table whose entries still to visit are the rest.\<close>

lemma clear_ok_next:
  assumes sh: "hash_shape ht"
    and b: "\<forall>e \<in> set nxt. bucket ht (he_key e) < i"
    and d: "distinct (map he_key (nxt @ concat (drop i (ht_array ht))))"
    and m: "dom (hash_map ht) = he_key ` set (nxt @ concat (drop i (ht_array ht)))"
  shows "clear_ok ht (apr_hash_next ht \<lparr>hi_this = this, hi_next = nxt, hi_index = i\<rparr>)"
proof (cases "nxt = []")
  case False
  with b d m show ?thesis by (simp add: clear_ok_def apr_hash_next_def)
next
  case True
  have "length (ht_array ht) = unat (ht_max ht) + 1" using sh by (simp add: hash_shape_def)
  note adv = hash_advance_spec [OF this, of i]
  show ?thesis
  proof (cases "hash_advance ht i")
    case None
    with adv have "concat (drop i (ht_array ht)) = []" by simp
    with m True have "dom (hash_map ht) = {}" by (simp only: append.simps list.set image_empty)
    with None True show ?thesis by (simp add: clear_ok_def apr_hash_next_def)
  next
    case (Some cj)
    obtain c j where cj: "cj = (c, j)" by (cases cj)
    with Some adv have c: "c \<noteq> []" "i < j" "j \<le> length (ht_array ht)" "c = ht_array ht ! (j - 1)"
      and eq: "concat (drop i (ht_array ht)) = c @ concat (drop j (ht_array ht))" by auto
    have "\<forall>e \<in> set c. bucket ht (he_key e) < j"
      using shape_entry(2) [OF sh, of "j - 1"] c by fastforce
    with c eq d m True Some cj show ?thesis
      by (simp add: clear_ok_def apr_hash_next_def)
  qed
qed

lemma clear_ok_first:
  assumes sh: "hash_shape ht"
  shows "clear_ok ht (apr_hash_first ht)"
  unfolding apr_hash_first_def
  by (rule clear_ok_next [OF sh]) (use shape_distinct [OF sh] in \<open>auto simp: hash_map_dom\<close>)

lemma set_None_array:
  assumes "hash_shape ht"
  shows "\<exists>c. ht_array (apr_hash_set ht (KeyBytes k) None) = (ht_array ht)[bucket ht k := c]"
  using shape_bucket [OF assms, of k] apr_hash_set_cases [of ht "KeyBytes k" None]
  by (auto intro: exI [of _ "ht_array ht ! bucket ht k"])

lemma set_None_bucket: "bucket (apr_hash_set ht key None) = bucket ht"
  by (auto simp: apr_hash_set_def find_entry_def Let_def split: prod.splits)

lemma clear_ok_step:
  assumes inv: "hash_inv ht" and m: "unat (ht_max ht) < 2 ^ 30" and ok: "clear_ok ht (Some hi)"
    and ht': "ht' = apr_hash_set ht (KeyBytes (apr_hash_this_key hi)) None"
  shows "hash_inv ht' \<and> clear_ok ht' (apr_hash_next ht' hi)"
proof -
  obtain e es where t: "hi_this hi = e # es" and n: "hi_next hi = es"
    using ok by (auto simp: clear_ok_def neq_Nil_conv)
  have k: "apr_hash_this_key hi = he_key e"
    by (simp add: apr_hash_this_key_def apr_hash_this_def t Let_def)
  let ?i = "hi_index hi"
  note sh = hash_invD(1) [OF inv]
  obtain c where A: "ht_array ht' = (ht_array ht)[bucket ht (he_key e) := c]"
    using set_None_array [OF sh, of "he_key e"] by (auto simp: ht' k)
  have "bucket ht (he_key e) < ?i" using ok t by (simp add: clear_ok_def)
  then have dr: "drop ?i (ht_array ht') = drop ?i (ht_array ht)" by (simp add: A)
  have inv': "hash_inv ht'" and map': "hash_map ht' = (hash_map ht)(he_key e := None)"
    using apr_hash_set_map [OF inv m] by (simp_all add: ht' k)
  have b': "bucket ht' = bucket ht" by (simp add: ht' set_None_bucket)
  have "clear_ok ht' (apr_hash_next ht' \<lparr>hi_this = e # es, hi_next = es, hi_index = ?i\<rparr>)"
    by (rule clear_ok_next [OF hash_invD(1) [OF inv']])
      (use ok t in \<open>simp_all add: b' dr map' clear_ok_def image_Un del: set_concat\<close>)
  moreover have "hi = \<lparr>hi_this = e # es, hi_next = es, hi_index = ?i\<rparr>" using t n by simp
  ultimately show ?thesis using inv' by simp
qed

lemma hash_clear_loop_empty:
  "hash_inv ht \<Longrightarrow> unat (ht_max ht) < 2 ^ 30 \<Longrightarrow> clear_ok ht hi \<Longrightarrow>
     hash_inv (hash_clear_loop ht hi) \<and> hash_map (hash_clear_loop ht hi) = Map.empty"
proof (induction ht hi rule: hash_clear_loop.induct)
  case (1 ht)
  then show ?case by (simp add: clear_ok_def)
next
  case (2 ht hi)
  from clear_ok_step [OF 2(2-4) refl] 2(1) [OF refl] 2(3) show ?case by (simp add: Let_def)
qed

lemma apr_hash_clear_map:
  assumes "hash_inv ht" and "unat (ht_max ht) < 2 ^ 30"
  shows "hash_inv (apr_hash_clear ht) \<and> hash_map (apr_hash_clear ht) = Map.empty"
  unfolding apr_hash_clear_def
  by (rule hash_clear_loop_empty [OF assms clear_ok_first [OF hash_invD(1) [OF assms(1)]]])

subsection \<open>Merging\<close>

definition merged ::
  "(byte list \<Rightarrow> 'v \<Rightarrow> 'v \<Rightarrow> 'v) option \<Rightarrow> byte list \<Rightarrow> 'v option \<Rightarrow> 'v option \<Rightarrow> 'v option" where
  "merged merger k over base =
     (case (over, base) of
        (None, b) \<Rightarrow> b
      | (Some v, None) \<Rightarrow> Some v
      | (Some v, Some w) \<Rightarrow> Some (case merger of Some f \<Rightarrow> f k v w | None \<Rightarrow> v))"

lemma merge_into_chain_None: "merge_into_chain f e c = None \<longleftrightarrow> he_key e \<notin> he_key ` set c"
  by (induction c) (auto split: option.splits)

lemma merge_into_chain_Some:
  "merge_into_chain f e c = Some c' \<Longrightarrow>
     map he_key c' = map he_key c \<and> map he_hash c' = map he_hash c \<and>
     (\<forall>k. map_of (kvs c') k =
        (if k = he_key e then merged f k (Some (he_val e)) (map_of (kvs c) k) else map_of (kvs c) k))"
proof (induction c arbitrary: c')
  case (Cons x c)
  show ?case
  proof (cases "he_key x = he_key e")
    case True
    with Cons.prems show ?thesis by (auto simp: merged_def split: option.splits)
  next
    case False
    with Cons.prems obtain d where "merge_into_chain f e c = Some d" "c' = x # d" by auto
    with Cons.IH [of d] False show ?thesis by simp
  qed
qed simp

lemma entry_ok_map_cong:
  "map he_key c' = map he_key c \<Longrightarrow> map he_hash c' = map he_hash c \<Longrightarrow>
     (\<forall>e \<in> set c'. entry_ok ht i e) = (\<forall>e \<in> set c. entry_ok ht i e)"
proof (induction c arbitrary: c')
  case (Cons x c)
  obtain y d where c': "c' = y # d" using Cons.prems by (cases c') auto
  have "(\<forall>e \<in> set d. entry_ok ht i e) = (\<forall>e \<in> set c. entry_ok ht i e)"
    by (rule Cons.IH) (use Cons.prems c' in simp_all)
  moreover have "entry_ok ht i y = entry_ok ht i x"
    using Cons.prems c' by (simp add: entry_ok_def)
  ultimately show ?case by (simp add: c')
qed simp

lemma merge_entry_spec:
  assumes sh: "hash_shape res"
  shows "hash_shape (merge_entry f e res) \<and>
         hash_map (merge_entry f e res) =
           (hash_map res)(he_key e := merged f (he_key e) (Some (he_val e)) (hash_map res (he_key e))) \<and>
         ht_max (merge_entry f e res) = ht_max res"
proof -
  let ?k = "he_key e"
  let ?i = "bucket res ?k"
  let ?c = "ht_array res ! ?i"
  have i: "?i < length (ht_array res)" by (rule shape_bucket [OF sh])
  have cok: "\<forall>e \<in> set ?c. entry_ok res ?i e" "distinct (map he_key ?c)"
    using sh i by (auto simp: hash_shape_def)
  have hm: "hash_map res x = map_of (kvs ?c) x" if "bucket res x = ?i" for x
    using hash_map_bucket [OF sh, of x] that by simp
  have ix: "chain_index (fst (key_hash res (KeyBytes ?k))) (ht_max res) = ?i"
    by (simp add: bucket_def bytes_hash_def)
  show ?thesis
  proof (cases "merge_into_chain f e ?c")
    case None
    then have new: "?k \<notin> he_key ` set ?c" by (simp only: merge_into_chain_None) simp
    let ?e = "\<lparr>he_hash = bytes_hash res ?k, he_key = ?k, he_val = he_val e\<rparr>"
    let ?r = "res\<lparr>ht_array := (ht_array res)[?i := ?e # ?c]\<rparr>"
    have ok: "\<forall>x \<in> set (?e # ?c). entry_ok res ?i x" "distinct (map he_key (?e # ?c))"
      using cok new by (auto simp: entry_ok_def)
    have none: "hash_map res ?k = None" using hm [of ?k] new by simp
    have "hash_map ?r x = ((hash_map res)(?k := merged f ?k (Some (he_val e)) (hash_map res ?k))) x" for x
      using map_chain_update [OF sh ok i, of x] hm [of x] none by (auto simp: merged_def)
    with shape_chain_update [OF sh ok] None ix show ?thesis
      by (simp add: merge_entry_def Let_def bytes_hash_def fun_eq_iff)
  next
    case (Some c')
    note c' = merge_into_chain_Some [OF Some]
    have ok: "\<forall>x \<in> set c'. entry_ok res ?i x" "distinct (map he_key c')"
      using cok entry_ok_map_cong [of c' ?c res ?i] c' by auto
    let ?r = "res\<lparr>ht_array := (ht_array res)[?i := c']\<rparr>"
    have "hash_map ?r x = ((hash_map res)(?k := merged f ?k (Some (he_val e)) (hash_map res ?k))) x" for x
      using map_chain_update [OF sh ok i, of x] hm [of x] hm [of ?k] c' by auto
    with shape_chain_update [OF sh ok] Some ix show ?thesis
      by (simp add: merge_entry_def Let_def fun_eq_iff)
  qed
qed

lemma merge_entry_count:
  assumes sh: "hash_shape res" and n: "ht_count res = of_nat (length (concat (ht_array res)))"
  shows "ht_count (merge_entry f e res) = of_nat (length (concat (ht_array (merge_entry f e res))))"
proof -
  let ?i = "chain_index (fst (key_hash res (KeyBytes (he_key e)))) (ht_max res)"
  have i: "?i < length (ht_array res)"
    using shape_bucket [OF sh, of "he_key e"] by (simp add: bucket_def bytes_hash_def)
  show ?thesis
  proof (cases "merge_into_chain f e (ht_array res ! ?i)")
    case None
    then show ?thesis
      using length_concat_update [OF i, of "x # ht_array res ! ?i" for x] n
      by (simp add: merge_entry_def Let_def del: length_concat)
  next
    case (Some c)
    then have "map he_key c = map he_key (ht_array res ! ?i)" using merge_into_chain_Some by blast
    then have "length c = length (ht_array res ! ?i)" by (rule map_eq_imp_length_eq)
    then show ?thesis
      using length_concat_update [OF i, of c] n Some
      by (simp add: merge_entry_def Let_def del: length_concat)
  qed
qed

lemma fold_merge_spec:
  assumes "hash_shape res" and "ht_count res = of_nat (length (concat (ht_array res)))"
    and "distinct (map he_key es)"
  shows "hash_shape (fold (merge_entry f) es res) \<and>
         (\<forall>k. hash_map (fold (merge_entry f) es res) k = merged f k (map_of (kvs es) k) (hash_map res k)) \<and>
         ht_max (fold (merge_entry f) es res) = ht_max res \<and>
         ht_count (fold (merge_entry f) es res) =
           of_nat (length (concat (ht_array (fold (merge_entry f) es res))))"
  using assms
proof (induction es arbitrary: res)
  case Nil
  then show ?case by (simp add: merged_def del: length_concat)
next
  case (Cons e es)
  note st = merge_entry_spec [OF Cons.prems(1), of f e]
  note cnt = merge_entry_count [OF Cons.prems(1,2), of f e]
  have new: "map_of (kvs es) (he_key e) = None" using Cons.prems(3) by simp
  have "distinct (map he_key es)" using Cons.prems(3) by simp
  from Cons.IH [OF conjunct1 [OF st] cnt this] st new show ?case
    by (auto simp: merged_def simp del: map_of_kvs_None length_concat)
qed

lemma concat_upt:
  "hash_shape ht \<Longrightarrow> concat (map (\<lambda>k. ht_array ht ! k) [0..<unat (ht_max ht) + 1]) = concat (ht_array ht)"
  using map_nth [of "ht_array ht"] by (simp add: hash_shape_def del: upt_Suc)

lemma apr_hash_merge_map:
  assumes over: "hash_inv over" "unat (ht_max over) < 2 ^ 30"
    and base: "hash_inv base" "unat (ht_max base) < 2 ^ 30"
  shows "hash_inv (apr_hash_merge over base f) \<and>
         (\<forall>k. hash_map (apr_hash_merge over base f) k = merged f k (hash_map over k) (hash_map base k))"
proof -
  define m0 where "m0 = (if ht_max over > ht_max base then ht_max over else ht_max base)"
  define m where "m = (if ht_count base + ht_count over > m0 then m0 * 2 + 1 else m0)"
  let ?lb = "length (concat (ht_array base))" and ?lo = "length (concat (ht_array over))"
  note o = hash_invD [OF over(1)] and b = hash_invD [OF base(1)]
  have m0: "unat m0 < 2 ^ 30" "?lb \<le> unat m0" "?lo \<le> unat m0"
    using over base o b by (auto simp: m0_def word_less_nat_alt simp del: length_concat)
  have sum: "unat (ht_count base + ht_count over) = ?lb + ?lo"
    using o b over(2) base(2) by (simp add: unat_word_ariths del: length_concat)
  have m: "unat m < 2 ^ 32 - 1" "?lb + ?lo \<le> unat m"
    using m0 sum by (auto simp: m_def word_less_nat_alt unat_word_ariths simp del: length_concat)
  let ?based = "fold (push_entry m) (concat (ht_array base)) (alloc_array m)"
  let ?r = "base\<lparr>ht_array := ?based, ht_max := m\<rparr>"
  let ?res = "\<lparr>ht_array = ?based, ht_count = ht_count base, ht_max = m,
                 ht_seed = ht_seed base, ht_func = ht_func base, ht_free = []\<rparr>"
  note r = rehash_shape [OF shape_true_hash [OF b(1)] shape_distinct [OF b(1)] m(1) refl]
  have res: "?res = ?r\<lparr>ht_free := []\<rparr>" by simp
  have r1: "hash_shape ?res" "hash_map ?res = hash_map base" "length (concat (ht_array ?res)) = ?lb"
    using r unfolding res by (simp_all add: hash_map_def [of base] del: length_concat)
  have r2: "ht_count ?res = of_nat (length (concat (ht_array ?res)))"
    using r1(3) b(2) by (simp del: length_concat)
  have eq: "apr_hash_merge over base f = fold (merge_entry f) (concat (ht_array over)) ?res"
    unfolding apr_hash_merge_def concat_upt [OF o(1)] concat_upt [OF b(1)] Let_def
      m0_def [symmetric] m_def [symmetric] ..
  note fm = fold_merge_spec [OF r1(1) r2 shape_distinct [OF o(1)], of f, folded eq]
  let ?M = "apr_hash_merge over base f"
  have map: "hash_map ?M k = merged f k (hash_map over k) (hash_map base k)" for k
    using fm r1(2) by (simp add: hash_map_def [of over])
  have "length (concat (ht_array ?M)) = card (dom (hash_map ?M))"
    using fm shape_card by metis
  also have "\<dots> \<le> card (dom (hash_map over) \<union> dom (hash_map base))"
    by (rule card_mono) (auto simp: hash_map_finite map merged_def split: option.splits)
  also have "\<dots> \<le> ?lo + ?lb"
    using card_Un_le [of "dom (hash_map over)" "dom (hash_map base)"]
    by (simp only: shape_card o(1) b(1))
  finally have "length (concat (ht_array ?M)) \<le> unat (ht_max ?M)"
    using m(2) fm by (simp del: length_concat)
  then show ?thesis using fm map by (simp add: hash_inv_def del: length_concat)
qed

subsection \<open>The hash table as a finite map\<close>

definition hash_room :: "nat \<Rightarrow> 'v apr_hash \<Rightarrow> bool" where
  "hash_room n ht \<longleftrightarrow> unat (ht_max ht) < 2 ^ 30 \<and> unat (ht_count ht) + n < 2 ^ 29"

lemma set_count_max:
  assumes inv: "hash_inv ht" and room: "hash_room (Suc n) ht"
  shows "hash_room n (apr_hash_set ht key val)"
proof -
  let ?ht = "apr_hash_set ht key val"
  have m: "unat (ht_max ht) < 2 ^ 30" using room by (simp add: hash_room_def)
  note st = apr_hash_set_map [OF inv m, of key val]
  have "unat (ht_count ?ht) = card (dom (hash_map ?ht))"
    using hash_map_card st by (metis apr_hash_count_def)
  also have "\<dots> \<le> card (insert (key_bytes key) (dom (hash_map ht)))"
    using st by (intro card_mono) (auto simp: hash_map_dom [of ht] split: if_splits)
  also have "\<dots> \<le> Suc (unat (ht_count ht))"
    using hash_map_card [OF inv] by (simp add: apr_hash_count_def card_insert_le_m1 card_insert_if hash_map_dom)
  finally have c: "unat (ht_count ?ht) \<le> Suc (unat (ht_count ht))" .
  have "ht_max ?ht = ht_max ht \<or>
      ht_max ?ht = ht_max ht * 2 + 1 \<and> unat (ht_max ht) < unat (ht_count ?ht)"
    using apr_hash_set_cases [OF shape_bucket [OF hash_invD(1) [OF inv]], of key val]
    by (auto simp: set_grow_def expand_array_def Let_def word_less_nat_alt split: option.splits)
  then show ?thesis
    using c m room by (auto simp: hash_room_def unat_word_ariths)
qed

interpretation hm: finite_map hash_inv hash_room key_bytes apr_hash_get apr_hash_set
proof
  fix ht :: "'v apr_hash" and n k k' and v :: "'v option"
  assume inv: "hash_inv ht" and room: "hash_room (Suc n) ht"
  then have m: "unat (ht_max ht) < 2 ^ 30" by (simp add: hash_room_def)
  note st = apr_hash_set_map [OF inv m, of k v]
  show "hash_inv (apr_hash_set ht k v) \<and> hash_room n (apr_hash_set ht k v)"
    using st set_count_max [OF inv room] by simp
  show "apr_hash_get (apr_hash_set ht k v) k' =
      (if key_bytes k' = key_bytes k then v else apr_hash_get ht k')"
    using st hash_invD(1) [OF inv] hash_invD(1) [of "apr_hash_set ht k v"] by (simp add: apr_hash_get_map)
qed (simp add: hash_room_def)

subsection \<open>Properties\<close>

definition hash_run :: "(hash_key \<times> 'v option) list \<Rightarrow> 'v apr_hash \<Rightarrow> 'v apr_hash" where
  "hash_run ops ht = fold (\<lambda>(k, v) ht. apr_hash_set ht k v) ops ht"

abbreviation new_table ::
  "u64 \<Rightarrow> u64 \<Rightarrow> u64 \<Rightarrow> u64 \<Rightarrow> (byte list \<Rightarrow> u32) option \<Rightarrow> 'v apr_hash" where
  "new_table now pool addr stack F \<equiv> (apr_hash_make now pool addr stack)\<lparr>ht_func := F\<rparr>"

lemma new_table_eq:
  "new_table now pool addr stack None = apr_hash_make now pool addr stack"
  "new_table now pool addr stack (Some f) = apr_hash_make_custom now pool addr stack f"
  by (simp_all add: apr_hash_make_def apr_hash_make_custom_def)

lemma inv_get: "hash_inv ht \<Longrightarrow> apr_hash_get ht key = hash_map ht (key_bytes key)"
  using hash_invD(1) apr_hash_get_map by blast

lemma new_table_ok:
  "hash_inv (new_table now pool addr stack F :: 'v apr_hash)"
  "n < 2 ^ 29 \<Longrightarrow> hash_room n (new_table now pool addr stack F :: 'v apr_hash)"
  "apr_hash_get (new_table now pool addr stack F :: 'v apr_hash) key = None"
proof -
  let ?t = "new_table now pool addr stack F :: 'v apr_hash"
  have t: "hash_inv ?t" "hash_map ?t = Map.empty" using hash_map_make by blast+
  show "hash_inv ?t" "apr_hash_get ?t key = None" using t by (simp_all add: inv_get)
  show "n < 2 ^ 29 \<Longrightarrow> hash_room n ?t"
    by (simp add: hash_room_def apr_hash_make_def INITIAL_MAX_def)
qed

definition sample_table :: "nat apr_hash" where
  "sample_table = apr_hash_set (new_table 7 8 9 10 None) (KeyString [97, 0]) (Some 3)"

lemma sample_table_ok:
  "hash_inv sample_table" "unat (ht_max sample_table) < 2 ^ 30"
  "apr_hash_get sample_table (KeyBytes [97]) = Some 3"
proof -
  let ?t = "new_table 7 8 9 10 None :: nat apr_hash"
  have t: "hash_inv ?t" "hash_room (Suc 0) ?t" by (rule new_table_ok | simp)+
  show "hash_inv sample_table" "unat (ht_max sample_table) < 2 ^ 30"
    using hm.upd_inv [OF t] by (auto simp: sample_table_def hash_room_def)
  show "apr_hash_get sample_table (KeyBytes [97]) = Some 3"
    using hm.look_upd [OF t] by (simp add: sample_table_def)
qed

text \<open>
  C7: on a table made with any seed and the default or a custom hash
  function, after any sequence of fewer than 2^29 insertions and deletions (which grow the
  table as needed) a lookup returns what the last operation on the same key bytes stored:
  its value, or nothing if it was a deletion or the key was never used, whichever way
  the key arguments are given.
\<close>

theorem hash_last_write_wins:
  assumes "length ops < 2 ^ 29"
  shows "apr_hash_get (hash_run ops (new_table now pool addr stack F)) key =
           (case find (\<lambda>(k, v). key_bytes key = key_bytes k) (rev ops) of
              None \<Rightarrow> None
            | Some (k, v) \<Rightarrow> v)"
  using hm.run_look [where t = "new_table now pool addr stack F" and x = key,
      OF new_table_ok(1) new_table_ok(2) [OF assms]]
  unfolding hash_run_def new_table_ok(3) .

lemma hash_last_write_wins_witness:
  "apr_hash_get (hash_run [(KeyString [97, 0, 5], Some 1), (KeyBytes [98], Some 2),
      (KeyBytes [97], Some 3), (KeyString [98], None :: nat option)] (new_table 7 8 9 10 None))
     (KeyString [97]) = Some 3"
  by (subst hash_last_write_wins) simp_all

text \<open>
  C26: the iterator visits each entry of a table exactly once: the visited
  keys are distinct, there are \<open>apr_hash_count\<close> of them, and a key is visited with a value
  exactly when a lookup finds this value.
\<close>

theorem hash_iterates_once:
  assumes "hash_inv ht"
  shows "distinct (map he_key (hash_visit ht (apr_hash_first ht))) \<and>
         length (hash_visit ht (apr_hash_first ht)) = unat (apr_hash_count ht) \<and>
         (\<forall>key v. apr_hash_get ht key = Some v \<longleftrightarrow>
            (\<exists>e \<in> set (hash_visit ht (apr_hash_first ht)). he_key e = key_bytes key \<and> he_val e = v))"
proof -
  note sh = hash_invD(1) [OF assms]
  have v: "hash_visit ht (apr_hash_first ht) = concat (ht_array ht)"
    using sh by (intro hash_visit_first) (simp add: hash_shape_def)
  have "apr_hash_get ht key = Some v \<longleftrightarrow> (key_bytes key, v) \<in> set (kvs (concat (ht_array ht)))" for key v
    unfolding apr_hash_get_map [OF sh] hash_map_def
    by (rule map_of_eq_Some_iff) (simp add: shape_distinct [OF sh])
  then show ?thesis
    using shape_distinct [OF sh] hash_invD(4) [OF assms]
    by (force simp: v apr_hash_count_def kvs_def simp del: set_concat length_concat)
qed

lemma hash_iterates_once_witness:
  "hash_inv sample_table \<and>
   (\<exists>e \<in> set (hash_visit sample_table (apr_hash_first sample_table)). he_key e = [97] \<and> he_val e = 3)"
  using hash_iterates_once [OF sample_table_ok(1)] sample_table_ok
  by (metis key_bytes.simps(2))

text \<open>
  C27: the merge of two tables (of any sizes and seeds) holds the keys of both;
  a key of both gets the merger's result, or the overlay's value without a merger, and the
  result is again a well-formed table with the right count.
\<close>

theorem hash_merge_overlays:
  assumes "hash_inv over" and "unat (ht_max over) < 2 ^ 30"
    and "hash_inv base" and "unat (ht_max base) < 2 ^ 30"
  shows "hash_inv (apr_hash_merge over base merger) \<and>
         (\<forall>key. apr_hash_get (apr_hash_merge over base merger) key =
            merged merger (key_bytes key) (apr_hash_get over key) (apr_hash_get base key))"
  using apr_hash_merge_map [OF assms, of merger] assms by (simp add: inv_get)

lemma hash_merge_overlays_witness:
  "apr_hash_get (apr_hash_merge sample_table sample_table (Some (\<lambda>k v w. v + w + length k)))
     (KeyString [97, 0]) = Some 7"
  using hash_merge_overlays [OF sample_table_ok(1,2) sample_table_ok(1,2),
      of "Some (\<lambda>k v w. v + w + length k)"] sample_table_ok(1,3)
  by (simp add: merged_def inv_get)

text \<open>
  C31: clearing a table while iterating over it removes every entry, and a copy
  agrees with the original on every lookup.
\<close>

theorem hash_clear_copy:
  assumes "hash_inv ht" and "unat (ht_max ht) < 2 ^ 30"
  shows "hash_inv (apr_hash_clear ht) \<and> apr_hash_count (apr_hash_clear ht) = 0 \<and>
         apr_hash_get (apr_hash_clear ht) key = None \<and>
         hash_inv (apr_hash_copy ht) \<and> apr_hash_get (apr_hash_copy ht) key = apr_hash_get ht key"
proof -
  have c: "hash_inv (apr_hash_clear ht)" "hash_map (apr_hash_clear ht) = Map.empty"
    using apr_hash_clear_map [OF assms] by auto
  then have "unat (apr_hash_count (apr_hash_clear ht)) = 0"
    using hash_map_card [OF c(1)] by simp
  moreover have "hash_inv (apr_hash_copy ht)" "hash_map (apr_hash_copy ht) = hash_map ht"
    using assms(1) apr_hash_copy_eq [OF hash_invD(1) [OF assms(1)]] by (auto simp: hash_inv_def)
  ultimately show ?thesis
    using c assms(1) by (simp add: inv_get unat_eq_0)
qed

lemma hash_clear_copy_witness:
  "hash_inv sample_table \<and> apr_hash_get (apr_hash_copy sample_table) (KeyBytes [97]) = Some 3 \<and>
   apr_hash_get (apr_hash_clear sample_table) (KeyBytes [97]) = None"
  using hash_clear_copy [OF sample_table_ok(1,2), of "KeyBytes [97]"] sample_table_ok by simp

end
