(* ===== verification/Apu_Queue.thy ===== *)
theory Apu_Queue
  imports Prelude
begin

text \<open>
  The bounded blocking queue (\<open>src/log4cxx/apr-util-1.5.4/misc/apr_queue.c\<close>). Each
  critical section, from taking \<open>one_big_mutex\<close> to releasing it or to blocking in
  \<open>apr_thread_cond_wait\<close>, is one function on the queue record; the status codes of the
  mutex and condition variable calls are its arguments. The step relation interleaves the
  critical sections of any number of threads. A wait may end at any time and with any status,
  which covers signals, broadcasts and spurious wakeups.
\<close>

subsection \<open>State\<close>

text \<open>
  The last two fields stand for the condition variables \<open>not_empty\<close> and \<open>not_full\<close>: how often
  each has been signalled.
\<close>

record 'a apr_queue =
  q_data :: "'a list"
  nelts :: u32
  q_in :: u32
  q_out :: u32
  bounds :: u32
  full_waiters :: u32
  empty_waiters :: u32
  terminated :: bool
  not_empty_signals :: nat
  not_full_signals :: nat

definition apr_queue_full :: "'a apr_queue \<Rightarrow> bool" where
  "apr_queue_full queue \<longleftrightarrow> nelts queue = bounds queue"

definition apr_queue_empty :: "'a apr_queue \<Rightarrow> bool" where
  "apr_queue_empty queue \<longleftrightarrow> nelts queue = 0"

text \<open>\<open>null\<close> is the NULL pointer that \<open>apr_pcalloc\<close> fills the array with.\<close>

definition apr_queue_create ::
  "apr_status \<Rightarrow> apr_status \<Rightarrow> apr_status \<Rightarrow> 'a \<Rightarrow> u32 \<Rightarrow> apr_status + 'a apr_queue" where
  "apr_queue_create mutex_rv not_empty_rv not_full_rv null queue_capacity =
     (if mutex_rv \<noteq> APR_SUCCESS then Inl mutex_rv
      else if not_empty_rv \<noteq> APR_SUCCESS then Inl not_empty_rv
      else if not_full_rv \<noteq> APR_SUCCESS then Inl not_full_rv
      else Inr \<lparr>q_data = replicate (unat queue_capacity) null, nelts = 0, q_in = 0, q_out = 0,
                bounds = queue_capacity, full_waiters = 0, empty_waiters = 0,
                terminated = False, not_empty_signals = 0, not_full_signals = 0\<rparr>)"

subsection \<open>Critical sections\<close>

text \<open>
  The status codes of the calls inside a critical section, and the value of
  \<open>queue->terminated\<close> that is read after the mutex was released.
\<close>

record env =
  wait_rv :: apr_status
  signal_rv :: apr_status
  unlock_rv :: apr_status
  terminated_after :: bool

datatype 'r outcome = Return 'r | Block

definition enqueue :: "'a \<Rightarrow> 'a apr_queue \<Rightarrow> 'a apr_queue" where
  "enqueue data queue =
     (let queue = queue\<lparr>q_data := (q_data queue)[unat (q_in queue) := data]\<rparr>;
          queue = queue\<lparr>q_in := q_in queue + 1\<rparr>;
          queue = (if q_in queue \<ge> bounds queue
                   then queue\<lparr>q_in := q_in queue - bounds queue\<rparr> else queue)
      in queue\<lparr>nelts := nelts queue + 1\<rparr>)"

definition dequeue :: "'a apr_queue \<Rightarrow> 'a \<times> 'a apr_queue" where
  "dequeue queue =
     (let data = q_data queue ! unat (q_out queue);
          queue = queue\<lparr>nelts := nelts queue - 1\<rparr>;
          queue = queue\<lparr>q_out := q_out queue + 1\<rparr>;
          queue = (if q_out queue \<ge> bounds queue
                   then queue\<lparr>q_out := q_out queue - bounds queue\<rparr> else queue)
      in (data, queue))"

text \<open>The end of a push and of a pop: the other side is signalled if threads wait there; the final status.\<close>

definition signal_unlock :: "env \<Rightarrow> u32 \<Rightarrow> apr_status" where
  "signal_unlock e waiters =
     (if waiters \<noteq> 0 \<and> signal_rv e \<noteq> APR_SUCCESS then signal_rv e else unlock_rv e)"

definition signal_not_empty :: "'a apr_queue \<Rightarrow> 'a apr_queue" where
  "signal_not_empty queue =
     (if empty_waiters queue \<noteq> 0 then queue\<lparr>not_empty_signals := not_empty_signals queue + 1\<rparr> else queue)"

definition signal_not_full :: "'a apr_queue \<Rightarrow> 'a apr_queue" where
  "signal_not_full queue =
     (if full_waiters queue \<noteq> 0 then queue\<lparr>not_full_signals := not_full_signals queue + 1\<rparr> else queue)"

definition push_data :: "env \<Rightarrow> 'a \<Rightarrow> 'a apr_queue \<Rightarrow> 'a apr_queue \<times> apr_status" where
  "push_data e data queue =
     (let queue' = enqueue data queue
      in (signal_not_empty queue', signal_unlock e (empty_waiters queue')))"

definition pop_data :: "env \<Rightarrow> 'a apr_queue \<Rightarrow> 'a apr_queue \<times> apr_status \<times> 'a option" where
  "pop_data e queue =
     (case dequeue queue of
        (data, queue') \<Rightarrow> (signal_not_full queue', signal_unlock e (full_waiters queue'), Some data))"

text \<open>The exit when the queue is still full (or empty): the wait was interrupted.\<close>

definition interrupted :: "env \<Rightarrow> apr_status" where
  "interrupted e =
     (if unlock_rv e \<noteq> APR_SUCCESS then unlock_rv e
      else if terminated_after e then APR_EOF else APR_EINTR)"

definition apr_queue_push_locked ::
  "env \<Rightarrow> 'a \<Rightarrow> 'a apr_queue \<Rightarrow> 'a apr_queue \<times> apr_status outcome" where
  "apr_queue_push_locked e data queue =
     (if apr_queue_full queue then
        (if \<not> terminated queue then (queue\<lparr>full_waiters := full_waiters queue + 1\<rparr>, Block)
         else (queue, Return (interrupted e)))
      else (case push_data e data queue of (queue', rv) \<Rightarrow> (queue', Return rv)))"

text \<open>\<open>apr_queue_push\<close> once \<open>apr_thread_cond_wait\<close> has returned with \<open>wait_rv\<close>.\<close>

definition apr_queue_push_woken ::
  "env \<Rightarrow> 'a \<Rightarrow> 'a apr_queue \<Rightarrow> 'a apr_queue \<times> apr_status" where
  "apr_queue_push_woken e data queue =
     (let queue = queue\<lparr>full_waiters := full_waiters queue - 1\<rparr>
      in if wait_rv e \<noteq> APR_SUCCESS then (queue, wait_rv e)
         else if apr_queue_full queue then (queue, interrupted e)
         else push_data e data queue)"

definition apr_queue_trypush_locked ::
  "env \<Rightarrow> 'a \<Rightarrow> 'a apr_queue \<Rightarrow> 'a apr_queue \<times> apr_status" where
  "apr_queue_trypush_locked e data queue =
     (if apr_queue_full queue then (queue, APR_EAGAIN) else push_data e data queue)"

definition apr_queue_size :: "'a apr_queue \<Rightarrow> u32" where
  "apr_queue_size queue = nelts queue"

definition apr_queue_pop_locked ::
  "env \<Rightarrow> 'a apr_queue \<Rightarrow> 'a apr_queue \<times> (apr_status \<times> 'a option) outcome" where
  "apr_queue_pop_locked e queue =
     (if apr_queue_empty queue then
        (if \<not> terminated queue then (queue\<lparr>empty_waiters := empty_waiters queue + 1\<rparr>, Block)
         else (queue, Return (interrupted e, None)))
      else (case pop_data e queue of (queue', rv) \<Rightarrow> (queue', Return rv)))"

definition apr_queue_pop_woken ::
  "env \<Rightarrow> 'a apr_queue \<Rightarrow> 'a apr_queue \<times> apr_status \<times> 'a option" where
  "apr_queue_pop_woken e queue =
     (let queue = queue\<lparr>empty_waiters := empty_waiters queue - 1\<rparr>
      in if wait_rv e \<noteq> APR_SUCCESS then (queue, wait_rv e, None)
         else if apr_queue_empty queue then (queue, interrupted e, None)
         else pop_data e queue)"

definition apr_queue_trypop_locked ::
  "env \<Rightarrow> 'a apr_queue \<Rightarrow> 'a apr_queue \<times> apr_status \<times> 'a option" where
  "apr_queue_trypop_locked e queue =
     (if apr_queue_empty queue then (queue, APR_EAGAIN, None) else pop_data e queue)"

definition apr_queue_term_locked :: "'a apr_queue \<Rightarrow> 'a apr_queue" where
  "apr_queue_term_locked queue = queue\<lparr>terminated := True\<rparr>"

subsection \<open>Threads\<close>

text \<open>
  Where a thread is: outside, between the first test of \<open>terminated\<close> and the lock, or
  blocked in the wait. The two lists record the data stored and the data handed out, in the
  order of the critical sections.
\<close>

datatype 'a pc =
    Outside
  | PushCalled 'a | PushBlocked 'a | TryPushCalled 'a
  | PopCalled | PopBlocked | TryPopCalled

record 'a system =
  queue :: "'a apr_queue"
  thread :: "nat \<Rightarrow> 'a pc"
  pushed :: "'a list"
  popped :: "'a list"

definition logged_push :: "'a apr_queue \<Rightarrow> 'a apr_queue \<Rightarrow> 'a \<Rightarrow> 'a list" where
  "logged_push q q' data = (if nelts q' = nelts q then [] else [data])"

inductive queue_step :: "'a system \<Rightarrow> 'a system \<Rightarrow> bool" where
  call: "thread s t = Outside \<Longrightarrow> \<not> terminated (queue s) \<Longrightarrow>
      c \<in> {PopCalled, TryPopCalled, PushCalled d, TryPushCalled d} \<Longrightarrow>
    queue_step s (s\<lparr>thread := (thread s)(t := c)\<rparr>)"
| lock_fails: "thread s t \<in> {PopCalled, TryPopCalled, PushCalled d, TryPushCalled d} \<Longrightarrow>
    queue_step s (s\<lparr>thread := (thread s)(t := Outside)\<rparr>)"
| push: "thread s t = PushCalled d \<Longrightarrow> apr_queue_push_locked e d (queue s) = (q, Return rv) \<Longrightarrow>
    queue_step s (s\<lparr>queue := q, thread := (thread s)(t := Outside),
                    pushed := pushed s @ logged_push (queue s) q d\<rparr>)"
| push_blocks: "thread s t = PushCalled d \<Longrightarrow> apr_queue_push_locked e d (queue s) = (q, Block) \<Longrightarrow>
    queue_step s (s\<lparr>queue := q, thread := (thread s)(t := PushBlocked d)\<rparr>)"
| push_wakes: "thread s t = PushBlocked d \<Longrightarrow> apr_queue_push_woken e d (queue s) = (q, rv) \<Longrightarrow>
    queue_step s (s\<lparr>queue := q, thread := (thread s)(t := Outside),
                    pushed := pushed s @ logged_push (queue s) q d\<rparr>)"
| trypush: "thread s t = TryPushCalled d \<Longrightarrow> apr_queue_trypush_locked e d (queue s) = (q, rv) \<Longrightarrow>
    queue_step s (s\<lparr>queue := q, thread := (thread s)(t := Outside),
                    pushed := pushed s @ logged_push (queue s) q d\<rparr>)"
| pop: "thread s t = PopCalled \<Longrightarrow> apr_queue_pop_locked e (queue s) = (q, Return (rv, r)) \<Longrightarrow>
    queue_step s (s\<lparr>queue := q, thread := (thread s)(t := Outside),
                    popped := popped s @ (case r of None \<Rightarrow> [] | Some d \<Rightarrow> [d])\<rparr>)"
| pop_blocks: "thread s t = PopCalled \<Longrightarrow> apr_queue_pop_locked e (queue s) = (q, Block) \<Longrightarrow>
    queue_step s (s\<lparr>queue := q, thread := (thread s)(t := PopBlocked)\<rparr>)"
| pop_wakes: "thread s t = PopBlocked \<Longrightarrow> apr_queue_pop_woken e (queue s) = (q, rv, r) \<Longrightarrow>
    queue_step s (s\<lparr>queue := q, thread := (thread s)(t := Outside),
                    popped := popped s @ (case r of None \<Rightarrow> [] | Some d \<Rightarrow> [d])\<rparr>)"
| trypop: "thread s t = TryPopCalled \<Longrightarrow> apr_queue_trypop_locked e (queue s) = (q, rv, r) \<Longrightarrow>
    queue_step s (s\<lparr>queue := q, thread := (thread s)(t := Outside),
                    popped := popped s @ (case r of None \<Rightarrow> [] | Some d \<Rightarrow> [d])\<rparr>)"
| terminate: "queue_step s (s\<lparr>queue := apr_queue_term_locked (queue s)\<rparr>)"

definition initial :: "'a apr_queue \<Rightarrow> 'a system" where
  "initial q = \<lparr>queue = q, thread = (\<lambda>t. Outside), pushed = [], popped = []\<rparr>"

inductive queue_reachable :: "'a \<Rightarrow> u32 \<Rightarrow> 'a system \<Rightarrow> bool" for null cap where
  start: "apr_queue_create APR_SUCCESS APR_SUCCESS APR_SUCCESS null cap = Inr q \<Longrightarrow>
    queue_reachable null cap (initial q)"
| step: "queue_reachable null cap s \<Longrightarrow> queue_step s s' \<Longrightarrow> queue_reachable null cap s'"

subsection \<open>The ring buffer is a bounded FIFO\<close>

definition contents :: "'a apr_queue \<Rightarrow> 'a list" where
  "contents q = map (\<lambda>i. q_data q ! ((unat (q_out q) + i) mod unat (bounds q))) [0..<unat (nelts q)]"

definition ring_ok :: "'a apr_queue \<Rightarrow> bool" where
  "ring_ok q \<longleftrightarrow>
     length (q_data q) = unat (bounds q) \<and> unat (nelts q) \<le> unat (bounds q) \<and>
     (bounds q \<noteq> 0 \<longrightarrow> unat (q_out q) < unat (bounds q) \<and>
        unat (q_in q) = (unat (q_out q) + unat (nelts q)) mod unat (bounds q))"

lemma contents_length [simp]: "length (contents q) = unat (nelts q)"
  by (simp add: contents_def)

lemma unat_bound: "unat (x :: u32) < 2 ^ 32"
  using unsigned_less [of x] by simp

text \<open>The index arithmetic: advance by one and wrap at the bound, without overflow.\<close>

lemma advance:
  fixes i b :: u32
  assumes "unat i < unat b"
  shows "unat (if i + 1 \<ge> b then i + 1 - b else i + 1) = (unat i + 1) mod unat b"
proof -
  have i: "unat (i + 1) = unat i + 1"
    using assms unat_bound [of b] by (simp add: unat_word_ariths)
  show ?thesis
  proof (cases "i + 1 \<ge> b")
    case True
    then have "unat i + 1 = unat b" using assms i by (simp add: word_le_nat_alt)
    then have "i + 1 = b" using i by (metis word_unat_eq_iff)
    with True \<open>unat i + 1 = unat b\<close> show ?thesis by simp
  next
    case False
    then show ?thesis using i by (simp add: word_le_nat_alt)
  qed
qed

lemma enqueue_fields [simp]:
  "nelts (enqueue d q) = nelts q + 1" "bounds (enqueue d q) = bounds q"
  "q_out (enqueue d q) = q_out q" "terminated (enqueue d q) = terminated q"
  "full_waiters (enqueue d q) = full_waiters q" "empty_waiters (enqueue d q) = empty_waiters q"
  "q_data (enqueue d q) = (q_data q)[unat (q_in q) := d]"
  "q_in (enqueue d q) = (if q_in q + 1 \<ge> bounds q then q_in q + 1 - bounds q else q_in q + 1)"
  "not_empty_signals (enqueue d q) = not_empty_signals q" "not_full_signals (enqueue d q) = not_full_signals q"
  by (simp_all add: enqueue_def Let_def)

lemma dequeue_fields [simp]:
  "fst (dequeue q) = q_data q ! unat (q_out q)"
  "nelts (snd (dequeue q)) = nelts q - 1" "bounds (snd (dequeue q)) = bounds q"
  "q_in (snd (dequeue q)) = q_in q" "terminated (snd (dequeue q)) = terminated q"
  "full_waiters (snd (dequeue q)) = full_waiters q"
  "empty_waiters (snd (dequeue q)) = empty_waiters q" "q_data (snd (dequeue q)) = q_data q"
  "q_out (snd (dequeue q)) = (if q_out q + 1 \<ge> bounds q then q_out q + 1 - bounds q else q_out q + 1)"
  "not_empty_signals (snd (dequeue q)) = not_empty_signals q" "not_full_signals (snd (dequeue q)) = not_full_signals q"
  by (simp_all add: dequeue_def Let_def)

text \<open>A signal changes nothing but its count.\<close>

lemma signal_fields [simp]:
  "nelts (signal_not_empty q) = nelts q" "bounds (signal_not_empty q) = bounds q"
  "q_out (signal_not_empty q) = q_out q" "q_in (signal_not_empty q) = q_in q"
  "full_waiters (signal_not_empty q) = full_waiters q" "empty_waiters (signal_not_empty q) = empty_waiters q"
  "q_data (signal_not_empty q) = q_data q" "terminated (signal_not_empty q) = terminated q"
  "nelts (signal_not_full q) = nelts q" "bounds (signal_not_full q) = bounds q"
  "q_out (signal_not_full q) = q_out q" "q_in (signal_not_full q) = q_in q"
  "full_waiters (signal_not_full q) = full_waiters q" "empty_waiters (signal_not_full q) = empty_waiters q"
  "q_data (signal_not_full q) = q_data q" "terminated (signal_not_full q) = terminated q"
  by (simp_all add: signal_not_empty_def signal_not_full_def)

lemma enqueue_ring:
  assumes ok: "ring_ok q" and room: "unat (nelts q) < unat (bounds q)"
  shows "ring_ok (enqueue d q) \<and> contents (enqueue d q) = contents q @ [d]"
proof -
  let ?b = "unat (bounds q)" and ?n = "unat (nelts q)" and ?o = "unat (q_out q)"
  have b: "bounds q \<noteq> 0" using room by auto
  have q: "length (q_data q) = ?b" "?o < ?b" "unat (q_in q) = (?o + ?n) mod ?b"
    using ok b by (auto simp: ring_ok_def)
  have inb: "unat (q_in q) < ?b" using q room by simp
  have n: "unat (nelts q + 1) = ?n + 1"
    using room unat_bound [of "bounds q"] by (simp add: unat_word_ariths)
  have old: "(?o + ?n) mod ?b \<noteq> (?o + i) mod ?b" if "i < ?n" for i
  proof
    assume "(?o + ?n) mod ?b = (?o + i) mod ?b"
    then have "?b dvd (?o + ?n) - (?o + i)" using that by (intro mod_eq_dvd_iff_nat [THEN iffD1]) auto
    then show False using that room by (auto dest: dvd_imp_le)
  qed
  have "contents (enqueue d q) = contents q @ [d]"
    using q n old inb by (simp add: contents_def nth_list_update) 
  moreover have "ring_ok (enqueue d q)"
    using q n room advance [OF inb] b by (simp add: ring_ok_def mod_Suc_eq split del: if_split)
  ultimately show ?thesis by simp
qed

lemma dequeue_ring:
  assumes ok: "ring_ok q" and some: "nelts q \<noteq> 0"
  shows "ring_ok (snd (dequeue q)) \<and> contents q = fst (dequeue q) # contents (snd (dequeue q))"
proof -
  let ?b = "unat (bounds q)" and ?n = "unat (nelts q)" and ?o = "unat (q_out q)"
  have n0: "?n > 0" using some by (simp add: unat_gt_0)
  have "?n \<le> ?b" using ok by (simp add: ring_ok_def)
  then have b: "bounds q \<noteq> 0" using n0 by auto
  have q: "length (q_data q) = ?b" "?o < ?b" "unat (q_in q) = (?o + ?n) mod ?b"
    using ok b by (auto simp: ring_ok_def)
  have n: "unat (nelts q - 1) = ?n - 1" using n0 by (simp add: unat_minus_one some)
  have up: "[0..<?n] = 0 # map Suc [0..<?n - 1]"
    using n0 by (simp add: upt_conv_Cons map_Suc_upt)
  have "contents q = fst (dequeue q) # contents (snd (dequeue q))"
    using q n unfolding contents_def up by (simp add: advance mod_add_left_eq split del: if_split)
  moreover have "ring_ok (snd (dequeue q))"
  proof -
    obtain m where m: "?n = Suc m" using n0 gr0_implies_Suc by blast
    have "(?o + Suc m) mod ?b = ((?o + 1) mod ?b + m) mod ?b" by (simp add: mod_add_left_eq)
    then show ?thesis
      using q n m \<open>?n \<le> ?b\<close> b by (simp add: ring_ok_def advance split del: if_split)
  qed
  ultimately show ?thesis by simp
qed

interpretation ring: bounded_fifo ring_ok "\<lambda>q. unat (bounds q)" contents enqueue dequeue
proof
  fix q :: "'a apr_queue" and x
  assume q: "ring_ok q"
  show "length (contents q) \<le> unat (bounds q)" using q by (simp add: ring_ok_def)
  show "length (contents q) < unat (bounds q) \<Longrightarrow>
      ring_ok (enqueue x q) \<and> contents (enqueue x q) = contents q @ [x]"
    using enqueue_ring [OF q] by simp
  show "contents q \<noteq> [] \<Longrightarrow> ring_ok (snd (dequeue q)) \<and>
      contents q = fst (dequeue q) # contents (snd (dequeue q))"
    using dequeue_ring [OF q] by (force simp flip: length_0_conv)
qed

subsection \<open>Every interleaving\<close>

text \<open>
  The critical sections by what they do to the ring: nothing but counting a waiter, one
  enqueue below the bound, or one dequeue of a queue that is not empty.
\<close>

definition same_ring :: "'a apr_queue \<Rightarrow> 'a apr_queue \<Rightarrow> bool" where
  "same_ring q q' \<longleftrightarrow>
     q_data q' = q_data q \<and> nelts q' = nelts q \<and> q_in q' = q_in q \<and> q_out q' = q_out q \<and>
     bounds q' = bounds q"

lemma same_ring_contents:
  "same_ring q q' \<Longrightarrow> contents q' = contents q \<and> ring_ok q' = ring_ok q \<and> bounds q' = bounds q"
  by (simp add: same_ring_def contents_def ring_ok_def)

lemma signal_contents [simp]:
  "contents (signal_not_empty q) = contents q" "contents (signal_not_full q) = contents q"
  by (simp_all add: contents_def)

definition pushes :: "'a \<Rightarrow> 'a apr_queue \<Rightarrow> 'a apr_queue \<Rightarrow> bool" where
  "pushes d q q' \<longleftrightarrow> nelts q \<noteq> bounds q \<and> same_ring (enqueue d q) q'"

definition pops :: "'a option \<Rightarrow> 'a apr_queue \<Rightarrow> 'a apr_queue \<Rightarrow> bool" where
  "pops r q q' \<longleftrightarrow> nelts q \<noteq> 0 \<and> r = Some (fst (dequeue q)) \<and> same_ring (snd (dequeue q)) q'"

lemma push_sections:
  "apr_queue_push_locked e d q = (q', x) \<Longrightarrow> pushes d q q' \<or> same_ring q q'"
  "apr_queue_push_woken e d q = (q', rv) \<Longrightarrow> pushes d q q' \<or> same_ring q q'"
  "apr_queue_trypush_locked e d q = (q', rv) \<Longrightarrow> pushes d q q' \<or> same_ring q q'"
  by (auto simp: apr_queue_push_locked_def apr_queue_push_woken_def apr_queue_trypush_locked_def
      pushes_def same_ring_def push_data_def apr_queue_full_def Let_def split: if_splits)

lemma pop_data_eq:
  "pop_data e q = (signal_not_full (snd (dequeue q)), signal_unlock e (full_waiters q), Some (fst (dequeue q)))"
  by (simp add: pop_data_def split_beta)

lemma pop_sections:
  "apr_queue_pop_locked e q = (q', Return (rv, r)) \<Longrightarrow> pops r q q' \<or> r = None \<and> same_ring q q'"
  "apr_queue_pop_locked e q = (q', Block) \<Longrightarrow> same_ring q q'"
  "apr_queue_pop_woken e q = (q', rv, r) \<Longrightarrow> pops r q q' \<or> r = None \<and> same_ring q q'"
  "apr_queue_trypop_locked e q = (q', rv, r) \<Longrightarrow> pops r q q' \<or> r = None \<and> same_ring q q'"
  by (auto simp: apr_queue_pop_locked_def apr_queue_pop_woken_def apr_queue_trypop_locked_def
      pops_def same_ring_def pop_data_eq apr_queue_empty_def Let_def split: if_splits)

definition fifo_inv :: "u32 \<Rightarrow> 'a system \<Rightarrow> bool" where
  "fifo_inv cap s \<longleftrightarrow>
     ring_ok (queue s) \<and> bounds (queue s) = cap \<and> pushed s = popped s @ contents (queue s)"

lemma fifo_push:
  assumes inv: "fifo_inv cap s" and q: "pushes d (queue s) q \<or> same_ring (queue s) q"
  shows "fifo_inv cap (s\<lparr>queue := q, thread := f, pushed := pushed s @ logged_push (queue s) q d\<rparr>)"
proof (cases "pushes d (queue s) q")
  case True
  have "unat (nelts (queue s)) < unat (bounds (queue s))"
    using inv True by (auto simp: fifo_inv_def ring_ok_def pushes_def le_less word_unat_eq_iff)
  moreover have "logged_push (queue s) q d = [d]"
    using True by (simp add: logged_push_def pushes_def same_ring_def)
  ultimately show ?thesis
    using inv True ring.put_law [of "queue s" d] ring.log_put [of "queue s" "pushed s" "popped s" d]
      same_ring_contents [of "enqueue d (queue s)" q]
    by (simp add: fifo_inv_def pushes_def)
next
  case False
  with q have s: "same_ring (queue s) q" by simp
  then have "logged_push (queue s) q d = []" by (simp add: logged_push_def same_ring_def)
  then show ?thesis using inv same_ring_contents [OF s] by (simp add: fifo_inv_def)
qed

lemma fifo_pop:
  assumes inv: "fifo_inv cap s" and q: "pops r (queue s) q \<or> r = None \<and> same_ring (queue s) q"
  shows "fifo_inv cap (s\<lparr>queue := q, thread := f,
           popped := popped s @ (case r of None \<Rightarrow> [] | Some d \<Rightarrow> [d])\<rparr>)"
proof (cases "pops r (queue s) q")
  case True
  have "contents (queue s) \<noteq> []"
    using True by (auto simp: pops_def unat_gt_0 simp flip: length_0_conv)
  then show ?thesis
    using inv True ring.take_law [of "queue s"] ring.log_take [of "queue s" "pushed s" "popped s"]
      same_ring_contents [of "snd (dequeue (queue s))" q]
    by (simp add: fifo_inv_def pops_def)
next
  case False
  with q show ?thesis using inv same_ring_contents [of "queue s" q] by (simp add: fifo_inv_def)
qed

lemma fifo_same:
  "fifo_inv cap s \<Longrightarrow> same_ring (queue s) q \<Longrightarrow> fifo_inv cap (s\<lparr>queue := q, thread := f\<rparr>)"
  using same_ring_contents [of "queue s" q] by (simp add: fifo_inv_def)

lemma fifo_step: "queue_step s s' \<Longrightarrow> fifo_inv cap s \<Longrightarrow> fifo_inv cap s'"
proof (induction rule: queue_step.induct)
  case (push_blocks s t d e q)
  have "\<not> pushes d (queue s) q"
    using push_blocks(2) by (auto simp: pushes_def apr_queue_push_locked_def apr_queue_full_def
        split: if_splits prod.splits)
  with push_sections(1) [OF push_blocks(2)] push_blocks(3) show ?case by (simp add: fifo_same)
next
  case (terminate s)
  have "same_ring (queue s) (apr_queue_term_locked (queue s))"
    by (simp add: same_ring_def apr_queue_term_locked_def)
  from fifo_same [OF terminate this, of "thread s"] show ?case by simp
next
  case (push s t d e q rv)
  show ?case by (rule fifo_push [OF push(3) push_sections(1) [OF push(2)]])
next
  case (push_wakes s t d e q rv)
  show ?case by (rule fifo_push [OF push_wakes(3) push_sections(2) [OF push_wakes(2)]])
next
  case (trypush s t d e q rv)
  show ?case by (rule fifo_push [OF trypush(3) push_sections(3) [OF trypush(2)]])
next
  case (pop s t e q rv r)
  show ?case by (rule fifo_pop [OF pop(3) pop_sections(1) [OF pop(2)]])
next
  case (pop_blocks s t e q)
  show ?case by (rule fifo_same [OF pop_blocks(3) pop_sections(2) [OF pop_blocks(2)]])
next
  case (pop_wakes s t e q rv r)
  show ?case by (rule fifo_pop [OF pop_wakes(3) pop_sections(3) [OF pop_wakes(2)]])
next
  case (trypop s t e q rv r)
  show ?case by (rule fifo_pop [OF trypop(3) pop_sections(4) [OF trypop(2)]])
qed (simp_all add: fifo_inv_def)

lemma fifo_reachable: "queue_reachable null cap s \<Longrightarrow> fifo_inv cap s"
proof (induction rule: queue_reachable.induct)
  case (start q)
  then show ?case
    by (auto simp: apr_queue_create_def fifo_inv_def ring_ok_def contents_def initial_def unat_gt_0)
qed (rule fifo_step)

subsection \<open>The waiter counts\<close>

definition push_waiters :: "'a system \<Rightarrow> nat set" where
  "push_waiters s = {t. \<exists>d. thread s t = PushBlocked d}"

definition pop_waiters :: "'a system \<Rightarrow> nat set" where
  "pop_waiters s = {t. thread s t = PopBlocked}"

definition waiters_inv :: "'a system \<Rightarrow> bool" where
  "waiters_inv s \<longleftrightarrow>
     finite (push_waiters s) \<and> full_waiters (queue s) = of_nat (card (push_waiters s)) \<and>
     finite (pop_waiters s) \<and> empty_waiters (queue s) = of_nat (card (pop_waiters s))"

lemma section_waiters:
  "apr_queue_push_locked e d q = (q', Return rv) \<Longrightarrow>
     full_waiters q' = full_waiters q \<and> empty_waiters q' = empty_waiters q"
  "apr_queue_push_locked e d q = (q', Block) \<Longrightarrow>
     full_waiters q' = full_waiters q + 1 \<and> empty_waiters q' = empty_waiters q"
  "apr_queue_push_woken e d q = (q', rv) \<Longrightarrow>
     full_waiters q' = full_waiters q - 1 \<and> empty_waiters q' = empty_waiters q"
  "apr_queue_trypush_locked e d q = (q', rv) \<Longrightarrow>
     full_waiters q' = full_waiters q \<and> empty_waiters q' = empty_waiters q"
  "apr_queue_pop_locked e q = (q', Return (rv, r)) \<Longrightarrow>
     full_waiters q' = full_waiters q \<and> empty_waiters q' = empty_waiters q"
  "apr_queue_pop_locked e q = (q', Block) \<Longrightarrow>
     full_waiters q' = full_waiters q \<and> empty_waiters q' = empty_waiters q + 1"
  "apr_queue_pop_woken e q = (q', rv, r) \<Longrightarrow>
     full_waiters q' = full_waiters q \<and> empty_waiters q' = empty_waiters q - 1"
  "apr_queue_trypop_locked e q = (q', rv, r) \<Longrightarrow>
     full_waiters q' = full_waiters q \<and> empty_waiters q' = empty_waiters q"
  by (auto simp: apr_queue_push_locked_def apr_queue_push_woken_def apr_queue_trypush_locked_def
      apr_queue_pop_locked_def apr_queue_pop_woken_def apr_queue_trypop_locked_def
      push_data_def pop_data_eq Let_def split: if_splits)

text \<open>A thread that is not blocked moves to a state that is not, blocks, or is woken.\<close>

lemma waiters_move:
  assumes "waiters_inv s" and "t \<notin> push_waiters s" "t \<notin> pop_waiters s"
    and "\<forall>d. c \<noteq> PushBlocked d" "c \<noteq> PopBlocked"
    and "full_waiters q = full_waiters (queue s)" "empty_waiters q = empty_waiters (queue s)"
  shows "waiters_inv (s\<lparr>queue := q, thread := (thread s)(t := c), pushed := P, popped := R\<rparr>)"
proof -
  have "{t'. \<exists>d. ((thread s)(t := c)) t' = PushBlocked d} = push_waiters s"
    "{t'. ((thread s)(t := c)) t' = PopBlocked} = pop_waiters s"
    using assms(2-5) by (auto simp: push_waiters_def pop_waiters_def split: if_splits)
  with assms show ?thesis by (simp add: waiters_inv_def push_waiters_def pop_waiters_def)
qed

lemma waiters_block:
  assumes "waiters_inv s" and "t \<notin> push_waiters s" "t \<notin> pop_waiters s"
  shows "full_waiters q = full_waiters (queue s) + 1 \<Longrightarrow> empty_waiters q = empty_waiters (queue s) \<Longrightarrow>
           waiters_inv (s\<lparr>queue := q, thread := (thread s)(t := PushBlocked d)\<rparr>)"
    and "full_waiters q = full_waiters (queue s) \<Longrightarrow> empty_waiters q = empty_waiters (queue s) + 1 \<Longrightarrow>
           waiters_inv (s\<lparr>queue := q, thread := (thread s)(t := PopBlocked)\<rparr>)"
proof -
  have "{t'. \<exists>d'. ((thread s)(t := PushBlocked d)) t' = PushBlocked d'} = insert t (push_waiters s)"
    "{t'. ((thread s)(t := PushBlocked d)) t' = PopBlocked} = pop_waiters s"
    "{t'. \<exists>d'. ((thread s)(t := PopBlocked)) t' = PushBlocked d'} = push_waiters s"
    "{t'. ((thread s)(t := PopBlocked)) t' = PopBlocked} = insert t (pop_waiters s)"
    using assms(2,3) by (auto simp: push_waiters_def pop_waiters_def split: if_splits)
  with assms show
    "full_waiters q = full_waiters (queue s) + 1 \<Longrightarrow> empty_waiters q = empty_waiters (queue s) \<Longrightarrow>
       waiters_inv (s\<lparr>queue := q, thread := (thread s)(t := PushBlocked d)\<rparr>)"
    "full_waiters q = full_waiters (queue s) \<Longrightarrow> empty_waiters q = empty_waiters (queue s) + 1 \<Longrightarrow>
       waiters_inv (s\<lparr>queue := q, thread := (thread s)(t := PopBlocked)\<rparr>)"
    by (simp_all add: waiters_inv_def push_waiters_def pop_waiters_def)
qed

lemma card_wake: "finite A \<Longrightarrow> t \<in> A \<Longrightarrow> of_nat (card (A - {t})) = (of_nat (card A) - 1 :: u32)"
  by (metis add_diff_cancel_left' card_Suc_Diff1 of_nat_Suc)

lemma waiters_wake:
  assumes "waiters_inv s"
  shows "t \<in> push_waiters s \<Longrightarrow> full_waiters q = full_waiters (queue s) - 1 \<Longrightarrow>
           empty_waiters q = empty_waiters (queue s) \<Longrightarrow>
           waiters_inv (s\<lparr>queue := q, thread := (thread s)(t := Outside), pushed := P\<rparr>)"
    and "t \<in> pop_waiters s \<Longrightarrow> full_waiters q = full_waiters (queue s) \<Longrightarrow>
           empty_waiters q = empty_waiters (queue s) - 1 \<Longrightarrow>
           waiters_inv (s\<lparr>queue := q, thread := (thread s)(t := Outside), popped := P\<rparr>)"
proof -
  have sets: "{t'. \<exists>d'. ((thread s)(t := Outside)) t' = PushBlocked d'} = push_waiters s - {t}"
    "{t'. ((thread s)(t := Outside)) t' = PopBlocked} = pop_waiters s - {t}"
    by (auto simp: push_waiters_def pop_waiters_def split: if_splits)
  have disj: "t \<in> push_waiters s \<Longrightarrow> pop_waiters s - {t} = pop_waiters s"
    "t \<in> pop_waiters s \<Longrightarrow> push_waiters s - {t} = push_waiters s"
    by (auto simp: push_waiters_def pop_waiters_def)
  show "t \<in> push_waiters s \<Longrightarrow> full_waiters q = full_waiters (queue s) - 1 \<Longrightarrow>
      empty_waiters q = empty_waiters (queue s) \<Longrightarrow>
      waiters_inv (s\<lparr>queue := q, thread := (thread s)(t := Outside), pushed := P\<rparr>)"
    using assms sets disj(1) card_wake [of "push_waiters s" t]
    by (simp add: waiters_inv_def push_waiters_def [of "s\<lparr>queue := _, thread := _, pushed := _\<rparr>"]
        pop_waiters_def [of "s\<lparr>queue := _, thread := _, pushed := _\<rparr>"])
  show "t \<in> pop_waiters s \<Longrightarrow> full_waiters q = full_waiters (queue s) \<Longrightarrow>
      empty_waiters q = empty_waiters (queue s) - 1 \<Longrightarrow>
      waiters_inv (s\<lparr>queue := q, thread := (thread s)(t := Outside), popped := P\<rparr>)"
    using assms sets disj(2) card_wake [of "pop_waiters s" t]
    by (simp add: waiters_inv_def push_waiters_def [of "s\<lparr>queue := _, thread := _, popped := _\<rparr>"]
        pop_waiters_def [of "s\<lparr>queue := _, thread := _, popped := _\<rparr>"])
qed

lemma not_waiting:
  "thread s t \<in> {Outside, PushCalled d, TryPushCalled d, PopCalled, TryPopCalled} \<Longrightarrow>
     t \<notin> push_waiters s \<and> t \<notin> pop_waiters s"
  by (auto simp: push_waiters_def pop_waiters_def)

lemma waiters_step: "queue_step s s' \<Longrightarrow> waiters_inv s \<Longrightarrow> waiters_inv s'"
proof (induction rule: queue_step.induct)
  case (call s t c d)
  then show ?case
    using waiters_move [where s = s and t = t and c = c and q = "queue s" and P = "pushed s" and R = "popped s"] not_waiting [of s t d] by auto
next
  case (lock_fails s t d)
  then show ?case
    using waiters_move [where s = s and t = t and c = Outside and q = "queue s" and P = "pushed s" and R = "popped s"] not_waiting [of s t d] by auto
next
  case (push s t d e q rv)
  show ?case
    using waiters_move [where s = s and t = t and c = Outside and q = q and
        P = "pushed s @ logged_push (queue s) q d" and R = "popped s"]
      push not_waiting [of s t d] section_waiters(1) [OF push(2)] by auto
next
  case (push_blocks s t d e q)
  show ?case
    using waiters_block(1) [of s t q d] push_blocks not_waiting [of s t d]
      section_waiters(2) [OF push_blocks(2)] by auto
next
  case (push_wakes s t d e q rv)
  have "t \<in> push_waiters s" using push_wakes(1) by (simp add: push_waiters_def)
  from waiters_wake(1) [OF push_wakes(3) this] section_waiters(3) [OF push_wakes(2)]
  show ?case by simp
next
  case (trypush s t d e q rv)
  show ?case
    using waiters_move [where s = s and t = t and c = Outside and q = q and
        P = "pushed s @ logged_push (queue s) q d" and R = "popped s"]
      trypush not_waiting [of s t d] section_waiters(4) [OF trypush(2)] by auto
next
  case (pop s t e q rv r)
  show ?case
    using waiters_move [where s = s and t = t and c = Outside and q = q and
        P = "pushed s" and R = "popped s @ (case r of None \<Rightarrow> [] | Some d \<Rightarrow> [d])"]
      pop not_waiting [of s t] section_waiters(5) [OF pop(2)] by auto
next
  case (pop_blocks s t e q)
  show ?case
    using waiters_block(2) [of s t q] pop_blocks not_waiting [of s t]
      section_waiters(6) [OF pop_blocks(2)] by auto
next
  case (pop_wakes s t e q rv r)
  have "t \<in> pop_waiters s" using pop_wakes(1) by (simp add: pop_waiters_def)
  from waiters_wake(2) [OF pop_wakes(3) this] section_waiters(7) [OF pop_wakes(2)]
  show ?case by simp
next
  case (trypop s t e q rv r)
  show ?case
    using waiters_move [where s = s and t = t and c = Outside and q = q and
        P = "pushed s" and R = "popped s @ (case r of None \<Rightarrow> [] | Some d \<Rightarrow> [d])"]
      trypop not_waiting [of s t] section_waiters(8) [OF trypop(2)] by auto
next
  case (terminate s)
  then show ?case
    by (simp add: waiters_inv_def apr_queue_term_locked_def push_waiters_def pop_waiters_def)
qed

lemma waiters_reachable: "queue_reachable null cap s \<Longrightarrow> waiters_inv s"
proof (induction rule: queue_reachable.induct)
  case (start q)
  then show ?case
    by (auto simp: apr_queue_create_def waiters_inv_def initial_def push_waiters_def pop_waiters_def)
qed (rule waiters_step)

text \<open>The signals of the critical sections that store or hand out data.\<close>

lemma push_signals:
  "apr_queue_push_locked e d q = (q', Return rv) \<Longrightarrow> nelts q' \<noteq> nelts q \<Longrightarrow>
     not_empty_signals q' = not_empty_signals q + of_bool (empty_waiters q \<noteq> 0)"
  "apr_queue_push_woken e d q = (q', rv') \<Longrightarrow> nelts q' \<noteq> nelts q \<Longrightarrow>
     not_empty_signals q' = not_empty_signals q + of_bool (empty_waiters q \<noteq> 0)"
  "apr_queue_trypush_locked e d q = (q', rv') \<Longrightarrow> nelts q' \<noteq> nelts q \<Longrightarrow>
     not_empty_signals q' = not_empty_signals q + of_bool (empty_waiters q \<noteq> 0)"
  by (auto simp: apr_queue_push_locked_def apr_queue_push_woken_def apr_queue_trypush_locked_def
      push_data_def signal_not_empty_def Let_def split: if_splits)

lemma pop_signals:
  "apr_queue_pop_locked e q = (q', Return (rv, Some d)) \<Longrightarrow>
     not_full_signals q' = not_full_signals q + of_bool (full_waiters q \<noteq> 0)"
  "apr_queue_pop_woken e q = (q', rv, Some d) \<Longrightarrow>
     not_full_signals q' = not_full_signals q + of_bool (full_waiters q \<noteq> 0)"
  "apr_queue_trypop_locked e q = (q', rv, Some d) \<Longrightarrow>
     not_full_signals q' = not_full_signals q + of_bool (full_waiters q \<noteq> 0)"
  by (auto simp: apr_queue_pop_locked_def apr_queue_pop_woken_def apr_queue_trypop_locked_def
      pop_data_eq signal_not_full_def Let_def split: if_splits)

lemma step_signals:
  assumes "queue_step s s'"
  shows "pushed s' \<noteq> pushed s \<longrightarrow> not_empty_signals (queue s') =
       not_empty_signals (queue s) + of_bool (empty_waiters (queue s) \<noteq> 0)"
    and "popped s' \<noteq> popped s \<longrightarrow> not_full_signals (queue s') =
       not_full_signals (queue s) + of_bool (full_waiters (queue s) \<noteq> 0)"
  using assms
  by (induction rule: queue_step.induct)
    (auto simp: logged_push_def push_signals pop_signals split: if_splits option.splits)

lemma waiting_nonzero: "finite A \<Longrightarrow> t \<in> A \<Longrightarrow> card A < 2 ^ 32 \<Longrightarrow> (of_nat (card A) :: u32) \<noteq> 0"
  by (auto simp: word_unat_eq_iff unat_of_nat)

subsection \<open>Properties\<close>

text \<open>
  C15: whatever the interleaving of pushes, pops, their non-blocking versions and
  the termination of the queue, and whatever wakes the waiting threads, the data handed out
  are the data stored, in the same order, none lost or duplicated, and the queue holds the
  rest: \<open>apr_queue_size\<close> elements, never more than the capacity.
\<close>

theorem queue_fifo:
  assumes "queue_reachable null capacity s"
  shows "pushed s = popped s @ contents (queue s) \<and>
         length (contents (queue s)) = unat (apr_queue_size (queue s)) \<and>
         apr_queue_size (queue s) \<le> capacity"
  using fifo_reachable [OF assms]
  by (auto simp: fifo_inv_def ring_ok_def apr_queue_size_def word_le_nat_alt)

text \<open>
  C32: the two counters that decide whether a push or a pop signals the other
  side are exactly the numbers of threads blocked in the waits; and every step that stores data
  while a thread is blocked for data signals \<open>not_empty\<close>, every step that hands out data while
  one is blocked for room signals \<open>not_full\<close>, once (as long as fewer than \<open>2 ^ 32\<close> threads
  are blocked, so that the 32-bit counter is not 0).
\<close>

theorem queue_counts_waiters:
  assumes "queue_reachable null capacity s"
  shows "full_waiters (queue s) = of_nat (card {t. \<exists>d. thread s t = PushBlocked d}) \<and>
         empty_waiters (queue s) = of_nat (card {t. thread s t = PopBlocked}) \<and>
         (queue_step s s' \<and> pushed s' \<noteq> pushed s \<and> (\<exists>t. thread s t = PopBlocked) \<and>
            card {t. thread s t = PopBlocked} < 2 ^ 32 \<longrightarrow>
            not_empty_signals (queue s') = not_empty_signals (queue s) + 1) \<and>
         (queue_step s s' \<and> popped s' \<noteq> popped s \<and> (\<exists>t d. thread s t = PushBlocked d) \<and>
            card {t. \<exists>d. thread s t = PushBlocked d} < 2 ^ 32 \<longrightarrow>
            not_full_signals (queue s') = not_full_signals (queue s) + 1)"
proof -
  have inv: "finite {t. \<exists>d. thread s t = PushBlocked d}" "finite {t. thread s t = PopBlocked}"
    "full_waiters (queue s) = of_nat (card {t. \<exists>d. thread s t = PushBlocked d})"
    "empty_waiters (queue s) = of_nat (card {t. thread s t = PopBlocked})"
    using waiters_reachable [OF assms] by (simp_all add: waiters_inv_def push_waiters_def pop_waiters_def)
  show ?thesis
  proof (intro conjI impI inv(3,4); elim conjE exE)
    fix t
    assume st: "queue_step s s'" "pushed s' \<noteq> pushed s" and t: "thread s t = PopBlocked"
      and c: "card {t. thread s t = PopBlocked} < 2 ^ 32"
    have "empty_waiters (queue s) \<noteq> 0"
      unfolding inv(4) by (rule waiting_nonzero [OF inv(2) _ c, of t]) (simp add: t)
    then show "not_empty_signals (queue s') = not_empty_signals (queue s) + 1"
      using step_signals(1) [OF st(1)] st(2) by simp
  next
    fix t d
    assume st: "queue_step s s'" "popped s' \<noteq> popped s" and t: "thread s t = PushBlocked d"
      and c: "card {t. \<exists>d. thread s t = PushBlocked d} < 2 ^ 32"
    have "full_waiters (queue s) \<noteq> 0"
      unfolding inv(3) by (rule waiting_nonzero [OF inv(1) _ c, of t]) (use t in auto)
    then show "not_full_signals (queue s') = not_full_signals (queue s) + 1"
      using step_signals(2) [OF st(1)] st(2) by simp
  qed
qed

text \<open>
  What a push does in each state: on a queue that is not full it stores the
  data behind the others; on a full one the non-blocking push returns \<open>APR_EAGAIN\<close> and the
  blocking push waits unless the queue is terminated; a woken push stores its data unless the
  wait failed or the queue is full again, when it returns \<open>APR_EINTR\<close>, or \<open>APR_EOF\<close>
  on a terminated queue, and leaves the data alone. The status of a push that stored its data
  is that of the signal or of the unlock: a failed signal is reported although the data are
  in the queue.
\<close>

lemma queue_push_results:
  assumes "ring_ok q"
  shows "(if nelts q < bounds q then
            \<exists>q' rv. apr_queue_push_locked e d q = (q', Return rv) \<and>
              apr_queue_trypush_locked e d q = (q', rv) \<and> contents q' = contents q @ [d] \<and>
              rv = (if empty_waiters q \<noteq> 0 \<and> signal_rv e \<noteq> APR_SUCCESS
                    then signal_rv e else unlock_rv e)
          else
            apr_queue_trypush_locked e d q = (q, APR_EAGAIN) \<and>
            (if terminated q then fst (apr_queue_push_locked e d q) = q
             else snd (apr_queue_push_locked e d q) = Block)) \<and>
         contents (fst (apr_queue_push_woken e d q)) =
           (if wait_rv e = APR_SUCCESS \<and> nelts q < bounds q then contents q @ [d] else contents q) \<and>
         (wait_rv e = APR_SUCCESS \<and> nelts q = bounds q \<and> unlock_rv e = APR_SUCCESS \<longrightarrow>
           snd (apr_queue_push_woken e d q) = (if terminated_after e then APR_EOF else APR_EINTR))"
proof -
  have full: "nelts q = bounds q \<longleftrightarrow> \<not> nelts q < bounds q"
    using assms by (auto simp: ring_ok_def word_less_nat_alt word_unat_eq_iff)
  let ?q = "q\<lparr>full_waiters := full_waiters q - 1\<rparr>"
  have w: "same_ring q ?q" "same_ring (enqueue d q) (enqueue d ?q)" by (simp_all add: same_ring_def)
  have c: "nelts q < bounds q \<Longrightarrow> contents (enqueue d q) = contents q @ [d]"
    using ring.put_law [OF assms, of d] by (simp add: word_less_nat_alt)
  show ?thesis
    using same_ring_contents [OF w(1)] same_ring_contents [OF w(2)] c
    by (auto simp: apr_queue_push_locked_def apr_queue_trypush_locked_def apr_queue_push_woken_def
        apr_queue_full_def full push_data_def signal_unlock_def interrupted_def Let_def)
qed

subsection \<open>Witnesses\<close>

definition sample_env :: env where
  "sample_env = \<lparr>wait_rv = APR_SUCCESS, signal_rv = APR_SUCCESS, unlock_rv = APR_SUCCESS,
                 terminated_after = False\<rparr>"

definition sample_queue :: "nat apr_queue" where
  "sample_queue = \<lparr>q_data = [0, 0], nelts = 0, q_in = 0, q_out = 0, bounds = 2,
     full_waiters = 0, empty_waiters = 0, terminated = False, not_empty_signals = 0,
     not_full_signals = 0\<rparr>"

definition sample_system :: "nat system" where
  "sample_system = (initial sample_queue)\<lparr>queue := enqueue 7 sample_queue, pushed := [7],
     thread := (\<lambda>t. Outside)\<rparr>"

lemma sample_reachable: "queue_reachable 0 2 sample_system"
proof -
  let ?s0 = "initial sample_queue"
  have "replicate 2 0 = [0, 0 :: nat]" by (simp add: numeral_2_eq_2)
  then have s0: "queue_reachable 0 2 ?s0"
    by (intro queue_reachable.start) (simp add: apr_queue_create_def sample_queue_def)
  have "queue_step ?s0 (?s0\<lparr>thread := (thread ?s0)(0 := PushCalled 7)\<rparr>)"
    by (rule queue_step.call [where d = 7]) (simp_all add: initial_def sample_queue_def)
  with s0 have s1: "queue_reachable 0 2 (?s0\<lparr>thread := (thread ?s0)(0 := PushCalled 7)\<rparr>)"
    by (rule queue_reachable.step)
  have "apr_queue_push_locked sample_env 7 sample_queue =
      (enqueue 7 sample_queue, Return APR_SUCCESS)"
    by (simp add: apr_queue_push_locked_def apr_queue_full_def sample_queue_def push_data_def
        signal_unlock_def signal_not_empty_def sample_env_def Let_def)
  then have "queue_step (?s0\<lparr>thread := (thread ?s0)(0 := PushCalled 7)\<rparr>) sample_system"
    using queue_step.push [of "?s0\<lparr>thread := (thread ?s0)(0 := PushCalled 7)\<rparr>" 0 7 sample_env]
    by (simp add: initial_def sample_system_def logged_push_def fun_upd_idem sample_queue_def)
  with s1 show ?thesis by (rule queue_reachable.step)
qed

lemma queue_fifo_witness:
  "pushed sample_system = [7] \<and> contents (queue sample_system) = [7]"
  using queue_fifo [OF sample_reachable] by (simp add: sample_system_def initial_def)

text \<open>Thread 1 is blocked for data when thread 0 pushes.\<close>

definition blocked_system :: "nat system" where
  "blocked_system = (initial sample_queue)\<lparr>queue := sample_queue\<lparr>empty_waiters := 1\<rparr>,
     thread := (\<lambda>t. if t = 0 then PushCalled 7 else if t = 1 then PopBlocked else Outside)\<rparr>"

definition served_system :: "nat system" where
  "served_system = blocked_system\<lparr>queue := signal_not_empty (enqueue 7 (queue blocked_system)),
     thread := (thread blocked_system)(0 := Outside), pushed := [7]\<rparr>"

lemma blocked_reachable: "queue_reachable 0 2 blocked_system"
proof -
  let ?s0 = "initial sample_queue"
  let ?s1 = "?s0\<lparr>thread := (thread ?s0)(1 := PopCalled)\<rparr>"
  let ?s2 = "?s1\<lparr>queue := sample_queue\<lparr>empty_waiters := 1\<rparr>, thread := (thread ?s1)(1 := PopBlocked)\<rparr>"
  have "replicate 2 0 = [0, 0 :: nat]" by (simp add: numeral_2_eq_2)
  then have s0: "queue_reachable 0 2 ?s0"
    by (intro queue_reachable.start) (simp add: apr_queue_create_def sample_queue_def)
  have "queue_step ?s0 ?s1"
    by (rule queue_step.call [where d = 7]) (simp_all add: initial_def sample_queue_def)
  with s0 have s1: "queue_reachable 0 2 ?s1" by (rule queue_reachable.step)
  have "queue_step ?s1 ?s2"
    by (rule queue_step.pop_blocks [where e = sample_env])
      (simp_all add: initial_def apr_queue_pop_locked_def apr_queue_empty_def sample_queue_def)
  with s1 have s2: "queue_reachable 0 2 ?s2" by (rule queue_reachable.step)
  have "queue_step ?s2 (?s2\<lparr>thread := (thread ?s2)(0 := PushCalled 7)\<rparr>)"
    by (rule queue_step.call [where d = 7]) (simp_all add: initial_def sample_queue_def)
  moreover have "?s2\<lparr>thread := (thread ?s2)(0 := PushCalled 7)\<rparr> = blocked_system"
    by (simp add: blocked_system_def initial_def fun_eq_iff)
  ultimately show ?thesis using queue_reachable.step [OF s2] by metis
qed

lemma blocked_step: "queue_step blocked_system served_system"
proof -
  have "apr_queue_push_locked sample_env 7 (queue blocked_system) =
      (signal_not_empty (enqueue 7 (queue blocked_system)), Return APR_SUCCESS)"
    by (simp add: apr_queue_push_locked_def apr_queue_full_def blocked_system_def sample_queue_def push_data_def
        signal_unlock_def sample_env_def Let_def)
  moreover have "thread blocked_system 0 = PushCalled 7" by (simp add: blocked_system_def)
  ultimately show ?thesis
    using queue_step.push [of blocked_system 0 7 sample_env]
    by (simp add: served_system_def logged_push_def) (simp add: blocked_system_def initial_def)
qed

lemma queue_counts_waiters_witness:
  "thread blocked_system 1 = PopBlocked \<and> queue_step blocked_system served_system \<and>
   not_empty_signals (queue served_system) = not_empty_signals (queue blocked_system) + 1"
proof -
  have "{t. thread blocked_system t = PopBlocked} = {1}" by (auto simp: blocked_system_def)
  moreover have "pushed served_system \<noteq> pushed blocked_system"
    by (simp add: served_system_def blocked_system_def initial_def)
  moreover have t: "thread blocked_system 1 = PopBlocked" by (simp add: blocked_system_def)
  ultimately show ?thesis
    using queue_counts_waiters [OF blocked_reachable, of served_system] blocked_step t by auto
qed

end
