(* ===== verification/C_String.thy ===== *)
theory C_String
  imports Prelude "HOL-Library.List_Lexorder"
begin

text \<open>
  C strings and the functions of the C library the string code calls. A string is the list
  of its bytes before the terminating NUL; \<open>str_at\<close> reads the terminator at its end.
\<close>

type_synonym cstring = "byte list"

abbreviation str :: "string \<Rightarrow> cstring" where
  "str s \<equiv> map of_char s"

definition str_at :: "cstring \<Rightarrow> nat \<Rightarrow> byte" where
  "str_at s i = (if i < length s then s ! i else 0)"

lemma str_at_Cons [simp]: "str_at (c # s) 0 = c" "str_at (c # s) (Suc i) = str_at s i"
  by (simp_all add: str_at_def)

lemma str_at_Nil [simp]: "str_at [] i = 0"
  by (simp add: str_at_def)

text \<open>A byte as the \<open>char\<close> the compilers of the sources have it: signed, widened to 32 bits.\<close>

definition char_to_u32 :: "byte \<Rightarrow> u32" where
  "char_to_u32 c = signed_take_bit 7 (ucast c)"

text \<open>\<open>apr_tolower\<close>, that is \<open>tolower\<close> in the C locale.\<close>

definition apr_tolower :: "byte \<Rightarrow> byte" where
  "apr_tolower c = (if 65 \<le> c \<and> c \<le> 90 then c + 32 else c)"

abbreviation lower :: "cstring \<Rightarrow> cstring" where
  "lower s \<equiv> map apr_tolower s"

text \<open>\<open>strcasecmp\<close>: the difference of the first two characters that differ in lower case.\<close>

fun strcasecmp :: "cstring \<Rightarrow> cstring \<Rightarrow> int" where
  "strcasecmp [] [] = 0"
| "strcasecmp (c # s) [] = uint (apr_tolower c)"
| "strcasecmp [] (d # t) = - uint (apr_tolower d)"
| "strcasecmp (c # s) (d # t) =
     (if apr_tolower c = apr_tolower d then strcasecmp s t
      else uint (apr_tolower c) - uint (apr_tolower d))"

text \<open>Strings hold no NUL byte; then the sign of \<open>strcasecmp\<close> is the lexicographic order.\<close>

definition nul_free :: "cstring \<Rightarrow> bool" where
  "nul_free s = (0 \<notin> set s)"

lemma nul_free_simps [simp]:
  "nul_free []" "nul_free (c # s) \<longleftrightarrow> c \<noteq> 0 \<and> nul_free s" "nul_free (s @ t) \<longleftrightarrow> nul_free s \<and> nul_free t"
  by (auto simp: nul_free_def)

lemma apr_tolower_0: "apr_tolower c = 0 \<longleftrightarrow> c = 0"
  unfolding apr_tolower_def
  by (cases "65 \<le> c \<and> c \<le> 90") (auto simp: word_le_nat_alt unat_arith_simps word_less_nat_alt unat_word_ariths)

lemma apr_tolower_uint: "c \<noteq> 0 \<Longrightarrow> uint (apr_tolower c) > 0"
  using apr_tolower_0 [of c] uint_ge_0 [of "apr_tolower c"] unsigned_eq_0_iff [of "apr_tolower c"]
  by (metis order_le_less)

lemma strcasecmp_eq:
  "nul_free s \<Longrightarrow> nul_free t \<Longrightarrow> strcasecmp s t = 0 \<longleftrightarrow> lower s = lower t"
proof (induction s t rule: strcasecmp.induct)
  case (2 c s) then show ?case using apr_tolower_uint [of c] by simp
next
  case (3 d t) then show ?case using apr_tolower_uint [of d] by simp
qed (auto simp flip: word_uint_eq_iff)

lemma strcasecmp_gt:
  "nul_free s \<Longrightarrow> nul_free t \<Longrightarrow> strcasecmp s t > 0 \<longleftrightarrow> lower t < lower s"
proof (induction s t rule: strcasecmp.induct)
  case (2 c s) then show ?case using apr_tolower_uint [of c] by simp
next
  case (3 d t) then show ?case using apr_tolower_uint [of d] by simp
next
  case (4 c s d t)
  show ?case
  proof (cases "apr_tolower c = apr_tolower d")
    case True
    then show ?thesis using 4 by simp
  next
    case False
    then show ?thesis by (simp add: word_less_def)
  qed
qed simp

subsection \<open>Character classes\<close>

text \<open>The classes of the C locale.\<close>

definition isupper :: "byte \<Rightarrow> bool" where "isupper c = (65 \<le> c \<and> c \<le> 90)"
definition islower :: "byte \<Rightarrow> bool" where "islower c = (97 \<le> c \<and> c \<le> 122)"
definition isdigit :: "byte \<Rightarrow> bool" where "isdigit c = (48 \<le> c \<and> c \<le> 57)"
definition isalnum :: "byte \<Rightarrow> bool" where "isalnum c = (isupper c \<or> islower c \<or> isdigit c)"
definition isprint :: "byte \<Rightarrow> bool" where "isprint c = (0x20 \<le> c \<and> c \<le> 0x7e)"
definition iscntrl :: "byte \<Rightarrow> bool" where "iscntrl c = (c < 0x20 \<or> c = 0x7f)"
definition isxdigit :: "byte \<Rightarrow> bool" where
  "isxdigit c = (isdigit c \<or> (65 \<le> c \<and> c \<le> 70) \<or> (97 \<le> c \<and> c \<le> 102))"
definition isascii :: "byte \<Rightarrow> bool" where "isascii c = (c < 0x80)"

subsection \<open>Memory blocks\<close>

text \<open>\<open>memcpy\<close> into a block at an offset.\<close>

definition memcpy_at :: "byte list \<Rightarrow> nat \<Rightarrow> byte list \<Rightarrow> byte list" where
  "memcpy_at dest off src = take off dest @ src @ drop (off + length src) dest"

lemma memcpy_simps:
  "off + length bs \<le> length buf \<Longrightarrow> length (memcpy_at buf off bs) = length buf"
  "off \<le> length buf \<Longrightarrow> take (off + length bs) (memcpy_at buf off bs) = take off buf @ bs"
  by (auto simp: memcpy_at_def)

end
