(* ===== verification/Apu_Strmatch.thy ===== *)
theory Apu_Strmatch
  imports C_String
begin

text \<open>
  Substring search (\<open>src/log4cxx/apr-util-1.5.4/strmatch/apr_strmatch.c\<close>): the
  Boyer-Moore-Horspool matcher, case sensitive or not. Pointers into the searched string and
  the pattern are indices. The outer loop runs on fuel; \<open>strmatch_first\<close> shows that the
  fuel given is enough.
\<close>

definition NUM_CHARS :: nat where
  "NUM_CHARS = 256"

datatype strmatch_compare = Match_no_op | Match_bmh | Match_bmh_nocase

record strmatch_pattern =
  sp_pattern :: "byte list"
  sp_length :: nat
  sp_compare :: strmatch_compare
  sp_context :: "nat list option"

subsection \<open>Compilation\<close>

text \<open>The loops that fill the shift table; \<open>f\<close> is the identity or \<open>apr_tolower\<close>.\<close>

definition fill_shift :: "(byte \<Rightarrow> byte) \<Rightarrow> byte list \<Rightarrow> nat list" where
  "fill_shift f s =
     fold (\<lambda>i shift. shift[unat (f (s ! i)) := length s - i - 1]) [0..<length s - 1]
       (replicate NUM_CHARS (length s))"

definition apr_strmatch_precompile :: "byte list \<Rightarrow> bool \<Rightarrow> strmatch_pattern" where
  "apr_strmatch_precompile s case_sensitive =
     (if length s = 0 then
        \<lparr>sp_pattern = s, sp_length = 0, sp_compare = Match_no_op, sp_context = None\<rparr>
      else if case_sensitive then
        \<lparr>sp_pattern = s, sp_length = length s, sp_compare = Match_bmh,
         sp_context = Some (fill_shift (\<lambda>c. c) s)\<rparr>
      else
        \<lparr>sp_pattern = s, sp_length = length s, sp_compare = Match_bmh_nocase,
         sp_context = Some (fill_shift apr_tolower s)\<rparr>)"

subsection \<open>Matching\<close>

text \<open>The inner loop walks back from \<open>s_tmp\<close> and \<open>p_tmp\<close>; \<open>Some\<close> is the match.\<close>

fun match_back :: "(byte \<Rightarrow> byte) \<Rightarrow> byte list \<Rightarrow> byte list \<Rightarrow> nat \<Rightarrow> nat \<Rightarrow> nat option" where
  "match_back f s p s_tmp 0 = (if f (s ! s_tmp) = f (p ! 0) then Some s_tmp else None)"
| "match_back f s p s_tmp (Suc j) =
     (if f (s ! s_tmp) = f (p ! Suc j) then match_back f s p (s_tmp - 1) j else None)"

text \<open>The outer loop: the outer \<open>None\<close> is missing fuel.\<close>

fun match_loop ::
  "nat \<Rightarrow> (byte \<Rightarrow> byte) \<Rightarrow> nat list \<Rightarrow> byte list \<Rightarrow> byte list \<Rightarrow> nat \<Rightarrow> nat \<Rightarrow> nat option option"
where
  "match_loop 0 f shift p s s_next s_end = None"
| "match_loop (Suc fuel) f shift p s s_next s_end =
     (if s_next < s_end then
        (case match_back f s p s_next (length p - 1) of
           Some i \<Rightarrow> Some (Some i)
         | None \<Rightarrow> match_loop fuel f shift p s (s_next + shift ! unat (f (s ! s_next))) s_end)
      else Some None)"

definition match_no_op :: "byte list \<Rightarrow> nat \<Rightarrow> nat option option" where
  "match_no_op s slen = Some (Some 0)"

definition match_boyer_moore_horspool ::
  "strmatch_pattern \<Rightarrow> byte list \<Rightarrow> nat \<Rightarrow> nat option option" where
  "match_boyer_moore_horspool this_pattern s slen =
     match_loop (Suc slen) (\<lambda>c. c) (the (sp_context this_pattern)) (sp_pattern this_pattern) s
       (sp_length this_pattern - 1) slen"

definition match_boyer_moore_horspool_nocase ::
  "strmatch_pattern \<Rightarrow> byte list \<Rightarrow> nat \<Rightarrow> nat option option" where
  "match_boyer_moore_horspool_nocase this_pattern s slen =
     match_loop (Suc slen) apr_tolower (the (sp_context this_pattern)) (sp_pattern this_pattern) s
       (sp_length this_pattern - 1) slen"

definition apr_strmatch :: "strmatch_pattern \<Rightarrow> byte list \<Rightarrow> nat \<Rightarrow> nat option option" where
  "apr_strmatch pattern s slen =
     (case sp_compare pattern of
        Match_no_op \<Rightarrow> match_no_op s slen
      | Match_bmh \<Rightarrow> match_boyer_moore_horspool pattern s slen
      | Match_bmh_nocase \<Rightarrow> match_boyer_moore_horspool_nocase pattern s slen)"

subsection \<open>The shift table\<close>

lemma fold_shift_length:
  "length (fold (\<lambda>i shift. shift[g i := h i]) js t) = length t"
  by (induction js arbitrary: t) auto

lemma fill_shift_prefix:
  fixes f :: "byte \<Rightarrow> byte"
  assumes "n \<le> length s - 1" and "c < NUM_CHARS"
  defines "t \<equiv> fold (\<lambda>i shift. shift[unat (f (s ! i)) := length s - i - 1]) [0..<n]
                 (replicate NUM_CHARS (length s))"
  shows "t ! c \<le> length s \<and> (s \<noteq> [] \<longrightarrow> 0 < t ! c) \<and>
         (\<forall>i < n. unat (f (s ! i)) = c \<longrightarrow> t ! c \<le> length s - i - 1)"
  using assms(1,2) unfolding t_def
proof (induction n)
  case (Suc n)
  let ?t = "fold (\<lambda>i shift. shift[unat (f (s ! i)) := length s - i - 1]) [0..<n]
              (replicate NUM_CHARS (length s))"
  have l: "length ?t = NUM_CHARS" by (simp add: fold_shift_length)
  show ?case
  proof (cases "unat (f (s ! n)) = c")
    case True
    then show ?thesis using Suc.prems l by auto
  next
    case False
    then show ?thesis using Suc l by (auto simp: less_Suc_eq)
  qed
qed simp

lemma fill_shift_spec:
  fixes f :: "byte \<Rightarrow> byte" and x :: byte
  assumes "s \<noteq> []"
  shows "0 < fill_shift f s ! unat x" and "fill_shift f s ! unat x \<le> length s"
    and "i < length s - 1 \<Longrightarrow> f (s ! i) = x \<Longrightarrow> fill_shift f s ! unat x \<le> length s - i - 1"
proof -
  have "unat x < NUM_CHARS" using unsigned_less [of x] by (simp add: NUM_CHARS_def)
  from fill_shift_prefix [OF order_refl this, where s = s and f = f] assms
  show "0 < fill_shift f s ! unat x" "fill_shift f s ! unat x \<le> length s"
    "i < length s - 1 \<Longrightarrow> f (s ! i) = x \<Longrightarrow> fill_shift f s ! unat x \<le> length s - i - 1"
    by (auto simp: fill_shift_def)
qed

subsection \<open>Occurrences\<close>

text \<open>The pattern occurs at \<open>i\<close> within the first \<open>slen\<close> characters.\<close>

definition occurs_at :: "(byte \<Rightarrow> byte) \<Rightarrow> byte list \<Rightarrow> byte list \<Rightarrow> nat \<Rightarrow> nat \<Rightarrow> bool" where
  "occurs_at f p s slen i \<longleftrightarrow>
     i + length p \<le> slen \<and> (\<forall>j < length p. f (s ! (i + j)) = f (p ! j))"

lemma match_back_spec:
  "j \<le> n \<Longrightarrow> match_back f s p n j =
     (if \<forall>k \<le> j. f (s ! (n - j + k)) = f (p ! k) then Some (n - j) else None)"
proof (induction j arbitrary: n)
  case (Suc j)
  show ?case
  proof (cases "f (s ! n) = f (p ! Suc j)")
    case True
    have "(\<forall>k \<le> Suc j. f (s ! (n - Suc j + k)) = f (p ! k)) \<longleftrightarrow>
          (\<forall>k \<le> j. f (s ! (n - 1 - j + k)) = f (p ! k))"
      using True Suc.prems by (auto simp: le_Suc_eq)
    with Suc.IH [of "n - 1"] Suc.prems True show ?thesis by simp
  next
    case False
    have "\<not> (\<forall>k \<le> Suc j. f (s ! (n - Suc j + k)) = f (p ! k))"
      using False Suc.prems by (auto intro!: exI [of _ "Suc j"])
    with False show ?thesis by simp
  qed
qed simp

lemma match_back_occurs:
  assumes "p \<noteq> []" and "length p - 1 \<le> n" and "n < slen"
  shows "match_back f s p n (length p - 1) =
           (if occurs_at f p s slen (n - (length p - 1)) then Some (n - (length p - 1)) else None)"
proof -
  have "(\<forall>k \<le> length p - 1. f (s ! (n - (length p - 1) + k)) = f (p ! k)) \<longleftrightarrow>
        occurs_at f p s slen (n - (length p - 1))"
    using assms by (auto simp: occurs_at_def Suc_le_eq less_Suc_eq_le [symmetric])
  then show ?thesis using match_back_spec [OF assms(2), of f s p] by simp
qed

text \<open>No occurrence is skipped: one that ends within the shift would align \<open>s ! n\<close> earlier.\<close>

lemma shift_safe:
  assumes p: "p \<noteq> []" and n: "length p - 1 \<le> n"
    and i: "occurs_at f p s slen i" "n < i + length p - 1"
  shows "n + fill_shift f p ! unat (f (s ! n)) \<le> i + length p - 1"
proof (cases "i \<le> n")
  case True
  define j where "j = n - i"
  have j: "j < length p - 1" "n = i + j" using True i(2) by (auto simp: j_def)
  then have "f (p ! j) = f (s ! n)" using i(1) by (simp add: occurs_at_def)
  from fill_shift_spec(3) [OF p j(1), where f = f, OF this] j show ?thesis by simp
next
  case False
  then show ?thesis using fill_shift_spec(2) [OF p, of f "f (s ! n)"] p by (cases p) auto
qed

definition first_occurrence :: "(byte \<Rightarrow> byte) \<Rightarrow> byte list \<Rightarrow> byte list \<Rightarrow> nat \<Rightarrow> nat option" where
  "first_occurrence f p s slen = find (occurs_at f p s slen) [0..<Suc slen]"

lemma first_occurrence_Some:
  assumes "occurs_at f p s slen i" and "\<forall>k < i. \<not> occurs_at f p s slen k"
  shows "first_occurrence f p s slen = Some i"
proof -
  have "i < Suc slen" using assms(1) by (simp add: occurs_at_def)
  then show ?thesis
    using assms unfolding first_occurrence_def find_Some_iff
    by (intro exI [of _ i]) (simp del: upt_Suc)
qed

lemma first_occurrence_None:
  "(\<forall>k. \<not> occurs_at f p s slen k) \<Longrightarrow> first_occurrence f p s slen = None"
  by (auto simp: first_occurrence_def find_None_iff)

lemma match_loop_first:
  assumes p: "p \<noteq> []" and n: "length p - 1 \<le> n" and fuel: "slen < n + fuel" "0 < fuel"
    and none: "\<forall>i. occurs_at f p s slen i \<longrightarrow> n \<le> i + length p - 1"
  shows "match_loop fuel f (fill_shift f p) p s n slen = Some (first_occurrence f p s slen)"
  using n fuel none
proof (induction fuel arbitrary: n)
  case (Suc fuel)
  show ?case
  proof (cases "n < slen")
    case False
    have "\<not> occurs_at f p s slen k" for k
      using Suc.prems(4) False p by (cases p) (auto simp: occurs_at_def dest!: spec [of _ k])
    with False show ?thesis by (simp add: first_occurrence_None)
  next
    case True
    note mb = match_back_occurs [OF p Suc.prems(1) True, of f s]
    let ?i = "n - (length p - 1)"
    show ?thesis
    proof (cases "occurs_at f p s slen ?i")
      case occ: True
      have "\<forall>k < ?i. \<not> occurs_at f p s slen k" using Suc.prems(1,4) p by (cases p) fastforce+
      with occ \<open>n < slen\<close> mb show ?thesis by (simp add: first_occurrence_Some)
    next
      case False
      let ?n = "n + fill_shift f p ! unat (f (s ! n))"
      have pos: "0 < fill_shift f p ! unat (f (s ! n))" by (rule fill_shift_spec(1) [OF p])
      have "?n \<le> i + length p - 1" if "occurs_at f p s slen i" for i
      proof (rule shift_safe [OF p Suc.prems(1) that])
        have "n \<le> i + length p - 1" using Suc.prems(4) that by blast
        moreover have "n \<noteq> i + length p - 1" using False that p by (cases p) auto
        ultimately show "n < i + length p - 1" by simp
      qed
      then have "match_loop fuel f (fill_shift f p) p s ?n slen = Some (first_occurrence f p s slen)"
        using Suc.prems pos True by (intro Suc.IH) auto
      with False True mb show ?thesis by simp
    qed
  qed
qed simp

text \<open>
  C19: searching with a compiled pattern always ends and returns the first
  position at which the pattern occurs in the string (up to letter case if it was compiled
  so), or no match if it occurs nowhere; the empty pattern matches at the start.
\<close>

theorem strmatch_first:
  "apr_strmatch (apr_strmatch_precompile p case_sensitive) s slen =
     Some (first_occurrence (if case_sensitive then (\<lambda>c. c) else apr_tolower) p s slen)"
proof (cases "p = []")
  case True
  have "occurs_at f [] s slen 0" for f by (simp add: occurs_at_def)
  then have "first_occurrence f [] s slen = Some 0" for f by (simp add: first_occurrence_Some)
  with True show ?thesis
    by (simp add: apr_strmatch_def apr_strmatch_precompile_def match_no_op_def)
next
  case False
  then have "match_loop (Suc slen) f (fill_shift f p) p s (length p - 1) slen =
      Some (first_occurrence f p s slen)" for f
    by (intro match_loop_first) (auto simp: occurs_at_def)
  with False show ?thesis
    by (auto simp: apr_strmatch_def apr_strmatch_precompile_def match_boyer_moore_horspool_def
        match_boyer_moore_horspool_nocase_def)
qed

end
