(* ===== verification/Apu_Base64.thy ===== *)
theory Apu_Base64
  imports Prelude
begin

text \<open>
  Base 64 coding (\<open>src/log4cxx/apr-util-1.5.4/encoding/apr_base64.c\<close>, the ASCII variants).
  A buffer is the list of the bytes written to it. Lengths are \<open>int\<close>s (\<open>c_int\<close>), the
  count of leading characters a \<open>size_t\<close> that is converted to \<open>int\<close>.
\<close>

subsection \<open>Tables\<close>

definition pr2six :: "byte list" where
  "pr2six =
    [64, 64, 64, 64, 64, 64, 64, 64, 64, 64, 64, 64, 64, 64, 64, 64,
     64, 64, 64, 64, 64, 64, 64, 64, 64, 64, 64, 64, 64, 64, 64, 64,
     64, 64, 64, 64, 64, 64, 64, 64, 64, 64, 64, 62, 64, 64, 64, 63,
     52, 53, 54, 55, 56, 57, 58, 59, 60, 61, 64, 64, 64, 64, 64, 64,
     64,  0,  1,  2,  3,  4,  5,  6,  7,  8,  9, 10, 11, 12, 13, 14,
     15, 16, 17, 18, 19, 20, 21, 22, 23, 24, 25, 64, 64, 64, 64, 64,
     64, 26, 27, 28, 29, 30, 31, 32, 33, 34, 35, 36, 37, 38, 39, 40,
     41, 42, 43, 44, 45, 46, 47, 48, 49, 50, 51, 64, 64, 64, 64, 64,
     64, 64, 64, 64, 64, 64, 64, 64, 64, 64, 64, 64, 64, 64, 64, 64,
     64, 64, 64, 64, 64, 64, 64, 64, 64, 64, 64, 64, 64, 64, 64, 64,
     64, 64, 64, 64, 64, 64, 64, 64, 64, 64, 64, 64, 64, 64, 64, 64,
     64, 64, 64, 64, 64, 64, 64, 64, 64, 64, 64, 64, 64, 64, 64, 64,
     64, 64, 64, 64, 64, 64, 64, 64, 64, 64, 64, 64, 64, 64, 64, 64,
     64, 64, 64, 64, 64, 64, 64, 64, 64, 64, 64, 64, 64, 64, 64, 64,
     64, 64, 64, 64, 64, 64, 64, 64, 64, 64, 64, 64, 64, 64, 64, 64,
     64, 64, 64, 64, 64, 64, 64, 64, 64, 64, 64, 64, 64, 64, 64, 64]"

definition basis_64 :: "byte list" where
  "basis_64 = map of_char ''ABCDEFGHIJKLMNOPQRSTUVWXYZabcdefghijklmnopqrstuvwxyz0123456789+/''"

subsection \<open>Decoding\<close>

text \<open>The number of leading characters of the alphabet; the string ends with a NUL byte.\<close>

fun nprbytes :: "byte list \<Rightarrow> nat" where
  "nprbytes [] = 0"
| "nprbytes (c # cs) = (if pr2six ! unat c \<le> 63 then Suc (nprbytes cs) else 0)"

definition apr_base64_decode_len :: "byte list \<Rightarrow> int" where
  "apr_base64_decode_len bufcoded =
     (let nbytesdecoded = c_int (c_div (c_int (c_int (int (nprbytes bufcoded)) + 3)) 4 * 3)
      in c_int (nbytesdecoded + 1))"

text \<open>The loop over groups of four and the last group; the counter is \<open>nprbytes\<close>.\<close>

fun decode_loop :: "byte list \<Rightarrow> nat \<Rightarrow> byte list \<times> nat" where
  "decode_loop bufin n =
     (let b0 = pr2six ! unat (bufin ! 0); b1 = pr2six ! unat (bufin ! 1);
          b2 = pr2six ! unat (bufin ! 2); b3 = pr2six ! unat (bufin ! 3);
          o0 = push_bit 2 b0 OR drop_bit 4 b1;
          o1 = push_bit 4 b1 OR drop_bit 2 b2;
          o2 = push_bit 6 b2 OR b3
      in if n > 4 then
           (case decode_loop (drop 4 bufin) (n - 4) of (out, m) \<Rightarrow> ([o0, o1, o2] @ out, m))
         else ((if n > 1 then [o0] else []) @ (if n > 2 then [o1] else []) @
               (if n > 3 then [o2] else []), n))"

declare decode_loop.simps [simp del]

definition apr_base64_decode_binary :: "byte list \<Rightarrow> byte list \<times> int" where
  "apr_base64_decode_binary bufcoded =
     (let n = nprbytes bufcoded;
          nbytesdecoded = c_int (c_div (c_int (c_int (int n) + 3)) 4 * 3)
      in case decode_loop bufcoded n of
           (bufplain, n') \<Rightarrow> (bufplain, c_int (nbytesdecoded - (c_int (4 - c_int (int n')) AND 3))))"

text \<open>\<open>apr_base64_decode\<close> also stores a NUL byte at the returned length.\<close>

definition apr_base64_decode :: "byte list \<Rightarrow> byte list \<times> int" where
  "apr_base64_decode bufcoded =
     (case apr_base64_decode_binary bufcoded of
        (bufplain, len) \<Rightarrow> (take (nat len) bufplain @ [0], len))"

subsection \<open>Encoding\<close>

definition apr_base64_encode_len :: "int \<Rightarrow> int" where
  "apr_base64_encode_len len = c_int (c_int (c_div (c_int (len + 2)) 3 * 4) + 1)"

fun encode_loop :: "byte list \<Rightarrow> byte list" where
  "encode_loop (s0 # s1 # s2 # rest) =
     basis_64 ! unat (drop_bit 2 s0 AND 0x3F) #
     basis_64 ! unat (push_bit 4 (s0 AND 0x3) OR drop_bit 4 (s1 AND 0xF0)) #
     basis_64 ! unat (push_bit 2 (s1 AND 0xF) OR drop_bit 6 (s2 AND 0xC0)) #
     basis_64 ! unat (s2 AND 0x3F) # encode_loop rest"
| "encode_loop [s0] =
     [basis_64 ! unat (drop_bit 2 s0 AND 0x3F), basis_64 ! unat (push_bit 4 (s0 AND 0x3)), 61, 61]"
| "encode_loop [s0, s1] =
     [basis_64 ! unat (drop_bit 2 s0 AND 0x3F),
      basis_64 ! unat (push_bit 4 (s0 AND 0x3) OR drop_bit 4 (s1 AND 0xF0)),
      basis_64 ! unat (push_bit 2 (s1 AND 0xF)), 61]"
| "encode_loop [] = []"

definition apr_base64_encode_binary :: "byte list \<Rightarrow> byte list \<times> int" where
  "apr_base64_encode_binary string =
     (let encoded = encode_loop string @ [0] in (encoded, c_int (int (length encoded))))"

definition apr_base64_encode :: "byte list \<Rightarrow> byte list \<times> int" where
  "apr_base64_encode string = apr_base64_encode_binary string"

subsection \<open>The alphabet\<close>

lemma tables_inverse: "map (\<lambda>c. pr2six ! unat c) basis_64 = map of_nat [0..<64]"
  by (simp add: pr2six_def basis_64_def upt_rec of_char_of)

lemma basis_length: "length basis_64 = 64"
  by (simp add: basis_64_def)

lemma basis_inverse [simp]:
  assumes "(v :: byte) < 64"
  shows "pr2six ! unat (basis_64 ! unat v) = v"
proof -
  have v: "unat v < 64" using assms by (simp add: word_less_nat_alt)
  have "map (\<lambda>c. pr2six ! unat c) basis_64 ! unat v = (map of_nat [0..<64] :: byte list) ! unat v"
    by (simp only: tables_inverse)
  then show ?thesis using v by (simp add: basis_length)
qed

lemma pad_stops [simp]: "pr2six ! 61 = 64" "pr2six ! 0 = 64"
  by (simp_all add: pr2six_def)

text \<open>The four indices of a group, kept folded in what follows.\<close>

definition six0 :: "byte \<Rightarrow> byte" where
  "six0 a = drop_bit 2 a AND 0x3F"
definition six1 :: "byte \<Rightarrow> byte \<Rightarrow> byte" where
  "six1 a b = push_bit 4 (a AND 0x3) OR drop_bit 4 (b AND 0xF0)"
definition six2 :: "byte \<Rightarrow> byte \<Rightarrow> byte" where
  "six2 b c = push_bit 2 (b AND 0xF) OR drop_bit 6 (c AND 0xC0)"
definition six3 :: "byte \<Rightarrow> byte" where
  "six3 c = c AND 0x3F"

lemma six_bits [simp]: "six0 a < 64" "six1 a b < 64" "six2 b c < 64" "six3 c < 64"
  unfolding six0_def six1_def six2_def six3_def
  by (rule and_mask_less [of _ 63], rule byte_eqI; simp add: bit_simps)+

lemma regroup [simp]:
  "push_bit 2 (six0 a) OR drop_bit 4 (six1 a b) = a"
  "push_bit 4 (six1 a b) OR drop_bit 2 (six2 b c) = b"
  "push_bit 6 (six2 b c) OR six3 c = c"
  unfolding six0_def six1_def six2_def six3_def
  by (rule byte_eqI; simp add: bit_simps)+

abbreviation b64 :: "byte \<Rightarrow> byte" where
  "b64 v \<equiv> basis_64 ! unat v"

lemma encode_six:
  "encode_loop (a # b # c # rest) = b64 (six0 a) # b64 (six1 a b) # b64 (six2 b c) # b64 (six3 c) # encode_loop rest"
  "encode_loop [a] = [b64 (six0 a), b64 (six1 a 0), 61, 61]"
  "encode_loop [a, b] = [b64 (six0 a), b64 (six1 a b), b64 (six2 b 0), 61]"
  "encode_loop [] = []"
  by (simp_all only: encode_loop.simps six0_def six1_def six2_def six3_def and_zero_eq
      zero_and_eq drop_bit_of_0 or.right_neutral)

declare encode_loop.simps [simp del]

subsection \<open>Round trip\<close>

lemma nprbytes_basis [simp]:
  assumes "(v :: byte) < 64"
  shows "nprbytes (b64 v # cs) = Suc (nprbytes cs)"
proof -
  have "v \<le> 63" using assms by (simp add: word_less_nat_alt word_le_nat_alt)
  then show ?thesis using assms by simp
qed

lemma nprbytes_pad [simp]: "nprbytes (61 # cs) = 0" "nprbytes (0 # cs) = 0"
  by simp_all

declare nprbytes.simps(2) [simp del]

lemma nprbytes_encode: "nprbytes (encode_loop s @ 0 # r) = (length s * 4 + 2) div 3"
  by (induction s rule: encode_loop.induct) (simp_all add: encode_six)

lemma length_encode: "length (encode_loop s) = (length s + 2) div 3 * 4"
proof (induction s rule: encode_loop.induct)
  case (1 a b c rest)
  have "(length rest + 5) div 3 = Suc ((length rest + 2) div 3)" by presburger
  with 1 show ?case by (simp add: encode_six add.commute)
qed (simp_all add: encode_six)

lemma decode_encode_loop:
  "decode_loop (encode_loop s @ 0 # r) ((length s * 4 + 2) div 3) =
     (s, if s = [] then 0 else (length s - 1) mod 3 + 2)"
proof (induction s rule: encode_loop.induct)
  case (1 a b c rest)
  show ?case
  proof (cases rest)
    case Nil
    then show ?thesis by (subst decode_loop.simps) (simp add: encode_six)
  next
    case (Cons x xs)
    have "(length (a # b # c # rest) * 4 + 2) div 3 = (length rest * 4 + 2) div 3 + 4" by simp
    moreover have "(length rest * 4 + 2) div 3 > 0" using Cons by simp
    moreover have "(length (a # b # c # rest) - 1) mod 3 = (length rest - 1) mod 3"
      using Cons by simp
    ultimately show ?thesis using 1 Cons
      by (subst decode_loop.simps) (simp add: encode_six)
  qed
qed (subst decode_loop.simps, simp add: encode_six Let_def)+

subsection \<open>Lengths of any input\<close>

lemma decode_loop_length:
  "decode_loop b n = (out, m) \<Longrightarrow>
     m \<le> 4 \<and> (m = 0 \<longleftrightarrow> n = 0) \<and> int (length out) = (int n + 3) div 4 * 3 - (4 - int m) mod 4"
proof (induction b n arbitrary: out m rule: decode_loop.induct)
  case (1 b n)
  show ?case
  proof (cases "n > 4")
    case True
    obtain out' where d: "decode_loop (drop 4 b) (n - 4) = (out', m)" and len: "length out = length out' + 3"
      using 1(2) True by (subst (asm) decode_loop.simps) (auto simp: Let_def split: prod.splits)
    have "(int n + 3) div 4 = (int (n - 4) + 3) div 4 + 1" using True by (simp add: of_nat_diff)
    with 1(1) [OF refl refl refl refl refl refl refl True d] len True show ?thesis by simp
  next
    case False
    then have "m = n \<and> length out = n - 1"
      using 1(2) by (subst (asm) decode_loop.simps) (auto simp: Let_def split: if_splits)
    moreover have "n = 0 \<or> n = 1 \<or> n = 2 \<or> n = 3 \<or> n = 4" using False by arith
    ultimately show ?thesis by (elim disjE) simp_all
  qed
qed

lemma and_3: "(4 - int m) AND 3 = (4 - int m) mod 4"
  using take_bit_eq_mod [of 2 "4 - int m"] by (simp add: take_bit_eq_mask mask_eq_exp_minus_1)

text \<open>The arithmetic of the decoder and the encoder in the range of an \<open>int\<close>.\<close>

lemma decode_int:
  assumes "int n + 3 < 2 ^ 31"
  shows "c_int (c_div (c_int (c_int (int n) + 3)) 4 * 3) = (int n + 3) div 4 * 3"
    and "(int n + 3) div 4 * 3 + 1 < 2 ^ 31"
proof -
  show b: "(int n + 3) div 4 * 3 + 1 < 2 ^ 31" using assms by simp
  have "c_int (c_int (int n) + 3) = int n + 3" using assms by (simp add: c_int_id)
  then show "c_int (c_div (c_int (c_int (int n) + 3)) 4 * 3) = (int n + 3) div 4 * 3"
    using b by (simp add: c_div_nonneg c_int_id)
qed

lemma encode_int:
  assumes "4 * ((length s + 2) div 3) + 1 < 2 ^ 31"
  shows "apr_base64_encode_len (int (length s)) = int (4 * ((length s + 2) div 3) + 1)"
proof -
  have d: "(int (length s) + 2) div 3 = int ((length s + 2) div 3)" by (simp add: zdiv_int add.commute)
  have "int (length s) + 2 < 2 ^ 31" using assms by (simp; linarith)
  then have "c_int (int (length s) + 2) = int (length s) + 2" by (simp add: c_int_id)
  moreover have "int ((length s + 2) div 3) * 4 + 1 < 2 ^ 31" using assms by (simp; linarith)
  ultimately show ?thesis by (simp add: apr_base64_encode_len_def c_div_nonneg d c_int_id)
qed

lemma decode_length:
  assumes "int (nprbytes b) + 3 < 2 ^ 31"
  shows "snd (apr_base64_decode_binary b) = int (length (fst (apr_base64_decode_binary b)))"
    and "int (length (fst (apr_base64_decode_binary b))) + 1 \<le> apr_base64_decode_len b"
proof -
  obtain out m where d: "decode_loop b (nprbytes b) = (out, m)" by fastforce
  note l = decode_loop_length [OF d]
  have m: "c_int (int m) = int m" "c_int (4 - int m) = 4 - int m" using l by (simp_all add: c_int_id)
  have o: "int (length out) \<le> (int (nprbytes b) + 3) div 4 * 3" using l by simp
  have "c_int ((int (nprbytes b) + 3) div 4 * 3 - (4 - int m) mod 4) = int (length out)"
    using l decode_int(2) [OF assms] by (subst c_int_id) simp_all
  then show "snd (apr_base64_decode_binary b) = int (length (fst (apr_base64_decode_binary b)))"
    by (simp add: apr_base64_decode_binary_def Let_def decode_int(1) [OF assms] d m and_3)
  have "c_int ((int (nprbytes b) + 3) div 4 * 3 + 1) = (int (nprbytes b) + 3) div 4 * 3 + 1"
    using decode_int(2) [OF assms] by (subst c_int_id) simp_all
  with o show "int (length (fst (apr_base64_decode_binary b))) + 1 \<le> apr_base64_decode_len b"
    by (simp add: apr_base64_decode_binary_def apr_base64_decode_len_def Let_def decode_int(1) [OF assms] d)
qed

lemma decode_encode: "fst (apr_base64_decode_binary (fst (apr_base64_encode_binary s) @ rest)) = s"
proof -
  have "fst (apr_base64_encode_binary s) @ rest = encode_loop s @ 0 # rest"
    by (simp add: apr_base64_encode_binary_def Let_def)
  then show ?thesis
    by (simp only: apr_base64_decode_binary_def Let_def nprbytes_encode decode_encode_loop
        prod.case fst_conv)
qed

text \<open>The messages whose code, with its NUL, has a length that is an \<open>int\<close>.\<close>

definition b64_fits :: "byte list \<Rightarrow> bool" where
  "b64_fits s \<longleftrightarrow> 4 * ((length s + 2) div 3) + 1 < 2 ^ 31"

interpretation b64: codec b64_fits "\<lambda>s. fst (apr_base64_encode_binary s)"
  "\<lambda>t. Some (fst (apr_base64_decode_binary t))" "\<lambda>s. nat (apr_base64_encode_len (int (length s)))"
proof
  fix s :: "byte list"
  assume "b64_fits s"
  show "Some (fst (apr_base64_decode_binary (fst (apr_base64_encode_binary s)))) = Some s"
    using decode_encode [of s "[]"] by simp
  show "length (fst (apr_base64_encode_binary s)) = nat (apr_base64_encode_len (int (length s)))"
    using \<open>b64_fits s\<close> unfolding b64_fits_def
    by (simp only: encode_int nat_int) (simp add: apr_base64_encode_binary_def Let_def length_encode)
qed

text \<open>
  C21: if the code of a message and its NUL are at most \<open>2 ^ 31 - 1\<close> bytes (the message at
  most 1.6 GB), decoding what was encoded gives the bytes back with the right
  length, the encoder writes exactly the number of bytes that \<open>apr_base64_encode_len\<close>
  announces (the final NUL included), and the decoder ignores whatever follows the NUL.
\<close>

theorem base64_round_trip:
  assumes "4 * ((length s + 2) div 3) + 1 < 2 ^ 31"
  shows "apr_base64_decode_binary (fst (apr_base64_encode_binary s) @ rest) = (s, int (length s)) \<and>
    int (length (fst (apr_base64_encode_binary s))) = apr_base64_encode_len (int (length s)) \<and>
    snd (apr_base64_encode_binary s) = apr_base64_encode_len (int (length s))"
proof -
  let ?e = "fst (apr_base64_encode_binary s)"
  have s: "fst (apr_base64_decode_binary (?e @ rest)) = s" by (rule decode_encode)
  have n: "nprbytes (?e @ rest) = (length s * 4 + 2) div 3"
    by (simp add: apr_base64_encode_binary_def Let_def nprbytes_encode)
  have le: "(length s * 4 + 2) div 3 \<le> 4 * ((length s + 2) div 3)" by presburger
  have "(length s + 2) div 3 < 536870912" using assms by simp
  then have "nprbytes (?e @ rest) \<le> 2147483644" using le unfolding n by linarith
  then have "int (nprbytes (?e @ rest)) + 3 < 2 ^ 31" by simp
  from decode_length(1) [OF this] s have "apr_base64_decode_binary (?e @ rest) = (s, int (length s))"
    by (simp add: prod_eq_iff)
  moreover have a: "int (length ?e) = apr_base64_encode_len (int (length s))"
    using b64.announced [of s] assms encode_int [OF assms] by (simp add: b64_fits_def)
  moreover have "c_int (int (length ?e)) = int (length ?e)"
  proof (rule c_int_id)
    have "4 * ((length s + 2) div 3) + 1 < 2147483648" using assms by simp
    then show "int (length ?e) < 2 ^ 31" unfolding a encode_int [OF assms] by (simp only: of_nat_less_numeral_iff power_numeral) simp
  qed simp
  ultimately show ?thesis by (simp add: apr_base64_encode_binary_def Let_def)
qed

lemma base64_round_trip_witness:
  "apr_base64_decode_binary (fst (apr_base64_encode_binary [1, 255]) @ [7]) = ([1, 255], 2) \<and>
   snd (apr_base64_encode_binary [1, 255]) = apr_base64_encode_len 2"
  using base64_round_trip [of "[1, 255]" "[7]"] by simp

text \<open>
  C33: for any input with fewer than \<open>2 ^ 31 - 3\<close> leading characters of the alphabet, padded,
  truncated or not base 64 at all, the
  decoder returns the number of bytes it has written, and a buffer of
  \<open>apr_base64_decode_len\<close> bytes is enough for them and the NUL byte of
  \<open>apr_base64_decode\<close>.
\<close>

theorem base64_decode_bounded:
  assumes "nprbytes b < 2 ^ 31 - 3"
  shows "snd (apr_base64_decode_binary b) = int (length (fst (apr_base64_decode_binary b))) \<and>
    int (length (fst (apr_base64_decode b))) = snd (apr_base64_decode b) + 1 \<and>
    int (length (fst (apr_base64_decode b))) \<le> apr_base64_decode_len b"
proof -
  have n: "int (nprbytes b) + 3 < 2 ^ 31" using assms by (simp; linarith)
  obtain out l where d: "apr_base64_decode_binary b = (out, l)" by fastforce
  from decode_length [OF n] d show ?thesis by (simp add: apr_base64_decode_def)
qed

lemma base64_decode_bounded_witness:
  "nprbytes [81, 81, 81] = 3 \<and> snd (apr_base64_decode_binary [81, 81, 81]) = 2 \<and>
   int (length (fst (apr_base64_decode [81, 81, 81]))) \<le> apr_base64_decode_len [81, 81, 81]"
proof -
  have n: "nprbytes [81, 81, 81] = 3" by code_simp
  have "snd (apr_base64_decode_binary [81, 81, 81]) = 2" by code_simp
  with n base64_decode_bounded [of "[81, 81, 81]"] show ?thesis by simp
qed

end
