(* ===== verification/Apr_Array.thy ===== *)
theory Apr_Array
  imports C_String
begin

text \<open>
  Resizable arrays (\<open>src/log4cxx/apr-1.5.2/tables/apr_tables.c\<close>, the \<open>apr_array_\<close>
  functions). The element block is a list of \<open>nalloc\<close> slots; a slot that nobody has
  written is \<open>None\<close>, so that a read of uninitialised memory shows up as \<open>the None\<close>.
  Addresses of elements are indices. \<open>zero\<close> is the element whose bytes are all zero.
  Counts are natural numbers: the \<open>int\<close> of the code holds them below 2^30 elements. A copied
  header shares its element block with the original until the first append, as in the code,
  but later writes through one of the two are not seen through the other here.
\<close>

record 'e array_header =
  elts :: "'e option list"
  nelts :: nat
  nalloc :: nat

subsection \<open>Operations\<close>

definition make_array_core :: "'e \<Rightarrow> int \<Rightarrow> bool \<Rightarrow> 'e array_header" where
  "make_array_core zero n clear =
     (let n = nat (if n < 1 then 1 else n)
      in \<lparr>elts = replicate n (if clear then Some zero else None), nelts = 0, nalloc = n\<rparr>)"

definition apr_is_empty_array :: "'e array_header option \<Rightarrow> bool" where
  "apr_is_empty_array a = (case a of None \<Rightarrow> True | Some a \<Rightarrow> nelts a = 0)"

definition apr_array_make :: "'e \<Rightarrow> int \<Rightarrow> 'e array_header" where
  "apr_array_make zero n = make_array_core zero n True"

definition apr_array_clear :: "'e array_header \<Rightarrow> 'e array_header" where
  "apr_array_clear arr = arr\<lparr>nelts := 0\<rparr>"

text \<open>Pop and push return the address of the element they take or add.\<close>

definition apr_array_pop :: "'e array_header \<Rightarrow> nat option \<times> 'e array_header" where
  "apr_array_pop arr =
     (if apr_is_empty_array (Some arr) then (None, arr)
      else (Some (nelts arr - 1), arr\<lparr>nelts := nelts arr - 1\<rparr>))"

definition apr_array_push :: "'e \<Rightarrow> 'e array_header \<Rightarrow> nat \<times> 'e array_header" where
  "apr_array_push zero arr =
     (let arr = (if nelts arr = nalloc arr then
                   (let new_size = (if nalloc arr = 0 then 1 else nalloc arr * 2)
                    in arr\<lparr>elts := take (nalloc arr) (elts arr) @
                             replicate (new_size - nalloc arr) (Some zero),
                           nalloc := new_size\<rparr>)
                 else arr)
      in (nelts arr, arr\<lparr>nelts := nelts arr + 1\<rparr>))"

definition apr_array_push_noclear :: "'e array_header \<Rightarrow> nat \<times> 'e array_header" where
  "apr_array_push_noclear arr =
     (let arr = (if nelts arr = nalloc arr then
                   (let new_size = (if nalloc arr = 0 then 1 else nalloc arr * 2)
                    in arr\<lparr>elts := take (nalloc arr) (elts arr) @
                             replicate (new_size - nalloc arr) None,
                           nalloc := new_size\<rparr>)
                 else arr)
      in (nelts arr, arr\<lparr>nelts := nelts arr + 1\<rparr>))"

text \<open>The doubling loop of \<open>apr_array_cat\<close>; it is entered with \<open>new_size\<close> at least 1.\<close>

function cat_size :: "nat \<Rightarrow> nat \<Rightarrow> nat" where
  "cat_size needed new_size =
     (if needed > new_size \<and> new_size > 0 then cat_size needed (new_size * 2) else new_size)"
  by pat_completeness auto
termination by (relation "measure (\<lambda>(needed, new_size). needed - new_size)") auto

declare cat_size.simps [simp del]

definition apr_array_cat :: "'e \<Rightarrow> 'e array_header \<Rightarrow> 'e array_header \<Rightarrow> 'e array_header" where
  "apr_array_cat zero dst src =
     (let dst = (if nelts dst + nelts src > nalloc dst then
                   (let new_size = cat_size (nelts dst + nelts src)
                                     (if nalloc dst = 0 then 1 else nalloc dst * 2)
                    in dst\<lparr>elts := take (nalloc dst) (elts dst) @
                             replicate (new_size - nalloc dst) (Some zero),
                           nalloc := new_size\<rparr>)
                 else dst)
      in dst\<lparr>elts := take (nelts dst) (elts dst) @ take (nelts src) (elts src) @
                     drop (nelts dst + nelts src) (elts dst),
             nelts := nelts dst + nelts src\<rparr>)"

definition apr_array_copy :: "'e \<Rightarrow> 'e array_header \<Rightarrow> 'e array_header" where
  "apr_array_copy zero arr =
     (let res = make_array_core zero (int (nalloc arr)) False
      in res\<lparr>elts := take (nelts arr) (elts arr) @ replicate (nalloc res - nelts arr) (Some zero),
             nelts := nelts arr\<rparr>)"

definition copy_array_hdr_core :: "'e array_header \<Rightarrow> 'e array_header" where
  "copy_array_hdr_core arr = \<lparr>elts = elts arr, nelts = nelts arr, nalloc = nelts arr\<rparr>"

definition apr_array_copy_hdr :: "'e array_header \<Rightarrow> 'e array_header" where
  "apr_array_copy_hdr arr = copy_array_hdr_core arr"

definition apr_array_append :: "'e \<Rightarrow> 'e array_header \<Rightarrow> 'e array_header \<Rightarrow> 'e array_header" where
  "apr_array_append zero first second = apr_array_cat zero (apr_array_copy_hdr first) second"

text \<open>
  \<open>apr_array_pstrcat\<close>: the elements are strings or NULL, \<open>sep\<close> is 0 for no separator.
  The first loop measures, the second writes; the result is the characters written.
\<close>

fun pstrcat_len :: "cstring option list \<Rightarrow> byte \<Rightarrow> nat" where
  "pstrcat_len [] sep = 0"
| "pstrcat_len [s] sep = (case s of None \<Rightarrow> 0 | Some s \<Rightarrow> length s)"
| "pstrcat_len (s # t # ss) sep =
     (case s of None \<Rightarrow> 0 | Some s \<Rightarrow> length s) + (if sep \<noteq> 0 then 1 else 0) + pstrcat_len (t # ss) sep"

fun pstrcat_copy :: "cstring option list \<Rightarrow> byte \<Rightarrow> cstring" where
  "pstrcat_copy [] sep = []"
| "pstrcat_copy [s] sep = (case s of None \<Rightarrow> [] | Some s \<Rightarrow> s)"
| "pstrcat_copy (s # t # ss) sep =
     (case s of None \<Rightarrow> [] | Some s \<Rightarrow> s) @ (if sep \<noteq> 0 then [sep] else []) @ pstrcat_copy (t # ss) sep"

definition apr_array_pstrcat :: "cstring option array_header \<Rightarrow> byte \<Rightarrow> cstring" where
  "apr_array_pstrcat arr sep =
     (if nelts arr = 0 then []
      else pstrcat_copy (map the (take (nelts arr) (elts arr))) sep)"

text \<open>The buffer of \<open>pstrcat_len\<close> characters and the NUL is filled exactly.\<close>

lemma pstrcat_fits: "length (pstrcat_copy ss sep) = pstrcat_len ss sep"
  by (induction ss sep rule: pstrcat_copy.induct) (auto split: option.splits)

subsection \<open>Contents\<close>

text \<open>
  The block has at least the \<open>nalloc\<close> slots (a copied header claims only the used ones) and
  the first \<open>nelts\<close> slots are written.
\<close>

definition array_ok :: "'e array_header \<Rightarrow> bool" where
  "array_ok arr \<longleftrightarrow> nalloc arr \<le> length (elts arr) \<and> nelts arr \<le> nalloc arr \<and>
     None \<notin> set (take (nelts arr) (elts arr))"

definition contents :: "'e array_header \<Rightarrow> 'e list" where
  "contents arr = map the (take (nelts arr) (elts arr))"

lemma length_contents [simp]: "array_ok arr \<Longrightarrow> length (contents arr) = nelts arr"
  by (simp add: array_ok_def contents_def)

lemma contents_nth: "array_ok arr \<Longrightarrow> i < nelts arr \<Longrightarrow> contents arr ! i = the (elts arr ! i)"
  by (simp add: array_ok_def contents_def)

text \<open>An array whose first slots hold \<open>xs\<close> is in order and has these contents.\<close>

lemma array_okI:
  assumes "elts arr = map Some xs @ rest" "nelts arr = length xs"
    "length xs \<le> nalloc arr" "nalloc arr \<le> length xs + length rest"
  shows "array_ok arr \<and> contents arr = xs"
  using assms by (simp add: array_ok_def contents_def comp_def)

lemma array_okE:
  assumes "array_ok arr"
  obtains rest where "elts arr = map Some (contents arr) @ rest"
    "nelts arr = length (contents arr)" "length (contents arr) \<le> nalloc arr"
    "nalloc arr \<le> length (contents arr) + length rest"
proof
  have "None \<notin> set xs \<Longrightarrow> map Some (map the xs) = xs" for xs :: "'a option list"
    by (induction xs) auto
  then show "elts arr = map Some (contents arr) @ drop (nelts arr) (elts arr)"
    using assms unfolding contents_def array_ok_def by (metis append_take_drop_id)
  show "nelts arr = length (contents arr)" using assms by simp
  show "length (contents arr) \<le> nalloc arr"
    "nalloc arr \<le> length (contents arr) + length (drop (nelts arr) (elts arr))"
    using assms by (simp_all add: array_ok_def contents_def)
qed

lemma make_array_core_ok: "array_ok (make_array_core zero n clear) \<and> contents (make_array_core zero n clear) = []"
  by (simp add: array_ok_def make_array_core_def contents_def Let_def)

lemma apr_array_make_ok: "array_ok (apr_array_make zero n) \<and> contents (apr_array_make zero n) = []"
  by (simp add: apr_array_make_def make_array_core_ok)

lemma apr_array_clear_ok:
  "array_ok arr \<Longrightarrow> array_ok (apr_array_clear arr) \<and> contents (apr_array_clear arr) = []"
  by (simp add: array_ok_def apr_array_clear_def contents_def)

text \<open>The caller of push writes the element it gets; then the contents have one more.\<close>

definition put_elt :: "nat \<times> 'e array_header \<Rightarrow> 'e \<Rightarrow> 'e array_header" where
  "put_elt p x = (case p of (i, arr) \<Rightarrow> arr\<lparr>elts := (elts arr)[i := Some x]\<rparr>)"

lemma put_elt_room:
  assumes "array_ok arr" "nelts arr < nalloc arr"
  shows "array_ok (put_elt (nelts arr, arr\<lparr>nelts := nelts arr + 1\<rparr>) x) \<and>
    contents (put_elt (nelts arr, arr\<lparr>nelts := nelts arr + 1\<rparr>) x) = contents arr @ [x]"
proof -
  obtain rest where arr: "elts arr = map Some (contents arr) @ rest"
    "nelts arr = length (contents arr)" "nalloc arr \<le> length (contents arr) + length rest"
    using assms(1) by (rule array_okE)
  then obtain r rs where "rest = r # rs" using assms(2) by (cases rest) auto
  then show ?thesis using arr assms(2)
    by (intro array_okI [where rest = rs]) (simp_all add: put_elt_def list_update_append)
qed

lemma grown_ok:
  assumes "array_ok arr" "nalloc arr \<le> k"
  shows "array_ok (arr\<lparr>elts := take (nalloc arr) (elts arr) @ replicate (k - nalloc arr) r, nalloc := k\<rparr>) \<and>
    contents (arr\<lparr>elts := take (nalloc arr) (elts arr) @ replicate (k - nalloc arr) r, nalloc := k\<rparr>) =
      contents arr"
  using assms by (auto simp: array_ok_def contents_def min_def)

lemma push_ok:
  assumes "array_ok arr"
  shows "array_ok (put_elt (apr_array_push zero arr) x) \<and>
    contents (put_elt (apr_array_push zero arr) x) = contents arr @ [x]"
proof (cases "nelts arr = nalloc arr")
  case True
  let ?k = "if nalloc arr = 0 then 1 else nalloc arr * 2"
  let ?a = "arr\<lparr>elts := take (nalloc arr) (elts arr) @ replicate (?k - nalloc arr) (Some zero), nalloc := ?k\<rparr>"
  have "array_ok ?a \<and> contents ?a = contents arr" using assms by (intro grown_ok) auto
  moreover have "apr_array_push zero arr = (nelts ?a, ?a\<lparr>nelts := nelts ?a + 1\<rparr>)"
    using True by (simp add: apr_array_push_def Let_def)
  ultimately show ?thesis using put_elt_room [of ?a x] True by simp
next
  case False
  then show ?thesis using assms put_elt_room [of arr x]
    by (simp add: apr_array_push_def array_ok_def)
qed

lemma push_noclear_ok:
  assumes "array_ok arr"
  shows "array_ok (put_elt (apr_array_push_noclear arr) x) \<and>
    contents (put_elt (apr_array_push_noclear arr) x) = contents arr @ [x]"
proof (cases "nelts arr = nalloc arr")
  case True
  let ?k = "if nalloc arr = 0 then 1 else nalloc arr * 2"
  let ?a = "arr\<lparr>elts := take (nalloc arr) (elts arr) @ replicate (?k - nalloc arr) None, nalloc := ?k\<rparr>"
  have "array_ok ?a \<and> contents ?a = contents arr" using assms by (intro grown_ok) auto
  moreover have "apr_array_push_noclear arr = (nelts ?a, ?a\<lparr>nelts := nelts ?a + 1\<rparr>)"
    using True by (simp add: apr_array_push_noclear_def Let_def)
  ultimately show ?thesis using put_elt_room [of ?a x] True by simp
next
  case False
  then show ?thesis using assms put_elt_room [of arr x]
    by (simp add: apr_array_push_noclear_def array_ok_def)
qed

lemma pop_ok:
  assumes "array_ok arr" "contents arr = xs @ [x]"
  shows "apr_array_pop arr = (Some (length xs), arr\<lparr>nelts := length xs\<rparr>) \<and>
    array_ok (arr\<lparr>nelts := length xs\<rparr>) \<and> contents (arr\<lparr>nelts := length xs\<rparr>) = xs \<and>
    elts arr ! length xs = Some x"
proof -
  obtain rest where arr: "elts arr = map Some (xs @ [x]) @ rest" "nelts arr = Suc (length xs)"
    "Suc (length xs) \<le> nalloc arr" "nalloc arr \<le> Suc (length xs) + length rest"
    using assms by (metis array_okE length_append_singleton)
  have "array_ok (arr\<lparr>nelts := length xs\<rparr>) \<and> contents (arr\<lparr>nelts := length xs\<rparr>) = xs"
    using arr by (intro array_okI [where rest = "Some x # rest"]) auto
  then show ?thesis using arr by (simp add: apr_array_pop_def apr_is_empty_array_def nth_append)
qed

lemma cat_size_ge: "0 < new_size \<Longrightarrow> needed \<le> cat_size needed new_size \<and> new_size \<le> cat_size needed new_size"
proof (induction needed new_size rule: cat_size.induct)
  case (1 needed new_size)
  then show ?case by (subst (1 2) cat_size.simps) auto
qed

lemma cat_ok:
  assumes "array_ok dst" "array_ok src"
  shows "array_ok (apr_array_cat zero dst src) \<and>
    contents (apr_array_cat zero dst src) = contents dst @ contents src"
proof -
  obtain d where d: "elts dst = map Some (contents dst) @ d"
    "nelts dst = length (contents dst)" "length (contents dst) \<le> nalloc dst"
    "nalloc dst \<le> length (contents dst) + length d"
    using assms(1) by (rule array_okE)
  obtain s where s: "elts src = map Some (contents src) @ s" "nelts src = length (contents src)"
    using assms(2) by (rule array_okE)
  let ?size = "cat_size (nelts dst + nelts src) (if nalloc dst = 0 then 1 else nalloc dst * 2)"
  have size: "nelts dst + nelts src \<le> ?size" "nalloc dst \<le> ?size"
    using cat_size_ge [of "if nalloc dst = 0 then 1 else nalloc dst * 2" "nelts dst + nelts src"]
    by (auto split: if_splits)
  show ?thesis
  proof (cases "nelts dst + nelts src > nalloc dst")
    case True
    then show ?thesis using d s size
      by (intro array_okI [where rest = "replicate (?size - (nelts dst + nelts src)) (Some zero)"])
        (auto simp: apr_array_cat_def Let_def)
  next
    case False
    then show ?thesis using d s
      by (intro array_okI [where rest = "drop (nelts src) d"]) (auto simp: apr_array_cat_def Let_def)
  qed
qed

lemma copy_hdr_ok:
  assumes "array_ok arr"
  shows "array_ok (copy_array_hdr_core arr) \<and> contents (copy_array_hdr_core arr) = contents arr"
  using assms by (simp add: copy_array_hdr_core_def contents_def array_ok_def)

lemma append_ok:
  "array_ok first \<Longrightarrow> array_ok second \<Longrightarrow>
     array_ok (apr_array_append zero first second) \<and>
     contents (apr_array_append zero first second) = contents first @ contents second"
  by (simp add: apr_array_append_def apr_array_copy_hdr_def copy_hdr_ok cat_ok)

lemma copy_ok:
  assumes "array_ok arr"
  shows "array_ok (apr_array_copy zero arr) \<and> contents (apr_array_copy zero arr) = contents arr"
  using assms by (simp add: apr_array_copy_def make_array_core_def Let_def array_ok_def contents_def)

lemma put_contents:
  assumes "array_ok arr" "i < nelts arr"
  shows "array_ok (arr\<lparr>elts := (elts arr)[i := Some x]\<rparr>) \<and>
    contents (arr\<lparr>elts := (elts arr)[i := Some x]\<rparr>) = (contents arr)[i := x]"
  using assms set_update_subset_insert [of "take (nelts arr) (elts arr)" i "Some x"]
  by (auto simp: array_ok_def contents_def take_update_swap map_update)

end
