(* ===== verification/Apr_Tables.thy ===== *)
theory Apr_Tables
  imports Apr_Array
begin

text \<open>
  Case-insensitive tables (\<open>src/log4cxx/apr-1.5.2/tables/apr_tables.c\<close>, the \<open>apr_table_\<close>
  functions): an array of entries and an index that gives, for each of 32 values of the first
  key byte, the first and the last entry with that value. Sorting, \<open>apr_table_compress\<close> and
  \<open>apr_table_overlap\<close> are in \<open>Apr_Compress\<close>. Pointers to entries are indices; index slots
  that were never written are \<open>None\<close>. Strings are values, so copying them is the identity.
\<close>

record table_entry =
  te_key :: "cstring option"
  te_val :: cstring
  key_checksum :: u32

record apr_table =
  tab_a :: "table_entry array_header"
  index_initialized :: u32
  index_first :: "nat option list"
  index_last :: "nat option list"

definition TABLE_HASH_SIZE :: nat where
  "TABLE_HASH_SIZE = 32"

definition TABLE_HASH :: "cstring \<Rightarrow> nat" where
  "TABLE_HASH key = unat (0x1f AND str_at key 0)"

definition TABLE_INDEX_IS_INITIALIZED :: "apr_table \<Rightarrow> nat \<Rightarrow> bool" where
  "TABLE_INDEX_IS_INITIALIZED t i = (index_initialized t AND push_bit i 1 \<noteq> 0)"

definition TABLE_SET_INDEX_INITIALIZED :: "apr_table \<Rightarrow> nat \<Rightarrow> apr_table" where
  "TABLE_SET_INDEX_INITIALIZED t i =
     t\<lparr>index_initialized := index_initialized t OR push_bit i 1\<rparr>"

definition CASE_MASK :: u32 where
  "CASE_MASK = 0xdfdfdfdf"

text \<open>One of the three steps of the macro: \<open>c\<close>, the position of \<open>k\<close> and the checksum.\<close>

definition checksum_char :: "cstring \<Rightarrow> u32 \<times> nat \<times> u32 \<Rightarrow> u32 \<times> nat \<times> u32" where
  "checksum_char key s = (case s of (c, k, checksum) \<Rightarrow>
     let checksum = push_bit 8 checksum
     in if c \<noteq> 0 then (let c = char_to_u32 (str_at key (Suc k)) in (c, Suc k, checksum OR c))
        else (c, k, checksum))"

definition COMPUTE_KEY_CHECKSUM :: "cstring \<Rightarrow> u32" where
  "COMPUTE_KEY_CHECKSUM key =
     (let c = char_to_u32 (str_at key 0)
      in case checksum_char key (checksum_char key (checksum_char key (c, 0, c))) of
           (c, k, checksum) \<Rightarrow> checksum AND CASE_MASK)"

subsection \<open>Construction and index\<close>

definition entry :: "apr_table \<Rightarrow> nat \<Rightarrow> table_entry" where
  "entry t i = the (elts (tab_a t) ! i)"

definition apr_table_elts :: "apr_table \<Rightarrow> table_entry array_header" where
  "apr_table_elts t = tab_a t"

definition apr_is_empty_table :: "apr_table option \<Rightarrow> bool" where
  "apr_is_empty_table t = (case t of None \<Rightarrow> True | Some t \<Rightarrow> nelts (tab_a t) = 0)"

text \<open>The element of zero bytes; tables never read it.\<close>

definition null_entry :: table_entry where
  "null_entry = \<lparr>te_key = None, te_val = [], key_checksum = 0\<rparr>"

definition apr_table_make :: "int \<Rightarrow> apr_table" where
  "apr_table_make n =
     \<lparr>tab_a = make_array_core null_entry n False, index_initialized = 0,
      index_first = replicate TABLE_HASH_SIZE None, index_last = replicate TABLE_HASH_SIZE None\<rparr>"

definition apr_table_copy :: "apr_table \<Rightarrow> apr_table" where
  "apr_table_copy t =
     (let new = make_array_core null_entry (int (nalloc (tab_a t))) False
      in \<lparr>tab_a = new\<lparr>elts := take (nelts (tab_a t)) (elts (tab_a t)) @ drop (nelts (tab_a t)) (elts new),
                      nelts := nelts (tab_a t)\<rparr>,
          index_initialized = index_initialized t,
          index_first = index_first t, index_last = index_last t\<rparr>)"

text \<open>Entry \<open>i\<close> has hash value \<open>hash\<close>: the index records its position.\<close>

definition index_entry :: "nat \<Rightarrow> nat \<Rightarrow> apr_table \<Rightarrow> apr_table" where
  "index_entry hash i t =
     (let t = t\<lparr>index_last := (index_last t)[hash := Some i]\<rparr>
      in if \<not> TABLE_INDEX_IS_INITIALIZED t hash then
           TABLE_SET_INDEX_INITIALIZED (t\<lparr>index_first := (index_first t)[hash := Some i]\<rparr>) hash
         else t)"

definition table_reindex :: "apr_table \<Rightarrow> apr_table" where
  "table_reindex t =
     fold (\<lambda>i t. index_entry (TABLE_HASH (the (te_key (entry t i)))) i t)
       [0..<nelts (tab_a t)] (t\<lparr>index_initialized := 0\<rparr>)"

definition apr_table_clear :: "apr_table \<Rightarrow> apr_table" where
  "apr_table_clear t = t\<lparr>tab_a := (tab_a t)\<lparr>nelts := 0\<rparr>, index_initialized := 0\<rparr>"

subsection \<open>Lookup\<close>

definition key_matches :: "table_entry \<Rightarrow> cstring \<Rightarrow> u32 \<Rightarrow> bool" where
  "key_matches e key checksum =
     (checksum = key_checksum e \<and> strcasecmp (the (te_key e)) key = 0)"

text \<open>The search from \<open>next_elt\<close> to \<open>end_elt\<close>, which both exist.\<close>

definition table_scan :: "apr_table \<Rightarrow> cstring \<Rightarrow> u32 \<Rightarrow> nat \<Rightarrow> nat option" where
  "table_scan t key checksum hash =
     find (\<lambda>i. key_matches (entry t i) key checksum)
       [the (index_first t ! hash)..<Suc (the (index_last t ! hash))]"

definition apr_table_get :: "apr_table \<Rightarrow> cstring option \<Rightarrow> cstring option" where
  "apr_table_get t key =
     (case key of None \<Rightarrow> None
      | Some key \<Rightarrow>
          (let hash = TABLE_HASH key
           in if \<not> TABLE_INDEX_IS_INITIALIZED t hash then None
              else (case table_scan t key (COMPUTE_KEY_CHECKSUM key) hash of
                      None \<Rightarrow> None | Some i \<Rightarrow> Some (te_val (entry t i)))))"

subsection \<open>Insertion and deletion\<close>

text \<open>\<open>table_push\<close> and the three assignments to the new entry.\<close>

definition push_new_elt :: "apr_table \<Rightarrow> cstring \<Rightarrow> cstring \<Rightarrow> u32 \<Rightarrow> apr_table" where
  "push_new_elt t key val checksum =
     (case apr_array_push_noclear (tab_a t) of (i, arr) \<Rightarrow>
        t\<lparr>tab_a := arr\<lparr>elts := (elts arr)
           [i := Some \<lparr>te_key = Some key, te_val = val, key_checksum = checksum\<rparr>]\<rparr>\<rparr>)"

definition apr_pstrdup :: "cstring \<Rightarrow> cstring" where
  "apr_pstrdup s = s"

text \<open>\<open>*dst_elt++ = *next_elt\<close>.\<close>

definition move_elt :: "nat \<Rightarrow> table_entry array_header \<times> nat \<Rightarrow> table_entry array_header \<times> nat" where
  "move_elt j s = (case s of (arr, dst) \<Rightarrow> (arr\<lparr>elts := (elts arr)[dst := elts arr ! j]\<rparr>, Suc dst))"

text \<open>The body of the loop of \<open>apr_table_set\<close> over the remaining entries of the bucket.\<close>

definition set_dedup :: "cstring \<Rightarrow> u32 \<Rightarrow> nat \<Rightarrow> table_entry array_header \<times> nat option \<times> bool \<Rightarrow>
    table_entry array_header \<times> nat option \<times> bool" where
  "set_dedup key checksum j s = (case s of (arr, dst, must_reindex) \<Rightarrow>
     if key_matches (the (elts arr ! j)) key checksum then
       (arr\<lparr>nelts := nelts arr - 1\<rparr>, (case dst of None \<Rightarrow> Some j | Some d \<Rightarrow> Some d), must_reindex)
     else (case dst of None \<Rightarrow> (arr, dst, must_reindex)
           | Some d \<Rightarrow> (case move_elt j (arr, d) of (arr, d) \<Rightarrow> (arr, Some d, True))))"

text \<open>An existing entry \<open>i\<close> gets the value; \<open>end_elt\<close> the position of \<open>end_elt\<close>.\<close>

definition replace_val :: "apr_table \<Rightarrow> nat \<Rightarrow> cstring \<Rightarrow> apr_table" where
  "replace_val t i val =
     t\<lparr>tab_a := (tab_a t)\<lparr>elts := (elts (tab_a t))[i := Some ((entry t i)\<lparr>te_val := val\<rparr>)]\<rparr>\<rparr>"

definition set_found :: "apr_table \<Rightarrow> cstring \<Rightarrow> u32 \<Rightarrow> nat \<Rightarrow> nat \<Rightarrow> cstring \<Rightarrow> apr_table" where
  "set_found t key checksum i end_elt val =
     (let table_end = nelts (tab_a t);
          t = replace_val t i val
      in case fold (set_dedup key checksum) [Suc i..<Suc end_elt] (tab_a t, None, False) of
           (arr, dst, must_reindex) \<Rightarrow>
             (case (case dst of
                      None \<Rightarrow> (arr, must_reindex)
                    | Some d \<Rightarrow> (fst (fold move_elt [Suc end_elt..<table_end] (arr, d)), True)) of
                (arr, must_reindex) \<Rightarrow>
                  if must_reindex then table_reindex (t\<lparr>tab_a := arr\<rparr>) else t\<lparr>tab_a := arr\<rparr>))"

text \<open>
  \<open>apr_table_set\<close> and \<open>apr_table_setn\<close> differ only in the copies of the strings that the
  table keeps: \<open>dup\<close> is the copying function.
\<close>

definition table_set_dup :: "(cstring \<Rightarrow> cstring) \<Rightarrow> apr_table \<Rightarrow> cstring \<Rightarrow> cstring \<Rightarrow> apr_table" where
  "table_set_dup dup t key val =
     (let checksum = COMPUTE_KEY_CHECKSUM key;
          hash = TABLE_HASH key
      in case (if TABLE_INDEX_IS_INITIALIZED t hash then table_scan t key checksum hash else None) of
           Some i \<Rightarrow> set_found t key checksum i (the (index_last t ! hash)) (dup val)
         | None \<Rightarrow> push_new_elt (index_entry hash (nelts (tab_a t)) t) (dup key) (dup val) checksum)"

definition apr_table_set :: "apr_table \<Rightarrow> cstring \<Rightarrow> cstring \<Rightarrow> apr_table" where
  "apr_table_set = table_set_dup apr_pstrdup"

definition apr_table_setn :: "apr_table \<Rightarrow> cstring \<Rightarrow> cstring \<Rightarrow> apr_table" where
  "apr_table_setn = table_set_dup (\<lambda>s. s)"

definition unset_step :: "cstring \<Rightarrow> u32 \<Rightarrow> nat \<Rightarrow> table_entry array_header \<times> nat \<Rightarrow>
    table_entry array_header \<times> nat" where
  "unset_step key checksum j s = (case s of (arr, dst) \<Rightarrow>
     if key_matches (the (elts arr ! j)) key checksum then (arr\<lparr>nelts := nelts arr - 1\<rparr>, dst)
     else move_elt j (arr, dst))"

definition apr_table_unset :: "apr_table \<Rightarrow> cstring \<Rightarrow> apr_table" where
  "apr_table_unset t key =
     (let hash = TABLE_HASH key; checksum = COMPUTE_KEY_CHECKSUM key; end_elt = the (index_last t ! hash)
      in if \<not> TABLE_INDEX_IS_INITIALIZED t hash then t
         else (case table_scan t key checksum hash of
                 None \<Rightarrow> t
               | Some i \<Rightarrow>
                   (let table_end = nelts (tab_a t);
                        arr = (tab_a t)\<lparr>nelts := nelts (tab_a t) - 1\<rparr>;
                        s = fold (unset_step key checksum) [Suc i..<Suc end_elt] (arr, i);
                        s = fold move_elt [Suc end_elt..<table_end] s
                    in table_reindex (t\<lparr>tab_a := fst s\<rparr>))))"

definition table_merge_dup :: "(cstring \<Rightarrow> cstring) \<Rightarrow> apr_table \<Rightarrow> cstring \<Rightarrow> cstring \<Rightarrow> apr_table" where
  "table_merge_dup dup t key val =
     (let checksum = COMPUTE_KEY_CHECKSUM key;
          hash = TABLE_HASH key
      in case (if TABLE_INDEX_IS_INITIALIZED t hash then table_scan t key checksum hash else None) of
           Some i \<Rightarrow> replace_val t i (te_val (entry t i) @ str '', '' @ val)
         | None \<Rightarrow> push_new_elt (index_entry hash (nelts (tab_a t)) t) (dup key) (dup val) checksum)"

definition apr_table_merge :: "apr_table \<Rightarrow> cstring \<Rightarrow> cstring \<Rightarrow> apr_table" where
  "apr_table_merge = table_merge_dup apr_pstrdup"

definition apr_table_mergen :: "apr_table \<Rightarrow> cstring \<Rightarrow> cstring \<Rightarrow> apr_table" where
  "apr_table_mergen = table_merge_dup (\<lambda>s. s)"

definition table_add_dup :: "(cstring \<Rightarrow> cstring) \<Rightarrow> apr_table \<Rightarrow> cstring \<Rightarrow> cstring \<Rightarrow> apr_table" where
  "table_add_dup dup t key val =
     push_new_elt (index_entry (TABLE_HASH key) (nelts (tab_a t)) t) (dup key) (dup val)
       (COMPUTE_KEY_CHECKSUM key)"

definition apr_table_add :: "apr_table \<Rightarrow> cstring \<Rightarrow> cstring \<Rightarrow> apr_table" where
  "apr_table_add = table_add_dup apr_pstrdup"

definition apr_table_addn :: "apr_table \<Rightarrow> cstring \<Rightarrow> cstring \<Rightarrow> apr_table" where
  "apr_table_addn = table_add_dup (\<lambda>s. s)"

definition apr_table_clone :: "apr_table \<Rightarrow> apr_table" where
  "apr_table_clone t =
     fold (\<lambda>i new. apr_table_add new (the (te_key (entry t i))) (te_val (entry t i)))
       [0..<nelts (tab_a t)] (apr_table_make (int (nelts (tab_a t))))"

definition apr_table_overlay :: "apr_table \<Rightarrow> apr_table \<Rightarrow> apr_table" where
  "apr_table_overlay overlay base =
     table_reindex
       \<lparr>tab_a = apr_array_cat null_entry (copy_array_hdr_core (tab_a overlay)) (tab_a base),
        index_initialized = 0,
        index_first = replicate TABLE_HASH_SIZE None, index_last = replicate TABLE_HASH_SIZE None\<rparr>"

subsection \<open>Iteration\<close>

text \<open>
  One pass of the loop over the positions \<open>is\<close>; \<open>P\<close> is the test of an entry. The callback
  returns its result and the new state of \<open>rec\<close>; result 0 ends the pass.
\<close>

fun vdo_pass :: "('r \<Rightarrow> cstring \<Rightarrow> cstring \<Rightarrow> int \<times> 'r) \<Rightarrow> (table_entry \<Rightarrow> bool) \<Rightarrow> apr_table \<Rightarrow>
    nat list \<Rightarrow> 'r \<Rightarrow> int \<times> 'r" where
  "vdo_pass callback P t [] r = (1, r)"
| "vdo_pass callback P t (i # is) r =
     (if te_key (entry t i) \<noteq> None \<and> P (entry t i) then
        (case callback r (the (te_key (entry t i))) (te_val (entry t i)) of (rv, r) \<Rightarrow>
           if rv \<noteq> 0 then vdo_pass callback P t is r else (rv, r))
      else vdo_pass callback P t is r)"

definition vdo_key :: "('r \<Rightarrow> cstring \<Rightarrow> cstring \<Rightarrow> int \<times> 'r) \<Rightarrow> apr_table \<Rightarrow> cstring \<Rightarrow>
    int \<times> 'r \<Rightarrow> int \<times> 'r" where
  "vdo_key callback t argp s = (case s of (vdorv, r) \<Rightarrow>
     let hash = TABLE_HASH argp
     in case (if TABLE_INDEX_IS_INITIALIZED t hash then
                vdo_pass callback (\<lambda>e. key_matches e argp (COMPUTE_KEY_CHECKSUM argp)) t
                  [the (index_first t ! hash)..<Suc (the (index_last t ! hash))] r
              else (1, r)) of
          (rv, r) \<Rightarrow> (if rv = 0 then 0 else vdorv, r))"

text \<open>\<open>keys\<close> is the argument list up to its NULL.\<close>

definition apr_table_vdo :: "('r \<Rightarrow> cstring \<Rightarrow> cstring \<Rightarrow> int \<times> 'r) \<Rightarrow> 'r \<Rightarrow> apr_table \<Rightarrow>
    cstring list \<Rightarrow> int \<times> 'r" where
  "apr_table_vdo callback r t keys =
     (if keys = [] then
        (case vdo_pass callback (\<lambda>e. True) t [0..<nelts (tab_a t)] r of
           (rv, r) \<Rightarrow> (if rv = 0 then 0 else 1, r))
      else fold (vdo_key callback t) keys (1, r))"

definition apr_table_do :: "('r \<Rightarrow> cstring \<Rightarrow> cstring \<Rightarrow> int \<times> 'r) \<Rightarrow> 'r \<Rightarrow> apr_table \<Rightarrow>
    cstring list \<Rightarrow> int \<times> 'r" where
  "apr_table_do callback r t keys = apr_table_vdo callback r t keys"

record table_getm_t =
  gm_first :: "cstring option"
  gm_merged :: "cstring option array_header option"

definition table_getm_do :: "table_getm_t \<Rightarrow> cstring \<Rightarrow> cstring \<Rightarrow> int \<times> table_getm_t" where
  "table_getm_do state key val =
     (case gm_first state of
        None \<Rightarrow> (1, state\<lparr>gm_first := Some val\<rparr>)
      | Some first \<Rightarrow>
          (let merged = (case gm_merged state of
                 None \<Rightarrow> put_elt (apr_array_push None (apr_array_make None 10)) (Some first)
               | Some merged \<Rightarrow> merged)
           in (1, state\<lparr>gm_merged := Some (put_elt (apr_array_push None merged) (Some val))\<rparr>)))"

definition apr_table_getm :: "apr_table \<Rightarrow> cstring \<Rightarrow> cstring option" where
  "apr_table_getm t key =
     (let state = snd (apr_table_do table_getm_do \<lparr>gm_first = None, gm_merged = None\<rparr> t [key])
      in case gm_first state of
           None \<Rightarrow> None
         | Some first \<Rightarrow>
             (case gm_merged state of None \<Rightarrow> Some first
              | Some merged \<Rightarrow> Some (apr_array_pstrcat merged 0x2c)))"

subsection \<open>Keys that differ in case only\<close>

lemma char_cases_upper:
  assumes "\<And>n. n \<in> set [65..<91] \<Longrightarrow> P (of_nat n :: byte) (of_nat (n + 32))"
    and "P c c"
  shows "P c (apr_tolower c)"
proof (cases "65 \<le> c \<and> c \<le> 90")
  case True
  then have "65 \<le> unat c" "unat c < 91" by (simp_all add: word_le_nat_alt)
  then have "unat c \<in> set [65..<91]" by (simp only: set_upt atLeastLessThan_iff)
  with assms(1) [of "unat c"] True show ?thesis by (simp add: apr_tolower_def add.commute)
qed (use assms(2) in \<open>auto simp: apr_tolower_def\<close>)

lemma hash_lower: "(0x1f :: byte) AND apr_tolower c = 0x1f AND c"
  by (rule char_cases_upper [where P = "\<lambda>c d. (0x1f :: byte) AND d = 0x1f AND c"]) (auto simp: upt_rec)

lemma mask_lower: "char_to_u32 (apr_tolower c) AND CASE_MASK = char_to_u32 c AND CASE_MASK"
  unfolding CASE_MASK_def char_to_u32_def
  by (rule char_cases_upper
      [where P = "\<lambda>c d. signed_take_bit 7 (ucast d) AND 0xdfdfdfdf = signed_take_bit 7 (ucast c) AND (0xdfdfdfdf :: u32)"])
    (auto simp: upt_rec signed_take_bit_eq_if_positive signed_take_bit_eq_if_negative)

lemma char_to_u32_0: "char_to_u32 c = 0 \<longleftrightarrow> c = 0"
proof
  assume "char_to_u32 c = 0"
  moreover have "bit (char_to_u32 c) n = bit c n" if "n < 8" for n
  proof -
    have "min 7 n = n" using that by simp
    then show ?thesis using that by (simp add: char_to_u32_def bit_simps)
  qed
  ultimately show "c = 0" by (intro bit_word_eqI) simp
qed (simp add: char_to_u32_def)

lemma push_8_mask: "push_bit 8 x AND CASE_MASK = push_bit 8 (x AND CASE_MASK)"
proof -
  have "push_bit 8 x AND 0xdf = push_bit 8 x AND (mask 8 AND 0xdf :: u32)"
    by (simp add: mask_eq_exp_minus_1)
  also have "\<dots> = (push_bit 8 x AND mask 8) AND 0xdf" by (simp only: and.assoc)
  also have "push_bit 8 x AND mask 8 = 0" by (rule bit_word_eqI) (auto simp: bit_simps)
  finally have "push_bit 8 x AND (0xdf :: u32) = 0" by simp
  moreover have "CASE_MASK = push_bit 8 CASE_MASK OR 0xdf" by (simp add: CASE_MASK_def)
  then have "push_bit 8 x AND CASE_MASK =
      (push_bit 8 x AND push_bit 8 CASE_MASK) OR (push_bit 8 x AND 0xdf)"
    by (metis bit.conj_disj_distrib)
  ultimately show ?thesis by (simp only: push_bit_and or.right_neutral)
qed

lemma str_at_lower: "str_at (lower s) i = apr_tolower (str_at s i)"
  by (simp add: str_at_def apr_tolower_def)

text \<open>Two states of the macro that differ in bit 5 of characters only.\<close>

definition same_state :: "u32 \<times> nat \<times> u32 \<Rightarrow> u32 \<times> nat \<times> u32 \<Rightarrow> bool" where
  "same_state s t \<longleftrightarrow> (case (s, t) of ((c, k, x), (d, l, y)) \<Rightarrow>
     (c = 0 \<longleftrightarrow> d = 0) \<and> k = l \<and> x AND CASE_MASK = y AND CASE_MASK)"

lemma same_state_step:
  assumes "same_state s t"
  shows "same_state (checksum_char key s) (checksum_char (lower key) t)"
proof -
  obtain c k x d y where st: "s = (c, k, x)" "t = (d, k, y)" "c = 0 \<longleftrightarrow> d = 0"
    "x AND CASE_MASK = y AND CASE_MASK"
    using assms unfolding same_state_def by (cases s, cases t) auto
  have "push_bit 8 x AND CASE_MASK = push_bit 8 y AND CASE_MASK"
    using st(4) by (simp add: push_8_mask)
  then show ?thesis using st(1-3)
    by (auto simp: same_state_def checksum_char_def Let_def str_at_lower mask_lower
        char_to_u32_0 apr_tolower_0 bit.conj_disj_distrib2)
qed

lemma checksum_lower: "COMPUTE_KEY_CHECKSUM (lower key) = COMPUTE_KEY_CHECKSUM key"
proof -
  have init: "same_state (char_to_u32 (str_at key 0), 0, char_to_u32 (str_at key 0))
      (char_to_u32 (str_at (lower key) 0), 0, char_to_u32 (str_at (lower key) 0))"
    by (simp add: same_state_def str_at_lower mask_lower char_to_u32_0 apr_tolower_0)
  show ?thesis
    using same_state_step [where key = key, OF same_state_step [where key = key, OF same_state_step [where key = key, OF init]]]
    by (auto simp: COMPUTE_KEY_CHECKSUM_def Let_def same_state_def split: prod.splits)
qed

lemma checksum_cong: "lower k = lower k' \<Longrightarrow> COMPUTE_KEY_CHECKSUM k = COMPUTE_KEY_CHECKSUM k'"
  using checksum_lower by metis

lemma TABLE_HASH_cong: "lower k = lower k' \<Longrightarrow> TABLE_HASH k = TABLE_HASH k'"
  unfolding TABLE_HASH_def using hash_lower [of "str_at k 0"] hash_lower [of "str_at k' 0"]
  by (metis str_at_lower)

lemma TABLE_HASH_less: "TABLE_HASH k < 32"
proof -
  have "(0x1f :: byte) AND str_at k 0 \<le> 0x1f" by (rule word_and_le2)
  then have "TABLE_HASH k \<le> 31" by (simp add: TABLE_HASH_def word_le_nat_alt)
  then show ?thesis by simp
qed

subsection \<open>The index\<close>

definition positions :: "table_entry list \<Rightarrow> nat \<Rightarrow> nat list" where
  "positions es h = filter (\<lambda>i. TABLE_HASH (the (te_key (es ! i))) = h) [0..<length es]"

text \<open>
  The index of \<open>t\<close> is exact for the entries \<open>es\<close>: a hash value is marked when an entry has it,
  and then the first and last positions are those of the first and last such entry.
\<close>

definition index_for :: "table_entry list \<Rightarrow> apr_table \<Rightarrow> bool" where
  "index_for es t \<longleftrightarrow> length (index_first t) = 32 \<and> length (index_last t) = 32 \<and>
     (\<forall>h \<in> {..<32}. bit (index_initialized t) h = (positions es h \<noteq> []) \<and>
        (positions es h \<noteq> [] \<longrightarrow> index_first t ! h = Some (hd (positions es h)) \<and>
           index_last t ! h = Some (last (positions es h))))"

lemma initialized_bit: "TABLE_INDEX_IS_INITIALIZED t h = bit (index_initialized t) h"
  by (simp add: TABLE_INDEX_IS_INITIALIZED_def bit_iff_and_push_bit_not_eq_0)

lemma positions_snoc:
  "positions (es @ [e]) h = positions es h @ (if TABLE_HASH (the (te_key e)) = h then [length es] else [])"
proof -
  have "filter (\<lambda>i. TABLE_HASH (the (te_key ((es @ [e]) ! i))) = h) [0..<length es] = positions es h"
    unfolding positions_def by (rule filter_cong) (auto simp: nth_append)
  then show ?thesis by (simp add: positions_def)
qed

lemma index_for_empty:
  "length (index_first t) = 32 \<Longrightarrow> length (index_last t) = 32 \<Longrightarrow> index_initialized t = 0 \<Longrightarrow> index_for [] t"
  by (simp add: index_for_def positions_def)

lemma index_entry_for:
  assumes "index_for es t"
  shows "index_for (es @ [e]) (index_entry (TABLE_HASH (the (te_key e))) (length es) t)"
  using assms TABLE_HASH_less [of "the (te_key e)"]
  unfolding index_for_def
  by (auto simp: index_entry_def Let_def initialized_bit positions_snoc TABLE_SET_INDEX_INITIALIZED_def
      bit_simps nth_list_update)

lemma index_entry_tab [simp]: "tab_a (index_entry h i t) = tab_a t"
  by (simp add: index_entry_def Let_def TABLE_SET_INDEX_INITIALIZED_def)

lemma index_for_tab [simp]: "index_for es (t\<lparr>tab_a := a\<rparr>) = index_for es t"
  by (simp add: index_for_def)

lemma reindex_upto:
  assumes "array_ok (tab_a t)" "n \<le> nelts (tab_a t)"
    "length (index_first t) = 32" "length (index_last t) = 32"
  defines "r \<equiv> fold (\<lambda>i t. index_entry (TABLE_HASH (the (te_key (entry t i)))) i t)
    [0..<n] (t\<lparr>index_initialized := 0\<rparr>)"
  shows "tab_a r = tab_a t \<and> index_for (take n (contents (tab_a t))) r"
  using assms(2) unfolding r_def
proof (induction n)
  case 0
  then show ?case using assms(3,4) by (simp add: index_for_empty)
next
  case (Suc n)
  let ?r = "fold (\<lambda>i t. index_entry (TABLE_HASH (the (te_key (entry t i)))) i t)
    [0..<n] (t\<lparr>index_initialized := 0\<rparr>)"
  have IH: "tab_a ?r = tab_a t" "index_for (take n (contents (tab_a t))) ?r" using Suc by auto
  have e: "entry ?r n = contents (tab_a t) ! n"
    using IH Suc.prems assms(1) by (simp add: entry_def contents_nth)
  have "take (Suc n) (contents (tab_a t)) = take n (contents (tab_a t)) @ [contents (tab_a t) ! n]"
    "length (take n (contents (tab_a t))) = n"
    using Suc.prems assms(1) by (simp_all add: take_Suc_conv_app_nth)
  then show ?case using index_entry_for [OF IH(2), of "contents (tab_a t) ! n"] IH(1) e by simp
qed

lemma table_reindex_ok:
  assumes "array_ok (tab_a t)" "length (index_first t) = 32" "length (index_last t) = 32"
  shows "tab_a (table_reindex t) = tab_a t \<and> index_for (contents (tab_a t)) (table_reindex t)"
  using reindex_upto [OF assms(1) order_refl assms(2,3)] assms(1) by (simp add: table_reindex_def)

subsection \<open>Invariant and contents\<close>

definition entry_ok :: "table_entry \<Rightarrow> bool" where
  "entry_ok e = (case te_key e of None \<Rightarrow> False
     | Some k \<Rightarrow> nul_free k \<and> key_checksum e = COMPUTE_KEY_CHECKSUM k)"

definition table_ok :: "apr_table \<Rightarrow> bool" where
  "table_ok t \<longleftrightarrow> array_ok (tab_a t) \<and> list_all entry_ok (contents (tab_a t)) \<and>
     index_for (contents (tab_a t)) t"

text \<open>What a table holds: its keys and values in order.\<close>

definition pair_of :: "table_entry \<Rightarrow> cstring \<times> cstring" where
  "pair_of e = (the (te_key e), te_val e)"

definition ents :: "apr_table \<Rightarrow> (cstring \<times> cstring) list" where
  "ents t = map pair_of (contents (tab_a t))"

abbreviation same_key :: "cstring \<Rightarrow> cstring \<times> cstring \<Rightarrow> bool" where
  "same_key k p \<equiv> lower (fst p) = lower k"

lemma key_matches_iff:
  "entry_ok e \<Longrightarrow> nul_free key \<Longrightarrow>
     key_matches e key (COMPUTE_KEY_CHECKSUM key) = same_key key (pair_of e)"
  by (auto simp: entry_ok_def key_matches_def pair_of_def strcasecmp_eq dest: checksum_cong
      split: option.splits)

lemma length_ents: "table_ok t \<Longrightarrow> length (ents t) = nelts (tab_a t)"
  by (simp add: ents_def table_ok_def)

lemma entry_pair:
  assumes "table_ok t" "i < nelts (tab_a t)"
  shows "entry_ok (entry t i) \<and> pair_of (entry t i) = ents t ! i \<and> entry t i = contents (tab_a t) ! i"
proof -
  have "entry t i = contents (tab_a t) ! i" "i < length (contents (tab_a t))"
    using assms by (simp_all add: table_ok_def entry_def contents_nth)
  then show ?thesis using assms(1) by (simp add: table_ok_def ents_def list_all_length)
qed

text \<open>The position of the first entry with a key.\<close>

definition locate :: "(cstring \<times> cstring) list \<Rightarrow> cstring \<Rightarrow> nat option" where
  "locate es key = find (\<lambda>i. same_key key (es ! i)) [0..<length es]"

lemma find_filter: "find P xs = (case filter P xs of [] \<Rightarrow> None | x # _ \<Rightarrow> Some x)"
  by (induction xs) auto

lemma upt_split: "a \<le> b \<Longrightarrow> b \<le> c \<Longrightarrow> [a..<c] = [a..<b] @ [b..<c]"
  by (metis le_add_diff_inverse upt_add_eq_append)

lemma filter_within:
  assumes "\<And>i. i < n \<Longrightarrow> P i \<Longrightarrow> a \<le> i \<and> i \<le> b" "b < n"
    and "\<And>i. i < n \<Longrightarrow> P i = Q i"
  shows "filter P [a..<Suc b] = filter Q [0..<n]"
proof (cases "a \<le> b")
  case True
  have "[0..<n] = [0..<a] @ [a..<Suc b] @ [Suc b..<n]"
    using True assms(2) upt_split [of 0 a n] upt_split [of a "Suc b" n] by simp
  moreover have "\<not> Q i" if "i < a" for i
  proof -
    have "i < n" using True assms(2) that by linarith
    then show ?thesis using assms(1,3) that by fastforce
  qed
  then have "filter Q [0..<a] = []" by (simp add: filter_empty_conv)
  moreover have "filter Q [Suc b..<n] = []"
    using assms by (fastforce simp: filter_empty_conv)
  moreover have "filter P [a..<Suc b] = filter Q [a..<Suc b]"
    using assms by (intro filter_cong) auto
  ultimately show ?thesis by (simp only: filter_append append_Nil append_Nil2)
next
  case False
  then have "filter Q [0..<n] = []" using assms by (fastforce simp: filter_empty_conv)
  then show ?thesis using False by simp
qed

lemma sorted_hd_last: "sorted xs \<Longrightarrow> x \<in> set xs \<Longrightarrow> hd xs \<le> x \<and> x \<le> last xs \<and> xs \<noteq> []"
  by (induction xs) auto

lemma positions_bounds:
  assumes "i < length es" "TABLE_HASH (the (te_key (es ! i))) = h"
  shows "hd (positions es h) \<le> i \<and> i \<le> last (positions es h) \<and> positions es h \<noteq> []"
  using assms by (intro sorted_hd_last) (auto simp: positions_def sorted_wrt_filter)

lemma entry_hash:
  assumes "table_ok t" "i < nelts (tab_a t)" "same_key key (ents t ! i)"
  shows "TABLE_HASH (the (te_key (contents (tab_a t) ! i))) = TABLE_HASH key"
proof (rule TABLE_HASH_cong)
  show "lower (the (te_key (contents (tab_a t) ! i))) = lower key"
    using entry_pair [OF assms(1,2)] assms(3) by (metis pair_of_def fst_conv)
qed

text \<open>The bucket of a key has all entries with this key.\<close>

lemma bucket_filter:
  assumes "table_ok t" "nul_free key"
  shows "(if TABLE_INDEX_IS_INITIALIZED t (TABLE_HASH key)
      then filter (\<lambda>i. key_matches (entry t i) key (COMPUTE_KEY_CHECKSUM key))
        [the (index_first t ! TABLE_HASH key)..<Suc (the (index_last t ! TABLE_HASH key))]
      else []) = filter (\<lambda>i. same_key key (ents t ! i)) [0..<nelts (tab_a t)]"
proof -
  let ?n = "nelts (tab_a t)" and ?h = "TABLE_HASH key" and ?c = "contents (tab_a t)"
  have len: "length (ents t) = ?n" "length ?c = ?n"
    using assms(1) by (simp_all add: length_ents table_ok_def)
  have ix: "index_for ?c t" using assms(1) by (simp add: table_ok_def)
  have P: "key_matches (entry t i) key (COMPUTE_KEY_CHECKSUM key) = same_key key (ents t ! i)"
    if "i < ?n" for i
    using entry_pair [OF assms(1) that] key_matches_iff [OF _ assms(2), of "entry t i"] by metis
  have in_bucket: "TABLE_HASH (the (te_key (?c ! i))) = ?h"
    if "i < ?n" "same_key key (ents t ! i)" for i
    using that entry_hash [OF assms(1)] by blast
  show ?thesis
  proof (cases "positions ?c ?h = []")
    case True
    then have "\<not> TABLE_INDEX_IS_INITIALIZED t ?h"
      using ix TABLE_HASH_less [of key] by (auto simp: initialized_bit index_for_def)
    moreover have "\<not> same_key key (ents t ! i)" if "i < ?n" for i
      using True positions_bounds [of i ?c ?h] in_bucket [OF that] that len by auto
    ultimately show ?thesis by (simp add: filter_empty_conv)
  next
    case False
    then have "TABLE_INDEX_IS_INITIALIZED t ?h" "the (index_first t ! ?h) = hd (positions ?c ?h)"
      "the (index_last t ! ?h) = last (positions ?c ?h)"
      using ix TABLE_HASH_less [of key] by (auto simp: initialized_bit index_for_def)
    moreover have "last (positions ?c ?h) < ?n"
      using last_in_set [OF False] len by (auto simp: positions_def)
    moreover have "hd (positions ?c ?h) \<le> i \<and> i \<le> last (positions ?c ?h)"
      if "i < ?n" "key_matches (entry t i) key (COMPUTE_KEY_CHECKSUM key)" for i
      using that positions_bounds [of i ?c ?h] in_bucket P len by auto
    ultimately show ?thesis
      using P filter_within [where n = ?n and Q = "\<lambda>i. same_key key (ents t ! i)"
          and P = "\<lambda>i. key_matches (entry t i) key (COMPUTE_KEY_CHECKSUM key)"
          and a = "hd (positions ?c ?h)" and b = "last (positions ?c ?h)"]
      by (simp del: upt_Suc)
  qed
qed

lemma scan_locate:
  assumes "table_ok t" "nul_free key"
  shows "(if TABLE_INDEX_IS_INITIALIZED t (TABLE_HASH key)
      then table_scan t key (COMPUTE_KEY_CHECKSUM key) (TABLE_HASH key) else None) = locate (ents t) key"
  using bucket_filter [OF assms] assms(1)
  by (auto simp: table_scan_def locate_def find_filter length_ents simp del: upt_Suc split: if_splits)

text \<open>All entries with the key lie up to the end of the bucket.\<close>

lemma bucket_end:
  assumes "table_ok t" "locate (ents t) key = Some i"
  defines "e \<equiv> the (index_last t ! TABLE_HASH key)"
  shows "i \<le> e \<and> e < nelts (tab_a t) \<and>
    (\<forall>p \<in> set (drop (Suc e) (ents t)). \<not> same_key key p)"
proof -
  let ?n = "nelts (tab_a t)" and ?h = "TABLE_HASH key" and ?c = "contents (tab_a t)"
  have len: "length (ents t) = ?n" "length ?c = ?n"
    using assms(1) by (simp_all add: length_ents table_ok_def)
  have in_bucket: "j \<le> last (positions ?c ?h) \<and> positions ?c ?h \<noteq> []"
    if "j < ?n" "same_key key (ents t ! j)" for j
  proof -
    have "TABLE_HASH (the (te_key (?c ! j))) = ?h"
      using that entry_hash [OF assms(1)] by blast
    then show ?thesis using positions_bounds [of j ?c ?h] len that by auto
  qed
  have i: "i < ?n" "same_key key (ents t ! i)"
    using assms(2) len by (auto simp: locate_def find_Some_iff)
  have "index_for ?c t" using assms(1) by (simp add: table_ok_def)
  then have e: "e = last (positions ?c ?h)"
    using in_bucket [OF i] TABLE_HASH_less [of key] by (simp add: index_for_def e_def)
  have "e < ?n"
    using in_bucket [OF i] last_in_set [of "positions ?c ?h"] len by (auto simp: positions_def e)
  moreover have "\<not> same_key key p" if p: "p \<in> set (drop (Suc e) (ents t))" for p
  proof
    assume "same_key key p"
    moreover obtain j where "p = ents t ! (Suc e + j)" "Suc e + j < ?n"
      using p len by (auto simp: in_set_conv_nth)
    ultimately show False using in_bucket [of "Suc e + j"] e by auto
  qed
  ultimately show ?thesis using in_bucket [OF i] e by blast
qed

subsection \<open>Compaction\<close>

text \<open>
  The two loops that close the gaps of deleted entries are instances of one step: the entries
  with \<open>Q\<close> are dropped, the others move to \<open>dst\<close>.
\<close>

definition compact_step :: "(table_entry \<Rightarrow> bool) \<Rightarrow> nat \<Rightarrow> table_entry array_header \<times> nat \<Rightarrow>
    table_entry array_header \<times> nat" where
  "compact_step Q j s = (case s of (arr, dst) \<Rightarrow>
     if Q (the (elts arr ! j)) then (arr\<lparr>nelts := nelts arr - 1\<rparr>, dst) else move_elt j (arr, dst))"

lemma unset_step_compact: "unset_step key c = compact_step (\<lambda>e. key_matches e key c)"
  by (intro ext) (simp add: unset_step_def compact_step_def)

lemma move_elt_compact: "move_elt = compact_step (\<lambda>e. False)"
  by (intro ext) (simp add: compact_step_def split: prod.splits)

lemma compact_loop:
  assumes "d \<le> p" "p \<le> q" "q \<le> length (elts arr)"
    and "fold (compact_step Q) [p..<q] (arr, d) = (arr', d')"
  shows "nalloc arr' = nalloc arr \<and> length (elts arr') = length (elts arr) \<and>
    nelts arr' = nelts arr - length (filter (\<lambda>x. Q (the x)) (drop p (take q (elts arr)))) \<and>
    d' = d + length (filter (\<lambda>x. \<not> Q (the x)) (drop p (take q (elts arr)))) \<and>
    take d' (elts arr') = take d (elts arr) @ filter (\<lambda>x. \<not> Q (the x)) (drop p (take q (elts arr))) \<and>
    drop q (elts arr') = drop q (elts arr)"
  using assms(2-4)
proof (induction q arbitrary: arr' d' rule: dec_induct)
  case base
  then show ?case by simp
next
  case (step q)
  obtain a e where ae: "fold (compact_step Q) [p..<q] (arr, d) = (a, e)" by fastforce
  let ?seg = "drop p (take q (elts arr))"
  have IH: "nalloc a = nalloc arr" "length (elts a) = length (elts arr)"
    "nelts a = nelts arr - length (filter (\<lambda>x. Q (the x)) ?seg)"
    "e = d + length (filter (\<lambda>x. \<not> Q (the x)) ?seg)"
    "take e (elts a) = take d (elts arr) @ filter (\<lambda>x. \<not> Q (the x)) ?seg"
    "drop q (elts a) = drop q (elts arr)"
    using step.IH [OF _ ae] step.prems(1) by auto
  have x: "elts a ! q = elts arr ! q"
    using IH(2,6) step.prems(1) by (metis Suc_leD Suc_le_eq hd_drop_conv_nth)
  have seg: "drop p (take (Suc q) (elts arr)) = ?seg @ [elts arr ! q]"
    using step.hyps step.prems(1) by (simp add: take_Suc_conv_app_nth)
  have "length (filter (\<lambda>x. \<not> Q (the x)) ?seg) \<le> q - p"
    using length_filter_le [of _ ?seg] step.prems(1) by (metis length_drop length_take min.absorb2 Suc_leD)
  then have eq: "e \<le> q" using IH(4) assms(1) step.hyps by simp
  have dr: "drop (Suc q) (elts a) = drop (Suc q) (elts arr)"
    using IH(6) by (metis drop_drop plus_1_eq_Suc)
  have s: "compact_step Q q (a, e) = (arr', d')" using step.prems(2) step.hyps ae by simp
  show ?case
  proof (cases "Q (the (elts arr ! q))")
    case True
    then show ?thesis using s IH dr by (auto simp: compact_step_def x seg)
  next
    case False
    then have "arr' = a\<lparr>elts := (elts a)[e := elts arr ! q]\<rparr>" "d' = Suc e"
      using s by (auto simp: compact_step_def x move_elt_def)
    then show ?thesis using False IH dr eq step.prems(1) step.hyps(1)
      by (simp add: seg take_Suc_conv_app_nth drop_update_cancel)
  qed
qed

text \<open>
  The entry at \<open>j\<close> is deleted, then the entries with \<open>Q\<close> between \<open>j\<close> and \<open>q\<close>, and the rest
  moves up.
\<close>

lemma compact_ok:
  fixes Q :: "table_entry \<Rightarrow> bool"
  assumes ok: "array_ok arr" and j: "j < q" "q \<le> nelts arr"
  defines "s \<equiv> fold move_elt [q..<nelts arr]
    (fold (compact_step Q) [Suc j..<q] (arr\<lparr>nelts := nelts arr - 1\<rparr>, j))"
  shows "array_ok (fst s) \<and> contents (fst s) =
    take j (contents arr) @ filter (\<lambda>e. \<not> Q e) (drop (Suc j) (take q (contents arr))) @ drop q (contents arr)"
proof -
  let ?N = "nelts arr" and ?E = "elts arr"
  obtain rest where arr: "?E = map Some (contents arr) @ rest" "length (contents arr) = ?N"
    "?N \<le> nalloc arr" "nalloc arr \<le> ?N + length rest"
    using ok by (metis array_okE)
  obtain a d where ad: "fold (compact_step Q) [Suc j..<q] (arr\<lparr>nelts := ?N - 1\<rparr>, j) = (a, d)" by fastforce
  obtain b e where be: "fold move_elt [q..<?N] (a, d) = (b, e)" by fastforce
  let ?seg = "drop (Suc j) (take q ?E)"
  let ?keep = "filter (\<lambda>x. \<not> Q (the x)) ?seg"
  have seg: "?seg = map Some (drop (Suc j) (take q (contents arr)))"
    using arr j by (simp add: drop_map take_map)
  have keep: "?keep = map Some (filter (\<lambda>e. \<not> Q e) (drop (Suc j) (take q (contents arr))))"
    by (simp add: seg filter_map comp_def)
  have len: "length (filter (\<lambda>x. Q (the x)) ?seg) + length ?keep = q - Suc j"
    using arr j sum_length_filter_compl [of "\<lambda>x. Q (the x)" ?seg] by simp
  have 1: "nalloc a = nalloc arr" "length (elts a) = length ?E"
    "nelts a = ?N - 1 - length (filter (\<lambda>x. Q (the x)) ?seg)" "d = j + length ?keep"
    "take d (elts a) = take j ?E @ ?keep" "drop q (elts a) = drop q ?E"
    using compact_loop [OF _ _ _ ad] arr j by auto
  have moved: "drop q (take ?N (elts a)) = map Some (drop q (contents arr))"
    using 1(6) arr by (metis drop_take append_eq_conv_conj length_map take_drop drop_map)
  have "d \<le> q" using 1(4) len j by simp
  then have 2: "nalloc b = nalloc a" "length (elts b) = length (elts a)" "nelts b = nelts a"
    "e = d + (?N - q)"
    "take e (elts b) = take d (elts a) @ map Some (drop q (contents arr))"
    using compact_loop [OF _ _ _ be [unfolded move_elt_compact]] 1(2) arr j
    by (auto simp: moved)
  have e: "e = nelts b" using 2(3,4) 1(3,4) len j by simp
  have t: "take (nelts b) (elts b) = map Some (take j (contents arr) @
      filter (\<lambda>e. \<not> Q e) (drop (Suc j) (take q (contents arr))) @ drop q (contents arr))"
  proof -
    have "take (nelts b) (elts b) = take j ?E @ ?keep @ map Some (drop q (contents arr))"
      using 2(5) 1(5) by (simp add: e)
    moreover have "take j ?E = map Some (take j (contents arr))" using arr j by (simp add: take_map)
    ultimately show ?thesis by (simp only: keep map_append)
  qed
  have "fst s = b" using ad be by (simp add: s_def)
  moreover have "array_ok b"
  proof -
    have "nelts b \<le> ?N" unfolding 2(3) 1(3) by linarith
    moreover have "nalloc b = nalloc arr" "length (elts b) = length ?E"
      using 1(1,2) 2(1,2) by simp_all
    moreover have "nalloc arr \<le> length ?E" "?N \<le> nalloc arr" using ok by (simp_all add: array_ok_def)
    ultimately show ?thesis unfolding array_ok_def t by auto
  qed
  ultimately show ?thesis by (simp add: contents_def t comp_def)
qed

lemma set_dedup_none:
  "(\<And>j. j \<in> set js \<Longrightarrow> \<not> key_matches (the (elts arr ! j)) key c) \<Longrightarrow>
     fold (set_dedup key c) js (arr, None, m) = (arr, None, m)"
  by (induction js) (simp_all add: set_dedup_def)

lemma set_dedup_some:
  "\<exists>m'. fold (set_dedup key c) js (arr, Some d, m) =
     (case fold (compact_step (\<lambda>e. key_matches e key c)) js (arr, d) of (arr', d') \<Rightarrow> (arr', Some d', m'))"
proof (induction js arbitrary: arr d m)
  case Nil
  then show ?case by simp
next
  case (Cons j js)
  show ?case
  proof (cases "key_matches (the (elts arr ! j)) key c")
    case True
    then show ?thesis using Cons.IH [of "arr\<lparr>nelts := nelts arr - 1\<rparr>" d m]
      by (simp add: set_dedup_def compact_step_def)
  next
    case False
    then show ?thesis using Cons.IH [of "fst (move_elt j (arr, d))" "snd (move_elt j (arr, d))" True]
      by (simp add: set_dedup_def compact_step_def move_elt_def)
  qed
qed

subsection \<open>What the operations do to the contents\<close>

fun spec_set :: "cstring \<Rightarrow> cstring \<Rightarrow> (cstring \<times> cstring) list \<Rightarrow> (cstring \<times> cstring) list" where
  "spec_set k v [] = [(k, v)]"
| "spec_set k v (p # es) =
     (if same_key k p then (fst p, v) # filter (\<lambda>p. \<not> same_key k p) es else p # spec_set k v es)"

fun spec_merge :: "cstring \<Rightarrow> cstring \<Rightarrow> (cstring \<times> cstring) list \<Rightarrow> (cstring \<times> cstring) list" where
  "spec_merge k v [] = [(k, v)]"
| "spec_merge k v (p # es) =
     (if same_key k p then (fst p, snd p @ str '', '' @ v) # es else p # spec_merge k v es)"

definition spec_unset :: "cstring \<Rightarrow> (cstring \<times> cstring) list \<Rightarrow> (cstring \<times> cstring) list" where
  "spec_unset k es = filter (\<lambda>p. \<not> same_key k p) es"

definition spec_get :: "cstring \<Rightarrow> (cstring \<times> cstring) list \<Rightarrow> cstring option" where
  "spec_get k es = map_option snd (find (same_key k) es)"

lemma locate_Some:
  assumes "locate es k = Some i"
  shows "i < length es \<and> es = take i es @ es ! i # drop (Suc i) es \<and> same_key k (es ! i) \<and>
    (\<forall>p \<in> set (take i es). \<not> same_key k p)"
proof -
  have "i < length es \<and> same_key k (es ! i) \<and> (\<forall>j < i. \<not> same_key k (es ! j))"
    using assms by (auto simp: locate_def find_Some_iff)
  then show ?thesis by (simp add: all_set_conv_all_nth flip: id_take_nth_drop)
qed

lemma locate_None: "locate es k = None \<longleftrightarrow> (\<forall>p \<in> set es. \<not> same_key k p)"
  by (simp add: locate_def find_None_iff all_set_conv_all_nth)

lemma spec_set_split:
  "\<forall>p \<in> set xs. \<not> same_key k p \<Longrightarrow> same_key k p \<Longrightarrow>
     spec_set k v (xs @ p # ys) = xs @ (fst p, v) # filter (\<lambda>p. \<not> same_key k p) ys"
  "\<forall>p \<in> set xs. \<not> same_key k p \<Longrightarrow> spec_set k v xs = xs @ [(k, v)]"
  by (induction xs) auto

lemma spec_merge_split:
  "\<forall>p \<in> set xs. \<not> same_key k p \<Longrightarrow> same_key k p \<Longrightarrow>
     spec_merge k v (xs @ p # ys) = xs @ (fst p, snd p @ str '', '' @ v) # ys"
  "\<forall>p \<in> set xs. \<not> same_key k p \<Longrightarrow> spec_merge k v xs = xs @ [(k, v)]"
  by (induction xs) auto

lemma spec_get_split:
  "\<forall>p \<in> set xs. \<not> same_key k p \<Longrightarrow> same_key k p \<Longrightarrow> spec_get k (xs @ p # ys) = Some (snd p)"
  "\<forall>p \<in> set xs. \<not> same_key k p \<Longrightarrow> spec_get k xs = None"
  by (induction xs) (auto simp: spec_get_def)

lemma table_make_ok: "table_ok (apr_table_make n) \<and> ents (apr_table_make n) = []"
  using make_array_core_ok [of null_entry n False]
  by (simp add: table_ok_def ents_def apr_table_make_def index_for_empty TABLE_HASH_SIZE_def)

lemma table_clear_ok: "table_ok t \<Longrightarrow> table_ok (apr_table_clear t) \<and> ents (apr_table_clear t) = []"
  using apr_array_clear_ok [of "tab_a t"]
  by (auto simp: table_ok_def ents_def apr_table_clear_def apr_array_clear_def index_for_def positions_def
      intro!: index_for_empty)

lemma reindexed_ok:
  assumes "array_ok arr" "list_all entry_ok (contents arr)"
    "length (index_first t) = 32" "length (index_last t) = 32"
  shows "table_ok (table_reindex (t\<lparr>tab_a := arr\<rparr>)) \<and>
    ents (table_reindex (t\<lparr>tab_a := arr\<rparr>)) = map pair_of (contents arr)"
  using table_reindex_ok [of "t\<lparr>tab_a := arr\<rparr>"] assms by (simp add: table_ok_def ents_def)

lemma push_new_elt_ok:
  fixes val :: cstring
  assumes "table_ok t" "nul_free key"
  defines "r \<equiv> push_new_elt (index_entry (TABLE_HASH key) (nelts (tab_a t)) t) key val (COMPUTE_KEY_CHECKSUM key)"
  shows "table_ok r \<and> ents r = ents t @ [(key, val)]"
proof -
  let ?e = "\<lparr>te_key = Some key, te_val = val, key_checksum = COMPUTE_KEY_CHECKSUM key\<rparr>"
  let ?i = "index_entry (TABLE_HASH key) (nelts (tab_a t)) t"
  have t: "array_ok (tab_a t)" "list_all entry_ok (contents (tab_a t))" "index_for (contents (tab_a t)) t"
    using assms(1) by (simp_all add: table_ok_def)
  have r: "r = ?i\<lparr>tab_a := put_elt (apr_array_push_noclear (tab_a t)) ?e\<rparr>"
    by (simp add: r_def push_new_elt_def put_elt_def split: prod.splits)
  have "index_for (contents (tab_a t) @ [?e]) ?i"
    using index_entry_for [OF t(3), of ?e] t(1) by simp
  then show ?thesis
    using push_noclear_ok [OF t(1), of ?e] t(2) assms(2)
    by (simp add: r table_ok_def ents_def pair_of_def entry_ok_def)
qed

lemma positions_cong:
  assumes "map te_key es = map te_key es'"
  shows "positions es h = positions es' h"
proof -
  have "length es = length es'" using assms by (metis length_map)
  moreover have "te_key (es ! i) = te_key (es' ! i)" if "i < length es" for i
    using assms that calculation by (metis nth_map)
  ultimately show ?thesis by (auto simp: positions_def intro!: filter_cong)
qed

lemma entry_ok_val: "entry_ok (e\<lparr>te_val := v\<rparr>) = entry_ok e"
  by (simp add: entry_ok_def split: option.split)

lemma replace_val_ok:
  assumes "table_ok t" "i < nelts (tab_a t)"
  shows "table_ok (replace_val t i v) \<and> ents (replace_val t i v) = (ents t)[i := (fst (ents t ! i), v)] \<and>
    nelts (tab_a (replace_val t i v)) = nelts (tab_a t)"
proof -
  let ?c = "contents (tab_a t)"
  let ?e = "(entry t i)\<lparr>te_val := v\<rparr>"
  have t: "array_ok (tab_a t)" "list_all entry_ok ?c" "index_for ?c t"
    using assms(1) by (simp_all add: table_ok_def)
  have ep: "entry_ok (entry t i)" "pair_of (entry t i) = ents t ! i" "entry t i = ?c ! i"
    using entry_pair [OF assms] by auto
  have e1: "entry_ok ?e" using ep(1) by (simp only: entry_ok_val)
  have e2: "pair_of ?e = (fst (ents t ! i), v)" unfolding ep(2) [symmetric] by (simp add: pair_of_def)
  have e3: "te_key ?e = te_key (?c ! i)" using ep(3) by simp
  note e = e1 e2 e3
  have arr: "array_ok (tab_a (replace_val t i v))" "contents (tab_a (replace_val t i v)) = ?c[i := ?e]"
    using put_contents [OF t(1) assms(2), of ?e] by (simp_all add: replace_val_def)
  have "i < length ?c" using t(1) assms(2) by simp
  then have "map te_key (?c[i := ?e]) = map te_key ?c" using e(3)
    by (intro nth_equalityI) (auto simp: nth_list_update)
  then have "positions (?c[i := ?e]) h = positions ?c h" for h by (rule positions_cong)
  then have "index_for (?c[i := ?e]) t" using t(3) by (simp add: index_for_def)
  moreover have "list_all entry_ok (?c[i := ?e])"
    using t(2) e(1) set_update_subset_insert [of ?c i ?e] by (auto simp: list_all_iff)
  moreover have "index_for es (replace_val t i v) = index_for es t" for es by (simp add: replace_val_def)
  moreover have "nelts (tab_a (replace_val t i v)) = nelts (tab_a t)" by (simp add: replace_val_def)
  ultimately show ?thesis using arr e(2) by (simp add: table_ok_def ents_def map_update)
qed

text \<open>Deleting the matching entries of a part of the contents, seen on keys and values.\<close>

lemma pairs_filter:
  assumes "list_all entry_ok es" "nul_free key"
  shows "map pair_of (filter (\<lambda>e. \<not> key_matches e key (COMPUTE_KEY_CHECKSUM key)) es) =
    filter (\<lambda>p. \<not> same_key key p) (map pair_of es)"
  using assms by (induction es) (auto simp: key_matches_iff)

lemma drop_within:
  assumes "i \<le> e" "e < length xs"
  shows "drop (Suc i) xs = drop (Suc i) (take (Suc e) xs) @ drop (Suc e) xs"
proof -
  have "drop (Suc i) (take (Suc e) xs @ drop (Suc e) xs) =
      drop (Suc i) (take (Suc e) xs) @ drop (Suc e) xs"
    using assms by (simp del: append_take_drop_id)
  then show ?thesis by simp
qed

lemma unset_ok:
  assumes t: "table_ok t" and key: "nul_free key"
  shows "table_ok (apr_table_unset t key) \<and> ents (apr_table_unset t key) = spec_unset key (ents t)"
proof (cases "locate (ents t) key")
  case None
  then have "apr_table_unset t key = t"
    using scan_locate [OF t key] by (auto simp: apr_table_unset_def Let_def split: if_splits)
  moreover have "spec_unset key (ents t) = ents t"
    using None by (simp add: locate_None spec_unset_def filter_id_conv)
  ultimately show ?thesis using t by simp
next
  case (Some i)
  let ?M = "\<lambda>e. key_matches e key (COMPUTE_KEY_CHECKSUM key)"
  define e where "e = the (index_last t ! TABLE_HASH key)"
  let ?c = "contents (tab_a t)"
  let ?s = "fold move_elt [Suc e..<nelts (tab_a t)]
    (fold (compact_step ?M) [Suc i..<Suc e] ((tab_a t)\<lparr>nelts := nelts (tab_a t) - 1\<rparr>, i))"
  have "TABLE_INDEX_IS_INITIALIZED t (TABLE_HASH key)"
    "table_scan t key (COMPUTE_KEY_CHECKSUM key) (TABLE_HASH key) = Some i"
    using Some scan_locate [OF t key] by (auto split: if_splits)
  moreover define arr where "arr = fst ?s"
  ultimately have r: "apr_table_unset t key = table_reindex (t\<lparr>tab_a := arr\<rparr>)"
    by (simp add: apr_table_unset_def Let_def unset_step_compact e_def del: upt_Suc)
  have e: "i \<le> e" "e < nelts (tab_a t)" "\<forall>p \<in> set (drop (Suc e) (ents t)). \<not> same_key key p"
    using bucket_end [OF t Some] by (auto simp: e_def)
  have ok: "list_all entry_ok ?c" "array_ok (tab_a t)" "length (index_first t) = 32" "length (index_last t) = 32"
    using t by (simp_all add: table_ok_def index_for_def)
  have s: "array_ok arr" "contents arr = take i ?c @
      filter (\<lambda>e. \<not> ?M e) (drop (Suc i) (take (Suc e) ?c)) @ drop (Suc e) ?c"
    using compact_ok [OF ok(2), of i "Suc e" ?M] e unfolding arr_def by auto
  have part: "list_all entry_ok (take i ?c)" "list_all entry_ok (drop (Suc i) (take (Suc e) ?c))"
    "list_all entry_ok (drop (Suc e) ?c)"
    using ok(1) by (auto simp: list_all_iff dest: in_set_takeD in_set_dropD)
  then have "list_all entry_ok (contents arr)" by (auto simp: s(2) list_all_iff)
  then have "table_ok (table_reindex (t\<lparr>tab_a := arr\<rparr>)) \<and> ents (table_reindex (t\<lparr>tab_a := arr\<rparr>)) =
      map pair_of (contents arr)"
    using reindexed_ok [OF s(1)] ok by blast
  moreover have "map pair_of (contents arr) = take i (ents t) @
      filter (\<lambda>p. \<not> same_key key p) (drop (Suc i) (take (Suc e) (ents t))) @ drop (Suc e) (ents t)"
    using pairs_filter [OF part(2) key] by (simp add: s(2) ents_def take_map drop_map)
  moreover have "\<dots> = spec_unset key (ents t)"
  proof -
    have "e < length (ents t)" using e(2) t by (simp add: length_ents)
    then have "drop (Suc i) (ents t) = drop (Suc i) (take (Suc e) (ents t)) @ drop (Suc e) (ents t)"
      using drop_within e(1) by blast
    then have "ents t = take i (ents t) @ ents t ! i # drop (Suc i) (take (Suc e) (ents t)) @ drop (Suc e) (ents t)"
      using locate_Some [OF Some] by metis
    then have "spec_unset key (ents t) = spec_unset key (take i (ents t) @ ents t ! i #
        drop (Suc i) (take (Suc e) (ents t)) @ drop (Suc e) (ents t))" by (rule arg_cong)
    then show ?thesis
      using locate_Some [OF Some] e(3) by (simp add: spec_unset_def filter_id_conv)
  qed
  ultimately show ?thesis using r by simp
qed

text \<open>The loop of \<open>apr_table_set\<close>: nothing to delete, or compaction from the first duplicate.\<close>

lemma set_dedup_cases:
  assumes "a \<le> b"
  obtains (none) "\<And>j. a \<le> j \<Longrightarrow> j < b \<Longrightarrow> \<not> key_matches (the (elts arr ! j)) key c"
      "fold (set_dedup key c) [a..<b] (arr, None, False) = (arr, None, False)"
  | (dup) j m where "a \<le> j" "j < b" "\<And>i. a \<le> i \<Longrightarrow> i < j \<Longrightarrow> \<not> key_matches (the (elts arr ! i)) key c"
      "key_matches (the (elts arr ! j)) key c"
      "fold (set_dedup key c) [a..<b] (arr, None, False) =
         (case fold (compact_step (\<lambda>e. key_matches e key c)) [Suc j..<b] (arr\<lparr>nelts := nelts arr - 1\<rparr>, j) of
            (arr', d) \<Rightarrow> (arr', Some d, m))"
proof (cases "\<exists>j. a \<le> j \<and> j < b \<and> key_matches (the (elts arr ! j)) key c")
  case False
  then show ?thesis by (intro none set_dedup_none) auto
next
  case True
  define j where "j = (LEAST j. a \<le> j \<and> j < b \<and> key_matches (the (elts arr ! j)) key c)"
  have j: "a \<le> j" "j < b" "key_matches (the (elts arr ! j)) key c"
    using LeastI_ex [OF True] by (simp_all add: j_def)
  have least: "\<not> key_matches (the (elts arr ! i)) key c" if "a \<le> i" "i < j" for i
    using that not_less_Least [of i "\<lambda>j. a \<le> j \<and> j < b \<and> key_matches (the (elts arr ! j)) key c"] j(2)
    by (auto simp flip: j_def)
  have "[a..<b] = [a..<j] @ j # [Suc j..<b]"
    using j upt_split [of a j b] by (simp add: upt_conv_Cons)
  moreover have "fold (set_dedup key c) [a..<j] (arr, None, False) = (arr, None, False)"
    using least by (intro set_dedup_none) auto
  moreover have "set_dedup key c j (arr, None, False) = (arr\<lparr>nelts := nelts arr - 1\<rparr>, Some j, False)"
    using j(3) by (simp add: set_dedup_def)
  ultimately have "fold (set_dedup key c) [a..<b] (arr, None, False) =
      fold (set_dedup key c) [Suc j..<b] (arr\<lparr>nelts := nelts arr - 1\<rparr>, Some j, False)" by simp
  moreover obtain m where "fold (set_dedup key c) [Suc j..<b] (arr\<lparr>nelts := nelts arr - 1\<rparr>, Some j, False) =
      (case fold (compact_step (\<lambda>e. key_matches e key c)) [Suc j..<b] (arr\<lparr>nelts := nelts arr - 1\<rparr>, j) of
         (arr', d) \<Rightarrow> (arr', Some d, m))"
    using set_dedup_some by blast
  ultimately show ?thesis using dup [OF j(1,2) least j(3)] by simp
qed

lemma filter_rest:
  assumes "i < j" "j \<le> e" "e < length xs" "\<And>k. i < k \<Longrightarrow> k < j \<Longrightarrow> P (xs ! k)" "\<not> P (xs ! j)"
    and "\<forall>x \<in> set (drop (Suc e) xs). P x"
  shows "take j xs @ filter P (drop (Suc j) (take (Suc e) xs)) @ drop (Suc e) xs =
    take (Suc i) xs @ filter P (drop (Suc i) xs)"
proof -
  have "take j xs = take (Suc i) xs @ drop (Suc i) (take j xs)"
    using assms(1) by (metis Suc_leI append_take_drop_id min.absorb1 take_take)
  moreover have "drop (Suc i) xs = drop (Suc i) (take j xs) @ xs ! j # drop (Suc j) xs"
    using assms(1-3) drop_within [of i "j - 1" xs] by (simp add: Cons_nth_drop_Suc)
  moreover have "drop (Suc j) xs = drop (Suc j) (take (Suc e) xs) @ drop (Suc e) xs"
    using assms(2,3) by (rule drop_within)
  moreover have "\<forall>x \<in> set (drop (Suc i) (take j xs)). P x"
    using assms(2-4) by (auto simp: in_set_conv_nth)
  ultimately show ?thesis using assms(5,6) by (simp add: filter_id_conv)
qed

lemma filter_rest_none:
  assumes "e < length xs" "\<And>k. i < k \<Longrightarrow> k \<le> e \<Longrightarrow> P (xs ! k)"
    and "\<forall>x \<in> set (drop (Suc e) xs). P x"
  shows "xs = take (Suc i) xs @ filter P (drop (Suc i) xs)"
proof -
  have "P (xs ! k)" if "i < k" "k < length xs" for k
  proof (cases "k \<le> e")
    case False
    then have "xs ! k = drop (Suc e) xs ! (k - Suc e)" "k - Suc e < length (drop (Suc e) xs)"
      using that by simp_all
    then show ?thesis using assms(3) by (metis nth_mem)
  qed (use assms(2) that in blast)
  then have "\<forall>x \<in> set (drop (Suc i) xs). P x" by (auto simp: in_set_conv_nth)
  then show ?thesis by (simp add: filter_id_conv)
qed

lemma set_found_ok:
  assumes t: "table_ok t" and key: "nul_free key" and Some: "locate (ents t) key = Some i"
    and e_def: "e = the (index_last t ! TABLE_HASH key)"
  shows "table_ok (set_found t key (COMPUTE_KEY_CHECKSUM key) i e val) \<and>
    ents (set_found t key (COMPUTE_KEY_CHECKSUM key) i e val) = spec_set key val (ents t)"
proof -
  let ?M = "\<lambda>e. key_matches e key (COMPUTE_KEY_CHECKSUM key)"
  let ?P = "\<lambda>p. \<not> same_key key p"
  let ?u = "replace_val t i val" and ?n = "nelts (tab_a t)"
  let ?c = "contents (tab_a ?u)"
  have e: "i \<le> e" "e < ?n" "\<forall>p \<in> set (drop (Suc e) (ents t)). ?P p"
    using bucket_end [OF t Some] by (auto simp: e_def)
  have u: "table_ok ?u" "ents ?u = (ents t)[i := (fst (ents t ! i), val)]" "nelts (tab_a ?u) = ?n"
    using replace_val_ok [OF t, of i val] e by auto
  have ok: "list_all entry_ok ?c" "array_ok (tab_a ?u)" "length (index_first ?u) = 32"
    "length (index_last ?u) = 32" "length (ents ?u) = ?n"
    using u(1,3) by (simp_all add: table_ok_def index_for_def length_ents)
  have spec: "spec_set key val (ents t) = take (Suc i) (ents ?u) @ filter ?P (drop (Suc i) (ents ?u))"
    using locate_Some [OF Some] spec_set_split(1) [of "take i (ents t)" key "ents t ! i" val "drop (Suc i) (ents t)"]
    by (simp add: u(2) take_Suc_conv_app_nth)
  have M: "?M (the (elts (tab_a ?u) ! j)) = same_key key (ents ?u ! j)" if "j < ?n" for j
    using entry_pair [OF u(1), of j] key_matches_iff [OF _ key, of "entry ?u j"] that u(3)
    by (metis entry_def)
  have tail: "\<forall>p \<in> set (drop (Suc e) (ents ?u)). ?P p" using e by (simp add: u(2))
  have "Suc i \<le> Suc e" using e(1) by simp
  then show ?thesis
  proof (cases rule: set_dedup_cases [where arr = "tab_a ?u" and key = key
        and c = "COMPUTE_KEY_CHECKSUM key", consumes 1, case_names none dup])
    case none
    have "ents ?u = take (Suc i) (ents ?u) @ filter ?P (drop (Suc i) (ents ?u))"
      using none(1) M e tail ok(5) by (intro filter_rest_none [of e]) auto
    moreover have "set_found t key (COMPUTE_KEY_CHECKSUM key) i e val = ?u"
      using none(2) by (simp add: set_found_def Let_def del: upt_Suc)
    ultimately show ?thesis using u(1) spec by simp
  next
    case (dup j m)
    define arr where "arr = fst (fold move_elt [Suc e..<?n]
      (fold (compact_step ?M) [Suc j..<Suc e] ((tab_a ?u)\<lparr>nelts := nelts (tab_a ?u) - 1\<rparr>, j)))"
    have r: "set_found t key (COMPUTE_KEY_CHECKSUM key) i e val = table_reindex (?u\<lparr>tab_a := arr\<rparr>)"
      using dup(5) by (simp add: set_found_def Let_def arr_def del: upt_Suc split: prod.splits)
    have arr: "array_ok arr" "contents arr = take j ?c @
        filter (\<lambda>e. \<not> ?M e) (drop (Suc j) (take (Suc e) ?c)) @ drop (Suc e) ?c"
      using compact_ok [OF ok(2), of j "Suc e" ?M] dup(2) e u(3) unfolding arr_def by auto
    have part: "list_all entry_ok (take j ?c)" "list_all entry_ok (drop (Suc j) (take (Suc e) ?c))"
      "list_all entry_ok (drop (Suc e) ?c)"
      using ok(1) by (auto simp: list_all_iff dest: in_set_takeD in_set_dropD)
    then have "list_all entry_ok (contents arr)" by (auto simp: arr(2) list_all_iff)
    then have "table_ok (table_reindex (?u\<lparr>tab_a := arr\<rparr>)) \<and>
        ents (table_reindex (?u\<lparr>tab_a := arr\<rparr>)) = map pair_of (contents arr)"
      using reindexed_ok [OF arr(1)] ok by blast
    moreover have "map pair_of (contents arr) =
        take j (ents ?u) @ filter ?P (drop (Suc j) (take (Suc e) (ents ?u))) @ drop (Suc e) (ents ?u)"
      using pairs_filter [OF part(2) key] by (simp add: arr(2) ents_def take_map drop_map)
    moreover have "\<dots> = take (Suc i) (ents ?u) @ filter ?P (drop (Suc i) (ents ?u))"
      using dup(1-4) M e tail ok(5) by (intro filter_rest) auto
    ultimately show ?thesis using r spec by simp
  qed
qed

lemma set_dup_ok:
  assumes "table_ok t" "nul_free key" "\<And>s. dup s = s"
  shows "table_ok (table_set_dup dup t key val) \<and> ents (table_set_dup dup t key val) = spec_set key val (ents t)"
  using scan_locate [OF assms(1,2)] set_found_ok [OF assms(1,2)] push_new_elt_ok [OF assms(1,2), of val]
    spec_set_split(2) [of "ents t" key val]
  by (auto simp: table_set_dup_def Let_def assms(3) locate_None split: option.split)

lemma add_dup_ok:
  assumes "table_ok t" "nul_free key" "\<And>s. dup s = s"
  shows "table_ok (table_add_dup dup t key val) \<and> ents (table_add_dup dup t key val) = ents t @ [(key, val)]"
  using push_new_elt_ok [OF assms(1,2), of val] by (simp add: table_add_dup_def assms(3))

lemma merge_dup_ok:
  assumes "table_ok t" "nul_free key" "\<And>s. dup s = s"
  shows "table_ok (table_merge_dup dup t key val) \<and> ents (table_merge_dup dup t key val) = spec_merge key val (ents t)"
proof (cases "locate (ents t) key")
  case None
  then show ?thesis
    using scan_locate [OF assms(1,2)] push_new_elt_ok [OF assms(1,2), of val]
      spec_merge_split(2) [OF None [unfolded locate_None], of val]
    by (simp add: table_merge_dup_def Let_def assms(3))
next
  case (Some i)
  then have i: "i < nelts (tab_a t)" using locate_Some [OF Some] assms(1) by (simp add: length_ents)
  have "snd (ents t ! i) = te_val (entry t i)" using entry_pair [OF assms(1) i] by (metis pair_of_def snd_conv)
  moreover have "spec_merge key val (ents t) = (ents t)[i := (fst (ents t ! i), snd (ents t ! i) @ str '', '' @ val)]"
    using locate_Some [OF Some] spec_merge_split(1) [of "take i (ents t)" key "ents t ! i" val "drop (Suc i) (ents t)"]
    by (metis upd_conv_take_nth_drop)
  ultimately show ?thesis
    using scan_locate [OF assms(1,2)] Some replace_val_ok [OF assms(1) i]
    by (simp add: table_merge_dup_def Let_def)
qed

lemma get_ok:
  assumes "table_ok t" "nul_free key"
  shows "apr_table_get t (Some key) = spec_get key (ents t)"
proof (cases "locate (ents t) key")
  case None
  then show ?thesis using scan_locate [OF assms] spec_get_split(2) [OF None [unfolded locate_None]]
    by (auto simp: apr_table_get_def Let_def split: if_splits)
next
  case (Some i)
  then have i: "i < nelts (tab_a t)" using locate_Some [OF Some] assms(1) by (simp add: length_ents)
  have "snd (ents t ! i) = te_val (entry t i)" using entry_pair [OF assms(1) i] by (metis pair_of_def snd_conv)
  moreover have "spec_get key (ents t) = Some (snd (ents t ! i))"
    using locate_Some [OF Some] spec_get_split(1) [of "take i (ents t)" key "ents t ! i" "drop (Suc i) (ents t)"]
    by metis
  ultimately show ?thesis using scan_locate [OF assms] Some
    by (auto simp: apr_table_get_def Let_def split: if_splits)
qed

text \<open>The values of a key, in order; \<open>join\<close> puts a separator between them.\<close>

definition vals_of :: "cstring \<Rightarrow> (cstring \<times> cstring) list \<Rightarrow> cstring list" where
  "vals_of k es = map snd (filter (same_key k) es)"

fun join :: "cstring \<Rightarrow> cstring list \<Rightarrow> cstring" where
  "join sep [] = []"
| "join sep [v] = v"
| "join sep (v # w # vs) = v @ sep @ join sep (w # vs)"

lemma pstrcat_join: "sep \<noteq> 0 \<Longrightarrow> pstrcat_copy (map Some vs) sep = join [sep] vs"
  by (induction "[sep]" vs rule: join.induct) auto

text \<open>A callback that never returns 0 sees every tested entry.\<close>

lemma vdo_pass_all:
  assumes "\<And>r k v. fst (callback r k v) \<noteq> 0" "\<And>i. i \<in> set js \<Longrightarrow> te_key (entry t i) \<noteq> None"
  shows "\<exists>rv. rv \<noteq> 0 \<and> vdo_pass callback P t js r =
    (rv, fold (\<lambda>i r. snd (callback r (the (te_key (entry t i))) (te_val (entry t i))))
      (filter (\<lambda>i. P (entry t i)) js) r)"
  using assms(2)
proof (induction js arbitrary: r)
  case (Cons i js)
  show ?case
    using Cons assms(1) [of r "the (te_key (entry t i))" "te_val (entry t i)"]
    by (auto simp: case_prod_beta)
qed auto

definition getm_result :: "table_getm_t \<Rightarrow> cstring list \<Rightarrow> bool" where
  "getm_result st vs = (case vs of
       [] \<Rightarrow> gm_first st = None \<and> gm_merged st = None
     | [v] \<Rightarrow> gm_first st = Some v \<and> gm_merged st = None
     | v # ws \<Rightarrow> gm_first st = Some v \<and>
         (\<exists>arr. gm_merged st = Some arr \<and> array_ok arr \<and> contents arr = map Some vs))"

lemma getm_step:
  assumes "getm_result st vs"
  shows "getm_result (snd (table_getm_do st k v)) (vs @ [v])"
proof (cases vs)
  case Nil
  then show ?thesis using assms by (simp add: getm_result_def table_getm_do_def)
next
  case (Cons w ws)
  show ?thesis
  proof (cases ws)
    case Nil
    let ?a = "put_elt (apr_array_push None (apr_array_make None 10)) (Some w)"
    have "array_ok ?a \<and> contents ?a = [Some w]"
      using apr_array_make_ok [of "None :: cstring option" 10] push_ok [of "apr_array_make (None :: cstring option) 10" None "Some w"]
      by simp
    then show ?thesis using assms Cons Nil push_ok [of ?a None "Some v"]
      by (simp add: getm_result_def table_getm_do_def Let_def)
  next
    case (Cons x xs)
    then obtain arr where "gm_first st = Some w" "gm_merged st = Some arr" "array_ok arr"
        "contents arr = map Some vs"
      using assms \<open>vs = w # ws\<close> by (auto simp: getm_result_def)
    then show ?thesis using push_ok [of arr None "Some v"] Cons \<open>vs = w # ws\<close>
      by (simp add: getm_result_def table_getm_do_def Let_def)
  qed
qed

lemma bucket_range:
  assumes "table_ok t" "TABLE_INDEX_IS_INITIALIZED t (TABLE_HASH key)"
  shows "the (index_last t ! TABLE_HASH key) < nelts (tab_a t)"
proof -
  let ?p = "positions (contents (tab_a t)) (TABLE_HASH key)"
  have "?p \<noteq> []" "the (index_last t ! TABLE_HASH key) = last ?p"
    using assms TABLE_HASH_less [of key] by (auto simp: table_ok_def index_for_def initialized_bit)
  moreover have "length (contents (tab_a t)) = nelts (tab_a t)" using assms(1) by (simp add: table_ok_def)
  ultimately show ?thesis using last_in_set [of ?p] by (auto simp: positions_def)
qed

lemma getm_fold:
  "getm_result st vs \<Longrightarrow>
     getm_result (fold (\<lambda>i st. snd (table_getm_do st (f i) (g i))) is st) (vs @ map g is)"
proof (induction "is" arbitrary: st vs)
  case (Cons i "is")
  then show ?case using Cons.IH [OF getm_step [OF Cons.prems, of "f i" "g i"]] by simp
qed simp

lemma vals_of_upt:
  assumes "table_ok t"
  shows "map (\<lambda>i. te_val (entry t i)) (filter (\<lambda>i. same_key key (ents t ! i)) [0..<nelts (tab_a t)]) =
    vals_of key (ents t)"
proof -
  have "vals_of key (ents t) = map snd (filter (same_key key) (map (nth (ents t)) [0..<nelts (tab_a t)]))"
    using assms by (simp add: vals_of_def map_nth flip: length_ents)
  also have "\<dots> = map (\<lambda>i. snd (ents t ! i)) (filter (\<lambda>i. same_key key (ents t ! i)) [0..<nelts (tab_a t)])"
    by (simp add: filter_map comp_def)
  also have "\<dots> = map (\<lambda>i. te_val (entry t i)) (filter (\<lambda>i. same_key key (ents t ! i)) [0..<nelts (tab_a t)])"
    using entry_pair [OF assms] by (intro map_cong) (auto, metis pair_of_def snd_conv)
  finally show ?thesis by simp
qed

lemma getm_ok:
  assumes "table_ok t" "nul_free key"
  shows "apr_table_getm t key =
    (case vals_of key (ents t) of [] \<Rightarrow> None | vs \<Rightarrow> Some (join [0x2c] vs))"
proof -
  let ?M = "\<lambda>e. key_matches e key (COMPUTE_KEY_CHECKSUM key)"
  let ?is = "filter (\<lambda>i. same_key key (ents t ! i)) [0..<nelts (tab_a t)]"
  let ?st = "\<lparr>gm_first = None, gm_merged = None\<rparr> :: table_getm_t"
  let ?range = "[the (index_first t ! TABLE_HASH key)..<Suc (the (index_last t ! TABLE_HASH key))]"
  have keys: "te_key (entry t i) \<noteq> None" if "i < nelts (tab_a t)" for i
    using entry_pair [OF assms(1) that] by (auto simp: entry_ok_def split: option.splits)
  have "snd (apr_table_do table_getm_do ?st t [key]) =
      fold (\<lambda>i st. snd (table_getm_do st (the (te_key (entry t i))) (te_val (entry t i)))) ?is ?st"
  proof (cases "TABLE_INDEX_IS_INITIALIZED t (TABLE_HASH key)")
    case True
    have "te_key (entry t i) \<noteq> None" if "i \<in> set ?range" for i
      using that keys bucket_range [OF assms(1) True] by auto
    moreover have "fst (table_getm_do r k v) \<noteq> 0" for r k v
      by (simp add: table_getm_do_def Let_def split: option.split)
    ultimately obtain rv where "vdo_pass table_getm_do ?M t ?range ?st = (rv,
        fold (\<lambda>i st. snd (table_getm_do st (the (te_key (entry t i))) (te_val (entry t i))))
          (filter (\<lambda>i. ?M (entry t i)) ?range) ?st)"
      using vdo_pass_all [where callback = table_getm_do and P = ?M and t = t and js = ?range and r = ?st] by blast
    then show ?thesis using True bucket_filter [OF assms]
      by (simp add: apr_table_do_def apr_table_vdo_def vdo_key_def Let_def del: upt_Suc)
  next
    case False
    then have "?is = []" using bucket_filter [OF assms] by simp
    then show ?thesis using False
      by (simp add: apr_table_do_def apr_table_vdo_def vdo_key_def Let_def)
  qed
  moreover have "getm_result ?st []" by (simp add: getm_result_def)
  ultimately have r: "getm_result (snd (apr_table_do table_getm_do ?st t [key])) (vals_of key (ents t))"
    using getm_fold [of ?st "[]" "\<lambda>i. the (te_key (entry t i))" "\<lambda>i. te_val (entry t i)" ?is]
      vals_of_upt [OF assms(1), of key] by simp
  show ?thesis
  proof (cases "vals_of key (ents t)")
    case (Cons v ws)
    show ?thesis
    proof (cases ws)
      case (Cons w us)
      then obtain arr where "array_ok arr" "contents arr = map Some (v # ws)"
          "apr_table_getm t key = Some (apr_array_pstrcat arr 0x2c)"
        using r \<open>vals_of key (ents t) = v # ws\<close> by (auto simp: apr_table_getm_def Let_def getm_result_def)
      then show ?thesis using \<open>vals_of key (ents t) = v # ws\<close> pstrcat_join [of "0x2c" "v # ws"]
        by (auto simp: apr_array_pstrcat_def contents_def)
    qed (use r Cons in \<open>simp add: apr_table_getm_def Let_def getm_result_def\<close>)
  qed (use r in \<open>simp add: apr_table_getm_def Let_def getm_result_def\<close>)
qed

text \<open>Copies, clones and overlays.\<close>

lemma copy_table_ok: "table_ok t \<Longrightarrow> table_ok (apr_table_copy t) \<and> ents (apr_table_copy t) = ents t"
  by (auto simp: table_ok_def ents_def apr_table_copy_def make_array_core_def Let_def array_ok_def
      contents_def index_for_def)

lemma clone_ok:
  assumes "table_ok t"
  shows "table_ok (apr_table_clone t) \<and> ents (apr_table_clone t) = ents t"
proof -
  let ?f = "\<lambda>i new. apr_table_add new (the (te_key (entry t i))) (te_val (entry t i))"
  have "table_ok (fold ?f [0..<n] (apr_table_make m)) \<and>
      ents (fold ?f [0..<n] (apr_table_make m)) = take n (ents t)" if "n \<le> nelts (tab_a t)" for n m
    using that
  proof (induction n)
    case 0
    then show ?case by (simp add: table_make_ok)
  next
    case (Suc n)
    have n: "entry_ok (entry t n)" "pair_of (entry t n) = ents t ! n"
      using entry_pair [OF assms, of n] Suc.prems by auto
    then have "nul_free (the (te_key (entry t n)))" by (auto simp: entry_ok_def split: option.splits)
    then show ?case
      using Suc n(2) add_dup_ok [of "fold ?f [0..<n] (apr_table_make m)" _ apr_pstrdup] length_ents [OF assms]
      by (auto simp: apr_table_add_def apr_pstrdup_def take_Suc_conv_app_nth pair_of_def)
  qed
  then show ?thesis using length_ents [OF assms] by (simp add: apr_table_clone_def)
qed

lemma overlay_ok:
  assumes "table_ok overlay" "table_ok base"
  shows "table_ok (apr_table_overlay overlay base) \<and> ents (apr_table_overlay overlay base) = ents overlay @ ents base"
proof -
  let ?a = "apr_array_cat null_entry (copy_array_hdr_core (tab_a overlay)) (tab_a base)"
  let ?t = "\<lparr>tab_a = ?a, index_initialized = 0, index_first = replicate TABLE_HASH_SIZE None,
    index_last = replicate TABLE_HASH_SIZE None\<rparr>"
  have "array_ok ?a" "contents ?a = contents (tab_a overlay) @ contents (tab_a base)"
    using assms cat_ok copy_hdr_ok by (fastforce simp: table_ok_def)+
  then show ?thesis
    using reindexed_ok [of ?a ?t] assms
    by (simp add: apr_table_overlay_def table_ok_def ents_def TABLE_HASH_SIZE_def)
qed

end
