(* ===== verification/Apr_Compress.thy ===== *)
theory Apr_Compress
  imports Apr_Tables "HOL-Library.Multiset"
begin

text \<open>
  Sorting, compressing and overlapping tables
  (\<open>src/log4cxx/apr-1.5.2/tables/apr_tables.c\<close>, lines 1002 to 1248). Pointers to entries
  are indices into the entry array; the pointer arrays \<open>values\<close> and \<open>values_tmp\<close> of the
  merge sort are lists, the second one as far as it has been written.
\<close>

subsection \<open>Merge sort\<close>

text \<open>\<open>kf p\<close> is \<open>p->key\<close>. First pass: neighbours are put in order.\<close>

function sort_pairs :: "('p \<Rightarrow> cstring) \<Rightarrow> 'p list \<Rightarrow> nat \<Rightarrow> 'p list" where
  "sort_pairs kf values i =
     (if i + 1 < length values then
        sort_pairs kf
          (if strcasecmp (kf (values ! i)) (kf (values ! (i + 1))) > 0
           then values[i := values ! (i + 1), i + 1 := values ! i] else values) (i + 2)
      else values)"
  by pat_completeness auto
termination by (relation "measure (\<lambda>(kf, values, i). length values - i)") auto

declare sort_pairs.simps [simp del]

text \<open>
  One merge of two blocks. A block start never passes its end, so \<open>\<ge>\<close> is the code's test
  for equality.
\<close>

function merge_blocks :: "('p \<Rightarrow> cstring) \<Rightarrow> 'p list \<Rightarrow> nat \<Rightarrow> nat \<Rightarrow> nat \<Rightarrow> nat \<Rightarrow> 'p list \<Rightarrow> 'p list" where
  "merge_blocks kf values block1_start block1_end block2_start block2_end dst =
     (if block1_start \<ge> block1_end then dst @ map (nth values) [block2_start..<block2_end]
      else if block2_start \<ge> block2_end then dst @ map (nth values) [block1_start..<block1_end]
      else if strcasecmp (kf (values ! block1_start)) (kf (values ! block2_start)) > 0 then
        merge_blocks kf values block1_start block1_end (block2_start + 1) block2_end
          (dst @ [values ! block2_start])
      else
        merge_blocks kf values (block1_start + 1) block1_end block2_start block2_end
          (dst @ [values ! block1_start]))"
  by pat_completeness auto
termination
  by (relation "measure (\<lambda>(kf, values, b1, e1, b2, e2, dst). (e1 - b1) + (e2 - b2))") auto

declare merge_blocks.simps [simp del]

text \<open>One pass over the blocks; \<open>blocksize\<close> is at least 2.\<close>

function merge_pass :: "('p \<Rightarrow> cstring) \<Rightarrow> nat \<Rightarrow> 'p list \<Rightarrow> nat \<Rightarrow> nat \<Rightarrow> 'p list \<Rightarrow> 'p list" where
  "merge_pass kf n values blocksize next_start dst =
     (if next_start + blocksize < n \<and> blocksize > 0 then
        (let block2_start = next_start + blocksize;
             block2_end = (if block2_start + blocksize > n then n else block2_start + blocksize)
         in merge_pass kf n values blocksize (next_start + (blocksize + blocksize))
              (merge_blocks kf values next_start block2_start block2_start block2_end dst))
      else dst)"
  by pat_completeness auto
termination by (relation "measure (\<lambda>(kf, n, values, bs, next_start, dst). n - next_start)") auto

declare merge_pass.simps [simp del]

function merge_rounds :: "('p \<Rightarrow> cstring) \<Rightarrow> nat \<Rightarrow> 'p list \<Rightarrow> nat \<Rightarrow> 'p list" where
  "merge_rounds kf n values blocksize =
     (if blocksize < n \<and> blocksize > 0 then
        (let dst = merge_pass kf n values blocksize 0 [];
             values_tmp = dst @ drop (length dst) (take n values)
         in merge_rounds kf n values_tmp (blocksize + blocksize))
      else values)"
  by pat_completeness auto
termination by (relation "measure (\<lambda>(kf, n, values, bs). n - bs)") auto

declare merge_rounds.simps [simp del]

definition table_mergesort :: "('p \<Rightarrow> cstring) \<Rightarrow> 'p list \<Rightarrow> nat \<Rightarrow> 'p list" where
  "table_mergesort kf values n = merge_rounds kf n (sort_pairs kf values 0) 2"

subsection \<open>The sort is stable\<close>

fun merge_by :: "('a \<Rightarrow> 'b::linorder) \<Rightarrow> 'a list \<Rightarrow> 'a list \<Rightarrow> 'a list" where
  "merge_by f [] ys = ys"
| "merge_by f xs [] = xs"
| "merge_by f (x # xs) (y # ys) =
     (if f y < f x then y # merge_by f (x # xs) ys else x # merge_by f xs (y # ys))"

lemma merge_by_Nil [simp]: "merge_by f xs [] = xs"
  by (cases xs) auto

lemma mset_merge_by: "mset (merge_by f xs ys) = mset xs + mset ys"
  by (induction f xs ys rule: merge_by.induct) auto

lemma set_merge_by: "set (merge_by f xs ys) = set xs \<union> set ys"
  using mset_merge_by [of f xs ys] by (metis set_mset_mset set_mset_union)

lemma sorted_merge_by:
  "sorted (map f xs) \<Longrightarrow> sorted (map f ys) \<Longrightarrow> sorted (map f (merge_by f xs ys))"
  by (induction f xs ys rule: merge_by.induct) (auto simp: set_merge_by not_less intro: order_trans less_imp_le)

lemma filter_merge_by:
  "sorted (map f xs) \<Longrightarrow> filter (\<lambda>x. f k = f x) (merge_by f xs ys) =
     filter (\<lambda>x. f k = f x) xs @ filter (\<lambda>x. f k = f x) ys"
proof (induction f xs ys rule: merge_by.induct)
  case (3 f x xs y ys)
  show ?case
  proof (cases "f y < f x \<and> f k = f y")
    case True
    then have "filter (\<lambda>x. f k = f x) (x # xs) = []"
      using "3.prems" by (auto simp: filter_empty_conv)
    then show ?thesis using 3 True by simp
  next
    case False
    then show ?thesis using 3 by auto
  qed
qed auto

lemma sort_key_filter: "filter (\<lambda>x. f k = f x) (sort_key f xs) = filter (\<lambda>x. f k = f x) xs"
  using sort_key_stable [of f "f k" xs] by (simp only: eq_commute)

lemma merge_by_sort_key: "merge_by f (sort_key f xs) (sort_key f ys) = sort_key f (xs @ ys)"
  by (rule properties_for_sort_key [symmetric])
    (simp_all add: mset_merge_by sorted_merge_by filter_merge_by sort_key_filter)

text \<open>Blocks of \<open>n\<close> elements, each sorted.\<close>

function bsort :: "('a \<Rightarrow> 'b::linorder) \<Rightarrow> nat \<Rightarrow> 'a list \<Rightarrow> 'a list" where
  "bsort f n xs = (if length xs \<le> n \<or> n = 0 then sort_key f xs
     else sort_key f (take n xs) @ bsort f n (drop n xs))"
  by pat_completeness auto
termination by (relation "measure (\<lambda>(f, n, xs). length xs)") auto

declare bsort.simps [simp del]

lemma length_bsort [simp]: "length (bsort f n xs) = length xs"
proof (induction f n xs rule: bsort.induct)
  case (1 f n xs)
  then show ?case by (subst bsort.simps) auto
qed

lemma set_bsort [simp]: "set (bsort f n xs) = set xs"
proof (induction f n xs rule: bsort.induct)
  case (1 f n xs)
  then show ?case by (subst bsort.simps) (auto simp flip: set_append [of "take n xs" "drop n xs"])
qed

lemma sort_pairs_bsort:
  assumes "\<And>p. p \<in> set rest \<Longrightarrow> nul_free (kf p)"
  shows "sort_pairs kf (pre @ rest) (length pre) = pre @ bsort (\<lambda>p. lower (kf p)) 2 rest"
  using assms
proof (induction "length rest" arbitrary: pre rest rule: less_induct)
  case less
  show ?case
  proof (cases "\<exists>a b xs. rest = a # b # xs")
    case False
    then have "length rest \<le> 1" by (cases rest; cases "tl rest") auto
    moreover from this have "sort_key (\<lambda>p. lower (kf p)) rest = rest" by (cases rest) auto
    ultimately show ?thesis by (subst sort_pairs.simps, subst bsort.simps) auto
  next
    case True
    then obtain a b xs where rest: "rest = a # b # xs" by blast
    let ?c = "if strcasecmp (kf a) (kf b) > 0 then [b, a] else [a, b]"
    have c: "?c = sort_key (\<lambda>p. lower (kf p)) [a, b]"
      using less.prems by (auto simp: rest strcasecmp_gt)
    have "sort_pairs kf (pre @ rest) (length pre) = sort_pairs kf ((pre @ ?c) @ xs) (length (pre @ ?c))"
      by (subst sort_pairs.simps) (simp add: rest nth_append list_update_append)
    also have "\<dots> = (pre @ ?c) @ bsort (\<lambda>p. lower (kf p)) 2 xs"
      by (rule less.hyps) (use less.prems in \<open>auto simp: rest\<close>)
    also have "\<dots> = pre @ bsort (\<lambda>p. lower (kf p)) 2 rest"
    proof (cases xs)
      case Nil
      then show ?thesis unfolding c by (simp add: rest bsort.simps)
    next
      case (Cons y ys)
      then show ?thesis unfolding c by (subst (2) bsort.simps) (simp add: rest)
    qed
    finally show ?thesis .
  qed
qed

lemma merge_blocks_merge_by:
  assumes "\<And>p. p \<in> set values \<Longrightarrow> nul_free (kf p)" "e1 \<le> length values" "e2 \<le> length values"
  shows "merge_blocks kf values b1 e1 b2 e2 dst =
    dst @ merge_by (\<lambda>p. lower (kf p)) (map (nth values) [b1..<e1]) (map (nth values) [b2..<e2])"
  using assms
proof (induction kf "values" b1 e1 b2 e2 dst rule: merge_blocks.induct)
  case (1 kf vs b1 e1 b2 e2 dst)
  show ?case
  proof (cases "b1 < e1 \<and> b2 < e2")
    case False
    then show ?thesis by (subst merge_blocks.simps) auto
  next
    case True
    then have "nul_free (kf (vs ! b1))" "nul_free (kf (vs ! b2))" using "1.prems" by auto
    then show ?thesis
      using 1 True by (subst merge_blocks.simps) (auto simp: upt_conv_Cons strcasecmp_gt)
  qed
qed

lemma upt_nth_append:
  "map (nth (pre @ mid @ post)) [length pre..<length pre + length mid] = mid"
  by (rule nth_equalityI) (auto simp: nth_append)

lemma merge_pass_bsort:
  fixes kf :: "'p \<Rightarrow> cstring"
  defines "f \<equiv> \<lambda>p. lower (kf p)"
  assumes "\<And>p. p \<in> set (pre @ rest) \<Longrightarrow> nul_free (kf p)" "0 < bs"
    and "values = pre @ bsort f bs rest" "n = length values" "length dst = length pre"
    and "next_start = length pre \<or> rest = [] \<and> length pre \<le> next_start"
  shows "length (merge_pass kf n values bs next_start dst) \<le> n \<and>
    merge_pass kf n values bs next_start dst @ drop (length (merge_pass kf n values bs next_start dst)) values =
      dst @ bsort f (bs + bs) rest"
  using assms(2-)
proof (induction "length rest" arbitrary: pre rest dst next_start rule: less_induct)
  case less
  have n: "n = length pre + length rest" using less.prems by simp
  show ?case
  proof (cases "bs < length rest")
    case False
    then have "merge_pass kf n values bs next_start dst = dst"
      using n less.prems(6) by (subst merge_pass.simps) auto
    moreover have "bsort f bs rest = bsort f (bs + bs) rest"
      using False by (subst (1 2) bsort.simps) simp
    ultimately show ?thesis using less.prems(3,5) n by simp
  next
    case True
    let ?a = "sort_key f (take bs rest)" and ?b = "sort_key f (take bs (drop bs rest))"
    let ?rest = "drop (bs + bs) rest"
    have ns: "next_start = length pre" using True less.prems(6) by auto
    have "bsort f bs rest = ?a @ ?b @ bsort f bs ?rest"
    proof -
      have "bsort f bs rest = ?a @ bsort f bs (drop bs rest)"
        using \<open>bs < length rest\<close> \<open>0 < bs\<close> by (subst bsort.simps) simp
      moreover have "bsort f bs (drop bs rest) = ?b @ bsort f bs ?rest"
        using \<open>0 < bs\<close> by (subst bsort.simps) (simp add: bsort.simps)
      ultimately show ?thesis by simp
    qed
    then have v: "values = pre @ ?a @ ?b @ bsort f bs ?rest" using less.prems(3) by simp
    have e: "(if length pre + bs + bs > n then n else length pre + bs + bs) = length pre + bs + length ?b"
      using True by (auto simp: n min_def)
    have slices: "map (nth values) [length pre..<length pre + bs] = ?a"
      "map (nth values) [length pre + bs..<length pre + bs + length ?b] = ?b"
      using upt_nth_append [of pre ?a "?b @ bsort f bs ?rest"]
        upt_nth_append [of "pre @ ?a" ?b "bsort f bs ?rest"] True by (simp_all add: v)
    let ?dst = "dst @ sort_key f (take (bs + bs) rest)"
    have nf: "\<And>p. p \<in> set values \<Longrightarrow> nul_free (kf p)" using less.prems(1,3) by auto
    have le: "length pre + bs \<le> length values" "length pre + bs + length ?b \<le> length values"
      using True n less.prems(4) by auto
    have "merge_blocks kf values (length pre) (length pre + bs) (length pre + bs) (length pre + bs + length ?b) dst
        = dst @ merge_by f ?a ?b"
      using merge_blocks_merge_by [where ?b1.0 = "length pre" and ?b2.0 = "length pre + bs" and dst = dst, OF nf le] slices
      by (simp only: flip: f_def)
    also have "merge_by f ?a ?b = sort_key f (take (bs + bs) rest)"
      by (simp only: merge_by_sort_key take_add)
    finally have step: "merge_pass kf n values bs next_start dst =
        merge_pass kf n values bs (next_start + (bs + bs)) ?dst"
      using True n \<open>0 < bs\<close> e by (subst merge_pass.simps) (simp add: ns Let_def)
    have IH: "length (merge_pass kf n values bs (next_start + (bs + bs)) ?dst) \<le> n \<and>
        merge_pass kf n values bs (next_start + (bs + bs)) ?dst @
          drop (length (merge_pass kf n values bs (next_start + (bs + bs)) ?dst)) values =
        ?dst @ bsort f (bs + bs) ?rest"
    proof (rule less.hyps [where pre = "pre @ ?a @ ?b"])
      show "length ?rest < length rest" using True \<open>0 < bs\<close> by simp
      show "nul_free (kf p)" if "p \<in> set ((pre @ ?a @ ?b) @ ?rest)" for p
        using that less.prems(1) by (auto dest!: in_set_takeD in_set_dropD)
      show "values = (pre @ ?a @ ?b) @ bsort f bs ?rest" by (simp add: v)
    qed (use less.prems True ns in \<open>auto simp: min_def\<close>)
    moreover have "?dst @ bsort f (bs + bs) ?rest = dst @ bsort f (bs + bs) rest"
      using \<open>0 < bs\<close> by (subst (2) bsort.simps) (simp add: bsort.simps)
    ultimately show ?thesis by (simp only: step)
  qed
qed

lemma merge_rounds_bsort:
  assumes "\<And>p. p \<in> set xs \<Longrightarrow> nul_free (kf p)" "0 < bs" "n = length xs"
  shows "merge_rounds kf n (bsort (\<lambda>p. lower (kf p)) bs xs) bs = sort_key (\<lambda>p. lower (kf p)) xs"
  using assms(2)
proof (induction "n - bs" arbitrary: bs rule: less_induct)
  case less
  let ?f = "\<lambda>p. lower (kf p)"
  let ?v = "bsort ?f bs xs"
  let ?dst = "merge_pass kf n ?v bs 0 []"
  show ?case
  proof (cases "bs < n")
    case True
    have "?dst @ drop (length ?dst) (take n ?v) = bsort ?f (bs + bs) xs"
      using merge_pass_bsort [of "[]" xs kf bs ?v n "[]" 0] assms less.prems by simp
    then have "merge_rounds kf n ?v bs = merge_rounds kf n (bsort ?f (bs + bs) xs) (bs + bs)"
      using True less.prems by (subst merge_rounds.simps) (simp add: Let_def)
    also have "\<dots> = sort_key ?f xs" using True less.prems by (intro less.hyps) auto
    finally show ?thesis .
  next
    case False
    then show ?thesis using assms(3) by (subst merge_rounds.simps, subst bsort.simps) simp
  qed
qed

lemma mergesort_sort_key:
  assumes "\<And>p. p \<in> set values \<Longrightarrow> nul_free (kf p)"
  shows "table_mergesort kf values (length values) = sort_key (\<lambda>p. lower (kf p)) values"
  using sort_pairs_bsort [of "values" kf "[]"] merge_rounds_bsort [of "values" kf 2 "length values"] assms
  by (simp add: table_mergesort_def)

subsection \<open>Compressing\<close>

datatype overlap_flag = APR_OVERLAP_TABLES_SET | APR_OVERLAP_TABLES_MERGE

abbreviation elt :: "table_entry array_header \<Rightarrow> nat \<Rightarrow> table_entry" where
  "elt arr i \<equiv> the (elts arr ! i)"

definition set_elt :: "nat \<Rightarrow> table_entry \<Rightarrow> table_entry array_header \<Rightarrow> table_entry array_header" where
  "set_elt i e arr = arr\<lparr>elts := (elts arr)[i := Some e]\<rparr>"

definition same_entry :: "table_entry \<Rightarrow> table_entry \<Rightarrow> bool" where
  "same_entry e e' = (key_checksum e = key_checksum e' \<and> strcasecmp (the (te_key e)) (the (te_key e')) = 0)"

text \<open>The buffer of a merged value: \<open>len\<close>, and what is copied into it before the NUL.\<close>

definition merged_len :: "cstring list \<Rightarrow> nat" where
  "merged_len vs = fold (\<lambda>v len. len + length v + 2) vs 0"

fun merged_val :: "cstring list \<Rightarrow> cstring" where
  "merged_val [] = []"
| "merged_val [v] = v"
| "merged_val (v # w # vs) = v @ [0x2c, 0x20] @ merged_val (w # vs)"

text \<open>
  The loop over the sorted pointers; \<open>last_p\<close> and \<open>sort_next\<close> are positions in
  \<open>sort_array\<close>. \<open>dup_last\<close> is the last of the entries with the key of \<open>*last\<close>.
\<close>

function compress_loop :: "overlap_flag \<Rightarrow> nat list \<Rightarrow> table_entry array_header \<Rightarrow> nat \<Rightarrow> nat \<Rightarrow> bool \<Rightarrow>
    table_entry array_header \<times> bool" where
  "compress_loop flags sort_array arr last_p sort_next dups_found =
     (if sort_next < length sort_array then
        if same_entry (elt arr (sort_array ! sort_next)) (elt arr (sort_array ! last_p)) then
          (let dup_last = sort_next + length (takeWhile
                 (\<lambda>j. same_entry (elt arr (sort_array ! j)) (elt arr (sort_array ! last_p)))
                 [Suc sort_next..<length sort_array]);
               new_val = (if flags = APR_OVERLAP_TABLES_MERGE
                          then merged_val (map (\<lambda>j. te_val (elt arr (sort_array ! j))) [last_p..<Suc dup_last])
                          else te_val (elt arr (sort_array ! dup_last)));
               arr = set_elt (sort_array ! last_p) ((elt arr (sort_array ! last_p))\<lparr>te_val := new_val\<rparr>) arr;
               arr = fold (\<lambda>j arr. set_elt (sort_array ! j) ((elt arr (sort_array ! j))\<lparr>te_key := None\<rparr>) arr)
                       [sort_next..<Suc dup_last] arr
           in compress_loop flags sort_array arr last_p (Suc dup_last) True)
        else compress_loop flags sort_array arr sort_next (Suc sort_next) dups_found
      else (arr, dups_found))"
  by pat_completeness auto
termination by (relation "measure (\<lambda>(flags, sa, arr, last_p, sort_next, d). length sa - sort_next)") auto

declare compress_loop.simps [simp del]

text \<open>The entries whose key is NULL are dropped.\<close>

definition drop_null :: "nat \<Rightarrow> table_entry array_header \<times> nat \<Rightarrow> table_entry array_header \<times> nat" where
  "drop_null j s = (case s of (arr, dst) \<Rightarrow>
     if te_key (elt arr j) \<noteq> None then move_elt j (arr, dst) else (arr, dst))"

definition remove_nulls :: "table_entry array_header \<Rightarrow> table_entry array_header" where
  "remove_nulls arr =
     (case fold drop_null [0..<nelts arr] (arr, 0) of (arr', dst) \<Rightarrow>
        arr'\<lparr>nelts := nelts arr - (nelts arr - dst)\<rparr>)"

definition apr_table_compress :: "apr_table \<Rightarrow> overlap_flag \<Rightarrow> apr_table" where
  "apr_table_compress t flags =
     (if nelts (tab_a t) \<le> 1 then t
      else
        (let n = nelts (tab_a t);
             sort_array = table_mergesort (\<lambda>i. the (te_key (entry t i))) [0..<n] n
         in case compress_loop flags sort_array (tab_a t) 0 1 False of (arr, dups_found) \<Rightarrow>
              table_reindex (t\<lparr>tab_a := (if dups_found then remove_nulls arr else arr)\<rparr>)))"

text \<open>Appending a table, with the loop over the 32 index slots.\<close>

definition cat_index :: "nat \<Rightarrow> apr_table \<Rightarrow> nat \<Rightarrow> apr_table \<Rightarrow> apr_table" where
  "cat_index n s idx t =
     (if TABLE_INDEX_IS_INITIALIZED s idx then
        (let t = t\<lparr>index_last := (index_last t)[idx := Some (the (index_last s ! idx) + n)]\<rparr>
         in if \<not> TABLE_INDEX_IS_INITIALIZED t idx
            then t\<lparr>index_first := (index_first t)[idx := Some (the (index_first s ! idx) + n)]\<rparr>
            else t)
      else t)"

definition apr_table_cat :: "apr_table \<Rightarrow> apr_table \<Rightarrow> apr_table" where
  "apr_table_cat t s =
     (let n = nelts (tab_a t);
          t = t\<lparr>tab_a := apr_array_cat null_entry (tab_a t) (tab_a s)\<rparr>
      in if n = 0 then
           t\<lparr>index_first := index_first s, index_last := index_last s,
             index_initialized := index_initialized s\<rparr>
         else
           (let t = fold (cat_index n s) [0..<TABLE_HASH_SIZE] t
            in t\<lparr>index_initialized := index_initialized t OR index_initialized s\<rparr>))"

definition apr_table_overlap :: "apr_table \<Rightarrow> apr_table \<Rightarrow> overlap_flag \<Rightarrow> apr_table" where
  "apr_table_overlap a b flags =
     (if nelts (tab_a a) + nelts (tab_a b) = 0 then a
      else apr_table_compress (apr_table_cat a b) flags)"

subsection \<open>Removal of the cleared entries\<close>

text \<open>A merged value and its NUL fit into the buffer.\<close>

lemma merged_fits: "vs \<noteq> [] \<Longrightarrow> length (merged_val vs) + 1 < merged_len vs"
proof -
  have fold: "fold (\<lambda>v len. len + length v + 2) vs k = k + fold (\<lambda>v len. len + length v + 2) vs 0"
    for vs :: "cstring list" and k
  proof (induction vs arbitrary: k)
    case (Cons v vs)
    show ?case using Cons [of "k + length v + 2"] Cons [of "length v + 2"] by simp
  qed simp
  show "vs \<noteq> [] \<Longrightarrow> length (merged_val vs) + 1 < merged_len vs"
  proof (induction vs rule: merged_val.induct)
    case (3 v w vs)
    then show ?case using fold [of "w # vs" "length v + 2"] by (simp add: merged_len_def)
  qed (simp_all add: merged_len_def)
qed

lemma merged_val_join: "merged_val vs = join (str '', '') vs"
  by (induction "str '', ''" vs rule: join.induct) simp_all

lemma arr_update_order: "arr\<lparr>nelts := m, elts := e\<rparr> = arr\<lparr>elts := e, nelts := m\<rparr>"
  by simp

lemma drop_null_compact:
  "fold drop_null js (arr\<lparr>nelts := m\<rparr>, d) =
     (case fold (compact_step (\<lambda>e. te_key e = None)) js (arr, d) of (arr', d') \<Rightarrow> (arr'\<lparr>nelts := m\<rparr>, d'))"
proof (induction js arbitrary: arr d)
  case (Cons j js)
  show ?case
    using Cons [of "arr\<lparr>nelts := nelts arr - 1\<rparr>" d] Cons [of "arr\<lparr>elts := (elts arr)[d := elts arr ! j]\<rparr>" "Suc d"]
    by (simp add: drop_null_def compact_step_def move_elt_def arr_update_order)
qed simp

lemma remove_nulls_ok:
  assumes "array_ok arr"
  shows "array_ok (remove_nulls arr) \<and>
    contents (remove_nulls arr) = filter (\<lambda>e. te_key e \<noteq> None) (contents arr)"
proof -
  define Q where "Q = (\<lambda>e :: table_entry. te_key e = None)"
  let ?N = "nelts arr"
  obtain a d where ad: "fold (compact_step Q) [0..<?N] (arr, 0) = (a, d)" by fastforce
  have bounds: "?N \<le> nalloc arr" "nalloc arr \<le> length (elts arr)" using assms by (simp_all add: array_ok_def)
  have c: "take ?N (elts arr) = map Some (contents arr)"
    using assms by (auto elim!: array_okE)
  have filt: "filter (\<lambda>x. \<not> Q (the x)) (map Some es) = map Some (filter (\<lambda>e. \<not> Q e) es)" for es
    by (simp add: filter_map comp_def)
  have r: "nalloc a = nalloc arr" "length (elts a) = length (elts arr)"
    "d = length (filter (\<lambda>e. \<not> Q e) (contents arr))"
    "take d (elts a) = map Some (filter (\<lambda>e. \<not> Q e) (contents arr))"
    using compact_loop [OF _ _ _ ad] bounds by (auto simp: c filt simp del: filter_map)
  have "d \<le> ?N" using r(3) length_filter_le [of _ "contents arr"] assms by (metis length_contents)
  moreover have "remove_nulls arr = a\<lparr>nelts := ?N - (?N - d)\<rparr>"
    using drop_null_compact [where js = "[0..<?N]" and arr = arr and m = ?N and d = 0] ad by (simp add: remove_nulls_def Q_def)
  ultimately show ?thesis using r bounds
    by (simp add: array_ok_def contents_def comp_def Q_def)
qed

subsection \<open>The loop over the sorted entries\<close>

lemma elt_contents: "array_ok arr \<Longrightarrow> i < nelts arr \<Longrightarrow> elt arr i = contents arr ! i"
  by (simp add: contents_nth)

lemma set_elt_ok:
  "array_ok arr \<Longrightarrow> i < nelts arr \<Longrightarrow> array_ok (set_elt i e arr) \<and> nelts (set_elt i e arr) = nelts arr \<and>
     contents (set_elt i e arr) = (contents arr)[i := e]"
  using put_contents [of arr i e] by (simp add: set_elt_def)

lemma clear_keys_ok:
  assumes "array_ok arr" "\<forall>y \<in> set ys. y < nelts arr"
  defines "r \<equiv> fold (\<lambda>y arr. set_elt y ((elt arr y)\<lparr>te_key := None\<rparr>) arr) ys arr"
  shows "array_ok r \<and> nelts r = nelts arr \<and>
    (\<forall>i < nelts arr. contents r ! i =
       (if i \<in> set ys then (contents arr ! i)\<lparr>te_key := None\<rparr> else contents arr ! i))"
  using assms(1,2) unfolding r_def
proof (induction ys arbitrary: arr)
  case (Cons y ys)
  let ?a = "set_elt y ((elt arr y)\<lparr>te_key := None\<rparr>) arr"
  have a: "array_ok ?a" "nelts ?a = nelts arr"
    "contents ?a = (contents arr)[y := (contents arr ! y)\<lparr>te_key := None\<rparr>]"
    using set_elt_ok Cons.prems by (simp_all add: elt_contents)
  have IH: "array_ok (fold (\<lambda>y arr. set_elt y ((elt arr y)\<lparr>te_key := None\<rparr>) arr) ys ?a) \<and>
      nelts (fold (\<lambda>y arr. set_elt y ((elt arr y)\<lparr>te_key := None\<rparr>) arr) ys ?a) = nelts arr \<and>
      (\<forall>i < nelts arr. contents (fold (\<lambda>y arr. set_elt y ((elt arr y)\<lparr>te_key := None\<rparr>) arr) ys ?a) ! i =
         (if i \<in> set ys then (contents ?a ! i)\<lparr>te_key := None\<rparr> else contents ?a ! i))"
    using Cons.IH [of ?a] a Cons.prems by simp
  have "y < length (contents arr)" "length (contents arr) = nelts arr" using Cons.prems by simp_all
  then show ?case using IH by (auto simp: a(3) nth_list_update)
qed simp

text \<open>
  What the loop makes of the entries \<open>ys\<close> of sorted positions: the first entry of each key gets
  the combined value, the others lose their key.
\<close>

definition low :: "table_entry list \<Rightarrow> nat \<Rightarrow> cstring" where
  "low c y = lower (the (te_key (c ! y)))"

definition key_class :: "table_entry list \<Rightarrow> nat list \<Rightarrow> nat \<Rightarrow> nat list" where
  "key_class c ys i = filter (\<lambda>y. low c y = low c i) ys"

definition combine :: "overlap_flag \<Rightarrow> cstring list \<Rightarrow> cstring" where
  "combine flags vs = (if flags = APR_OVERLAP_TABLES_MERGE then join (str '', '') vs else last vs)"

definition compressed :: "overlap_flag \<Rightarrow> table_entry list \<Rightarrow> nat list \<Rightarrow> nat \<Rightarrow> table_entry" where
  "compressed flags c ys i =
     (if i = hd (key_class c ys i)
      then (c ! i)\<lparr>te_val := combine flags (map (\<lambda>y. te_val (c ! y)) (key_class c ys i))\<rparr>
      else (c ! i)\<lparr>te_key := None\<rparr>)"

lemma same_entry_low:
  assumes "entry_ok e" "entry_ok e'"
  shows "same_entry e e' \<longleftrightarrow> lower (the (te_key e)) = lower (the (te_key e'))"
  using assms by (auto simp: same_entry_def entry_ok_def strcasecmp_eq dest: checksum_cong split: option.splits)

lemma key_class_split:
  assumes "sorted (map (low c) (x # ds @ rest))" "\<forall>y \<in> set ds. low c y = low c x"
    and "rest \<noteq> [] \<Longrightarrow> low c (hd rest) \<noteq> low c x"
  shows "i \<in> set (x # ds) \<Longrightarrow> key_class c (x # ds @ rest) i = x # ds"
    and "i \<in> set rest \<Longrightarrow> key_class c (x # ds @ rest) i = key_class c rest i"
proof -
  have gt: "low c y > low c x" if y: "y \<in> set rest" for y
  proof -
    obtain r rs where "rest = r # rs" using y by (cases rest) auto
    then have "low c x < low c r" "low c r \<le> low c y" using assms y by (auto simp: sorted_append)
    then show ?thesis by simp
  qed
  have ne: "\<forall>y \<in> set rest. low c y \<noteq> low c x" using gt by fastforce
  show "key_class c (x # ds @ rest) i = x # ds" if "i \<in> set (x # ds)"
  proof -
    have "low c i = low c x" using that assms(2) by auto
    then show ?thesis using assms(2) ne by (simp add: key_class_def filter_id_conv filter_empty_conv)
  qed
  show "key_class c (x # ds @ rest) i = key_class c rest i" if "i \<in> set rest"
  proof -
    have "low c x \<noteq> low c i" using that gt by fastforce
    then show ?thesis using assms(2) by (simp add: key_class_def filter_empty_conv)
  qed
qed

lemma takeWhile_ext:
  "\<forall>y \<in> set ds. P y \<Longrightarrow> rest = [] \<or> \<not> P (hd rest) \<Longrightarrow> takeWhile P (ds @ rest) = ds"
  by (induction ds) (cases rest; auto)+

text \<open>One group of entries with the same key.\<close>

lemma compress_group:
  assumes sa: "sa = pre @ x # z # ds @ rest" "\<forall>y \<in> set sa. y < length c"
    and c: "list_all entry_ok c" "array_ok arr" "nelts arr = length c"
      "\<forall>y \<in> set (x # z # ds @ rest). contents arr ! y = c ! y"
    and grp: "\<forall>y \<in> set (z # ds). low c y = low c x" "rest = [] \<or> low c (hd rest) \<noteq> low c x"
  shows "compress_loop flags sa arr (length pre) (Suc (length pre)) d =
    compress_loop flags sa
      (fold (\<lambda>y arr. set_elt y ((elt arr y)\<lparr>te_key := None\<rparr>) arr) (z # ds)
        (set_elt x ((c ! x)\<lparr>te_val := combine flags (map (\<lambda>y. te_val (c ! y)) (x # z # ds))\<rparr>) arr))
      (length pre) (Suc (length pre) + length (z # ds)) True"
proof -
  let ?p = "length pre"
  let ?same = "\<lambda>y. same_entry (elt arr y) (elt arr (sa ! ?p))"
  have x: "sa ! ?p = x" "sa ! Suc ?p = z" by (simp_all add: sa nth_append)
  have e: "elt arr y = c ! y" "entry_ok (c ! y)" if "y \<in> set (x # z # ds @ rest)" for y
    using that c sa elt_contents [OF c(2), of y] by (auto simp: list_all_length)
  have same: "?same y = (low c y = low c x)" if "y \<in> set (x # z # ds @ rest)" for y
    using that e [OF that] e [of x] by (simp add: x same_entry_low low_def)
  have "map (nth sa) [Suc (Suc ?p)..<length sa] = ds @ rest"
    using upt_nth_append [of "pre @ [x, z]" "ds @ rest" "[]"] by (simp add: sa add.commute)
  moreover have "takeWhile ?same (ds @ rest) = ds"
  proof (rule takeWhile_ext)
    show "\<forall>y \<in> set ds. ?same y" using grp same by simp
    show "rest = [] \<or> \<not> ?same (hd rest)" using grp(2) same [of "hd rest"] by (cases rest) auto
  qed
  ultimately have tw: "length (takeWhile (\<lambda>j. ?same (sa ! j)) [Suc (Suc ?p)..<length sa]) = length ds"
    by (metis (no_types, lifting) length_map takeWhile_map comp_apply takeWhile_cong)
  have grp_idx: "map (nth sa) [?p..<Suc (Suc ?p + length ds)] = x # z # ds"
    "map (nth sa) [Suc ?p..<Suc (Suc ?p + length ds)] = z # ds"
    using upt_nth_append [of pre "x # z # ds" rest] upt_nth_append [of "pre @ [x]" "z # ds" rest]
    by (simp_all add: sa del: upt_Suc)
  have last: "sa ! (Suc ?p + length ds) = last (z # ds)"
    using upt_nth_append [of "pre @ [x]" "z # ds" rest]
    by (simp add: sa nth_append last_conv_nth nth_Cons')
  have vals: "map (\<lambda>j. te_val (elt arr (sa ! j))) [?p..<Suc (Suc ?p + length ds)] =
      map (\<lambda>y. te_val (c ! y)) (x # z # ds)"
  proof -
    have "map (\<lambda>j. te_val (elt arr (sa ! j))) [?p..<Suc (Suc ?p + length ds)] =
        map (\<lambda>y. te_val (elt arr y)) (map (nth sa) [?p..<Suc (Suc ?p + length ds)])"
      by (simp add: comp_def)
    also have "\<dots> = map (\<lambda>y. te_val (elt arr y)) (x # z # ds)" by (simp only: grp_idx)
    also have "\<dots> = map (\<lambda>y. te_val (c ! y)) (x # z # ds)" using e(1) by (intro map_cong) auto
    finally show ?thesis .
  qed
  have new_val: "(if flags = APR_OVERLAP_TABLES_MERGE
      then merged_val (map (\<lambda>j. te_val (elt arr (sa ! j))) [?p..<Suc (Suc ?p + length ds)])
      else te_val (elt arr (sa ! (Suc ?p + length ds)))) = combine flags (map (\<lambda>y. te_val (c ! y)) (x # z # ds))"
  proof -
    have "last (z # ds) \<in> set (x # z # ds @ rest)" using last_in_set [of "z # ds"] by auto
    then show ?thesis unfolding vals last
      by (simp add: combine_def merged_val_join e last_map)
  qed
  have fold: "fold (\<lambda>j arr. set_elt (sa ! j) ((elt arr (sa ! j))\<lparr>te_key := None\<rparr>) arr)
      [Suc ?p..<Suc (Suc ?p + length ds)] a =
      fold (\<lambda>y arr. set_elt y ((elt arr y)\<lparr>te_key := None\<rparr>) arr) (z # ds) a" for a
  proof -
    let ?g = "\<lambda>y arr. set_elt y ((elt arr y)\<lparr>te_key := None\<rparr>) arr"
    have "fold ?g (z # ds) a = fold ?g (map (nth sa) [Suc ?p..<Suc (Suc ?p + length ds)]) a"
      by (simp only: grp_idx(2))
    also have "\<dots> = fold (\<lambda>j arr. set_elt (sa ! j) ((elt arr (sa ! j))\<lparr>te_key := None\<rparr>) arr)
        [Suc ?p..<Suc (Suc ?p + length ds)] a"
      by (simp only: fold_map comp_def)
    finally show ?thesis by simp
  qed
  have ex: "elt arr x = c ! x" using e(1) by simp
  have "Suc ?p < length sa" by (simp add: sa)
  moreover have "?same (sa ! Suc ?p)" using same [of z] grp(1) by (simp add: x)
  ultimately show ?thesis
    by (subst compress_loop.simps) (simp only: if_True Let_def tw new_val fold, simp only: x(1) ex length_Cons add_Suc_right)
qed

lemma key_class_self: "key_class c [x] x = [x]"
  by (simp add: key_class_def)

lemma compress_loop_ok:
  assumes sa: "distinct sa" "\<forall>y \<in> set sa. y < length c" "list_all entry_ok c"
    and "sa = pre @ x # zs" "array_ok arr" "nelts arr = length c"
      "\<forall>y \<in> set (x # zs). contents arr ! y = c ! y" "sorted (map (low c) (x # zs))"
  shows "\<exists>arr' d'. compress_loop flags sa arr (length pre) (Suc (length pre)) d = (arr', d') \<and>
    array_ok arr' \<and> nelts arr' = length c \<and>
    (\<forall>i < length c. contents arr' ! i =
       (if i \<in> set (x # zs) then compressed flags c (x # zs) i else contents arr ! i)) \<and>
    (\<not> d' \<longrightarrow> \<not> d \<and> (\<forall>i \<in> set (x # zs). i = hd (key_class c (x # zs) i)))"
  using assms(4-)
proof (induction "length zs" arbitrary: pre x zs arr d rule: less_induct)
  case less
  define ds where "ds = takeWhile (\<lambda>y. low c y = low c x) zs"
  define rest where "rest = dropWhile (\<lambda>y. low c y = low c x) zs"
  have zs: "zs = ds @ rest" by (simp add: ds_def rest_def)
  have ds: "\<forall>y \<in> set ds. low c y = low c x" by (auto simp: ds_def dest: set_takeWhileD)
  have rest: "rest = [] \<or> low c (hd rest) \<noteq> low c x"
    using hd_dropWhile [of "\<lambda>y. low c y = low c x" zs] by (auto simp: rest_def)
  have x: "x < length c" "distinct (x # zs)" using less.prems(1) sa by auto
  have cls: "i \<in> set (x # ds) \<Longrightarrow> key_class c (x # zs) i = x # ds"
    "i \<in> set rest \<Longrightarrow> key_class c (x # zs) i = key_class c rest i" for i
    using key_class_split [of c x ds rest] less.prems(5) ds rest by (auto simp: zs)
  have "\<exists>a d1. compress_loop flags sa arr (length pre) (Suc (length pre)) d =
      compress_loop flags sa a (length pre) (Suc (length pre) + length ds) d1 \<and>
      array_ok a \<and> nelts a = length c \<and> (d \<or> ds \<noteq> [] \<longrightarrow> d1) \<and>
      (\<forall>i < length c. contents a ! i =
        (if i \<in> set (x # ds) then compressed flags c (x # zs) i else contents arr ! i))"
  proof (cases ds)
    case Nil
    have "compressed flags c (x # zs) x = c ! x"
      using cls(1) [of x] Nil by (simp add: compressed_def combine_def)
    then show ?thesis using Nil less.prems(2-4) by (intro exI [of _ arr] exI [of _ d]) auto
  next
    case (Cons z zs')
    let ?e = "(c ! x)\<lparr>te_val := combine flags (map (\<lambda>y. te_val (c ! y)) (x # ds))\<rparr>"
    let ?a = "fold (\<lambda>y arr. set_elt y ((elt arr y)\<lparr>te_key := None\<rparr>) arr) ds (set_elt x ?e arr)"
    have len: "length (contents arr) = length c" using less.prems(2,3) by simp
    have idx: "\<forall>y \<in> set ds. y < length c" using sa(2) less.prems(1) by (simp add: zs)
    have one: "array_ok (set_elt x ?e arr)" "nelts (set_elt x ?e arr) = length c"
      "contents (set_elt x ?e arr) = (contents arr)[x := ?e]"
      using set_elt_ok [OF less.prems(2), of x ?e] x less.prems(3) by auto
    have a: "array_ok ?a" "nelts ?a = length c"
      "\<forall>i < length c. contents ?a ! i = (if i \<in> set ds then ((contents arr)[x := ?e] ! i)\<lparr>te_key := None\<rparr>
         else (contents arr)[x := ?e] ! i)"
      using clear_keys_ok [OF one(1), of ds] one idx by auto
    have "contents ?a ! i = (if i \<in> set (x # ds) then compressed flags c (x # zs) i else contents arr ! i)"
      if "i < length c" for i
      using a(3) that x less.prems(4) cls(1) [of i] len by (auto simp: compressed_def nth_list_update zs)
    moreover have "compress_loop flags sa arr (length pre) (Suc (length pre)) d =
        compress_loop flags sa ?a (length pre) (Suc (length pre) + length ds) True"
      unfolding Cons using less.prems sa ds rest
      by (intro compress_group) (auto simp: zs Cons)
    ultimately show ?thesis using a(1,2) by blast
  qed
  then obtain a d1 where a: "compress_loop flags sa arr (length pre) (Suc (length pre)) d =
      compress_loop flags sa a (length pre) (Suc (length pre) + length ds) d1"
    "array_ok a" "nelts a = length c" "d \<or> ds \<noteq> [] \<longrightarrow> d1"
    "\<forall>i < length c. contents a ! i =
        (if i \<in> set (x # ds) then compressed flags c (x # zs) i else contents arr ! i)" by blast
  show ?case
  proof (cases rest)
    case Nil
    then have "compress_loop flags sa a (length pre) (Suc (length pre) + length ds) d1 = (a, d1)"
      using less.prems(1) by (subst compress_loop.simps) (simp add: zs)
    moreover have "\<not> d1 \<longrightarrow> \<not> d \<and> (\<forall>i \<in> set (x # zs). i = hd (key_class c (x # zs) i))"
      using a(4) cls(1) Nil zs by auto
    ultimately show ?thesis using a Nil by (auto simp: zs)
  next
    case (Cons w ws)
    have mem: "x \<in> set (x # zs)" "w \<in> set (x # zs)" by (simp_all add: zs Cons)
    have lt: "w < length c" using sa(2) less.prems(1) mem by auto
    have w: "w \<notin> set (x # ds)" using x(2) by (auto simp: zs Cons)
    have "elt a w = c ! w"
      using a(5) lt w less.prems(4) mem elt_contents [OF a(2), of w] a(3) by auto
    moreover have "elt a x = (c ! x)\<lparr>te_val := combine flags (map (\<lambda>y. te_val (c ! y)) (x # ds))\<rparr>"
      using a(5) x(1) elt_contents [OF a(2), of x] a(3) cls(1) [of x] by (simp add: compressed_def)
    moreover have "entry_ok (c ! w)" "entry_ok (c ! x)" using sa(3) lt x(1) by (simp_all add: list_all_length)
    moreover have "low c w \<noteq> low c x" using rest Cons by simp
    ultimately have ns: "\<not> same_entry (elt a w) (elt a x)" by (simp add: same_entry_low entry_ok_val low_def)
    have pos: "sa ! (Suc (length pre) + length ds) = w" "sa ! length pre = x"
      "Suc (length pre) + length ds < length sa"
      using less.prems(1) by (simp_all add: zs Cons nth_append)
    have step: "compress_loop flags sa a (length pre) (Suc (length pre) + length ds) d1 =
        compress_loop flags sa a (length (pre @ x # ds)) (Suc (length (pre @ x # ds))) d1"
      using ns pos by (subst compress_loop.simps) simp
    have "\<exists>arr' d'. compress_loop flags sa a (length (pre @ x # ds)) (Suc (length (pre @ x # ds))) d1 = (arr', d') \<and>
        array_ok arr' \<and> nelts arr' = length c \<and>
        (\<forall>i < length c. contents arr' ! i =
           (if i \<in> set (w # ws) then compressed flags c (w # ws) i else contents a ! i)) \<and>
        (\<not> d' \<longrightarrow> \<not> d1 \<and> (\<forall>i \<in> set (w # ws). i = hd (key_class c (w # ws) i)))"
    proof (rule less.hyps)
      show "length ws < length zs" by (simp add: zs Cons)
      show "sa = (pre @ x # ds) @ w # ws" using less.prems(1) by (simp add: zs Cons)
      have "y \<notin> set (x # ds) \<and> y < length c" if "y \<in> set (w # ws)" for y
        using that x(2) sa(2) less.prems(1) by (auto simp: zs Cons)
      then show "\<forall>y \<in> set (w # ws). contents a ! y = c ! y"
        using a(5) less.prems(4) by (simp add: zs Cons)
      show "sorted (map (low c) (w # ws))" using less.prems(5) by (simp add: zs Cons sorted_append)
    qed (rule a(2,3))+
    then obtain arr' d' where r: "compress_loop flags sa arr (length pre) (Suc (length pre)) d = (arr', d')"
        "array_ok arr'" "nelts arr' = length c"
        "\<forall>i < length c. contents arr' ! i =
           (if i \<in> set (w # ws) then compressed flags c (w # ws) i else contents a ! i)"
        "\<not> d' \<longrightarrow> \<not> d1 \<and> (\<forall>i \<in> set (w # ws). i = hd (key_class c (w # ws) i))"
      using a(1) step by auto
    have cw: "compressed flags c (w # ws) i = compressed flags c (x # zs) i" if "i \<in> set (w # ws)" for i
      using cls(2) [of i] that by (simp add: compressed_def Cons)
    have "contents arr' ! i = (if i \<in> set (x # zs) then compressed flags c (x # zs) i else contents arr ! i)"
      if "i < length c" for i
      using r(4) a(5) that cw [of i] by (auto simp: zs Cons)
    moreover have "\<not> d' \<longrightarrow> \<not> d \<and> (\<forall>i \<in> set (x # zs). i = hd (key_class c (x # zs) i))"
    proof
      assume "\<not> d'"
      then have "\<not> d" "ds = []" "\<forall>i \<in> set (w # ws). i = hd (key_class c (w # ws) i)" using r(5) a(4) by auto
      then show "\<not> d \<and> (\<forall>i \<in> set (x # zs). i = hd (key_class c (x # zs) i))"
        using cls(1) [of x] cls(2) Cons by (simp add: zs)
    qed
    ultimately show ?thesis using r by blast
  qed
qed

subsection \<open>What compressing does to the contents\<close>

text \<open>
  The first entry of each key stays, with the last value of the key or all its values joined.
\<close>

definition spec_compress :: "overlap_flag \<Rightarrow> (cstring \<times> cstring) list \<Rightarrow> (cstring \<times> cstring) list" where
  "spec_compress flags es =
     map (\<lambda>i. (fst (es ! i), combine flags (vals_of (fst (es ! i)) es)))
       (filter (\<lambda>i. \<forall>p \<in> set (take i es). \<not> same_key (fst (es ! i)) p) [0..<length es])"

lemma combine_single [simp]: "combine flags [v] = v"
  by (simp add: combine_def)

lemma spec_compress_short: "length es \<le> 1 \<Longrightarrow> spec_compress flags es = es"
  by (cases es) (simp_all add: spec_compress_def vals_of_def)

lemma hd_class:
  assumes "i < n"
  shows "i = hd (key_class c [0..<n] i) \<longleftrightarrow> (\<forall>j < i. low c j \<noteq> low c i)"
proof -
  let ?F = "filter (\<lambda>y. low c y = low c i) [0..<i]"
  have "key_class c [0..<n] i = ?F @ i # filter (\<lambda>y. low c y = low c i) [Suc i..<n]"
    using assms upt_split [of 0 i n] by (simp add: key_class_def upt_conv_Cons)
  moreover have "hd ?F < i" if "?F \<noteq> []" using that hd_in_set [of ?F] by auto
  moreover have "?F = [] \<longleftrightarrow> (\<forall>j < i. low c j \<noteq> low c i)" by (auto simp: filter_empty_conv)
  ultimately show ?thesis by (cases "?F = []") auto
qed

lemma sorted_positions:
  assumes "\<And>i. i < n \<Longrightarrow> nul_free (kf i)" "\<And>i. i < n \<Longrightarrow> lower (kf i) = low c i"
  defines "sa \<equiv> table_mergesort kf [0..<n] n"
  shows "distinct sa" "set sa = {..<n}" "sorted (map (low c) sa)"
    "i < n \<Longrightarrow> key_class c sa i = key_class c [0..<n] i"
proof -
  let ?f = "\<lambda>i. lower (kf i)"
  have sa: "sa = sort_key ?f [0..<n]"
    using mergesort_sort_key [of "[0..<n]" kf] assms(1) by (simp add: sa_def)
  show "distinct sa" "set sa = {..<n}" by (auto simp: sa)
  have "map ?f sa = map (low c) sa" using assms(2) by (auto simp: sa)
  then show "sorted (map (low c) sa)" by (metis sa sorted_sort_key)
  have "filter (\<lambda>y. low c y = low c i) ys = filter (\<lambda>y. ?f y = low c i) ys" if "set ys \<subseteq> {..<n}" for ys
    using that assms(2) by (intro filter_cong) auto
  then show "i < n \<Longrightarrow> key_class c sa i = key_class c [0..<n] i"
    using sort_key_stable [of ?f "low c i" "[0..<n]"] \<open>set sa = {..<n}\<close>
    by (simp add: key_class_def sa atLeast_upt)
qed

lemma low_same_key:
  assumes "table_ok t" "i < nelts (tab_a t)" "j < nelts (tab_a t)"
  shows "low (contents (tab_a t)) j = low (contents (tab_a t)) i \<longleftrightarrow> same_key (fst (ents t ! i)) (ents t ! j)"
  using entry_pair [OF assms(1,2)] entry_pair [OF assms(1,3)] by (metis low_def pair_of_def fst_conv)

lemma class_vals:
  assumes "table_ok t" "i < nelts (tab_a t)"
  shows "map (\<lambda>y. te_val (contents (tab_a t) ! y)) (key_class (contents (tab_a t)) [0..<nelts (tab_a t)] i) =
    vals_of (fst (ents t ! i)) (ents t)"
proof -
  have "key_class (contents (tab_a t)) [0..<nelts (tab_a t)] i =
      filter (\<lambda>j. same_key (fst (ents t ! i)) (ents t ! j)) [0..<nelts (tab_a t)]"
    unfolding key_class_def using low_same_key [OF assms] by (intro filter_cong) auto
  then show ?thesis
    unfolding vals_of_upt [OF assms(1), symmetric]
    using entry_pair [OF assms(1)] by auto
qed

lemma compress_ok:
  assumes t: "table_ok t"
  shows "table_ok (apr_table_compress t flags) \<and>
    ents (apr_table_compress t flags) = spec_compress flags (ents t)"
proof (cases "nelts (tab_a t) \<le> 1")
  case True
  then show ?thesis using t by (simp add: apr_table_compress_def spec_compress_short length_ents)
next
  case False
  let ?n = "nelts (tab_a t)" and ?c = "contents (tab_a t)" and ?kf = "\<lambda>i. the (te_key (entry t i))"
  define sa where "sa = table_mergesort ?kf [0..<?n] ?n"
  have ok: "array_ok (tab_a t)" "list_all entry_ok ?c" "length ?c = ?n" "length (index_first t) = 32"
    "length (index_last t) = 32"
    using t by (simp_all add: table_ok_def index_for_def)
  have kf: "nul_free (?kf i)" "lower (?kf i) = low ?c i" if "i < ?n" for i
    using entry_pair [OF t that] by (auto simp: entry_ok_def low_def split: option.splits)
  have sa: "distinct sa" "set sa = {..<?n}" "sorted (map (low ?c) sa)"
    unfolding sa_def by (rule sorted_positions [where c = ?c], (fact kf)+)+
  have sa4: "key_class ?c sa i = key_class ?c [0..<?n] i" if "i < ?n" for i
    unfolding sa_def by (rule sorted_positions(4) [where c = ?c]) (fact kf that)+
  obtain x zs where xz: "sa = x # zs" 
  proof (cases sa)
    case Nil
    have "0 \<in> set sa" using sa(2) False by simp
    then show ?thesis using Nil by simp
  qed auto
  obtain arr d where r: "compress_loop flags sa (tab_a t) 0 1 False = (arr, d)"
    "array_ok arr" "nelts arr = ?n"
    "\<forall>i < ?n. contents arr ! i = (if i \<in> set sa then compressed flags ?c sa i else ?c ! i)"
    "\<not> d \<longrightarrow> (\<forall>i \<in> set sa. i = hd (key_class ?c sa i))"
  proof -
    have "\<forall>y \<in> set sa. y < length ?c" "sa = [] @ x # zs" "nelts (tab_a t) = length ?c"
      "\<forall>y \<in> set (x # zs). ?c ! y = ?c ! y" "sorted (map (low ?c) (x # zs))"
      using sa(2,3) xz ok(3) by simp_all
    from compress_loop_ok [OF sa(1) this(1) ok(2) this(2) ok(1) this(3-5), of flags False]
    show ?thesis using that unfolding xz [symmetric] ok(3) list.size(3) One_nat_def by blast
  qed
  let ?g = "compressed flags ?c [0..<?n]"
  have g: "compressed flags ?c sa i = ?g i" if "i < ?n" for i using sa4 [OF that] by (simp add: compressed_def)
  have carr: "contents arr = map ?g [0..<?n]"
    using r(2,3,4) sa(2) g by (intro nth_equalityI) auto
  have key: "te_key (?g i) \<noteq> None \<longleftrightarrow> (\<forall>p \<in> set (take i (ents t)). \<not> same_key (fst (ents t ! i)) p)"
    "te_key (?g i) \<noteq> None \<Longrightarrow> entry_ok (?g i) \<and>
      pair_of (?g i) = (fst (ents t ! i), combine flags (vals_of (fst (ents t ! i)) (ents t)))"
    if "i < ?n" for i
  proof -
    have "the (te_key (?c ! i)) = fst (ents t ! i)" "entry_ok (?c ! i)"
      using entry_pair [OF t that] by (metis pair_of_def fst_conv, metis)
    then have e: "te_key (?c ! i) \<noteq> None" "entry_ok (?c ! i)" "the (te_key (?c ! i)) = fst (ents t ! i)"
      by (auto simp: entry_ok_def split: option.splits)
    have "(\<forall>p \<in> set (take i (ents t)). \<not> same_key (fst (ents t ! i)) p) \<longleftrightarrow> (\<forall>j < i. low ?c j \<noteq> low ?c i)"
      using low_same_key [OF t that] that t by (auto simp: all_set_conv_all_nth length_ents)
    then show "te_key (?g i) \<noteq> None \<longleftrightarrow> (\<forall>p \<in> set (take i (ents t)). \<not> same_key (fst (ents t ! i)) p)"
      using hd_class [OF that, of ?c] e by (simp add: compressed_def)
    show "entry_ok (?g i) \<and> pair_of (?g i) = (fst (ents t ! i), combine flags (vals_of (fst (ents t ! i)) (ents t)))"
      if k: "te_key (?g i) \<noteq> None"
    proof -
      have "?g i = (?c ! i)\<lparr>te_val := combine flags (vals_of (fst (ents t ! i)) (ents t))\<rparr>"
        using k class_vals [OF t \<open>i < ?n\<close>] by (simp add: compressed_def split: if_splits)
      then show ?thesis using e by (simp add: entry_ok_val pair_of_def)
    qed
  qed
  define fin where "fin = (if d then remove_nulls arr else arr)"
  let ?keep = "filter (\<lambda>i. te_key (?g i) \<noteq> None) [0..<?n]"
  have fin: "array_ok fin" "contents fin = map ?g ?keep"
  proof -
    have c: "contents fin = filter (\<lambda>e. te_key e \<noteq> None) (contents arr)"
    proof (cases d)
      case False
      then have "i = hd (key_class ?c [0..<?n] i)" if "i < ?n" for i using r(5) sa(2) sa4 that by auto
      then have "te_key (?g i) \<noteq> None" if "i < ?n" for i
        using that entry_pair [OF t that] by (auto simp: compressed_def entry_ok_def split: option.splits)
      then show ?thesis using False by (simp add: fin_def carr filter_id_conv)
    qed (use remove_nulls_ok [OF r(2)] in \<open>simp add: fin_def\<close>)
    show "array_ok fin" using remove_nulls_ok [OF r(2)] r(2) by (simp add: fin_def)
    show "contents fin = map ?g ?keep" unfolding c carr by (simp only: filter_map comp_def)
  qed
  have "apr_table_compress t flags = table_reindex (t\<lparr>tab_a := fin\<rparr>)"
    using False r(1) by (simp add: apr_table_compress_def sa_def fin_def)
  moreover have "list_all entry_ok (contents fin)" using key(2) by (auto simp: fin(2) list_all_iff)
  moreover have "map pair_of (contents fin) = spec_compress flags (ents t)"
  proof -
    have "?keep = filter (\<lambda>i. \<forall>p \<in> set (take i (ents t)). \<not> same_key (fst (ents t ! i)) p) [0..<?n]"
      using key(1) by (intro filter_cong) auto
    moreover have "map pair_of (map ?g ?keep) =
        map (\<lambda>i. (fst (ents t ! i), combine flags (vals_of (fst (ents t ! i)) (ents t)))) ?keep"
      using key(2) by auto
    ultimately show ?thesis using t by (simp add: spec_compress_def fin(2) length_ents)
  qed
  ultimately show ?thesis using reindexed_ok [OF fin(1)] ok by metis
qed

subsection \<open>Overlapping\<close>

lemma positions_append:
  "positions (es @ fs) h = positions es h @ map ((+) (length es)) (positions fs h)"
proof -
  have "[0..<length (es @ fs)] = [0..<length es] @ map ((+) (length es)) [0..<length fs]"
  proof -
    have "map ((+) (length es)) [0..<length fs] = [length es..<length es + length fs]"
      by (rule nth_equalityI) auto
    then show ?thesis using upt_add_eq_append [of 0 "length es" "length fs"] by simp
  qed
  moreover have "filter (\<lambda>i. TABLE_HASH (the (te_key ((es @ fs) ! i))) = h) [0..<length es] = positions es h"
    unfolding positions_def by (intro filter_cong) (auto simp: nth_append)
  ultimately show ?thesis
    by (simp add: positions_def filter_map comp_def)
qed

lemma cat_index_loop:
  fixes n :: nat and s t :: apr_table
  assumes "m \<le> 32" "length (index_first t) = 32" "length (index_last t) = 32"
  defines "r \<equiv> fold (cat_index n s) [0..<m] t"
  shows "tab_a r = tab_a t \<and> index_initialized r = index_initialized t \<and>
    length (index_first r) = 32 \<and> length (index_last r) = 32 \<and>
    (\<forall>h < 32. index_last r ! h =
       (if h < m \<and> TABLE_INDEX_IS_INITIALIZED s h then Some (the (index_last s ! h) + n) else index_last t ! h) \<and>
     index_first r ! h =
       (if h < m \<and> TABLE_INDEX_IS_INITIALIZED s h \<and> \<not> TABLE_INDEX_IS_INITIALIZED t h
        then Some (the (index_first s ! h) + n) else index_first t ! h))"
  using assms(1) unfolding r_def
proof (induction m)
  case (Suc m)
  then show ?case
    by (auto simp: cat_index_def Let_def initialized_bit nth_list_update less_Suc_eq)
qed (use assms(2,3) in simp)

lemma cat_table_ok:
  assumes "table_ok t" "table_ok s"
  shows "table_ok (apr_table_cat t s) \<and> ents (apr_table_cat t s) = ents t @ ents s"
proof -
  let ?a = "apr_array_cat null_entry (tab_a t) (tab_a s)" and ?ct = "contents (tab_a t)" and ?cs = "contents (tab_a s)"
  have ok: "array_ok (tab_a t)" "list_all entry_ok ?ct" "index_for ?ct t" "length ?ct = nelts (tab_a t)"
    "array_ok (tab_a s)" "list_all entry_ok ?cs" "index_for ?cs s"
    using assms by (simp_all add: table_ok_def)
  have a: "array_ok ?a" "contents ?a = ?ct @ ?cs" using cat_ok [OF ok(1,5)] by auto
  show ?thesis
  proof (cases "nelts (tab_a t) = 0")
    case True
    then have "?ct = []" using ok(4) by simp
    moreover have cat: "apr_table_cat t s = (t\<lparr>tab_a := ?a\<rparr>)\<lparr>index_first := index_first s,
        index_last := index_last s, index_initialized := index_initialized s\<rparr>"
      using True by (simp add: apr_table_cat_def)
    moreover have "tab_a (apr_table_cat t s) = ?a" by (simp add: cat)
    moreover have "index_for ?cs (apr_table_cat t s)" using ok(7) by (simp add: cat index_for_def)
    ultimately show ?thesis using a ok(6) unfolding table_ok_def ents_def by auto
  next
    case False
    define r where "r = fold (cat_index (nelts (tab_a t)) s) [0..<32] (t\<lparr>tab_a := ?a\<rparr>)"
    have r: "tab_a r = ?a" "index_initialized r = index_initialized t" "length (index_first r) = 32"
      "length (index_last r) = 32"
      "\<forall>h < 32. index_last r ! h =
         (if TABLE_INDEX_IS_INITIALIZED s h then Some (the (index_last s ! h) + nelts (tab_a t)) else index_last t ! h) \<and>
       index_first r ! h =
         (if TABLE_INDEX_IS_INITIALIZED s h \<and> \<not> TABLE_INDEX_IS_INITIALIZED t h
          then Some (the (index_first s ! h) + nelts (tab_a t)) else index_first t ! h)"
      using cat_index_loop [of 32 "t\<lparr>tab_a := ?a\<rparr>" "nelts (tab_a t)" s] ok(3)
      by (auto simp: index_for_def r_def initialized_bit)
    have "index_for (?ct @ ?cs) (r\<lparr>index_initialized := index_initialized r OR index_initialized s\<rparr>)"
      using r ok(3,7) ok(4)
      by (auto simp: index_for_def positions_append bit_simps initialized_bit hd_map last_map hd_append add.commute)
    moreover have "apr_table_cat t s = r\<lparr>index_initialized := index_initialized r OR index_initialized s\<rparr>"
      using False by (simp add: apr_table_cat_def Let_def r_def TABLE_HASH_SIZE_def)
    ultimately show ?thesis using a ok r(1) by (simp add: table_ok_def ents_def)
  qed
qed

lemma overlap_ok:
  assumes "table_ok a" "table_ok b"
  shows "table_ok (apr_table_overlap a b flags) \<and>
    ents (apr_table_overlap a b flags) = spec_compress flags (ents a @ ents b)"
proof (cases "nelts (tab_a a) + nelts (tab_a b) = 0")
  case True
  then have "ents a = []" "ents b = []" using assms length_ents by fastforce+
  then show ?thesis using True assms by (simp add: apr_table_overlap_def spec_compress_def)
next
  case False
  then show ?thesis using compress_ok cat_table_ok [OF assms] by (auto simp: apr_table_overlap_def)
qed

text \<open>Adding one pair after another with \<open>apr_table_setn\<close> or \<open>apr_table_mergen\<close>.\<close>

definition spec_update :: "overlap_flag \<Rightarrow> cstring \<times> cstring \<Rightarrow> (cstring \<times> cstring) list \<Rightarrow>
    (cstring \<times> cstring) list" where
  "spec_update flags p es =
     (if flags = APR_OVERLAP_TABLES_MERGE then spec_merge (fst p) (snd p) es
      else spec_set (fst p) (snd p) es)"

abbreviation distinct_keys :: "(cstring \<times> cstring) list \<Rightarrow> bool" where
  "distinct_keys es \<equiv> distinct (map (\<lambda>p. lower (fst p)) es)"

definition is_first :: "(cstring \<times> cstring) list \<Rightarrow> nat \<Rightarrow> bool" where
  "is_first es i = (\<forall>p \<in> set (take i es). \<not> same_key (fst (es ! i)) p)"

lemma spec_compress_first:
  "spec_compress flags es = map (\<lambda>i. (fst (es ! i), combine flags (vals_of (fst (es ! i)) es)))
     (filter (is_first es) [0..<length es])"
  unfolding spec_compress_def is_first_def ..

lemma spec_compress_distinct: "distinct_keys (spec_compress flags es)"
proof -
  have "inj_on (\<lambda>i. lower (fst (es ! i))) (set (filter (is_first es) [0..<length es]))"
  proof (rule linorder_inj_onI')
    fix i j assume "i \<in> set (filter (is_first es) [0..<length es])"
      "j \<in> set (filter (is_first es) [0..<length es])" "i < j"
    then show "lower (fst (es ! i)) \<noteq> lower (fst (es ! j))"
      by (auto simp: is_first_def all_set_conv_all_nth)
  qed
  then show ?thesis by (simp add: spec_compress_first distinct_map comp_def)
qed

lemma spec_compress_has:
  "(\<exists>q \<in> set (spec_compress flags es). same_key k q) \<longleftrightarrow> (\<exists>q \<in> set es. same_key k q)"
proof
  assume "\<exists>q \<in> set es. same_key k q"
  then have ex: "\<exists>i. i < length es \<and> same_key k (es ! i)" by (metis in_set_conv_nth)
  define i where "i = (LEAST i. i < length es \<and> same_key k (es ! i))"
  have i: "i < length es" "same_key k (es ! i)" using LeastI_ex [OF ex] by (simp_all add: i_def)
  have "is_first es i"
    using i not_less_Least [where P = "\<lambda>i. i < length es \<and> same_key k (es ! i)"]
    by (auto simp: is_first_def all_set_conv_all_nth simp flip: i_def)
  then show "\<exists>q \<in> set (spec_compress flags es). same_key k q" using i by (auto simp: spec_compress_first)
qed (use nth_mem in \<open>fastforce simp: spec_compress_first\<close>)

lemma join_snoc: "vs \<noteq> [] \<Longrightarrow> join sep (vs @ [v]) = join sep vs @ sep @ v"
  by (induction sep vs rule: join.induct) auto

lemma spec_update_map:
  "distinct_keys es \<Longrightarrow> \<exists>q \<in> set es. same_key (fst p) q \<Longrightarrow>
     spec_update flags p es = map (\<lambda>q. if same_key (fst p) q
       then (fst q, if flags = APR_OVERLAP_TABLES_MERGE then snd q @ str '', '' @ snd p else snd p) else q) es"
proof (induction es)
  case (Cons q es)
  show ?case
  proof (cases "same_key (fst p) q")
    case True
    then have "\<forall>r \<in> set es. \<not> same_key (fst p) r" using Cons.prems(1) by (auto simp: image_iff)
    then have "filter (\<lambda>r. \<not> same_key (fst p) r) es = es"
      "map (\<lambda>q. if same_key (fst p) q
        then (fst q, if flags = APR_OVERLAP_TABLES_MERGE then snd q @ str '', '' @ snd p else snd p) else q) es = es"
      by (auto simp: filter_id_conv intro!: map_idI)
    then show ?thesis using True by (simp add: spec_update_def)
  next
    case False
    then show ?thesis using Cons by (auto simp: spec_update_def)
  qed
qed simp

lemma spec_compress_snoc: "spec_compress flags (es @ [p]) = spec_update flags p (spec_compress flags es)"
proof -
  let ?n = "length es"
  let ?F = "filter (is_first es) [0..<?n]"
  have F: "filter (is_first (es @ [p])) [0..<?n] = ?F"
    by (intro filter_cong) (auto simp: is_first_def nth_append)
  have last: "is_first (es @ [p]) ?n \<longleftrightarrow> (\<forall>q \<in> set es. \<not> same_key (fst p) q)"
    by (simp add: is_first_def nth_append)
  have vals: "vals_of k (es @ [p]) = vals_of k es @ (if same_key k p then [snd p] else [])" for k
    by (simp add: vals_of_def)
  have ne: "vals_of (fst (es ! i)) es \<noteq> []" if "i < ?n" for i
    using nth_mem [OF that] by (auto simp: vals_of_def filter_empty_conv)
  show ?thesis
  proof (cases "\<exists>q \<in> set es. same_key (fst p) q")
    case True
    have "spec_compress flags (es @ [p]) =
        map (\<lambda>i. (fst (es ! i), combine flags (vals_of (fst (es ! i)) es @
          (if same_key (fst (es ! i)) p then [snd p] else [])))) ?F"
      using True last F by (auto simp: spec_compress_first vals nth_append)
    also have "\<dots> = spec_update flags p (spec_compress flags es)"
      using spec_update_map [OF spec_compress_distinct [of flags es], where p = p and flags = flags] spec_compress_has [of flags es "fst p"] True ne
      by (auto simp: spec_compress_first combine_def join_snoc)
    finally show ?thesis .
  next
    case False
    have "vals_of (fst p) es = []" using False by (auto simp: vals_of_def filter_empty_conv)
    moreover have "lower (fst p) \<noteq> lower (fst (es ! x))" if "x < ?n" for x
      using False nth_mem [OF that] by auto
    ultimately have "spec_compress flags (es @ [p]) = spec_compress flags es @ [p]"
      using False last F by (auto simp: spec_compress_first vals nth_append)
    moreover have "spec_update flags p (spec_compress flags es) = spec_compress flags es @ [p]"
      using spec_compress_has [of flags es "fst p"] False spec_set_split(2) spec_merge_split(2)
      by (simp add: spec_update_def)
    ultimately show ?thesis by simp
  qed
qed

lemma spec_compress_append: "spec_compress flags (es @ fs) = fold (spec_update flags) fs (spec_compress flags es)"
proof (induction fs rule: rev_induct)
  case (snoc p fs)
  then show ?case using spec_compress_snoc [of flags "es @ fs" p] by simp
qed simp

lemma spec_compress_id: "distinct_keys es \<Longrightarrow> spec_compress flags es = es"
proof (induction es rule: rev_induct)
  case (snoc p es)
  then have "\<forall>q \<in> set es. \<not> same_key (fst p) q" by (auto simp: image_iff)
  then show ?case
    using snoc spec_compress_snoc [of flags es p] spec_set_split(2) spec_merge_split(2)
    by (simp add: spec_update_def)
qed (simp add: spec_compress_def)

subsection \<open>Properties\<close>

text \<open>The operations on one table, and what they do to its keys and values.\<close>

datatype table_op =
    Op_set cstring cstring | Op_setn cstring cstring | Op_add cstring cstring | Op_addn cstring cstring
  | Op_merge cstring cstring | Op_mergen cstring cstring | Op_unset cstring | Op_clear
  | Op_compress overlap_flag

fun op_ok :: "table_op \<Rightarrow> bool" where
  "op_ok (Op_set k v) = nul_free k" | "op_ok (Op_setn k v) = nul_free k"
| "op_ok (Op_add k v) = nul_free k" | "op_ok (Op_addn k v) = nul_free k"
| "op_ok (Op_merge k v) = nul_free k" | "op_ok (Op_mergen k v) = nul_free k"
| "op_ok (Op_unset k) = nul_free k" | "op_ok Op_clear = True" | "op_ok (Op_compress flags) = True"

fun table_run :: "table_op \<Rightarrow> apr_table \<Rightarrow> apr_table" where
  "table_run (Op_set k v) t = apr_table_set t k v"
| "table_run (Op_setn k v) t = apr_table_setn t k v"
| "table_run (Op_add k v) t = apr_table_add t k v"
| "table_run (Op_addn k v) t = apr_table_addn t k v"
| "table_run (Op_merge k v) t = apr_table_merge t k v"
| "table_run (Op_mergen k v) t = apr_table_mergen t k v"
| "table_run (Op_unset k) t = apr_table_unset t k"
| "table_run Op_clear t = apr_table_clear t"
| "table_run (Op_compress flags) t = apr_table_compress t flags"

fun spec_run :: "table_op \<Rightarrow> (cstring \<times> cstring) list \<Rightarrow> (cstring \<times> cstring) list" where
  "spec_run (Op_set k v) es = spec_set k v es"
| "spec_run (Op_setn k v) es = spec_set k v es"
| "spec_run (Op_add k v) es = es @ [(k, v)]"
| "spec_run (Op_addn k v) es = es @ [(k, v)]"
| "spec_run (Op_merge k v) es = spec_merge k v es"
| "spec_run (Op_mergen k v) es = spec_merge k v es"
| "spec_run (Op_unset k) es = spec_unset k es"
| "spec_run Op_clear es = []"
| "spec_run (Op_compress flags) es = spec_compress flags es"

lemma table_run_ok:
  assumes "table_ok t" "op_ok op"
  shows "table_ok (table_run op t) \<and> ents (table_run op t) = spec_run op (ents t)"
  using assms set_dup_ok add_dup_ok merge_dup_ok unset_ok compress_ok table_clear_ok
  by (cases op)
    (simp_all add: apr_table_set_def apr_table_setn_def apr_table_add_def apr_table_addn_def
      apr_table_merge_def apr_table_mergen_def apr_pstrdup_def)

lemma table_runs_ok:
  "table_ok t \<Longrightarrow> list_all op_ok ops \<Longrightarrow>
     table_ok (fold table_run ops t) \<and> ents (fold table_run ops t) = fold spec_run ops (ents t)"
  by (induction ops arbitrary: t) (use table_run_ok in auto)

text \<open>A function that is given bytes with a NUL sees those before it.\<close>

definition c_str :: "byte list \<Rightarrow> cstring" where
  "c_str s = takeWhile (\<lambda>c. c \<noteq> 0) s"

lemma nul_free_c_str [simp]: "nul_free (c_str s)"
  by (auto simp: nul_free_def c_str_def dest: set_takeWhileD)

lemma spec_get_set: "spec_get x (spec_set k v es) = (if lower x = lower k then Some v else spec_get x es)"
proof (induction es)
  case (Cons p es)
  have "find (same_key x) (filter (\<lambda>p. \<not> same_key k p) es) = find (same_key x) es" if "lower x \<noteq> lower k"
    using that by (induction es) auto
  then show ?case using Cons by (auto simp: spec_get_def)
qed (auto simp: spec_get_def)

lemma spec_get_unset: "spec_get x (spec_unset k es) = (if lower x = lower k then None else spec_get x es)"
  by (induction es) (auto simp: spec_get_def spec_unset_def)

definition table_update :: "apr_table \<Rightarrow> byte list \<Rightarrow> cstring option \<Rightarrow> apr_table" where
  "table_update t k v = (case v of Some v \<Rightarrow> apr_table_set t (c_str k) v | None \<Rightarrow> apr_table_unset t (c_str k))"

interpretation tab: finite_map table_ok "\<lambda>_ _. True" "\<lambda>k. lower (c_str k)"
  "\<lambda>t k. apr_table_get t (Some (c_str k))" table_update
proof
  fix t :: apr_table and k k' :: "byte list" and v :: "cstring option" and n :: nat
  assume t: "table_ok t"
  show "table_ok (table_update t k v) \<and> True"
    using table_run_ok [OF t, of "Op_set (c_str k) (the v)"] table_run_ok [OF t, of "Op_unset (c_str k)"]
    by (cases v) (simp_all add: table_update_def)
  have "ents (table_update t k v) =
      (case v of Some v \<Rightarrow> spec_set (c_str k) v (ents t) | None \<Rightarrow> spec_unset (c_str k) (ents t))"
    using table_run_ok [OF t, of "Op_set (c_str k) (the v)"] table_run_ok [OF t, of "Op_unset (c_str k)"]
    by (cases v) (simp_all add: table_update_def)
  then show "apr_table_get (table_update t k v) (Some (c_str k')) =
      (if lower (c_str k') = lower (c_str k) then v else apr_table_get t (Some (c_str k')))"
    using get_ok [OF \<open>table_ok (table_update t k v) \<and> True\<close> [THEN conjunct1], of "c_str k'"] get_ok [OF t, of "c_str k'"]
    by (cases v) (simp_all add: spec_get_set spec_get_unset)
qed

text \<open>
  C13: After any sequence of set, add, merge, unset, clear and compress calls (with
  or without copies of the strings) on a new table, the entries, in order, are those of the
  abstract list of pairs, where keys are compared without case: \<open>apr_table_get\<close> returns the
  first value of a key and \<open>apr_table_getm\<close> all of them with commas between. The index is exact
  at every lookup, so no entry is missed and no uninitialised slot is read.
\<close>

theorem table_refines:
  fixes n :: int
  assumes "list_all op_ok ops" "nul_free k"
  defines "t \<equiv> fold table_run ops (apr_table_make n)" and "es \<equiv> fold spec_run ops []"
  shows "ents t = es \<and> table_ok t \<and> apr_table_get t (Some k) = map_option snd (find (same_key k) es) \<and>
    apr_table_getm t k = (case map snd (filter (same_key k) es) of [] \<Rightarrow> None | vs \<Rightarrow> Some (join [0x2c] vs))"
proof -
  have t: "table_ok t" "ents t = es"
    using table_runs_ok [OF _ assms(1)] table_make_ok by (simp_all add: t_def es_def)
  then show ?thesis using get_ok [OF t(1) assms(2)] getm_ok [OF t(1) assms(2)]
    by (simp add: spec_get_def vals_of_def)
qed

lemma table_refines_witness:
  "apr_table_getm (fold table_run [Op_add (str ''Via'') (str ''a''), Op_set (str ''Host'') (str ''h''),
      Op_addn (str ''VIA'') (str ''b'')] (apr_table_make 1)) (str ''via'') = Some (str ''a,b'')"
  using table_refines [of "[Op_add (str ''Via'') (str ''a''), Op_set (str ''Host'') (str ''h''),
      Op_addn (str ''VIA'') (str ''b'')]" "str ''via''" 1]
  by (simp add: nul_free_def apr_tolower_def)

text \<open>
  C14: The bottom-up merge sort of \<open>apr_table_compress\<close> (pairs first, then
  merges of blocks of doubling size with the odd rest carried over) sorts any array of entry
  pointers by their keys without case, and is stable: it equals the reference sort.
\<close>

theorem table_mergesort_stable:
  assumes "\<forall>p \<in> set values. nul_free (kf p)"
  shows "table_mergesort kf values (length values) = sort_key (\<lambda>p. map apr_tolower (kf p)) values"
  using assms by (intro mergesort_sort_key) auto

lemma table_mergesort_stable_witness:
  "table_mergesort (\<lambda>i. [[0x62], [0x41], [0x61], [0x42], [0x61]] ! i) [0, 1, 2, 3, 4 :: nat]
     (length [0, 1, 2, 3, 4 :: nat]) = [1, 2, 4, 0, 3]"
  using table_mergesort_stable [of "[0, 1, 2, 3, 4 :: nat]" "\<lambda>i. [[0x62], [0x41], [0x61], [0x42], [0x61]] ! i"]
  by (simp add: apr_tolower_def)

text \<open>
  C25: On a table whose keys differ, \<open>apr_table_overlap\<close> does what its
  documentation says: the same as adding the entries of the other table one by one with
  \<open>apr_table_setn\<close> or \<open>apr_table_mergen\<close>.
\<close>

theorem overlap_as_loop:
  assumes "table_ok a" "table_ok b" "distinct (map (\<lambda>p. map apr_tolower (fst p)) (ents a))"
  shows "ents (apr_table_overlap a b flags) =
    ents (fold (\<lambda>(k, v) t. if flags = APR_OVERLAP_TABLES_MERGE then apr_table_mergen t k v
                           else apr_table_setn t k v) (ents b) a)"
proof -
  let ?op = "\<lambda>(k, v). if flags = APR_OVERLAP_TABLES_MERGE then Op_mergen k v else Op_setn k v"
  have "nul_free (fst p)" if "p \<in> set (ents b)" for p
    using that assms(2) by (auto simp: ents_def table_ok_def list_all_iff pair_of_def entry_ok_def split: option.splits)
  then have "list_all op_ok (map ?op (ents b))" by (fastforce simp: list_all_iff)
  then have "ents (fold table_run (map ?op (ents b)) a) = fold spec_run (map ?op (ents b)) (ents a)"
    using table_runs_ok assms(1) by blast
  moreover have "fold spec_run (map ?op ps) es = fold (spec_update flags) ps es" for ps es
    by (induction ps arbitrary: es) (auto simp: spec_update_def)
  moreover have "fold table_run (map ?op ps) a = fold (\<lambda>(k, v) t. if flags = APR_OVERLAP_TABLES_MERGE
      then apr_table_mergen t k v else apr_table_setn t k v) ps a" for ps
    by (induction ps arbitrary: a) auto
  ultimately show ?thesis
    using overlap_ok [OF assms(1,2), of flags] spec_compress_append [of flags "ents a" "ents b"]
      spec_compress_id [OF assms(3)] by simp
qed

lemma overlap_as_loop_witness:
  "ents (apr_table_overlap (apr_table_add (apr_table_make 1) (str ''Key'') (str ''1''))
      (apr_table_add (apr_table_make 1) (str ''kEY'') (str ''2'')) APR_OVERLAP_TABLES_MERGE) =
    [(str ''Key'', str ''1, 2'')]"
proof -
  let ?a = "apr_table_add (apr_table_make 1) (str ''Key'') (str ''1'')"
  let ?b = "apr_table_add (apr_table_make 1) (str ''kEY'') (str ''2'')"
  have a: "table_ok ?a \<and> ents ?a = [(str ''Key'', str ''1'')]"
    using table_run_ok [of "apr_table_make 1" "Op_add (str ''Key'') (str ''1'')"] table_make_ok by simp
  have b: "table_ok ?b \<and> ents ?b = [(str ''kEY'', str ''2'')]"
    using table_run_ok [of "apr_table_make 1" "Op_add (str ''kEY'') (str ''2'')"] table_make_ok by simp
  show ?thesis
    using overlap_as_loop [of ?a ?b APR_OVERLAP_TABLES_MERGE] a b
      table_run_ok [of ?a "Op_mergen (str ''kEY'') (str ''2'')"]
    by (simp add: apr_tolower_def)
qed

text \<open>Without that condition it differs: entries of the first table are merged as well.\<close>

lemma overlap_merges_own_entries:
  assumes "table_ok a" "ents a = [([0x6b], [0x31]), ([0x4b], [0x32])]" "table_ok b" "ents b = [([0x78], [0x33])]"
  shows "ents (apr_table_overlap a b APR_OVERLAP_TABLES_SET) = [([0x6b], [0x32]), ([0x78], [0x33])]"
    and "ents (apr_table_setn a [0x78] [0x33]) = [([0x6b], [0x31]), ([0x4b], [0x32]), ([0x78], [0x33])]"
  using overlap_ok [OF assms(1,3), of APR_OVERLAP_TABLES_SET] table_run_ok [OF assms(1), of "Op_setn [0x78] [0x33]"]
  by (simp_all add: assms(2,4) spec_compress_def upt_rec apr_tolower_def vals_of_def combine_def)

end
