(* ===== verification/Apr_Escape.thy ===== *)
theory Apr_Escape
  imports C_String
begin

text \<open>
  Escaping and unescaping of strings (\<open>src/log4cxx/apr-1.5.2/encoding/apr_escape.c\<close> and the
  generator of its character table, \<open>tools/gen_test_char.c\<close>), built for ASCII and not for
  Windows or OS/2. Every function has two loops: with a buffer it writes, without it only
  measures. A function is given whether there is a buffer, and returns its status, the bytes
  it wrote (with the NUL) and the length it stores in \<open>*len\<close>. \<open>slen\<close> is an integer, -1 for
  the whole string.
\<close>

subsection \<open>Character classes\<close>

text \<open>\<open>strchr\<close> finds the terminating NUL as well.\<close>

definition strchr :: "cstring \<Rightarrow> byte \<Rightarrow> bool" where
  "strchr s c = (c \<in> set s \<or> c = 0)"

definition T_ESCAPE_SHELL_CMD :: byte where "T_ESCAPE_SHELL_CMD = 0x01"
definition T_ESCAPE_PATH_SEGMENT :: byte where "T_ESCAPE_PATH_SEGMENT = 0x02"
definition T_OS_ESCAPE_PATH :: byte where "T_OS_ESCAPE_PATH = 0x04"
definition T_ESCAPE_ECHO :: byte where "T_ESCAPE_ECHO = 0x08"
definition T_ESCAPE_URLENCODED :: byte where "T_ESCAPE_URLENCODED = 0x10"
definition T_ESCAPE_XML :: byte where "T_ESCAPE_XML = 0x20"

text \<open>The entry that the generator prints for \<open>c\<close>.\<close>

definition test_char :: "byte \<Rightarrow> byte" where
  "test_char c =
     (if c \<noteq> 0 \<and> strchr (str ''&;`'' @ [0x27] @ str ''\"|*?~<>^()[]{}$'' @ [0x5c, 0x0a]) c
      then T_ESCAPE_SHELL_CMD else 0) OR
     (if \<not> isalnum c \<and> \<not> strchr (str ''$-_.+!*'' @ [0x27] @ str ''(),:@&=~'') c
      then T_ESCAPE_PATH_SEGMENT else 0) OR
     (if \<not> isalnum c \<and> \<not> strchr (str ''$-_.+!*'' @ [0x27] @ str ''(),:@&=/~'') c
      then T_OS_ESCAPE_PATH else 0) OR
     (if \<not> isalnum c \<and> \<not> strchr (str ''.-*_ '') c then T_ESCAPE_URLENCODED else 0) OR
     (if c \<noteq> 0 \<and> (\<not> isprint c \<or> c = 0x22 \<or> c = 0x5c \<or> iscntrl c) then T_ESCAPE_ECHO else 0) OR
     (if strchr (str ''<>&\"'') c then T_ESCAPE_XML else 0)"

definition TEST_CHAR :: "byte \<Rightarrow> byte \<Rightarrow> bool" where
  "TEST_CHAR c f = (test_char c AND f \<noteq> 0)"

subsection \<open>Hexadecimal digits\<close>

definition c2x_table :: "byte list" where
  "c2x_table = str ''0123456789abcdef''"

definition c2x :: "byte \<Rightarrow> byte \<Rightarrow> byte list" where
  "c2x what pre = [pre, c2x_table ! unat (drop_bit 4 what), c2x_table ! unat (what AND 0xf)]"

definition x2c_digit :: "byte \<Rightarrow> byte" where
  "x2c_digit w = (if 65 \<le> sint w then ((w AND 0xdf) - 65) + 10 else w - 48)"

definition x2c :: "byte \<Rightarrow> byte \<Rightarrow> byte" where
  "x2c w0 w1 = x2c_digit w0 * 16 + x2c_digit w1"

subsection \<open>Functions that treat one character after the other\<close>

text \<open>
  The loop \<open>while ((c = *s) && slen)\<close>. The writing loops keep the bytes written, \<open>size\<close> and
  \<open>found\<close>; the measuring loops \<open>size\<close> and \<open>found\<close>.
\<close>

fun escape_loop :: "(byte \<Rightarrow> 'st \<Rightarrow> 'st) \<Rightarrow> cstring \<Rightarrow> int \<Rightarrow> 'st \<Rightarrow> 'st" where
  "escape_loop f [] slen st = st"
| "escape_loop f (c # s) slen st = (if slen \<noteq> 0 then escape_loop f s (slen - 1) (f c st) else st)"

type_synonym wstate = "byte list \<times> nat \<times> bool"
type_synonym mstate = "nat \<times> bool"

definition w_put :: "byte list \<Rightarrow> nat \<Rightarrow> bool \<Rightarrow> wstate \<Rightarrow> wstate" where
  "w_put bs n b st = (case st of (d, sz, found) \<Rightarrow> (d @ bs, sz + n, found \<or> b))"

definition m_put :: "nat \<Rightarrow> bool \<Rightarrow> mstate \<Rightarrow> mstate" where
  "m_put n b st = (case st of (sz, found) \<Rightarrow> (sz + n, found \<or> b))"

text \<open>The end of the functions: the NUL, \<open>*len\<close> and the status.\<close>

definition escape_end :: "wstate \<Rightarrow> apr_status \<times> byte list \<times> nat" where
  "escape_end st = (case st of (d, sz, found) \<Rightarrow>
     (if found then APR_SUCCESS else APR_NOTFOUND, d @ [0], sz))"

definition measure_end :: "mstate \<Rightarrow> apr_status \<times> byte list \<times> nat" where
  "measure_end st = (case st of (sz, found) \<Rightarrow>
     (if found then APR_SUCCESS else APR_NOTFOUND, [], sz))"

definition shell_write :: "byte \<Rightarrow> wstate \<Rightarrow> wstate" where
  "shell_write c = (if TEST_CHAR c T_ESCAPE_SHELL_CMD then w_put [0x5c, c] 2 True else w_put [c] 1 False)"

definition shell_measure :: "byte \<Rightarrow> mstate \<Rightarrow> mstate" where
  "shell_measure c = (if TEST_CHAR c T_ESCAPE_SHELL_CMD then m_put 2 True else m_put 1 False)"

definition apr_escape_shell :: "bool \<Rightarrow> cstring option \<Rightarrow> int \<Rightarrow> apr_status \<times> byte list \<times> nat" where
  "apr_escape_shell escaped s slen =
     (case s of None \<Rightarrow> (APR_NOTFOUND, [], 1)
      | Some s \<Rightarrow> if escaped then escape_end (escape_loop shell_write s slen ([], 1, False))
                  else measure_end (escape_loop shell_measure s slen (1, False)))"

definition path_segment_write :: "byte \<Rightarrow> wstate \<Rightarrow> wstate" where
  "path_segment_write c =
     (if TEST_CHAR c T_ESCAPE_PATH_SEGMENT then w_put (c2x c 0x25) (2 + 1) True else w_put [c] 1 False)"

definition path_segment_measure :: "byte \<Rightarrow> mstate \<Rightarrow> mstate" where
  "path_segment_measure c =
     (if TEST_CHAR c T_ESCAPE_PATH_SEGMENT then m_put (2 + 1) True else m_put 1 False)"

definition apr_escape_path_segment :: "bool \<Rightarrow> cstring option \<Rightarrow> int \<Rightarrow> apr_status \<times> byte list \<times> nat" where
  "apr_escape_path_segment escaped s slen =
     (case s of None \<Rightarrow> (APR_NOTFOUND, [], 1)
      | Some s \<Rightarrow> if escaped then escape_end (escape_loop path_segment_write s slen ([], 1, False))
                  else measure_end (escape_loop path_segment_measure s slen (1, False)))"

definition path_write :: "byte \<Rightarrow> wstate \<Rightarrow> wstate" where
  "path_write c =
     (if TEST_CHAR c T_OS_ESCAPE_PATH then w_put (c2x c 0x25) (2 + 1) True else w_put [c] 1 False)"

definition path_measure :: "byte \<Rightarrow> mstate \<Rightarrow> mstate" where
  "path_measure c = (if TEST_CHAR c T_OS_ESCAPE_PATH then m_put (2 + 1) True else m_put 1 False)"

text \<open>A colon before the first slash would look like a scheme; NULL leaves \<open>*len\<close> alone.\<close>

definition colon_first :: "cstring \<Rightarrow> bool" where
  "colon_first path =
     (0x3a \<in> set path \<and>
      (0x2f \<notin> set path \<or> length (takeWhile (\<lambda>c. c \<noteq> 0x3a) path) < length (takeWhile (\<lambda>c. c \<noteq> 0x2f) path)))"

definition apr_escape_path :: "bool \<Rightarrow> bool \<Rightarrow> cstring option \<Rightarrow> int \<Rightarrow> apr_status \<times> byte list \<times> nat" where
  "apr_escape_path partial escaped path slen =
     (case path of None \<Rightarrow> (APR_NOTFOUND, [], 0)
      | Some s \<Rightarrow>
          (let pre = \<not> partial \<and> colon_first s
           in if escaped then
                escape_end (escape_loop path_write s slen
                  (if pre then w_put [0x2e, 0x2f] 2 True ([], 1, False) else ([], 1, False)))
              else measure_end (escape_loop path_measure s slen
                  (if pre then m_put 2 True (1, False) else (1, False)))))"

definition urlencoded_write :: "byte \<Rightarrow> wstate \<Rightarrow> wstate" where
  "urlencoded_write c =
     (if TEST_CHAR c T_ESCAPE_URLENCODED then w_put (c2x c 0x25) (2 + 1) True
      else if c = 0x20 then w_put [0x2b] 1 True else w_put [c] 1 False)"

definition urlencoded_measure :: "byte \<Rightarrow> mstate \<Rightarrow> mstate" where
  "urlencoded_measure c =
     (if TEST_CHAR c T_ESCAPE_URLENCODED then m_put (2 + 1) True
      else if c = 0x20 then m_put 1 True else m_put 1 False)"

definition apr_escape_urlencoded :: "bool \<Rightarrow> cstring option \<Rightarrow> int \<Rightarrow> apr_status \<times> byte list \<times> nat" where
  "apr_escape_urlencoded escaped s slen =
     (case s of None \<Rightarrow> (APR_NOTFOUND, [], 1)
      | Some s \<Rightarrow> if escaped then escape_end (escape_loop urlencoded_write s slen ([], 1, False))
                  else measure_end (escape_loop urlencoded_measure s slen (1, False)))"

text \<open>
  \<open>apr_escape_entity\<close>. The call \<open>apr_snprintf(d, 6, "&#%3.3d;", c)\<close> has room for five
  characters and the NUL; \<open>apr_snprintf\<close> (here: what it stores before the NUL, for a positive
  \<open>len\<close>) stops there and returns 5.
\<close>

definition decimal3 :: "byte \<Rightarrow> byte list" where
  "decimal3 c = [48 + c div 100, 48 + c div 10 mod 10, 48 + c mod 10]"

definition apr_snprintf :: "nat \<Rightarrow> byte list \<Rightarrow> byte list" where
  "apr_snprintf len formatted = take (len - 1) formatted"

definition charref :: "byte \<Rightarrow> byte list" where
  "charref c = apr_snprintf 6 (str ''&#'' @ decimal3 c @ str '';'')"

definition entity_write :: "bool \<Rightarrow> byte \<Rightarrow> wstate \<Rightarrow> wstate" where
  "entity_write toasc c =
     (if TEST_CHAR c T_ESCAPE_XML then
        (if c = 0x3e then w_put (str ''&gt;'') 4 True
         else if c = 0x3c then w_put (str ''&lt;'') 4 True
         else if c = 0x26 then w_put (str ''&amp;'') 5 True
         else if c = 0x22 then w_put (str ''&quot;'') 6 True
         else if c = 0x27 then w_put (str ''&apos;'') 6 True
         else w_put [] 0 True)
      else if toasc \<and> \<not> isascii c then w_put (charref c) (length (charref c)) True
      else w_put [c] 1 False)"

definition entity_measure :: "bool \<Rightarrow> byte \<Rightarrow> mstate \<Rightarrow> mstate" where
  "entity_measure toasc c =
     (if TEST_CHAR c T_ESCAPE_XML then
        (if c = 0x3e then m_put 4 True
         else if c = 0x3c then m_put 4 True
         else if c = 0x26 then m_put 5 True
         else if c = 0x22 then m_put 6 True
         else if c = 0x27 then m_put 6 True
         else m_put 0 True)
      else if toasc \<and> \<not> isascii c then m_put (length (charref c)) True
      else m_put 1 False)"

definition apr_escape_entity :: "bool \<Rightarrow> bool \<Rightarrow> cstring option \<Rightarrow> int \<Rightarrow> apr_status \<times> byte list \<times> nat" where
  "apr_escape_entity toasc escaped s slen =
     (case s of None \<Rightarrow> (APR_NOTFOUND, [], 1)
      | Some s \<Rightarrow> if escaped then escape_end (escape_loop (entity_write toasc) s slen ([], 1, False))
                  else measure_end (escape_loop (entity_measure toasc) s slen (1, False)))"

text \<open>
  \<open>apr_escape_echo\<close>: the backslash is written first; an unquoted double quote then replaces it.
\<close>

definition echo_letter :: "byte \<Rightarrow> byte option" where
  "echo_letter c =
     (if c = 0x07 then Some 0x61 else if c = 0x08 then Some 0x62 else if c = 0x0c then Some 0x66
      else if c = 0x0a then Some 0x6e else if c = 0x0d then Some 0x72 else if c = 0x09 then Some 0x74
      else if c = 0x0b then Some 0x76 else if c = 0x5c then Some 0x5c else None)"

definition echo_write :: "bool \<Rightarrow> byte \<Rightarrow> wstate \<Rightarrow> wstate" where
  "echo_write quote c st =
     (if TEST_CHAR c T_ESCAPE_ECHO then
        (case w_put [0x5c] 1 False st of (d, sz, found) \<Rightarrow>
           (case echo_letter c of
              Some l \<Rightarrow> w_put [l] 1 True (d, sz, found)
            | None \<Rightarrow>
                if c = 0x22 then
                  (if quote then w_put [c] 1 True (d, sz, found)
                   else (d[length d - 1 := c], sz, found))
                else w_put (c2x c 0x78) 3 True (d, sz, found)))
      else w_put [c] 1 False st)"

definition echo_measure :: "bool \<Rightarrow> byte \<Rightarrow> mstate \<Rightarrow> mstate" where
  "echo_measure quote c st =
     (if TEST_CHAR c T_ESCAPE_ECHO then
        (let st = m_put 1 False st
         in case echo_letter c of
              Some l \<Rightarrow> m_put 1 True st
            | None \<Rightarrow> if c = 0x22 then (if quote then m_put 1 True st else st) else m_put 3 True st)
      else m_put 1 False st)"

definition apr_escape_echo :: "bool \<Rightarrow> bool \<Rightarrow> cstring option \<Rightarrow> int \<Rightarrow> apr_status \<times> byte list \<times> nat" where
  "apr_escape_echo quote escaped s slen =
     (case s of None \<Rightarrow> (APR_NOTFOUND, [], 1)
      | Some s \<Rightarrow> if escaped then escape_end (escape_loop (echo_write quote) s slen ([], 1, False))
                  else measure_end (escape_loop (echo_measure quote) s slen (1, False)))"

subsection \<open>Unescaping of URLs\<close>

text \<open>
  \<open>s\<close> is the rest of the string after the character read; the two characters after a percent
  sign may lie beyond \<open>slen\<close>. The writing loop leaves \<open>slen\<close> alone when it copies a reserved
  escape, the measuring loop does not.
\<close>

record url_state =
  us_d :: "byte list"
  us_size :: nat
  us_badesc :: bool
  us_badpath :: bool
  us_found :: bool

fun unescape_write :: "bool \<Rightarrow> cstring option \<Rightarrow> cstring option \<Rightarrow> cstring \<Rightarrow> int \<Rightarrow> url_state \<Rightarrow> url_state" where
  "unescape_write plusp forbid reserved [] slen st = st"
| "unescape_write plusp forbid reserved (c # s) slen st =
     (if slen = 0 then st
      else if plusp \<and> c = 0x2b then
        unescape_write plusp forbid reserved s (slen - 1)
          (st\<lparr>us_d := us_d st @ [0x20], us_found := True, us_size := us_size st + 1\<rparr>)
      else if c \<noteq> 0x25 then
        unescape_write plusp forbid reserved s (slen - 1)
          (st\<lparr>us_d := us_d st @ [c], us_size := us_size st + 1\<rparr>)
      else if \<not> isxdigit (str_at s 0) \<or> \<not> isxdigit (str_at s 1) then
        unescape_write plusp forbid reserved s (slen - 1)
          (st\<lparr>us_d := us_d st @ [0x25], us_badesc := True, us_size := us_size st + 1\<rparr>)
      else
        (let decoded = x2c (str_at s 0) (str_at s 1)
         in if decoded = 0 \<or> forbid \<noteq> None \<and> strchr (the forbid) decoded then
              unescape_write plusp forbid reserved (drop 2 s) (slen - 2 - 1)
                (st\<lparr>us_d := us_d st @ [decoded], us_badpath := True, us_size := us_size st + 1\<rparr>)
            else if reserved \<noteq> None \<and> strchr (the reserved) decoded then
              unescape_write plusp forbid reserved (drop 2 s) (slen - 1)
                (st\<lparr>us_d := us_d st @ [c, str_at s 0, str_at s 1], us_size := us_size st + 2 + 1\<rparr>)
            else
              unescape_write plusp forbid reserved (drop 2 s) (slen - 2 - 1)
                (st\<lparr>us_d := us_d st @ [decoded], us_found := True, us_size := us_size st + 1\<rparr>)))"

fun unescape_measure :: "bool \<Rightarrow> cstring option \<Rightarrow> cstring option \<Rightarrow> cstring \<Rightarrow> int \<Rightarrow> url_state \<Rightarrow> url_state" where
  "unescape_measure plusp forbid reserved [] slen st = st"
| "unescape_measure plusp forbid reserved (c # s) slen st =
     (if slen = 0 then st
      else if plusp \<and> c = 0x2b then
        unescape_measure plusp forbid reserved s (slen - 1)
          (st\<lparr>us_found := True, us_size := us_size st + 1\<rparr>)
      else if c \<noteq> 0x25 then
        unescape_measure plusp forbid reserved s (slen - 1) (st\<lparr>us_size := us_size st + 1\<rparr>)
      else if \<not> isxdigit (str_at s 0) \<or> \<not> isxdigit (str_at s 1) then
        unescape_measure plusp forbid reserved s (slen - 1)
          (st\<lparr>us_badesc := True, us_size := us_size st + 1\<rparr>)
      else
        (let decoded = x2c (str_at s 0) (str_at s 1)
         in if decoded = 0 \<or> forbid \<noteq> None \<and> strchr (the forbid) decoded then
              unescape_measure plusp forbid reserved (drop 2 s) (slen - 2 - 1)
                (st\<lparr>us_badpath := True, us_size := us_size st + 1\<rparr>)
            else if reserved \<noteq> None \<and> strchr (the reserved) decoded then
              unescape_measure plusp forbid reserved (drop 2 s) (slen - 2 - 1)
                (st\<lparr>us_size := us_size st + 2 + 1\<rparr>)
            else
              unescape_measure plusp forbid reserved (drop 2 s) (slen - 2 - 1)
                (st\<lparr>us_found := True, us_size := us_size st + 1\<rparr>)))"

definition apr_unescape_url :: "bool \<Rightarrow> cstring option \<Rightarrow> int \<Rightarrow> cstring option \<Rightarrow> cstring option \<Rightarrow> bool \<Rightarrow>
    apr_status \<times> byte list \<times> nat" where
  "apr_unescape_url escaped url slen forbid reserved plusp =
     (case url of None \<Rightarrow> (APR_NOTFOUND, [], 0)
      | Some s \<Rightarrow>
          (let st0 = \<lparr>us_d = [], us_size = 1, us_badesc = False, us_badpath = False, us_found = False\<rparr>;
               st = (if escaped then
                       (let st = unescape_write plusp forbid reserved s slen st0
                        in st\<lparr>us_d := us_d st @ [0]\<rparr>)
                     else unescape_measure plusp forbid reserved s slen st0)
           in (if us_badesc st then APR_EINVAL else if us_badpath st then APR_BADCH
               else if \<not> us_found st then APR_NOTFOUND else APR_SUCCESS, us_d st, us_size st)))"

subsection \<open>Unescaping of entities\<close>

definition entlist :: "(byte list \<times> byte) list list" where
  "entlist =
     [[], [],
      [(str ''lt'', 0x3c), (str ''gt'', 0x3e)],
      [(str ''amp'', 0x26), (str ''ETH'', 0xd0), (str ''eth'', 0xf0)],
      [(str ''quot'', 0x22), (str ''Auml'', 0xc4), (str ''Euml'', 0xcb), (str ''Iuml'', 0xcf),
       (str ''Ouml'', 0xd6), (str ''Uuml'', 0xdc), (str ''auml'', 0xe4), (str ''euml'', 0xeb),
       (str ''iuml'', 0xef), (str ''ouml'', 0xf6), (str ''uuml'', 0xfc), (str ''yuml'', 0xff)],
      [(str ''Acirc'', 0xc2), (str ''Aring'', 0xc5), (str ''AElig'', 0xc6), (str ''Ecirc'', 0xca),
       (str ''Icirc'', 0xce), (str ''Ocirc'', 0xd4), (str ''Ucirc'', 0xdb), (str ''THORN'', 0xde),
       (str ''szlig'', 0xdf), (str ''acirc'', 0xe2), (str ''aring'', 0xe5), (str ''aelig'', 0xe6),
       (str ''ecirc'', 0xea), (str ''icirc'', 0xee), (str ''ocirc'', 0xf4), (str ''ucirc'', 0xfb),
       (str ''thorn'', 0xfe)],
      [(str ''Agrave'', 0xc0), (str ''Aacute'', 0xc1), (str ''Atilde'', 0xc3), (str ''Ccedil'', 0xc7),
       (str ''Egrave'', 0xc8), (str ''Eacute'', 0xc9), (str ''Igrave'', 0xcc), (str ''Iacute'', 0xcd),
       (str ''Ntilde'', 0xd1), (str ''Ograve'', 0xd2), (str ''Oacute'', 0xd3), (str ''Otilde'', 0xd5),
       (str ''Oslash'', 0xd8), (str ''Ugrave'', 0xd9), (str ''Uacute'', 0xda), (str ''Yacute'', 0xdd),
       (str ''agrave'', 0xe0), (str ''aacute'', 0xe1), (str ''atilde'', 0xe3), (str ''ccedil'', 0xe7),
       (str ''egrave'', 0xe8), (str ''eacute'', 0xe9), (str ''igrave'', 0xec), (str ''iacute'', 0xed),
       (str ''ntilde'', 0xf1), (str ''ograve'', 0xf2), (str ''oacute'', 0xf3), (str ''otilde'', 0xf5),
       (str ''oslash'', 0xf8), (str ''ugrave'', 0xf9), (str ''uacute'', 0xfa), (str ''yacute'', 0xfd)]]"

definition MAXENTLEN :: nat where
  "MAXENTLEN = 6"

text \<open>
  The search for the end of an entity: the position of the semicolon, the end of the string or
  \<open>slen\<close>; \<open>k\<close> is \<open>slen - i\<close>.
\<close>

fun ent_end :: "cstring \<Rightarrow> int \<Rightarrow> nat \<Rightarrow> nat" where
  "ent_end [] k i = i"
| "ent_end (c # s) k i = (if c \<noteq> 0x3b \<and> k \<noteq> 0 then ent_end s (k - 1) (Suc i) else i)"

text \<open>
  The digits of a character reference from position \<open>j\<close> up to \<open>i\<close>: where they end and their
  value as an \<open>int\<close> of 32 bits.
\<close>

fun ref_digits :: "nat \<Rightarrow> cstring \<Rightarrow> nat \<Rightarrow> u32 \<Rightarrow> nat \<times> u32" where
  "ref_digits i [] j val = (j, val)"
| "ref_digits i (c # s) j val =
     (if j < i \<and> isdigit c then ref_digits i s (Suc j) (val * 10 + ucast c - 48) else (j, val))"

definition bad_ref :: "nat \<Rightarrow> nat \<times> u32 \<Rightarrow> bool" where
  "bad_ref i jv = (case jv of (j, val) \<Rightarrow>
     j < i \<or> sint val \<le> 8 \<or> (sint val \<ge> 11 \<and> sint val \<le> 31) \<or> (sint val \<ge> 127 \<and> sint val \<le> 160) \<or>
     sint val \<ge> 256)"

definition ent_find :: "byte list \<Rightarrow> byte option" where
  "ent_find nm =
     (if length nm > MAXENTLEN \<or> entlist ! length nm = [] then None
      else map_option snd (find (\<lambda>e. fst e = nm) (entlist ! length nm)))"

text \<open>\<open>s\<close> is the string after the ampersand; \<open>s[i]\<close> of the code is \<open>str_at s (i - 1)\<close>.\<close>

fun entity_unwrite :: "cstring \<Rightarrow> int \<Rightarrow> wstate \<Rightarrow> wstate" where
  "entity_unwrite [] slen st = st"
| "entity_unwrite (c # s) slen st =
     (if slen = 0 then st
      else if c \<noteq> 0x26 then entity_unwrite s (slen - 1) (w_put [c] 1 False st)
      else
        (let i = ent_end s (slen - 1) 1
         in if str_at s (i - 1) = 0 \<or> slen - int i = 0 then
              entity_unwrite s (slen - 1) (w_put [c] 1 False st)
            else if str_at s 0 = 0x23 then
              (let jv = ref_digits i (drop 1 s) 2 0
               in entity_unwrite (drop i s) (slen - 1)
                    (if bad_ref i jv then st else w_put [ucast (snd jv)] 1 True st))
            else (case ent_find (take (i - 1) s) of
                    None \<Rightarrow> entity_unwrite s (slen - 1) (w_put [0x26] 1 False st)
                  | Some v \<Rightarrow> entity_unwrite (drop i s) (slen - int i - 1) (w_put [v] 1 True st))))"

fun entity_unmeasure :: "cstring \<Rightarrow> int \<Rightarrow> mstate \<Rightarrow> mstate" where
  "entity_unmeasure [] slen st = st"
| "entity_unmeasure (c # s) slen st =
     (if slen = 0 then st
      else if c \<noteq> 0x26 then entity_unmeasure s (slen - 1) (m_put 1 False st)
      else
        (let i = ent_end s (slen - 1) 1
         in if str_at s (i - 1) = 0 \<or> slen - int i = 0 then
              entity_unmeasure s (slen - 1) (m_put 1 False st)
            else if str_at s 0 = 0x23 then
              (let jv = ref_digits i (drop 1 s) 2 0
               in entity_unmeasure (drop i s) (slen - 1) (if bad_ref i jv then st else m_put 1 True st))
            else (case ent_find (take (i - 1) s) of
                    None \<Rightarrow> entity_unmeasure s (slen - 1) (m_put 1 False st)
                  | Some v \<Rightarrow> entity_unmeasure (drop i s) (slen - int i - 1) (m_put 1 True st))))"

definition apr_unescape_entity :: "bool \<Rightarrow> cstring option \<Rightarrow> int \<Rightarrow> apr_status \<times> byte list \<times> nat" where
  "apr_unescape_entity unescaped s slen =
     (case s of None \<Rightarrow> (APR_NOTFOUND, [], 1)
      | Some s \<Rightarrow> if unescaped then escape_end (entity_unwrite s slen ([], 1, False))
                  else measure_end (entity_unmeasure s slen (1, False)))"

subsection \<open>Hexadecimal coding of binary data\<close>

text \<open>The loop over \<open>size\<close>; \<open>k\<close> is its value at the head of the rest \<open>bs\<close>.\<close>

fun hex_write :: "bool \<Rightarrow> nat \<Rightarrow> byte list \<Rightarrow> byte list" where
  "hex_write colon k [] = []"
| "hex_write colon k (b # bs) =
     (if colon \<and> k \<noteq> 0 then [0x3a] else []) @
     [c2x_table ! unat (drop_bit 4 b), c2x_table ! unat (b AND 0xf)] @ hex_write colon (Suc k) bs"

definition apr_escape_hex :: "bool \<Rightarrow> byte list option \<Rightarrow> bool \<Rightarrow> apr_status \<times> byte list \<times> nat" where
  "apr_escape_hex dest src colon =
     (case src of None \<Rightarrow> (APR_NOTFOUND, [], 0)
      | Some bs \<Rightarrow>
          (APR_SUCCESS, if dest then hex_write colon 0 bs @ [0] else [],
           if colon \<and> length bs \<noteq> 0 then length bs * 3 else length bs * 2 + 1))"

text \<open>
  The state of the decoder: whether it has half a byte, the byte \<open>u\<close>, the bytes of the buffer it
  has touched, and \<open>size\<close>. The half byte is stored at once. \<open>None\<close> is the return with
  \<open>APR_BADCH\<close>.
\<close>

record hex_state =
  hs_flip :: bool
  hs_u :: byte
  hs_buf :: "byte list"
  hs_size :: nat

definition hex_digit :: "byte \<Rightarrow> byte option" where
  "hex_digit c =
     (if isdigit c then Some (c - 48)
      else if isupper c \<and> c \<le> 0x46 then Some (c - (65 - 10))
      else if islower c \<and> c \<le> 0x66 then Some (c - (97 - 10))
      else None)"

fun unhex_write :: "bool \<Rightarrow> cstring \<Rightarrow> int \<Rightarrow> hex_state \<Rightarrow> hex_state option" where
  "unhex_write colon [] slen st = Some st"
| "unhex_write colon (c # s) slen st =
     (if slen = 0 then Some st
      else
        (let st = (if \<not> hs_flip st then st\<lparr>hs_u := 0\<rparr> else st)
         in if colon \<and> c = 0x3a \<and> \<not> hs_flip st then unhex_write colon s (slen - 1) st
            else (case hex_digit c of
                    None \<Rightarrow> None
                  | Some v \<Rightarrow>
                      (let u = hs_u st OR v
                       in unhex_write colon s (slen - 1)
                            (if hs_flip st then
                               st\<lparr>hs_u := u, hs_buf := take (hs_size st) (hs_buf st) @ [u],
                                  hs_size := hs_size st + 1, hs_flip := False\<rparr>
                             else
                               (let u = push_bit 4 u
                                in st\<lparr>hs_u := u, hs_buf := take (hs_size st) (hs_buf st) @ [u],
                                      hs_flip := True\<rparr>))))))"

fun unhex_measure :: "bool \<Rightarrow> cstring \<Rightarrow> int \<Rightarrow> bool \<times> nat \<Rightarrow> (bool \<times> nat) option" where
  "unhex_measure colon [] slen st = Some st"
| "unhex_measure colon (c # s) slen st =
     (if slen = 0 then Some st
      else (case st of (flip, sz) \<Rightarrow>
        if colon \<and> c = 0x3a \<and> \<not> flip then unhex_measure colon s (slen - 1) (flip, sz)
        else if hex_digit c = None then None
        else unhex_measure colon s (slen - 1) (\<not> flip, if flip then sz + 1 else sz)))"

text \<open>On \<open>APR_BADCH\<close> the length is not stored.\<close>

definition apr_unescape_hex :: "bool \<Rightarrow> cstring option \<Rightarrow> int \<Rightarrow> bool \<Rightarrow> apr_status \<times> byte list \<times> nat option" where
  "apr_unescape_hex dest s slen colon =
     (case s of None \<Rightarrow> (APR_NOTFOUND, [], Some 0)
      | Some s \<Rightarrow>
          if dest then
            (case unhex_write colon s slen \<lparr>hs_flip = False, hs_u = 0, hs_buf = [], hs_size = 0\<rparr> of
               None \<Rightarrow> (APR_BADCH, [], None)
             | Some st \<Rightarrow> (APR_SUCCESS, hs_buf st, Some (hs_size st)))
          else
            (case unhex_measure colon s slen (False, 0) of
               None \<Rightarrow> (APR_BADCH, [], None)
             | Some st \<Rightarrow> (APR_SUCCESS, [], Some (snd st))))"

subsection \<open>The variants that allocate\<close>

text \<open>
  They measure, allocate and write; if nothing was escaped they return the string itself. The
  string in the buffer ends before its NUL.
\<close>

definition pescape :: "(bool \<Rightarrow> cstring option \<Rightarrow> int \<Rightarrow> apr_status \<times> byte list \<times> nat) \<Rightarrow>
    cstring option \<Rightarrow> cstring option" where
  "pescape op s =
     (case op False s (-1) of (status, out, len) \<Rightarrow>
        if status = APR_SUCCESS then (case op True s (-1) of (status, cmd, len) \<Rightarrow> Some (butlast cmd))
        else s)"

definition apr_pescape_shell :: "cstring option \<Rightarrow> cstring option" where
  "apr_pescape_shell = pescape apr_escape_shell"

definition apr_pescape_path_segment :: "cstring option \<Rightarrow> cstring option" where
  "apr_pescape_path_segment = pescape apr_escape_path_segment"

definition apr_pescape_path :: "bool \<Rightarrow> cstring option \<Rightarrow> cstring option" where
  "apr_pescape_path partial = pescape (apr_escape_path partial)"

definition apr_pescape_urlencoded :: "cstring option \<Rightarrow> cstring option" where
  "apr_pescape_urlencoded = pescape apr_escape_urlencoded"

definition apr_pescape_entity :: "bool \<Rightarrow> cstring option \<Rightarrow> cstring option" where
  "apr_pescape_entity toasc = pescape (apr_escape_entity toasc)"

definition apr_punescape_entity :: "cstring option \<Rightarrow> cstring option" where
  "apr_punescape_entity = pescape apr_unescape_entity"

definition apr_pescape_echo :: "bool \<Rightarrow> cstring option \<Rightarrow> cstring option" where
  "apr_pescape_echo quote = pescape (apr_escape_echo quote)"

definition apr_punescape_url :: "cstring option \<Rightarrow> cstring option \<Rightarrow> cstring option \<Rightarrow> bool \<Rightarrow> cstring option" where
  "apr_punescape_url url forbid reserved plusp =
     (case apr_unescape_url False url (-1) forbid reserved plusp of (status, out, len) \<Rightarrow>
        if status = APR_SUCCESS then
          (case apr_unescape_url True url (-1) forbid reserved plusp of (status, buf, len) \<Rightarrow> Some (butlast buf))
        else if status = APR_EINVAL \<or> status = APR_BADCH then None
        else url)"

definition apr_pescape_hex :: "byte list option \<Rightarrow> bool \<Rightarrow> cstring option" where
  "apr_pescape_hex src colon =
     (case apr_escape_hex False src colon of (status, out, len) \<Rightarrow>
        if status = APR_SUCCESS then
          (case apr_escape_hex True src colon of (status, cmd, len) \<Rightarrow> Some (butlast cmd))
        else src)"

text \<open>The buffer of the size measured, and the bytes written to it.\<close>

definition apr_punescape_hex :: "cstring option \<Rightarrow> bool \<Rightarrow> (nat \<times> byte list \<times> nat option) option" where
  "apr_punescape_hex s colon =
     (case apr_unescape_hex False s (-1) colon of (status, out, len) \<Rightarrow>
        if status = APR_SUCCESS then
          (case apr_unescape_hex True s (-1) colon of (status, cmd, len') \<Rightarrow> Some (the len, cmd, len'))
        else None)"

subsection \<open>Interface: a code for every character\<close>

text \<open>
  What the two loops of a function have to agree on: \<open>code c\<close> is written for \<open>c\<close>, and \<open>hit c\<close>
  says that this counts as an escape.
\<close>

definition limit :: "int \<Rightarrow> 'a list \<Rightarrow> 'a list" where
  "limit slen s = (if slen < 0 then s else take (nat slen) s)"

lemma limit_simps [simp]:
  "limit slen [] = []"
  "limit slen (c # s) = (if slen = 0 then [] else c # limit (slen - 1) s)"
  by (auto simp: limit_def nat_diff_distrib' take_Cons' simp flip: nat_0_iff)

locale char_escape =
  fixes wr :: "byte \<Rightarrow> wstate \<Rightarrow> wstate"
    and ms :: "byte \<Rightarrow> mstate \<Rightarrow> mstate"
    and code :: "byte \<Rightarrow> byte list"
    and hit :: "byte \<Rightarrow> bool"
  assumes wr: "c \<noteq> 0 \<Longrightarrow> wr c (d, n, b) = (d @ code c, n + length (code c), b \<or> hit c)"
    and ms: "c \<noteq> 0 \<Longrightarrow> ms c (n, b) = (n + length (code c), b \<or> hit c)"
begin

lemma write_loop:
  "nul_free s \<Longrightarrow> escape_loop wr s slen (d, n, b) =
     (d @ concat (map code (limit slen s)), n + length (concat (map code (limit slen s))),
      b \<or> (\<exists>c \<in> set (limit slen s). hit c))"
  by (induction s arbitrary: slen d n b) (auto simp: wr)

lemma measure_loop:
  "nul_free s \<Longrightarrow> escape_loop ms s slen (n, b) =
     (n + length (concat (map code (limit slen s))), b \<or> (\<exists>c \<in> set (limit slen s). hit c))"
  by (induction s arbitrary: slen n b) (auto simp: ms)

lemma written:
  "nul_free s \<Longrightarrow> escape_end (escape_loop wr s slen ([], 1, False)) =
     (if \<exists>c \<in> set (limit slen s). hit c then APR_SUCCESS else APR_NOTFOUND,
      concat (map code (limit slen s)) @ [0], Suc (length (concat (map code (limit slen s)))))"
  by (simp add: write_loop escape_end_def)

lemma measured:
  "nul_free s \<Longrightarrow> measure_end (escape_loop ms s slen (1, False)) =
     (if \<exists>c \<in> set (limit slen s). hit c then APR_SUCCESS else APR_NOTFOUND,
      [], Suc (length (concat (map code (limit slen s)))))"
  by (simp add: measure_loop measure_end_def)

end

definition shell_code :: "byte \<Rightarrow> byte list" where
  "shell_code c = (if TEST_CHAR c T_ESCAPE_SHELL_CMD then [0x5c, c] else [c])"

definition segment_code :: "byte \<Rightarrow> byte list" where
  "segment_code c = (if TEST_CHAR c T_ESCAPE_PATH_SEGMENT then c2x c 0x25 else [c])"

definition path_code :: "byte \<Rightarrow> byte list" where
  "path_code c = (if TEST_CHAR c T_OS_ESCAPE_PATH then c2x c 0x25 else [c])"

definition urlencoded_code :: "byte \<Rightarrow> byte list" where
  "urlencoded_code c =
     (if TEST_CHAR c T_ESCAPE_URLENCODED then c2x c 0x25 else if c = 0x20 then [0x2b] else [c])"

definition entity_code :: "bool \<Rightarrow> byte \<Rightarrow> byte list" where
  "entity_code toasc c =
     (if c = 0x3e then str ''&gt;'' else if c = 0x3c then str ''&lt;'' else if c = 0x26 then str ''&amp;''
      else if c = 0x22 then str ''&quot;''
      else if toasc \<and> \<not> isascii c then str ''&#'' @ decimal3 c else [c])"

definition echo_code :: "bool \<Rightarrow> byte \<Rightarrow> byte list" where
  "echo_code quote c =
     (if TEST_CHAR c T_ESCAPE_ECHO then
        (case echo_letter c of Some l \<Rightarrow> [0x5c, l]
         | None \<Rightarrow> if c = 0x22 then (if quote then [0x5c, c] else [c]) else 0x5c # c2x c 0x78)
      else [c])"

lemma test_char_flags:
  "TEST_CHAR c T_ESCAPE_PATH_SEGMENT = (\<not> isalnum c \<and> \<not> strchr (str ''$-_.+!*'' @ [0x27] @ str ''(),:@&=~'') c)"
  "TEST_CHAR c T_OS_ESCAPE_PATH = (\<not> isalnum c \<and> \<not> strchr (str ''$-_.+!*'' @ [0x27] @ str ''(),:@&=/~'') c)"
  "TEST_CHAR c T_ESCAPE_URLENCODED = (\<not> isalnum c \<and> \<not> strchr (str ''.-*_ '') c)"
  "TEST_CHAR c T_ESCAPE_XML = strchr (str ''<>&\"'') c"
  unfolding TEST_CHAR_def test_char_def T_ESCAPE_SHELL_CMD_def T_ESCAPE_PATH_SEGMENT_def T_OS_ESCAPE_PATH_def
    T_ESCAPE_ECHO_def T_ESCAPE_URLENCODED_def T_ESCAPE_XML_def bit.conj_disj_distrib2 or_eq_0_iff
    if_distrib [of "\<lambda>x. x AND _"]
  by simp_all

interpretation shell: char_escape shell_write shell_measure shell_code "\<lambda>c. TEST_CHAR c T_ESCAPE_SHELL_CMD"
  by unfold_locales (simp_all add: shell_write_def shell_measure_def shell_code_def w_put_def m_put_def)

interpretation segment: char_escape path_segment_write path_segment_measure segment_code
  "\<lambda>c. TEST_CHAR c T_ESCAPE_PATH_SEGMENT"
  by unfold_locales
    (simp_all add: path_segment_write_def path_segment_measure_def segment_code_def w_put_def m_put_def c2x_def)

interpretation path: char_escape path_write path_measure path_code "\<lambda>c. TEST_CHAR c T_OS_ESCAPE_PATH"
  by unfold_locales (simp_all add: path_write_def path_measure_def path_code_def w_put_def m_put_def c2x_def)

interpretation urlencoded: char_escape urlencoded_write urlencoded_measure urlencoded_code
  "\<lambda>c. TEST_CHAR c T_ESCAPE_URLENCODED \<or> c = 0x20"
  by unfold_locales
    (simp_all add: urlencoded_write_def urlencoded_measure_def urlencoded_code_def w_put_def m_put_def c2x_def)

interpretation entity: char_escape "entity_write toasc" "entity_measure toasc" "entity_code toasc"
  "\<lambda>c. TEST_CHAR c T_ESCAPE_XML \<or> toasc \<and> \<not> isascii c" for toasc
proof
  have cases: "TEST_CHAR c T_ESCAPE_XML \<longleftrightarrow> c = 0x3e \<or> c = 0x3c \<or> c = 0x26 \<or> c = 0x22" if "c \<noteq> 0" for c
    using that by (auto simp: test_char_flags strchr_def)
  have ref: "charref c = str ''&#'' @ decimal3 c" for c by (simp add: charref_def apr_snprintf_def decimal3_def)
  fix c d n b assume "(c :: byte) \<noteq> 0"
  show "entity_write toasc c (d, n, b) = (d @ entity_code toasc c, n + length (entity_code toasc c),
      b \<or> TEST_CHAR c T_ESCAPE_XML \<or> toasc \<and> \<not> isascii c)"
    by (auto simp: entity_write_def entity_code_def cases [OF \<open>c \<noteq> 0\<close>] w_put_def ref)
  show "entity_measure toasc c (n, b) = (n + length (entity_code toasc c),
      b \<or> TEST_CHAR c T_ESCAPE_XML \<or> toasc \<and> \<not> isascii c)"
    by (auto simp: entity_measure_def entity_code_def cases [OF \<open>c \<noteq> 0\<close>] m_put_def ref)
qed

interpretation echo: char_escape "echo_write quote" "echo_measure quote" "echo_code quote"
  "\<lambda>c. TEST_CHAR c T_ESCAPE_ECHO \<and> (c \<noteq> 0x22 \<or> quote)" for quote
proof
  have q: "echo_letter 0x22 = None" by (simp add: echo_letter_def)
  fix c d n b assume "(c :: byte) \<noteq> 0"
  show "echo_write quote c (d, n, b) = (d @ echo_code quote c, n + length (echo_code quote c),
      b \<or> TEST_CHAR c T_ESCAPE_ECHO \<and> (c \<noteq> 0x22 \<or> quote))"
    using q by (auto simp: echo_write_def echo_code_def w_put_def c2x_def split: option.split)
  show "echo_measure quote c (n, b) = (n + length (echo_code quote c),
      b \<or> TEST_CHAR c T_ESCAPE_ECHO \<and> (c \<noteq> 0x22 \<or> quote))"
    using q by (auto simp: echo_measure_def echo_code_def m_put_def c2x_def Let_def split: option.split)
qed

subsection \<open>Measuring and writing agree\<close>

text \<open>The states of the two loops agree but for the buffer.\<close>

definition same_counts :: "url_state \<Rightarrow> url_state \<Rightarrow> bool" where
  "same_counts m w \<longleftrightarrow> us_size m = us_size w \<and> us_badesc m = us_badesc w \<and>
     us_badpath m = us_badpath w \<and> us_found m = us_found w \<and> us_d m = []"

lemma unescape_agree:
  "reserved = None \<and> slen' = slen \<or> slen < 0 \<and> slen' < 0 \<Longrightarrow> same_counts m w \<Longrightarrow>
     same_counts (unescape_measure plusp forbid reserved s slen' m)
       (unescape_write plusp forbid reserved s slen w)"
proof (induction s arbitrary: slen slen' m w rule: length_induct)
  case (1 s)
  show ?case
  proof (cases s)
    case (Cons c r)
    have IH: "same_counts (unescape_measure plusp forbid reserved (drop i r) k' m)
        (unescape_write plusp forbid reserved (drop i r) k w)"
      if "reserved = None \<and> k' = k \<or> k < 0 \<and> k' < 0" "same_counts m w" for i k k' m w
      using 1(1) [rule_format, of "drop i r" k' k m w] that Cons by simp
    note IH0 = IH [of _ _ _ _ 0, unfolded drop_0]
    have z: "slen' = 0 \<longleftrightarrow> slen = 0" using 1(2) by auto
    let ?plus = "plusp \<and> c = 0x2b" and ?lit = "c \<noteq> 0x25"
    let ?bad = "\<not> isxdigit (str_at r 0) \<or> \<not> isxdigit (str_at r 1)"
    let ?v = "x2c (str_at r 0) (str_at r 1)"
    let ?path = "?v = 0 \<or> forbid \<noteq> None \<and> strchr (the forbid) ?v"
    let ?res = "reserved \<noteq> None \<and> strchr (the reserved) ?v"
    note steps = Cons unescape_write.simps unescape_measure.simps Let_def z
    consider "slen = 0" | "(slen = 0) = False" "?plus = True"
      | "(slen = 0) = False" "?plus = False" "?lit = True"
      | "(slen = 0) = False" "?plus = False" "?lit = False" "?bad = True"
      | "(slen = 0) = False" "?plus = False" "?lit = False" "?bad = False" "?path = True"
      | "(slen = 0) = False" "?plus = False" "?lit = False" "?bad = False" "?path = False" "?res = True"
      | "(slen = 0) = False" "?plus = False" "?lit = False" "?bad = False" "?path = False" "?res = False"
      by argo
    then show ?thesis
    proof cases
      case 1
      then show ?thesis using \<open>same_counts m w\<close> z Cons by simp
    next
      case 2
      show ?thesis unfolding steps 2 if_True if_False
        by (rule IH0) (use 1(2,3) in \<open>auto simp: same_counts_def\<close>)
    next
      case 3
      show ?thesis unfolding steps 3 if_True if_False
        by (rule IH0) (use 1(2,3) in \<open>auto simp: same_counts_def\<close>)
    next
      case 4
      show ?thesis unfolding steps 4 if_True if_False
        by (rule IH0) (use 1(2,3) in \<open>auto simp: same_counts_def\<close>)
    next
      case 5
      show ?thesis unfolding steps 5 if_True if_False
        by (rule IH) (use 1(2,3) in \<open>auto simp: same_counts_def\<close>)
    next
      case 6
      then have "reserved \<noteq> None" by argo
      then show ?thesis unfolding steps 6 if_True if_False
        by (intro IH) (use 1(2,3) in \<open>auto simp: same_counts_def\<close>)
    next
      case 7
      show ?thesis unfolding steps 7 if_True if_False
        by (rule IH) (use 1(2,3) in \<open>auto simp: same_counts_def\<close>)
    qed
  qed (use 1 in simp)
qed

lemma unescape_length:
  "Suc (length (us_d st)) = us_size st \<Longrightarrow>
     Suc (length (us_d (unescape_write plusp forbid reserved s slen st))) =
       us_size (unescape_write plusp forbid reserved s slen st)"
  by (induction plusp forbid reserved s slen st rule: unescape_write.induct) (auto simp: Let_def)

lemma unescape_url_fits:
  assumes "reserved = None \<or> slen < 0"
  shows "case (apr_unescape_url True (Some s) slen forbid reserved plusp,
               apr_unescape_url False (Some s) slen forbid reserved plusp) of
           ((status, out, len), (status', out', len')) \<Rightarrow>
             status = status' \<and> len = len' \<and> length out = len \<and> out' = []"
proof -
  let ?st = "\<lparr>us_d = [], us_size = 1, us_badesc = False, us_badpath = False, us_found = False\<rparr>"
  have "same_counts (unescape_measure plusp forbid reserved s slen ?st)
      (unescape_write plusp forbid reserved s slen ?st)"
    using assms by (intro unescape_agree) (auto simp: same_counts_def)
  then show ?thesis using unescape_length [where st = ?st and plusp = plusp and forbid = forbid and reserved = reserved and s = s and slen = slen]
    by (simp add: apr_unescape_url_def Let_def same_counts_def)
qed

lemma w_put_parts:
  "snd (w_put bs n b st) = m_put n b (snd st)"
  "fst (w_put bs n b st) = fst st @ bs"
  "fst (m_put n b ms) = fst ms + n"
  by (simp_all add: w_put_def m_put_def split: prod.split)

lemma entity_agree: "entity_unmeasure s slen (snd st) = snd (entity_unwrite s slen st)"
proof (induction s arbitrary: slen st rule: length_induct)
  case (1 s)
  show ?case
  proof (cases s)
    case (Cons c r)
    have IH: "entity_unmeasure (drop i r) k (snd st) = snd (entity_unwrite (drop i r) k st)" for i k st
      using 1 [rule_format, of "drop i r"] Cons by simp
    have IH0: "entity_unmeasure r k (snd st) = snd (entity_unwrite r k st)" for k st
      using IH [of 0] by simp
    show ?thesis
      by (simp only: Cons entity_unwrite.simps entity_unmeasure.simps Let_def)
        (simp only: IH [symmetric] IH0 [symmetric] w_put_parts(1) split: if_split option.split, simp)
  qed simp
qed

definition surplus :: "wstate \<Rightarrow> int" where
  "surplus st = int (length (fst st)) - int (fst (snd st))"

lemma surplus_put [simp]: "surplus (w_put [v] 1 b st) = surplus st"
  by (simp add: surplus_def w_put_parts)

lemma entity_surplus: "surplus (entity_unwrite s slen st) = surplus st"
proof (induction s arbitrary: slen st rule: length_induct)
  case (1 s)
  show ?case
  proof (cases s)
    case (Cons c r)
    have IH: "surplus (entity_unwrite (drop i r) k st) = surplus st" for i k st
      using 1 [rule_format, of "drop i r"] Cons by simp
    have IH0: "surplus (entity_unwrite r k st) = surplus st" for k st
      using IH [of 0] by simp
    show ?thesis
      by (simp only: Cons entity_unwrite.simps Let_def)
        (simp only: IH IH0 surplus_put split: if_split option.split, simp)
  qed simp
qed

lemma unescape_entity_fits:
  "case (apr_unescape_entity True (Some s) slen, apr_unescape_entity False (Some s) slen) of
     ((status, out, len), (status', out', len')) \<Rightarrow>
       status = status' \<and> len = len' \<and> length out = len \<and> out' = []"
proof -
  obtain d n b where w: "entity_unwrite s slen ([], 1, False) = (d, n, b)" by (metis prod_cases3)
  show ?thesis
    using entity_agree [of s slen "([], 1, False)"] entity_surplus [of s slen "([], 1, False)"]
    by (simp add: apr_unescape_entity_def escape_end_def measure_end_def surplus_def w [simplified])
qed

subsection \<open>Round trips\<close>

lemma hex_digits:
  assumes "n < 16"
  shows "isxdigit (c2x_table ! n) \<and> x2c_digit (c2x_table ! n) = of_nat n \<and> hex_digit (c2x_table ! n) = Some (of_nat n)"
proof -
  have "\<forall>n \<in> set [0..<16]. isxdigit (c2x_table ! n) \<and> x2c_digit (c2x_table ! n) = of_nat n \<and>
      hex_digit (c2x_table ! n) = Some (of_nat n)"
    by code_simp
  then show ?thesis using assms by simp
qed

lemma nibbles:
  "unat (drop_bit 4 (c :: byte)) < 16" "unat (c AND 0xf) < 16"
  "of_nat (unat (drop_bit 4 c)) * 16 + of_nat (unat (c AND 0xf)) = c"
  "push_bit 4 (of_nat (unat (drop_bit 4 c))) OR of_nat (unat (c AND 0xf)) = c"
proof -
  have m: "c AND 0xf = take_bit 4 c" by (simp add: take_bit_eq_mask mask_eq_exp_minus_1)
  have "unat c < 256" using unsigned_less [of c] by simp
  then have u: "unat (drop_bit 4 c) = unat c div 16" "unat (c AND 0xf) = unat c mod 16"
    by (simp_all add: unsigned_drop_bit_eq m unsigned_take_bit_eq flip: drop_bit_eq_div take_bit_eq_mod)
      (simp_all add: drop_bit_eq_div take_bit_eq_mod)
  have "unat c < 256" using unsigned_less [of c] by simp
  then show "unat (drop_bit 4 c) < 16" "unat (c AND 0xf) < 16" by (simp_all add: u)
  have "of_nat (unat (drop_bit 4 c)) * 16 + of_nat (unat (c AND 0xf)) = (of_nat (unat c div 16 * 16 + unat c mod 16) :: byte)"
    unfolding u by (simp only: of_nat_add of_nat_mult of_nat_numeral)
  also have "\<dots> = c" by (subst div_mult_mod_eq) simp
  finally show "of_nat (unat (drop_bit 4 c)) * 16 + of_nat (unat (c AND 0xf)) = c" .
  show "push_bit 4 (of_nat (unat (drop_bit 4 c))) OR of_nat (unat (c AND 0xf)) = c"
    by (simp add: m) (rule byte_eqI; simp add: bit_simps)
qed

lemma c2x_back:
  "isxdigit (c2x_table ! unat (drop_bit 4 c))" "isxdigit (c2x_table ! unat (c AND 0xf))"
  "x2c (c2x_table ! unat (drop_bit 4 c)) (c2x_table ! unat (c AND 0xf)) = c"
  using hex_digits [OF nibbles(1) [of c]] hex_digits [OF nibbles(2) [of c]] nibbles(3) [of c]
  by (simp_all add: x2c_def)

text \<open>
  The codes that \<open>apr_unescape_url\<close> reads back: a percent escape, a character that is not
  special, or the plus sign for a space. A function with such a code is undone.
\<close>

locale url_escape = char_escape +
  fixes plusp :: bool
  assumes url_code: "c \<noteq> 0 \<Longrightarrow> code c = c2x c 0x25 \<or>
      code c = [c] \<and> c \<noteq> 0x25 \<and> \<not> (plusp \<and> c = 0x2b) \<or> plusp \<and> c = 0x20 \<and> code c = [0x2b]"
    and hit: "hit c \<longleftrightarrow> code c \<noteq> [c]"
begin

lemma unescape_code:
  assumes "nul_free s" "slen < 0"
  shows "unescape_write plusp None None (concat (map code s)) slen st =
    st\<lparr>us_d := us_d st @ s, us_size := us_size st + length s, us_found := us_found st \<or> (\<exists>c \<in> set s. hit c)\<rparr>"
  using assms
proof (induction s arbitrary: slen st)
  case (Cons c s)
  then consider "code c = c2x c 0x25" | "code c = [c]" "c \<noteq> 0x25" "\<not> (plusp \<and> c = 0x2b)"
    | "plusp" "c = 0x20" "code c = [0x2b]"
    using url_code [of c] by auto
  then show ?case
  proof cases
    case 1
    then show ?thesis using Cons by (simp add: c2x_def c2x_back str_at_Cons Let_def One_nat_def hit)
  next
    case 2
    then have n: "(plusp \<and> c = 0x2b) = False" "(c \<noteq> 0x25) = True" by auto
    have e: "concat (map code (c # s)) = c # concat (map code s)" using 2(1) by simp
    show ?thesis unfolding e unescape_write.simps n if_True if_False using Cons 2(1) by (simp add: hit)
  next
    case 3
    then show ?thesis using Cons by (simp add: hit)
  qed
qed simp

lemma no_hit: "\<forall>c \<in> set s. \<not> hit c \<Longrightarrow> concat (map code s) = s"
  by (induction s) (auto simp: hit)

lemma punescape:
  assumes "nul_free s"
  shows "apr_punescape_url (Some (concat (map code s))) None None plusp = Some s"
proof -
  let ?st = "\<lparr>us_d = [], us_size = 1, us_badesc = False, us_badpath = False, us_found = False\<rparr>"
  have "same_counts (unescape_measure plusp None None (concat (map code s)) (-1) ?st)
      (unescape_write plusp None None (concat (map code s)) (-1) ?st)"
    by (intro unescape_agree) (auto simp: same_counts_def)
  then show ?thesis
    using assms no_hit [of s] by (auto simp: apr_punescape_url_def apr_unescape_url_def Let_def
        unescape_code same_counts_def)
qed

lemma pescape_code:
  assumes "nul_free s"
    and "\<And>escaped. op escaped (Some s) (-1) =
      (if escaped then escape_end (escape_loop wr s (-1) ([], 1, False))
       else measure_end (escape_loop ms s (-1) (1, False)))"
  shows "pescape op (Some s) = Some (concat (map code s))"
  unfolding pescape_def assms(2) if_True if_False written [OF assms(1)] measured [OF assms(1)]
  using no_hit [of s] by (auto simp: limit_def)

end

interpretation segment_url: url_escape path_segment_write path_segment_measure segment_code
  "\<lambda>c. TEST_CHAR c T_ESCAPE_PATH_SEGMENT" False
  by unfold_locales (auto simp: segment_code_def test_char_flags strchr_def c2x_def isalnum_def isupper_def islower_def isdigit_def)

interpretation path_url: url_escape path_write path_measure path_code "\<lambda>c. TEST_CHAR c T_OS_ESCAPE_PATH" False
  by unfold_locales (auto simp: path_code_def test_char_flags strchr_def c2x_def isalnum_def isupper_def islower_def isdigit_def)

interpretation urlencoded_url: url_escape urlencoded_write urlencoded_measure urlencoded_code
  "\<lambda>c. TEST_CHAR c T_ESCAPE_URLENCODED \<or> c = 0x20" True
  by unfold_locales (auto simp: urlencoded_code_def test_char_flags strchr_def c2x_def isalnum_def isupper_def islower_def isdigit_def)

lemma pescape_path:
  assumes "nul_free s"
  shows "apr_pescape_path partial (Some s) =
    Some (concat (map path_code (if \<not> partial \<and> colon_first s then [0x2e, 0x2f] @ s else s)))"
proof -
  have dot: "path_code 0x2e = [0x2e]" "path_code 0x2f = [0x2f]" by code_simp+
  show ?thesis
    using assms path_url.no_hit [of s] by (auto simp: apr_pescape_path_def pescape_def apr_escape_path_def Let_def
        w_put_def m_put_def path.write_loop path.measure_loop escape_end_def measure_end_def
        limit_def dot)
qed

lemma ent_end_name: "k < 0 \<Longrightarrow> 0x3b \<notin> set nm \<Longrightarrow> ent_end (nm @ 0x3b # r) k i = i + length nm"
  by (induction nm arbitrary: k i) auto

lemma entity_unwrite_ref:
  assumes "ent_find nm = Some v" "slen < 0" "0x3b \<notin> set nm" "nm \<noteq> []" "hd nm \<noteq> 0x23"
  shows "entity_unwrite (0x26 # nm @ 0x3b # r) slen st =
    entity_unwrite r (slen - int (length nm) - 2) (w_put [v] 1 True st)"
proof -
  have s: "str_at (nm @ 0x3b # r) (length nm) = 0x3b" "(str_at (nm @ 0x3b # r) 0 = 0x23) = False"
    using assms(4,5) by (auto simp: str_at_def nth_append hd_conv_nth)
  have e: "ent_end (nm @ 0x3b # r) (slen - 1) 1 = Suc (length nm)"
    using ent_end_name [of "slen - 1" nm r 1] assms(2,3) by simp
  have c: "((0x26 :: byte) \<noteq> 0x26) = False" "(slen = 0) = False" "(0x3b = (0 :: byte)) = False"
    "(slen - int (Suc (length nm)) = 0) = False" "Suc (length nm) - 1 = length nm"
    "drop (Suc (length nm)) (nm @ 0x3b # r) = r" "take (length nm) (nm @ 0x3b # r) = nm"
    "slen - int (Suc (length nm)) - 1 = slen - int (length nm) - 2"
    using assms(2) by simp_all
  show ?thesis
    unfolding entity_unwrite.simps Let_def e c s if_False simp_thms assms(1) option.case ..
qed

lemma entity_unwrite_code:
  assumes "nul_free s" "slen < 0"
  shows "entity_unwrite (concat (map (entity_code False) s)) slen (d, n, b) =
    (d @ s, n + length s, b \<or> (\<exists>c \<in> set s. entity_code False c \<noteq> [c]))"
  using assms
proof (induction s arbitrary: slen d n b)
  case (Cons c s)
  have f: "ent_find (str ''gt'') = Some 0x3e" "ent_find (str ''lt'') = Some 0x3c"
    "ent_find (str ''amp'') = Some 0x26" "ent_find (str ''quot'') = Some 0x22" by code_simp+
  consider nm where "entity_code False c = 0x26 # nm @ [0x3b]" "ent_find nm = Some c" "0x3b \<notin> set nm"
      "nm \<noteq> []" "hd nm \<noteq> 0x23"
    | "c \<noteq> 0x26" "entity_code False c = [c]"
  proof -
    have "(\<exists>nm. entity_code False c = 0x26 # nm @ [0x3b] \<and> ent_find nm = Some c \<and> 0x3b \<notin> set nm \<and>
        nm \<noteq> [] \<and> hd nm \<noteq> 0x23) \<or> c \<noteq> 0x26 \<and> entity_code False c = [c]"
    proof (cases "c \<in> {0x3e, 0x3c, 0x26, 0x22}")
      case True
      then show ?thesis
        using f by (intro disjI1 exI [of _ "butlast (tl (entity_code False c))"]) (auto simp: entity_code_def)
    qed (auto simp: entity_code_def)
    then show ?thesis using that by blast
  qed
  then show ?case
  proof cases
    case (1 nm)
    have e: "concat (map (entity_code False) (c # s)) = 0x26 # nm @ 0x3b # concat (map (entity_code False) s)"
      using 1(1) by simp
    show ?thesis
      unfolding e entity_unwrite_ref [OF 1(2) Cons.prems(2) 1(3-5)]
      using Cons 1(1) by (simp add: w_put_def)
  next
    case 2
    then have n: "(c \<noteq> 0x26) = True" by simp
    have e: "concat (map (entity_code False) (c # s)) = c # concat (map (entity_code False) s)"
      using 2(2) by simp
    show ?thesis unfolding e entity_unwrite.simps n if_True
      using Cons 2(2) by (simp add: w_put_def)
  qed
qed simp

lemma entity_punescape:
  assumes "nul_free s"
  shows "apr_punescape_entity (apr_pescape_entity False (Some s)) = Some s"
proof -
  let ?e = "concat (map (entity_code False) s)"
  have hit: "(TEST_CHAR c T_ESCAPE_XML) = (entity_code False c \<noteq> [c])" if "c \<noteq> 0" for c
    using that by (auto simp: entity_code_def test_char_flags strchr_def)
  have nz: "c \<noteq> 0" if "c \<in> set s" for c using assms that by (auto simp: nul_free_def)
  have plain: "?e = s" if "\<forall>c \<in> set s. entity_code False c = [c]"
    using that by (induction s) auto
  have "apr_pescape_entity False (Some s) = Some ?e"
    using assms plain hit nz
    unfolding apr_pescape_entity_def pescape_def apr_escape_entity_def option.case if_True if_False
      entity.written [OF assms] entity.measured [OF assms]
    by (auto simp: limit_def)
  moreover have "apr_punescape_entity (Some ?e) = Some s"
    using entity_agree [of ?e "-1" "([], 1, False)"] plain
    by (auto simp: apr_punescape_entity_def pescape_def apr_unescape_entity_def entity_unwrite_code assms
        escape_end_def measure_end_def)
  ultimately show ?thesis by simp
qed

subsubsection \<open>Hexadecimal data\<close>

lemma unhex_write_hex:
  assumes "slen < 0" "\<not> hs_flip st" "hs_size st = length (hs_buf st)"
  shows "\<exists>st'. unhex_write colon (hex_write colon k bs) slen st = Some st' \<and> hs_buf st' = hs_buf st @ bs \<and>
    hs_size st' = hs_size st + length bs"
  using assms
proof (induction bs arbitrary: k slen st)
  case (Cons b bs)
  note d = hex_digits [OF nibbles(1) [of b]] hex_digits [OF nibbles(2) [of b]]
  have nc: "c2x_table ! unat (drop_bit 4 b) \<noteq> 0x3a" "c2x_table ! unat (b AND 0xf) \<noteq> 0x3a"
    using d by (auto simp: isxdigit_def isdigit_def)
  note step = Cons.IH [of _ "st\<lparr>hs_u := b, hs_buf := hs_buf st @ [b], hs_size := Suc (length (hs_buf st)), hs_flip := False\<rparr>"]
  show ?case using Cons.prems nibbles(4) [of b] step [of "slen - 2" "Suc k"] step [of "slen - 3" "Suc k"]
    by (auto simp: d nc Let_def)
qed simp


lemma unhex_measure_hex:
  "slen < 0 \<Longrightarrow> unhex_measure colon (hex_write colon k bs) slen (False, n) = Some (False, n + length bs)"
proof (induction bs arbitrary: k slen n)
  case (Cons b bs)
  note d = hex_digits [OF nibbles(1) [of b]] hex_digits [OF nibbles(2) [of b]]
  have nc: "c2x_table ! unat (drop_bit 4 b) \<noteq> 0x3a" "c2x_table ! unat (b AND 0xf) \<noteq> 0x3a"
    using d by (auto simp: isxdigit_def isdigit_def)
  show ?case using Cons by (auto simp: d nc)
qed simp

lemma hex_punescape:
  "apr_punescape_hex (apr_pescape_hex (Some bs) colon) colon = Some (length bs, bs, Some (length bs))"
  using unhex_write_hex [of "-1" "\<lparr>hs_flip = False, hs_u = 0, hs_buf = [], hs_size = 0\<rparr>" colon 0 bs]
    unhex_measure_hex [of "-1" colon 0 bs 0]
  by (auto simp: apr_punescape_hex_def apr_pescape_hex_def apr_escape_hex_def apr_unescape_hex_def)

lemma unhex_agree:
  "map_option (\<lambda>st. (hs_flip st, hs_size st)) (unhex_write colon s slen st) =
     unhex_measure colon s slen (hs_flip st, hs_size st)"
  by (induction colon s slen st rule: unhex_write.induct) (auto simp: Let_def split: option.split)

lemma unhex_buf:
  "unhex_write colon s slen st = Some st' \<Longrightarrow> length (hs_buf st) = hs_size st + of_bool (hs_flip st) \<Longrightarrow>
     length (hs_buf st') = hs_size st' + of_bool (hs_flip st') \<and>
     2 * hs_size st' + of_bool (hs_flip st') =
       2 * hs_size st + of_bool (hs_flip st) + length (filter (\<lambda>c. hex_digit c \<noteq> None) (limit slen s))"
proof (induction colon s slen st rule: unhex_write.induct)
  case (2 colon c s slen st)
  have "hex_digit 0x3a = None" by code_simp
  with 2 show ?case by (auto simp: Let_def split: option.splits if_splits)
qed auto

subsection \<open>Properties\<close>

text \<open>A measuring call and a writing call agree: the buffer of the size measured is filled exactly.\<close>

definition agrees :: "(bool \<Rightarrow> apr_status \<times> byte list \<times> nat) \<Rightarrow> bool" where
  "agrees op \<longleftrightarrow>
     (case (op True, op False) of ((status, out, len), (status', out', len')) \<Rightarrow>
        status = status' \<and> len = len' \<and> length out = len)"

lemma buffers_fit:
  assumes "nul_free s" "reserved = None \<or> slen < 0"
  shows "agrees (\<lambda>e. apr_escape_shell e (Some s) slen)"
    "agrees (\<lambda>e. apr_escape_path_segment e (Some s) slen)"
    "agrees (\<lambda>e. apr_escape_path partial e (Some s) slen)"
    "agrees (\<lambda>e. apr_escape_urlencoded e (Some s) slen)"
    "agrees (\<lambda>e. apr_escape_entity toasc e (Some s) slen)"
    "agrees (\<lambda>e. apr_escape_echo quote e (Some s) slen)"
    "agrees (\<lambda>e. apr_unescape_entity e (Some s) slen)"
    "agrees (\<lambda>e. apr_unescape_url e (Some s) slen forbid reserved plusp)"
proof -
  note w = shell.written segment.written path.written urlencoded.written entity.written echo.written
  note m = shell.measured segment.measured path.measured urlencoded.measured entity.measured echo.measured
  note defs = agrees_def apr_escape_shell_def apr_escape_path_segment_def apr_escape_urlencoded_def
    apr_escape_entity_def apr_escape_echo_def option.case if_True if_False
  show "agrees (\<lambda>e. apr_escape_shell e (Some s) slen)" "agrees (\<lambda>e. apr_escape_path_segment e (Some s) slen)"
    "agrees (\<lambda>e. apr_escape_urlencoded e (Some s) slen)" "agrees (\<lambda>e. apr_escape_entity toasc e (Some s) slen)"
    "agrees (\<lambda>e. apr_escape_echo quote e (Some s) slen)"
    unfolding defs w [OF assms(1)] m [OF assms(1)] by simp_all
  show "agrees (\<lambda>e. apr_escape_path partial e (Some s) slen)"
    using assms(1) by (simp add: agrees_def apr_escape_path_def Let_def w_put_def m_put_def
        path.write_loop path.measure_loop escape_end_def measure_end_def)
  show "agrees (\<lambda>e. apr_unescape_entity e (Some s) slen)"
    using unescape_entity_fits [of s slen] by (auto simp: agrees_def)
  show "agrees (\<lambda>e. apr_unescape_url e (Some s) slen forbid reserved plusp)"
    using unescape_url_fits [OF assms(2), of s forbid plusp] by (auto simp: agrees_def)
qed

lemma length_hex_write:
  "length (hex_write colon k bs) = length bs * (if colon then 3 else 2) - of_bool (colon \<and> k = 0 \<and> bs \<noteq> [])"
  by (induction colon k bs rule: hex_write.induct) auto

lemma hex_fits: "agrees (\<lambda>e. apr_escape_hex e (Some bs) colon)"
  by (cases bs) (auto simp: agrees_def apr_escape_hex_def length_hex_write)

text \<open>
  C23: For every function but the hexadecimal decoder (\<open>apr_unescape_hex\<close>), the call that
  measures and the call that writes return the same status and the same length, and exactly that
  many bytes are written, the NUL included, so the buffer allocated between the two calls is neither overrun nor
  left with a gap. For \<open>apr_unescape_url\<close> this is so when no character is reserved, or the whole
  string is decoded (a negative length); \<open>unescape_url_reserved_overrun\<close> shows that it
  is not in the remaining case.
\<close>

theorem escape_buffers_fit:
  assumes "nul_free s"
  shows "agrees (\<lambda>e. apr_escape_shell e (Some s) slen) \<and>
    agrees (\<lambda>e. apr_escape_path_segment e (Some s) slen) \<and>
    agrees (\<lambda>e. apr_escape_path partial e (Some s) slen) \<and>
    agrees (\<lambda>e. apr_escape_urlencoded e (Some s) slen) \<and>
    agrees (\<lambda>e. apr_escape_entity toasc e (Some s) slen) \<and>
    agrees (\<lambda>e. apr_escape_echo quote e (Some s) slen) \<and>
    agrees (\<lambda>e. apr_escape_hex e (Some bs) colon) \<and>
    agrees (\<lambda>e. apr_unescape_entity e (Some s) slen) \<and>
    (reserved = None \<or> slen < 0 \<longrightarrow> agrees (\<lambda>e. apr_unescape_url e (Some s) slen forbid reserved plusp))"
  by (intro conjI impI hex_fits buffers_fit(1-7) [OF assms disjI1 [OF refl]] buffers_fit(8) [OF assms])

lemma escape_buffers_fit_witness:
  "agrees (\<lambda>e. apr_escape_entity True e (Some (str ''a<b'')) 2) \<and>
   agrees (\<lambda>e. apr_unescape_url e (Some (str ''a<b'')) 2 None None False)"
  using escape_buffers_fit [of "str ''a<b''" 2] by (simp add: nul_free_def)

lemma roundtrips:
  assumes "nul_free s"
  shows "apr_punescape_url (apr_pescape_path_segment (Some s)) None None False = Some s"
    "apr_punescape_url (apr_pescape_path partial (Some s)) None None False =
       Some (if \<not> partial \<and> colon_first s then [0x2e, 0x2f] @ s else s)"
    "apr_punescape_url (apr_pescape_urlencoded (Some s)) None None True = Some s"
    "apr_punescape_entity (apr_pescape_entity False (Some s)) = Some s"
    "apr_punescape_hex (apr_pescape_hex (Some bs) colon) colon = Some (length bs, bs, Some (length bs))"
proof -
  have "apr_pescape_path_segment (Some s) = Some (concat (map segment_code s))"
    "apr_pescape_urlencoded (Some s) = Some (concat (map urlencoded_code s))"
    unfolding apr_pescape_path_segment_def apr_pescape_urlencoded_def
    by (intro segment_url.pescape_code urlencoded_url.pescape_code assms;
        simp add: apr_escape_path_segment_def apr_escape_urlencoded_def)+
  then show "apr_punescape_url (apr_pescape_path_segment (Some s)) None None False = Some s"
    "apr_punescape_url (apr_pescape_urlencoded (Some s)) None None True = Some s"
    using segment_url.punescape [OF assms] urlencoded_url.punescape [OF assms] by simp_all
  have "nul_free (if \<not> partial \<and> colon_first s then [0x2e, 0x2f] @ s else s)" using assms by simp
  then show "apr_punescape_url (apr_pescape_path partial (Some s)) None None False =
      Some (if \<not> partial \<and> colon_first s then [0x2e, 0x2f] @ s else s)"
    unfolding pescape_path [OF assms] by (rule path_url.punescape)
qed (rule entity_punescape [OF assms] hex_punescape)+

text \<open>Without the characters that \<open>toasc\<close> is about it makes no difference.\<close>

lemma entity_loop_ascii:
  "\<forall>c \<in> set s. isascii c \<Longrightarrow> escape_loop (entity_write toasc) s slen st = escape_loop (entity_write False) s slen st"
  "\<forall>c \<in> set s. isascii c \<Longrightarrow> escape_loop (entity_measure toasc) s slen st' = escape_loop (entity_measure False) s slen st'"
proof -
  have e: "entity_write toasc c = entity_write False c" "entity_measure toasc c = entity_measure False c"
    if "isascii c" for c
    using that by (simp_all add: entity_write_def entity_measure_def)
  show "\<forall>c \<in> set s. isascii c \<Longrightarrow> escape_loop (entity_write toasc) s slen st = escape_loop (entity_write False) s slen st"
    by (induction s arbitrary: slen st) (simp_all add: e)
  show "\<forall>c \<in> set s. isascii c \<Longrightarrow> escape_loop (entity_measure toasc) s slen st' = escape_loop (entity_measure False) s slen st'"
    by (induction s arbitrary: slen st') (simp_all add: e)
qed

lemma pescape_entity_ascii:
  "\<forall>c \<in> set s. isascii c \<Longrightarrow> apr_pescape_entity toasc (Some s) = apr_pescape_entity False (Some s)"
  by (simp only: apr_pescape_entity_def pescape_def apr_escape_entity_def option.case if_True if_False
      entity_loop_ascii [of s toasc])

text \<open>
  C22: What the escaping functions produce for a C string is undone by their decoders: URL path segments
  and form data by \<open>apr_punescape_url\<close>; URL paths as well, where \<open>./\<close> is in front of the
  result if it was put there because a colon comes before the first slash; entities by
  \<open>apr_punescape_entity\<close>, for every string without \<open>toasc\<close> and for ASCII strings with it; and
  hexadecimal text of any bytes by
  \<open>apr_punescape_hex\<close>, which then allocates as many bytes as it writes.
\<close>

theorem escape_roundtrip:
  assumes "nul_free s"
  shows "apr_punescape_url (apr_pescape_path_segment (Some s)) None None False = Some s \<and>
    apr_punescape_url (apr_pescape_path partial (Some s)) None None False =
      Some (if \<not> partial \<and> colon_first s then [0x2e, 0x2f] @ s else s) \<and>
    apr_punescape_url (apr_pescape_urlencoded (Some s)) None None True = Some s \<and>
    (\<not> toasc \<or> (\<forall>c \<in> set s. isascii c) \<longrightarrow>
       apr_punescape_entity (apr_pescape_entity toasc (Some s)) = Some s) \<and>
    apr_punescape_hex (apr_pescape_hex (Some bs) colon) colon = Some (length bs, bs, Some (length bs))"
proof -
  have "apr_punescape_entity (apr_pescape_entity toasc (Some s)) = Some s" if "\<not> toasc \<or> (\<forall>c \<in> set s. isascii c)"
  proof (cases toasc)
    case True
    then show ?thesis using that pescape_entity_ascii [of s toasc] roundtrips(4) [OF assms] by simp
  next
    case False
    then show ?thesis using roundtrips(4) [OF assms] by simp
  qed
  then show ?thesis by (intro conjI impI roundtrips(1-3,5) [OF assms])
qed

lemma escape_roundtrip_witness:
  "apr_punescape_entity (apr_pescape_entity False (Some (str ''a<b''))) = Some (str ''a<b'')"
  using escape_roundtrip [of "str ''a<b''" _ False] by (simp add: nul_free_def)

lemma unhex_measure_ok: "\<forall>c \<in> set (limit slen s). hex_digit c \<noteq> None \<Longrightarrow> unhex_measure colon s slen st \<noteq> None"
  by (induction s arbitrary: slen st) (force split: prod.split if_splits)+

lemma unhex_measure_bad:
  "\<exists>c \<in> set (limit slen s). hex_digit c = None \<and> \<not> (colon \<and> c = 0x3a) \<Longrightarrow> unhex_measure colon s slen st = None"
proof (induction s arbitrary: slen st)
  case (Cons c s)
  have IH: "unhex_measure colon s (slen - 1) st = None"
    if "\<exists>c \<in> set (limit (slen - 1) s). hex_digit c = None \<and> \<not> (colon \<and> c = 0x3a)" for st
    using Cons.IH that by blast
  show ?case using Cons.prems IH by (cases st) (fastforce split: if_splits)
qed simp

text \<open>
  C39: The measuring and the writing call of \<open>apr_unescape_hex\<close> agree on status and
  length; a string of digits is accepted, a character that is neither a digit nor an allowed colon is
  refused with \<open>APR_BADCH\<close>. The length is half the number of digits, rounded down, but the
  writing call stores the last half byte as well and touches half the number rounded up: with an odd
  number of digits it writes one byte behind the buffer of the size measured.
\<close>

theorem unescape_hex_odd:
  fixes s :: cstring and slen :: int
  defines "digits \<equiv> length (filter (\<lambda>c. hex_digit c \<noteq> None) (limit slen s))"
  shows "case (apr_unescape_hex True (Some s) slen colon, apr_unescape_hex False (Some s) slen colon) of
     ((status, out, len), (status', out', len')) \<Rightarrow>
       status = status' \<and> len = len' \<and>
       (status = APR_SUCCESS \<and> len = Some (digits div 2) \<and> length out = (digits + 1) div 2 \<or>
        status = APR_BADCH \<and> len = None) \<and>
       ((\<forall>c \<in> set (limit slen s). hex_digit c \<noteq> None) \<longrightarrow> status = APR_SUCCESS) \<and>
       ((\<exists>c \<in> set (limit slen s). hex_digit c = None \<and> \<not> (colon \<and> c = 0x3a)) \<longrightarrow> status = APR_BADCH)"
proof -
  let ?st = "\<lparr>hs_flip = False, hs_u = 0, hs_buf = [], hs_size = 0\<rparr>"
  have m: "unhex_measure colon s slen (False, 0) =
      map_option (\<lambda>st. (hs_flip st, hs_size st)) (unhex_write colon s slen ?st)"
    using unhex_agree [of colon s slen ?st] by simp
  have e: "apr_unescape_hex True (Some s) slen colon =
      (case unhex_write colon s slen ?st of None \<Rightarrow> (APR_BADCH, [], None)
       | Some st \<Rightarrow> (APR_SUCCESS, hs_buf st, Some (hs_size st)))"
    "apr_unescape_hex False (Some s) slen colon =
      (case unhex_write colon s slen ?st of None \<Rightarrow> (APR_BADCH, [], None)
       | Some st \<Rightarrow> (APR_SUCCESS, [], Some (hs_size st)))"
    by (simp_all add: apr_unescape_hex_def m split: option.split)
  define good bad where "good \<longleftrightarrow> (\<forall>c \<in> set (limit slen s). hex_digit c \<noteq> None)"
    and "bad \<longleftrightarrow> (\<exists>c \<in> set (limit slen s). hex_digit c = None \<and> \<not> (colon \<and> c = 0x3a))"
  have ok: "unhex_write colon s slen ?st \<noteq> None" if good
    using unhex_measure_ok [OF that [unfolded good_def], of colon "(False, 0)"] unfolding m by simp
  have nok: "unhex_write colon s slen ?st = None" if bad
    using unhex_measure_bad [OF that [unfolded bad_def], of "(False, 0)"] unfolding m by simp
  have "case (apr_unescape_hex True (Some s) slen colon, apr_unescape_hex False (Some s) slen colon) of
     ((status, out, len), (status', out', len')) \<Rightarrow>
       status = status' \<and> len = len' \<and>
       (status = APR_SUCCESS \<and> len = Some (digits div 2) \<and> length out = (digits + 1) div 2 \<or>
        status = APR_BADCH \<and> len = None) \<and>
       (good \<longrightarrow> status = APR_SUCCESS) \<and> (bad \<longrightarrow> status = APR_BADCH)" (is ?claim)
  proof (cases "unhex_write colon s slen ?st")
    case None
    then show ?claim using ok by (auto simp: e)
  next
    case (Some st)
    then have "length (hs_buf st) = hs_size st + of_bool (hs_flip st) \<and>
        2 * hs_size st + of_bool (hs_flip st) = digits"
      using unhex_buf [OF Some] by (simp add: digits_def)
    then have "hs_size st = digits div 2" "length (hs_buf st) = (digits + 1) div 2"
      by (cases "hs_flip st"; simp; presburger)+
    then show ?claim using nok Some by (auto simp: e)
  qed
  then show ?thesis by (simp only: good_def bad_def)
qed

text \<open>The string \<open>abc\<close>: a buffer of one byte, two bytes written.\<close>

lemma unescape_hex_odd_witness:
  "fst (apr_unescape_hex True (Some (str ''abc'')) (-1) False) = APR_SUCCESS \<and>
   apr_punescape_hex (Some (str ''abc'')) False = Some (1, [0xab, 0xc0], Some 1)"
proof -
  have d: "\<forall>c \<in> set (limit (-1) (str ''abc'')). hex_digit c \<noteq> None" by code_simp
  have v: "apr_punescape_hex (Some (str ''abc'')) False = Some (1, [0xab, 0xc0], Some 1)" by code_simp
  show ?thesis using unescape_hex_odd [where s = "str ''abc''" and slen = "-1" and colon = False] d v by (auto split: prod.splits)
qed

subsection \<open>Deviations\<close>

text \<open>
  With a reserved character and a length, the writing loop of \<open>apr_unescape_url\<close> does not count
  the two digits it copies: here it reads two characters behind \<open>slen\<close> and writes six bytes
  into the four measured.
\<close>

lemma unescape_url_reserved_overrun:
  "apr_unescape_url True (Some (str ''%2fab'')) 3 None (Some (str ''/'')) False = (APR_NOTFOUND, str ''%2fab'' @ [0], 6)"
  "apr_unescape_url False (Some (str ''%2fab'')) 3 None (Some (str ''/'')) False = (APR_NOTFOUND, [], 4)"
  by code_simp+

text \<open>A character reference loses its semicolon, and a single quote is not escaped.\<close>

lemma escape_entity_truncated:
  "apr_escape_entity True True (Some [0xff]) (-1) = (APR_SUCCESS, str ''&#255'' @ [0], 6)"
  "apr_escape_entity True True (Some [0x27]) (-1) = (APR_NOTFOUND, [0x27, 0], 2)"
  by code_simp+

end
