(* ===== verification/PT_Barrier.thy ===== *)
theory PT_Barrier
  imports PT_Sem PT_Attr
begin

text \<open>
  The barriers of pthreads-win32 (\<open>src/pthreads/pthreads.2/pthread_barrier_init.c\<close>,
  \<open>_wait.c\<close>, \<open>_destroy.c\<close>). The semaphore on which the threads wait is that of
  \<open>PT_Sem\<close>; of the MCS lock (\<open>PT_Mcs\<close>) the model uses that one node at a time owns it, and
  that \<open>ptw32_mcs_node_transfer\<close> hands it to the node inside the barrier. Each access to
  shared state is one step.
\<close>

subsection \<open>The object\<close>

datatype owner = Nobody | NodeOf nat | ProxyNode

record barrier =
  nCurrentBarrierHeight :: u32
  nInitialBarrierHeight :: u32
  bar_pshared :: int
  semBarrierBreeched :: "sem option"
  bar_lock :: owner

text \<open>\<open>alloc\<close> says whether calloc succeeds, \<open>sem_alloc\<close> and \<open>create\<close> the same of \<open>sem_init\<close>.\<close>

definition pthread_barrier_init ::
  "bool \<Rightarrow> bool \<Rightarrow> bool \<Rightarrow> barrier ref \<Rightarrow> pthread_barrierattr ref \<Rightarrow> u32 \<Rightarrow> barrier option \<times> rc" where
  "pthread_barrier_init alloc sem_alloc create barrier attr count =
     (if barrier = NullRef \<or> count = 0 then (None, EINVAL)
      else if alloc then
        (let pshared = (case deref attr of Some a \<Rightarrow> ba_pshared a | None \<Rightarrow> PTHREAD_PROCESS_PRIVATE)
         in case sem_init sem_alloc OK create pshared 0 of
              (sem, r) \<Rightarrow>
                if r = Zero then
                  (Some \<lparr>nCurrentBarrierHeight = count, nInitialBarrierHeight = count,
                         bar_pshared = pshared, semBarrierBreeched = sem, bar_lock = Nobody\<rparr>, OK)
                else (None, ENOMEM))
      else (None, ENOMEM))"

subsection \<open>Waiting\<close>

text \<open>
  Where a thread is in \<open>pthread_barrier_wait\<close>; \<open>r\<close> is its \<open>result\<close> and \<open>v\<close> what its
  interlocked increment returned, to be compared with the initial height.
\<close>

datatype bar_pc =
    BarOut | BarAcquire | BarArrive | BarTransfer | BarPost
  | BarUnlock | BarEnter | BarBlocked
  | BarLeave sem_result | BarCompare sem_result u32 | BarFinish sem_result

datatype bar_result = BarResult sem_result | SerialThread

definition barrier_arrive :: "barrier \<Rightarrow> barrier \<times> bar_pc" where
  "barrier_arrive b =
     (let b = b\<lparr>nCurrentBarrierHeight := nCurrentBarrierHeight b - 1\<rparr>
      in (b, if nCurrentBarrierHeight b = 0 then BarTransfer else BarUnlock))"

definition barrier_post :: "bool \<Rightarrow> barrier \<Rightarrow> barrier \<times> bar_pc" where
  "barrier_post release b =
     (if nInitialBarrierHeight b > 1 then
        (case sem_post_multiple OK False release (semBarrierBreeched b) (sint (nInitialBarrierHeight b - 1)) of
           (sem, r) \<Rightarrow> (b\<lparr>semBarrierBreeched := sem\<rparr>, BarLeave r))
      else (b, BarLeave Zero))"

definition barrier_semwait :: "barrier \<Rightarrow> barrier \<times> bar_pc" where
  "barrier_semwait b =
     (case sem_wait_enter OK False (semBarrierBreeched b) of
        (sem, Inl e) \<Rightarrow> (b\<lparr>semBarrierBreeched := sem\<rparr>, BarLeave (MinusOne (Some e)))
      | (sem, Inr blocks) \<Rightarrow>
          (b\<lparr>semBarrierBreeched := sem\<rparr>, if blocks then BarBlocked else BarLeave Zero))"

definition barrier_leave :: "sem_result \<Rightarrow> barrier \<Rightarrow> barrier \<times> bar_pc" where
  "barrier_leave r b =
     (let b = b\<lparr>nCurrentBarrierHeight := nCurrentBarrierHeight b + 1\<rparr>
      in (b, BarCompare r (nCurrentBarrierHeight b)))"

text \<open>
  One step of thread \<open>t\<close>: the new barrier and where it goes, or what it returns; None while
  it cannot go on.
\<close>

fun barrier_step :: "nat \<Rightarrow> bool \<Rightarrow> barrier \<Rightarrow> bar_pc \<Rightarrow> (barrier \<times> (bar_pc + bar_result)) option" where
  "barrier_step t release b BarOut = None"
| "barrier_step t release b BarAcquire =
     (if bar_lock b = Nobody then Some (b\<lparr>bar_lock := NodeOf t\<rparr>, Inl BarArrive) else None)"
| "barrier_step t release b BarArrive = Some (map_prod id Inl (barrier_arrive b))"
| "barrier_step t release b BarTransfer = Some (b\<lparr>bar_lock := ProxyNode\<rparr>, Inl BarPost)"
| "barrier_step t release b BarPost = Some (map_prod id Inl (barrier_post release b))"
| "barrier_step t release b BarUnlock = Some (b\<lparr>bar_lock := Nobody\<rparr>, Inl BarEnter)"
| "barrier_step t release b BarEnter = Some (map_prod id Inl (barrier_semwait b))"
| "barrier_step t release b BarBlocked =
     (case Option.bind (semBarrierBreeched b) wait_object of
        None \<Rightarrow> None
      | Some s \<Rightarrow> Some (b\<lparr>semBarrierBreeched := Some s\<rparr>, Inl (BarLeave Zero)))"
| "barrier_step t release b (BarLeave r) = Some (map_prod id Inl (barrier_leave r b))"
| "barrier_step t release b (BarCompare r v) =
     Some (b, if v = nInitialBarrierHeight b then Inl (BarFinish r) else Inr (BarResult r))"
| "barrier_step t release b (BarFinish r) =
     Some (b\<lparr>bar_lock := Nobody\<rparr>, Inr (if r = Zero then SerialThread else BarResult r))"

text \<open>The entry: the first two lines of the function.\<close>

definition pthread_barrier_wait :: "barrier ref \<Rightarrow> rc + bar_pc" where
  "pthread_barrier_wait barrier = (if \<not> live_ref barrier then Inl EINVAL else Inr BarAcquire)"

subsection \<open>Destruction\<close>

text \<open>\<open>close\<close> is whether CloseHandle succeeds; if not, the semaphore is made anew. NULL stands for the destroyed barrier too.\<close>

definition pthread_barrier_destroy :: "bool \<Rightarrow> bool \<Rightarrow> bool \<Rightarrow> barrier ref \<Rightarrow> barrier option \<times> rc" where
  "pthread_barrier_destroy close sem_alloc create barrier =
     (case deref barrier of
        None \<Rightarrow> (None, EINVAL)
      | Some b \<Rightarrow>
          if bar_lock b \<noteq> Nobody then (Some b, EBUSY)
          else if nCurrentBarrierHeight b < nInitialBarrierHeight b then (Some b, EBUSY)
          else (case sem_destroy OK close (semBarrierBreeched b) of
                  (sem, r) \<Rightarrow>
                    if r = Zero then (None, OK)
                    else
                      (case sem_init sem_alloc OK create (bar_pshared b) 0 of
                         (sem', r') \<Rightarrow> (Some (b\<lparr>semBarrierBreeched := (if r' = Zero then sem' else sem)\<rparr>), EBUSY))))"

subsection \<open>Threads\<close>

text \<open>
  \<open>arrivals\<close> and \<open>departures\<close> count the decrements and increments of the height,
  \<open>serials\<close> the returns of \<open>PTHREAD_BARRIER_SERIAL_THREAD\<close> and \<open>failures\<close> those other
  than 0 or that. \<open>ReleaseSemaphore\<close> succeeds.
\<close>

record bar_sys =
  bar :: barrier
  bpc :: "nat \<Rightarrow> bar_pc"
  arrivals :: int
  departures :: int
  serials :: int
  failures :: int

fun leaving :: "bar_pc \<Rightarrow> bool" where
  "leaving (BarLeave r) = True"
| "leaving p = False"

definition bar_next :: "nat \<Rightarrow> bar_sys \<Rightarrow> barrier \<times> (bar_pc + bar_result) \<Rightarrow> bar_sys" where
  "bar_next t s r =
     s\<lparr>bar := fst r, bpc := (bpc s)(t := (case snd r of Inl p \<Rightarrow> p | Inr _ \<Rightarrow> BarOut)),
       arrivals := arrivals s + of_bool (bpc s t = BarArrive),
       departures := departures s + of_bool (leaving (bpc s t)),
       serials := serials s + of_bool (snd r = Inr SerialThread),
       failures := failures s + of_bool (case snd r of Inr (BarResult e) \<Rightarrow> e \<noteq> Zero | _ \<Rightarrow> False)\<rparr>"

inductive bar_step :: "bar_sys \<Rightarrow> bar_sys \<Rightarrow> bool" where
  call: "bpc s t = BarOut \<Longrightarrow> bar_step s (s\<lparr>bpc := (bpc s)(t := BarAcquire)\<rparr>)"
| go: "barrier_step t True (bar s) (bpc s t) = Some r \<Longrightarrow> bar_step s (bar_next t s r)"

inductive bar_reachable :: "u32 \<Rightarrow> bar_sys \<Rightarrow> bool" for count where
  start: "pthread_barrier_init True True True (Cell None) NullRef count = (Some b, OK) \<Longrightarrow>
    bar_reachable count \<lparr>bar = b, bpc = (\<lambda>_. BarOut), arrivals = 0, departures = 0, serials = 0, failures = 0\<rparr>"
| step: "bar_reachable count s \<Longrightarrow> bar_step s s' \<Longrightarrow> bar_reachable count s'"

subsection \<open>The invariant\<close>

definition inside :: "bar_sys \<Rightarrow> (bar_pc \<Rightarrow> bool) \<Rightarrow> int" where
  "inside s P = int (card {t. P (bpc s t)})"

lemma finite_upd:
  "finite {t. bpc s t \<noteq> BarOut} \<Longrightarrow> finite {u. ((bpc s)(t := p)) u \<noteq> BarOut}"
  by (rule finite_subset [of _ "insert t {t. bpc s t \<noteq> BarOut}"]) auto

lemma inside_upd:
  assumes "finite {t. bpc s t \<noteq> BarOut}" "\<not> P BarOut" "bpc s' = (bpc s)(t := p)"
  shows "inside s' P = inside s P - of_bool (P (bpc s t)) + of_bool (P p)"
proof -
  have f: "finite {u. P (bpc s u)}"
    by (rule finite_subset [OF _ assms(1)]) (use assms(2) in auto)
  have "{u. P (((bpc s)(t := p)) u)} = (if P p then insert t ({u. P (bpc s u)} - {t}) else {u. P (bpc s u)} - {t})"
    by (auto split: if_splits)
  then show ?thesis using f by (auto simp: inside_def assms(3) card_insert_if card_Diff_singleton_if of_nat_diff)
      (metis card_gt_0_iff empty_iff mem_Collect_eq Suc_leI One_nat_def of_nat_diff of_nat_1)+
qed

lemma inside_pos:
  assumes "finite {t. bpc s t \<noteq> BarOut}" "\<not> P BarOut" "P (bpc s t)"
  shows "1 \<le> inside s P"
proof -
  have "finite {u. P (bpc s u)}" by (rule finite_subset [OF _ assms(1)]) (use assms(2) in auto)
  then have "card {u. P (bpc s u)} > 0" using assms(3) by (auto simp: card_gt_0_iff)
  then show ?thesis by (simp add: inside_def)
qed

lemma inside_nonneg: "0 \<le> inside s P"
  by (simp add: inside_def)

text \<open>Heights are unsigned; up to \<open>2 ^ 31\<close> threads the count fits the int of \<open>sem_post_multiple\<close>.\<close>

lemma height_arith:
  "0 < uint (h :: u32) \<Longrightarrow> uint (h - 1) = uint h - 1"
  "uint (h :: u32) < 2 ^ 31 \<Longrightarrow> uint (h + 1) = uint h + 1"
  "uint (h :: u32) < 2 ^ 31 \<Longrightarrow> sint h = uint h"
proof -
  show "0 < uint (h :: u32) \<Longrightarrow> uint (h - 1) = uint h - 1"
    by (simp add: uint_sub_if')
  show "uint (h :: u32) < 2 ^ 31 \<Longrightarrow> uint (h + 1) = uint h + 1"
    by (simp add: uint_plus_if')
  show "uint (h :: u32) < 2 ^ 31 \<Longrightarrow> sint h = uint h"
    by (simp add: sint_uint signed_take_bit_eq_if_positive take_bit_int_eq_self not_less bit_iff_odd)
qed

lemma uint_eq: "(a :: u32) = b \<longleftrightarrow> uint a = uint b"
  by (rule word_eq_iff_unsigned)

text \<open>The thread whose increment was the last one of the round.\<close>

fun closing :: "u32 \<Rightarrow> bar_pc \<Rightarrow> bool" where
  "closing n (BarCompare r v) = (v = n)"
| "closing n (BarFinish r) = True"
| "closing n p = False"

fun pc_result :: "bar_pc \<Rightarrow> sem_result" where
  "pc_result (BarLeave r) = r"
| "pc_result (BarCompare r v) = r"
| "pc_result (BarFinish r) = r"
| "pc_result p = Zero"

abbreviation "at s p \<equiv> inside s ((=) p)"

text \<open>The threads gather until the last one arrives, which wakes the others; then they leave.\<close>

definition gathering :: "int \<Rightarrow> int \<Rightarrow> bar_sys \<Rightarrow> sem \<Rightarrow> bool" where
  "gathering n k s x \<longleftrightarrow>
     bar_lock (bar s) \<noteq> ProxyNode \<and>
     at s BarTransfer = 0 \<and> at s BarPost = 0 \<and> inside s leaving = 0 \<and>
     inside s (closing (nInitialBarrierHeight (bar s))) = 0 \<and>
     at s BarUnlock + at s BarEnter + at s BarBlocked < n \<and>
     uint (nCurrentBarrierHeight (bar s)) = n - (at s BarUnlock + at s BarEnter + at s BarBlocked) \<and>
     sem_value x = - at s BarBlocked \<and> sem_handle x = 0 \<and>
     arrivals s = n * k + at s BarUnlock + at s BarEnter + at s BarBlocked \<and>
     departures s = n * k"

definition complete :: "int \<Rightarrow> int \<Rightarrow> bar_sys \<Rightarrow> sem \<Rightarrow> bool" where
  "complete n k s x \<longleftrightarrow>
     at s BarTransfer + at s BarPost = 1 \<and> (bar_lock (bar s) = ProxyNode \<longleftrightarrow> at s BarPost = 1) \<and>
     bar_lock (bar s) \<noteq> Nobody \<and>
     inside s leaving = 0 \<and> inside s (closing (nInitialBarrierHeight (bar s))) = 0 \<and>
     at s BarUnlock = 0 \<and> at s BarEnter + at s BarBlocked = n - 1 \<and>
     uint (nCurrentBarrierHeight (bar s)) = 0 \<and>
     sem_value x = - at s BarBlocked \<and> sem_handle x = 0 \<and>
     arrivals s = n * k + n \<and> departures s = n * k"

definition draining :: "int \<Rightarrow> int \<Rightarrow> bar_sys \<Rightarrow> sem \<Rightarrow> bool" where
  "draining n k s x \<longleftrightarrow>
     bar_lock (bar s) = ProxyNode \<and> at s BarTransfer = 0 \<and> at s BarPost = 0 \<and> at s BarUnlock = 0 \<and>
     uint (nCurrentBarrierHeight (bar s)) + at s BarEnter + at s BarBlocked + inside s leaving = n \<and>
     inside s (closing (nInitialBarrierHeight (bar s))) =
       of_bool (uint (nCurrentBarrierHeight (bar s)) = n) \<and>
     sem_value x = at s BarEnter \<and> int (sem_handle x) = at s BarBlocked \<and>
     arrivals s = n * k + n \<and> departures s = n * k + uint (nCurrentBarrierHeight (bar s))"

definition bar_inv :: "int \<Rightarrow> bar_sys \<Rightarrow> bool" where
  "bar_inv n s \<longleftrightarrow>
     0 < n \<and> finite {t. bpc s t \<noteq> BarOut} \<and> uint (nInitialBarrierHeight (bar s)) = n \<and>
     (\<forall>t. bar_lock (bar s) = NodeOf t \<longleftrightarrow> bpc s t \<in> {BarArrive, BarTransfer, BarUnlock}) \<and>
     (\<forall>t. pc_result (bpc s t) = Zero) \<and> failures s = 0 \<and>
     (\<exists>x. semBarrierBreeched (bar s) = Some x \<and>
        (gathering n (serials s) s x \<or> complete n (serials s) s x \<or> draining n (serials s) s x))"

lemma inside_next:
  assumes "finite {t. bpc s t \<noteq> BarOut}" "bpc s' = (bpc s)(t := p)"
  shows "at s' BarTransfer = at s BarTransfer - of_bool (bpc s t = BarTransfer) + of_bool (p = BarTransfer)"
    "at s' BarPost = at s BarPost - of_bool (bpc s t = BarPost) + of_bool (p = BarPost)"
    "at s' BarUnlock = at s BarUnlock - of_bool (bpc s t = BarUnlock) + of_bool (p = BarUnlock)"
    "at s' BarEnter = at s BarEnter - of_bool (bpc s t = BarEnter) + of_bool (p = BarEnter)"
    "at s' BarBlocked = at s BarBlocked - of_bool (bpc s t = BarBlocked) + of_bool (p = BarBlocked)"
    "inside s' leaving = inside s leaving - of_bool (leaving (bpc s t)) + of_bool (leaving p)"
    "inside s' (closing m) = inside s (closing m) - of_bool (closing m (bpc s t)) + of_bool (closing m p)"
  using inside_upd [OF assms(1) _ assms(2)] by (auto simp: eq_commute)

lemmas phase_defs = gathering_def complete_def draining_def

lemma inside_at:
  assumes "finite {t. bpc s t \<noteq> BarOut}"
  shows "bpc s t = p \<Longrightarrow> p \<noteq> BarOut \<Longrightarrow> 1 \<le> at s p"
    "leaving (bpc s t) \<Longrightarrow> 1 \<le> inside s leaving"
    "closing m (bpc s t) \<Longrightarrow> 1 \<le> inside s (closing m)"
  using inside_pos [OF assms] by (auto intro: inside_pos [OF assms])

lemma bar_inv_call:
  assumes "bar_inv n s" "bpc s t = BarOut"
  shows "bar_inv n (s\<lparr>bpc := (bpc s)(t := BarAcquire)\<rparr>)"
proof -
  let ?s = "s\<lparr>bpc := (bpc s)(t := BarAcquire)\<rparr>"
  have f: "finite {t. bpc s t \<noteq> BarOut}" using assms by (simp add: bar_inv_def)
  have c: "at ?s BarTransfer = at s BarTransfer" "at ?s BarPost = at s BarPost"
    "at ?s BarUnlock = at s BarUnlock" "at ?s BarEnter = at s BarEnter"
    "at ?s BarBlocked = at s BarBlocked" "inside ?s leaving = inside s leaving"
    "\<And>m. inside ?s (closing m) = inside s (closing m)"
    using inside_next [OF f, of ?s t BarAcquire] assms(2) by simp_all
  have p: "gathering n k ?s x = gathering n k s x" "complete n k ?s x = complete n k s x"
    "draining n k ?s x = draining n k s x" for k x
    by (simp_all add: phase_defs c)
  show ?thesis using assms finite_upd [OF f, of t BarAcquire] by (auto simp: bar_inv_def p)
qed

lemma bar_next_fields:
  "bar (bar_next t s r) = fst r"
  "bpc (bar_next t s r) = (bpc s)(t := (case snd r of Inl p \<Rightarrow> p | Inr _ \<Rightarrow> BarOut))"
  "arrivals (bar_next t s r) = arrivals s + of_bool (bpc s t = BarArrive)"
  "departures (bar_next t s r) = departures s + of_bool (leaving (bpc s t))"
  "serials (bar_next t s r) = serials s + of_bool (snd r = Inr SerialThread)"
  "failures (bar_next t s r) = failures s + of_bool (case snd r of Inr (BarResult e) \<Rightarrow> e \<noteq> Zero | _ \<Rightarrow> False)"
  by (simp_all add: bar_next_def)

lemmas inside_bar_next = inside_next [OF _ bar_next_fields(2)]

text \<open>A step keeps the invariant when it keeps the lock's owner right and moves the phase.\<close>

lemma bar_inv_go:
  assumes inv: "bar_inv n s"
    and owner: "\<And>u. bar_lock (fst r) = NodeOf u \<longleftrightarrow>
        (if u = t then (case snd r of Inl p \<Rightarrow> p \<in> {BarArrive, BarTransfer, BarUnlock} | Inr _ \<Rightarrow> False)
         else bar_lock (bar s) = NodeOf u)"
    and result: "case snd r of Inl p \<Rightarrow> pc_result p = Zero | Inr e \<Rightarrow> e \<in> {BarResult Zero, SerialThread}"
    and init: "nInitialBarrierHeight (fst r) = nInitialBarrierHeight (bar s)"
    and phase: "semBarrierBreeched (fst r) = Some y"
      "gathering n (serials (bar_next t s r)) (bar_next t s r) y \<or>
       complete n (serials (bar_next t s r)) (bar_next t s r) y \<or>
       draining n (serials (bar_next t s r)) (bar_next t s r) y"
  shows "bar_inv n (bar_next t s r)"
proof -
  have f: "finite {t. bpc s t \<noteq> BarOut}" using inv by (simp add: bar_inv_def)
  have o: "bar_lock (bar s) = NodeOf u \<longleftrightarrow> bpc s u \<in> {BarArrive, BarTransfer, BarUnlock}" for u
    using inv by (simp add: bar_inv_def)
  have "finite {u. bpc (bar_next t s r) u \<noteq> BarOut}"
    unfolding bar_next_fields by (rule finite_upd [OF f])
  moreover have "bar_lock (fst r) = NodeOf u \<longleftrightarrow> bpc (bar_next t s r) u \<in> {BarArrive, BarTransfer, BarUnlock}" for u
    using owner [of u] o [of u] by (auto simp: bar_next_fields split: sum.splits)
  moreover have "pc_result (bpc (bar_next t s r) u) = Zero" "failures (bar_next t s r) = 0" for u
    using inv result by (auto simp: bar_next_fields bar_inv_def split: sum.splits)
  ultimately show ?thesis
    using inv init phase by (auto simp: bar_inv_def bar_next_fields)
qed

text \<open>The phase follows from where a thread is.\<close>

lemma inside_ex: "1 \<le> inside s P \<Longrightarrow> \<exists>t. P (bpc s t)"
  by (rule ccontr) (simp add: inside_def)

lemma phase_of:
  assumes inv: "bar_inv n s" and x: "semBarrierBreeched (bar s) = Some x"
  shows "bar_lock (bar s) = Nobody \<Longrightarrow> gathering n (serials s) s x"
    "bpc s t \<in> {BarArrive, BarUnlock} \<Longrightarrow> gathering n (serials s) s x"
    "bpc s t \<in> {BarTransfer, BarPost} \<Longrightarrow> complete n (serials s) s x"
    "leaving (bpc s t) \<or> closing (nInitialBarrierHeight (bar s)) (bpc s t) \<Longrightarrow> draining n (serials s) s x"
proof -
  have f: "finite {t. bpc s t \<noteq> BarOut}" using inv by (simp add: bar_inv_def)
  have ph: "gathering n (serials s) s x \<or> complete n (serials s) s x \<or> draining n (serials s) s x"
    using inv x by (simp add: bar_inv_def)
  note nn = inside_nonneg [of s "(=) BarPost"] inside_nonneg [of s "(=) BarTransfer"]
  show "bar_lock (bar s) = Nobody \<Longrightarrow> gathering n (serials s) s x"
    using ph by (auto simp: complete_def draining_def)
  show "gathering n (serials s) s x" if p: "bpc s t \<in> {BarArrive, BarUnlock}"
  proof -
    have l: "bar_lock (bar s) = NodeOf t" using inv p by (auto simp: bar_inv_def)
    have "\<not> complete n (serials s) s x"
    proof
      assume c: "complete n (serials s) s x"
      then have "1 \<le> at s BarTransfer" using l nn unfolding complete_def by auto
      then obtain u where "bpc s u = BarTransfer" using inside_ex by metis
      then have "bar_lock (bar s) = NodeOf u" using inv by (auto simp: bar_inv_def)
      then show False using l p \<open>bpc s u = BarTransfer\<close> by auto
    qed
    then show ?thesis using ph l by (auto simp: draining_def)
  qed
  show "complete n (serials s) s x" if p: "bpc s t \<in> {BarTransfer, BarPost}"
  proof -
    have "1 \<le> at s (bpc s t)" by (rule inside_at(1) [OF f refl]) (use p in auto)
    then show ?thesis using ph p by (auto simp: gathering_def draining_def)
  qed
  show "draining n (serials s) s x"
    if "leaving (bpc s t) \<or> closing (nInitialBarrierHeight (bar s)) (bpc s t)"
    using ph inside_at(2) [OF f, of t] inside_at(3) [OF f, of "nInitialBarrierHeight (bar s)" t] that by (auto simp: gathering_def complete_def)
qed

lemma step_acquire:
  assumes "bar_inv n s" "bpc s t = BarAcquire" "barrier_step t True (bar s) BarAcquire = Some r"
  shows "bar_inv n (bar_next t s r)"
proof -
  have f: "finite {t. bpc s t \<noteq> BarOut}" using assms by (simp add: bar_inv_def)
  obtain x where x: "semBarrierBreeched (bar s) = Some x" using assms by (auto simp: bar_inv_def)
  have "bar_lock (bar s) = Nobody" using assms(3) by (simp split: if_splits)
  with assms phase_of(1) [OF assms(1) x] x show ?thesis
    by (intro bar_inv_go [OF assms(1), where y = x])
      (auto simp: gathering_def inside_bar_next [OF f] bar_next_fields)
qed

lemma step_arrive:
  assumes "bar_inv n s" "bpc s t = BarArrive" "barrier_step t True (bar s) BarArrive = Some r"
  shows "bar_inv n (bar_next t s r)"
proof -
  have f: "finite {t. bpc s t \<noteq> BarOut}" using assms by (simp add: bar_inv_def)
  obtain x where x: "semBarrierBreeched (bar s) = Some x" using assms by (auto simp: bar_inv_def)
  have l: "bar_lock (bar s) = NodeOf t" using assms by (auto simp: bar_inv_def)
  have g: "gathering n (serials s) s x" using phase_of(2) [OF assms(1) x, of t] assms(2) by simp
  let ?h = "nCurrentBarrierHeight (bar s)"
  have "\<not> 1 \<le> at s BarUnlock"
  proof
    assume "1 \<le> at s BarUnlock"
    then obtain v where v: "bpc s v = BarUnlock" using inside_ex by metis
    then have "bar_lock (bar s) = NodeOf v" using assms(1) by (auto simp: bar_inv_def)
    then show False using l v assms(2) by simp
  qed
  then have nu: "at s BarUnlock = 0" using inside_nonneg [of s "(=) BarUnlock"] by simp
  have u: "uint (?h - 1) = uint ?h - 1" using g by (intro height_arith(1)) (simp add: gathering_def)
  have "?h = 1 \<longleftrightarrow> uint ?h = uint (1 :: u32)" by (rule word_eq_iff_unsigned)
  then have z: "?h - 1 = 0 \<longleftrightarrow> uint ?h = 1" by simp
  have r: "r = (bar s\<lparr>nCurrentBarrierHeight := ?h - 1\<rparr>, Inl (if uint ?h = 1 then BarTransfer else BarUnlock))"
    using assms(3) z by (auto simp: barrier_arrive_def Let_def)
  show ?thesis
    by (intro bar_inv_go [OF assms(1), where y = x]; unfold r)
      (use g u l x nu assms(2) in \<open>auto simp: gathering_def complete_def inside_bar_next [OF f] bar_next_fields\<close>)
qed

lemma step_transfer:
  assumes "bar_inv n s" "bpc s t = BarTransfer" "barrier_step t True (bar s) BarTransfer = Some r"
  shows "bar_inv n (bar_next t s r)"
proof -
  have f: "finite {t. bpc s t \<noteq> BarOut}" using assms by (simp add: bar_inv_def)
  obtain x where x: "semBarrierBreeched (bar s) = Some x" using assms by (auto simp: bar_inv_def)
  have l: "bar_lock (bar s) = NodeOf t" using assms by (auto simp: bar_inv_def)
  have c: "complete n (serials s) s x" using phase_of(3) [OF assms(1) x, of t] assms(2) by simp
  have at: "1 \<le> at s BarTransfer" "0 \<le> at s BarPost"
    by (rule inside_at(1) [OF f assms(2)], simp) (rule inside_nonneg)
  show ?thesis
    by (intro bar_inv_go [OF assms(1), where y = x])
      (use c l x at assms(2,3) in \<open>auto simp: complete_def inside_bar_next [OF f] bar_next_fields\<close>)
qed

lemma step_post:
  assumes "bar_inv n s" "bpc s t = BarPost" "barrier_step t True (bar s) BarPost = Some r" "n \<le> 2 ^ 31"
  shows "bar_inv n (bar_next t s r)"
proof -
  have f: "finite {t. bpc s t \<noteq> BarOut}" using assms by (simp add: bar_inv_def)
  obtain x where x: "semBarrierBreeched (bar s) = Some x" using assms by (auto simp: bar_inv_def)
  have c: "complete n (serials s) s x" using phase_of(3) [OF assms(1) x, of t] assms(2) by simp
  have n: "uint (nInitialBarrierHeight (bar s)) = n" using assms(1) by (simp add: bar_inv_def)
  have at: "1 \<le> at s BarPost" "0 \<le> at s BarTransfer" "0 \<le> at s BarEnter" "0 \<le> at s BarBlocked"
    by (rule inside_at(1) [OF f assms(2)], simp) (rule inside_nonneg)+
  define y where "y = x\<lparr>sem_value := at s BarEnter, sem_handle := nat (at s BarBlocked)\<rparr>"
  have r: "r = (bar s\<lparr>semBarrierBreeched := Some y\<rparr>, Inl (BarLeave Zero))"
  proof (cases "n = 1")
    case True
    then have "y = x" using c at by (cases x) (auto simp: y_def complete_def)
    moreover have "nInitialBarrierHeight (bar s) = 1" using n True uint_eq [of "nInitialBarrierHeight (bar s)" 1] by simp
    ultimately show ?thesis using assms(3) x by (cases "bar s") (auto simp: barrier_post_def)
  next
    case False
    have n1: "1 < n" using c at False by (auto simp: complete_def)
    then have u: "uint (nInitialBarrierHeight (bar s) - 1) = n - 1"
      using height_arith(1) [of "nInitialBarrierHeight (bar s)"] n by simp
    then have i: "sint (nInitialBarrierHeight (bar s) - 1) = n - 1"
      using height_arith(3) [of "nInitialBarrierHeight (bar s) - 1"] assms(4) by simp
    have g: "1 < nInitialBarrierHeight (bar s)" using n n1 by (simp add: word_less_def)
    have "sem_post_multiple_locked True (n - 1) x = (y, OK)"
      using c at assms(4) by (auto simp: sem_post_multiple_locked_def complete_def y_def Let_def SEM_VALUE_MAX_def)
    then show ?thesis
      using assms(3) x n1 g i by (simp add: barrier_post_def sem_post_multiple_def sem_return_def)
  qed
  show ?thesis
    by (intro bar_inv_go [OF assms(1), where y = y])
      (use c x at n assms(1,2) in
        \<open>auto simp: r y_def complete_def draining_def inside_bar_next [OF f] bar_next_fields bar_inv_def\<close>)
qed

lemma step_unlock:
  assumes "bar_inv n s" "bpc s t = BarUnlock" "barrier_step t True (bar s) BarUnlock = Some r"
  shows "bar_inv n (bar_next t s r)"
proof -
  have f: "finite {t. bpc s t \<noteq> BarOut}" using assms by (simp add: bar_inv_def)
  obtain x where x: "semBarrierBreeched (bar s) = Some x" using assms by (auto simp: bar_inv_def)
  have l: "bar_lock (bar s) = NodeOf t" using assms by (auto simp: bar_inv_def)
  have g: "gathering n (serials s) s x" using phase_of(2) [OF assms(1) x, of t] assms(2) by simp
  show ?thesis
    by (intro bar_inv_go [OF assms(1), where y = x])
      (use g l x assms(2,3) in \<open>auto simp: gathering_def inside_bar_next [OF f] bar_next_fields\<close>)
qed

lemma step_enter:
  assumes "bar_inv n s" "bpc s t = BarEnter" "barrier_step t True (bar s) BarEnter = Some r"
  shows "bar_inv n (bar_next t s r)"
proof -
  have f: "finite {t. bpc s t \<noteq> BarOut}" using assms by (simp add: bar_inv_def)
  obtain x where x: "semBarrierBreeched (bar s) = Some x" using assms by (auto simp: bar_inv_def)
  have at: "1 \<le> at s BarEnter" "0 \<le> at s BarBlocked"
    by (rule inside_at(1) [OF f assms(2)], simp) (rule inside_nonneg)
  define y where "y = x\<lparr>sem_value := sem_value x - 1\<rparr>"
  have r: "r = (bar s\<lparr>semBarrierBreeched := Some y\<rparr>, Inl (if sem_value x \<le> 0 then BarBlocked else BarLeave Zero))"
    using assms(3) x by (auto simp: barrier_semwait_def sem_wait_enter_def y_def Let_def)
  have ph: "gathering n (serials s) s x \<or> complete n (serials s) s x \<or> draining n (serials s) s x"
    using assms(1) x by (simp add: bar_inv_def)
  show ?thesis
  proof (rule bar_inv_go [OF assms(1), where y = y])
    show "gathering n (serials (bar_next t s r)) (bar_next t s r) y \<or>
        complete n (serials (bar_next t s r)) (bar_next t s r) y \<or>
        draining n (serials (bar_next t s r)) (bar_next t s r) y"
      using ph at assms(2) by (elim disjE) (simp_all add: r y_def phase_defs inside_bar_next [OF f] bar_next_fields)
  qed (use assms(1,2) in \<open>auto simp: r bar_inv_def\<close>)
qed

lemma step_blocked:
  assumes "bar_inv n s" "bpc s t = BarBlocked" "barrier_step t True (bar s) BarBlocked = Some r"
  shows "bar_inv n (bar_next t s r)"
proof -
  have f: "finite {t. bpc s t \<noteq> BarOut}" using assms by (simp add: bar_inv_def)
  obtain x where x: "semBarrierBreeched (bar s) = Some x" using assms by (auto simp: bar_inv_def)
  have h: "0 < sem_handle x" using assms(3) x by (auto simp: wait_object_def split: if_splits)
  have d: "draining n (serials s) s x" using assms(1) x h by (auto simp: bar_inv_def gathering_def complete_def)
  define y where "y = x\<lparr>sem_handle := sem_handle x - 1\<rparr>"
  have r: "r = (bar s\<lparr>semBarrierBreeched := Some y\<rparr>, Inl (BarLeave Zero))"
    using assms(3) x h by (auto simp: wait_object_def y_def)
  show ?thesis
    by (intro bar_inv_go [OF assms(1), where y = y])
      (use d x h assms(1,2) in \<open>auto simp: r y_def draining_def inside_bar_next [OF f] bar_next_fields bar_inv_def of_nat_diff\<close>)
qed

lemma step_leave:
  assumes "bar_inv n s" "bpc s t = BarLeave e" "barrier_step t True (bar s) (BarLeave e) = Some r" "n \<le> 2 ^ 31"
  shows "bar_inv n (bar_next t s r)"
proof -
  have f: "finite {t. bpc s t \<noteq> BarOut}" using assms by (simp add: bar_inv_def)
  obtain x where x: "semBarrierBreeched (bar s) = Some x" using assms by (auto simp: bar_inv_def)
  have d: "draining n (serials s) s x" using phase_of(4) [OF assms(1) x, of t] assms(2) by simp
  have n: "uint (nInitialBarrierHeight (bar s)) = n" and e: "e = Zero"
    using assms(1,2) by (auto simp: bar_inv_def dest: spec [of "\<lambda>t. pc_result (bpc s t) = Zero" t])
  let ?h = "nCurrentBarrierHeight (bar s)"
  have at: "1 \<le> inside s leaving" "0 \<le> at s BarEnter" "0 \<le> at s BarBlocked"
    using inside_at(2) [OF f, of t] assms(2) inside_nonneg by auto
  then have lt: "uint ?h < n" using d by (auto simp: draining_def)
  then have u: "uint (?h + 1) = uint ?h + 1" using assms(4) by (intro height_arith(2)) simp
  have v: "?h + 1 = nInitialBarrierHeight (bar s) \<longleftrightarrow> uint ?h + 1 = n"
    using u n uint_eq [of "?h + 1"] by auto
  have r: "r = (bar s\<lparr>nCurrentBarrierHeight := ?h + 1\<rparr>, Inl (BarCompare Zero (?h + 1)))"
    using assms(3) e by (simp add: barrier_leave_def Let_def)
  show ?thesis
    by (intro bar_inv_go [OF assms(1), where y = x])
      (use d x lt u v assms(1,2) in \<open>auto simp: r draining_def inside_bar_next [OF f] bar_next_fields bar_inv_def\<close>)
qed

lemma step_compare:
  assumes "bar_inv n s" "bpc s t = BarCompare e v" "barrier_step t True (bar s) (BarCompare e v) = Some r"
  shows "bar_inv n (bar_next t s r)"
proof -
  have f: "finite {t. bpc s t \<noteq> BarOut}" using assms by (simp add: bar_inv_def)
  obtain x where x: "semBarrierBreeched (bar s) = Some x" using assms by (auto simp: bar_inv_def)
  have e: "e = Zero" using assms(1,2) by (auto simp: bar_inv_def dest: spec [of "\<lambda>t. pc_result (bpc s t) = Zero" t])
  have ph: "gathering n (serials s) s x \<or> complete n (serials s) s x \<or> draining n (serials s) s x"
    using assms(1) x by (simp add: bar_inv_def)
  have r: "r = (bar s, if v = nInitialBarrierHeight (bar s) then Inl (BarFinish Zero) else Inr (BarResult Zero))"
    using assms(3) e by simp
  show ?thesis
  proof (rule bar_inv_go [OF assms(1), where y = x])
    show "gathering n (serials (bar_next t s r)) (bar_next t s r) x \<or>
        complete n (serials (bar_next t s r)) (bar_next t s r) x \<or>
        draining n (serials (bar_next t s r)) (bar_next t s r) x"
      using ph assms(2) by (elim disjE) (simp_all add: r phase_defs inside_bar_next [OF f] bar_next_fields)
  qed (use assms(1,2) x in \<open>auto simp: r bar_inv_def\<close>)
qed

lemma step_finish:
  assumes "bar_inv n s" "bpc s t = BarFinish e" "barrier_step t True (bar s) (BarFinish e) = Some r"
  shows "bar_inv n (bar_next t s r)"
proof -
  have f: "finite {t. bpc s t \<noteq> BarOut}" using assms by (simp add: bar_inv_def)
  obtain x where x: "semBarrierBreeched (bar s) = Some x" using assms by (auto simp: bar_inv_def)
  have e: "e = Zero" using assms(1,2) by (auto simp: bar_inv_def dest: spec [of "\<lambda>t. pc_result (bpc s t) = Zero" t])
  have d: "draining n (serials s) s x" using phase_of(4) [OF assms(1) x, of t] assms(2) by simp
  have c: "1 \<le> inside s (closing (nInitialBarrierHeight (bar s)))"
    using inside_at(3) [OF f, of _ t] assms(2) by simp
  have at: "0 \<le> inside s leaving" "0 \<le> at s BarEnter" "0 \<le> at s BarBlocked" by (rule inside_nonneg)+
  have full: "uint (nCurrentBarrierHeight (bar s)) = n" using d c by (cases "uint (nCurrentBarrierHeight (bar s)) = n") (simp_all add: draining_def)
  have r: "r = (bar s\<lparr>bar_lock := Nobody\<rparr>, Inr SerialThread)" using assms(3) e by simp
  have "0 < n" using assms(1) by (simp add: bar_inv_def)
  then
  show ?thesis
    by (intro bar_inv_go [OF assms(1), where y = x])
      (use d x full c at assms(1,2) in
        \<open>auto simp: r draining_def gathering_def inside_bar_next [OF f] bar_next_fields bar_inv_def algebra_simps\<close>)
qed

lemma bar_inv_step:
  assumes "bar_inv n s" "bar_step s s'" "n \<le> 2 ^ 31"
  shows "bar_inv n s'"
  using assms(2)
proof cases
  case (call t)
  then show ?thesis using bar_inv_call [OF assms(1)] by simp
next
  case (go t r)
  show ?thesis
  proof (cases "bpc s t")
    case BarOut
    then show ?thesis using go by simp
  next
    case (BarLeave e)
    then show ?thesis using step_leave [OF assms(1), of t e r] go assms(3) by simp
  next
    case (BarCompare e v)
    then show ?thesis using step_compare [OF assms(1), of t e v r] go by simp
  next
    case (BarFinish e)
    then show ?thesis using step_finish [OF assms(1), of t e r] go by simp
  qed (use go assms(3) step_acquire [OF assms(1), of t r] step_arrive [OF assms(1), of t r]
      step_transfer [OF assms(1), of t r] step_post [OF assms(1), of t r] step_unlock [OF assms(1), of t r]
      step_enter [OF assms(1), of t r] step_blocked [OF assms(1), of t r] in simp_all)
qed

lemma bar_inv_reachable:
  assumes "bar_reachable count s" "uint count \<le> 2 ^ 31"
  shows "bar_inv (uint count) s"
  using assms(1)
proof induction
  case (start b)
  then have b: "b = \<lparr>nCurrentBarrierHeight = count, nInitialBarrierHeight = count, bar_pshared = 0,
      semBarrierBreeched = Some \<lparr>sem_value = 0, sem_handle = 0\<rparr>, bar_lock = Nobody\<rparr>" and "count \<noteq> 0"
    by (auto simp: pthread_barrier_init_def sem_init_def SEM_VALUE_MAX_def Let_def split: if_splits)
  then have "uint count \<noteq> 0" using uint_eq [of count 0] by simp
  then have "0 < uint count" using uint_ge_0 [of count] by linarith
  then show ?case by (simp add: bar_inv_def gathering_def b inside_def)
next
  case (step s s')
  then show ?case using bar_inv_step assms(2) by blast
qed

text \<open>Every thread inside is waiting.\<close>

definition bar_stuck :: "bar_sys \<Rightarrow> bool" where
  "bar_stuck s \<longleftrightarrow> (\<forall>t. barrier_step t True (bar s) (bpc s t) = None)"

lemma stuck_gathering:
  assumes inv: "bar_inv n s" and stuck: "bar_stuck s"
  shows "(\<forall>t. bpc s t \<in> {BarOut, BarBlocked}) \<and> arrivals s = departures s + at s BarBlocked \<and> at s BarBlocked < n"
proof -
  obtain x where x: "semBarrierBreeched (bar s) = Some x"
    and ph: "gathering n (serials s) s x \<or> complete n (serials s) s x \<or> draining n (serials s) s x"
    using inv by (auto simp: bar_inv_def)
  have st: "barrier_step t True (bar s) (bpc s t) = None" for t using stuck by (simp add: bar_stuck_def)
  have pcs: "bpc s t \<in> {BarOut, BarAcquire, BarBlocked}" for t using st [of t] by (cases "bpc s t") auto
  have none: "inside s P = 0" if "\<And>p. P p \<Longrightarrow> p \<notin> {BarOut, BarAcquire, BarBlocked}" for P
  proof -
    have "{t. P (bpc s t)} = {}" using pcs that by blast
    then show ?thesis by (simp add: inside_def)
  qed
  have z: "at s BarUnlock = 0" "at s BarEnter = 0" "at s BarTransfer = 0" "at s BarPost = 0"
    "inside s leaving = 0" "inside s (closing m) = 0" for m
    by (rule none; force elim: closing.elims leaving.elims)+
  have "\<not> draining n (serials s) s x"
  proof
    assume d: "draining n (serials s) s x"
    then have "0 < at s BarBlocked" using z by (auto simp: draining_def split: if_splits)
    then have "\<exists>t. BarBlocked = bpc s t" by (intro inside_ex) simp
    then obtain t where t: "bpc s t = BarBlocked" by metis
    have "0 < sem_handle x" using d \<open>0 < at s BarBlocked\<close> by (auto simp: draining_def)
    then show False using st [of t] t x by (simp add: wait_object_def)
  qed
  then have g: "gathering n (serials s) s x" using ph z by (auto simp: complete_def)
  have "bar_lock (bar s) = Nobody"
  proof (cases "bar_lock (bar s)")
    case (NodeOf u)
    then have "bpc s u \<in> {BarArrive, BarTransfer, BarUnlock}" using inv by (auto simp: bar_inv_def)
    then show ?thesis using pcs [of u] by auto
  qed (use g in \<open>auto simp: gathering_def\<close>)
  then have "bpc s t \<noteq> BarAcquire" for t using st [of t] by auto
  then show ?thesis using pcs g z by (auto simp: gathering_def)
qed

subsection \<open>Schedules\<close>

fun bar_exec :: "nat list \<Rightarrow> bar_sys \<Rightarrow> bar_sys option" where
  "bar_exec [] s = Some s"
| "bar_exec (t # ts) s =
     (if bpc s t = BarOut then bar_exec ts (s\<lparr>bpc := (bpc s)(t := BarAcquire)\<rparr>)
      else (case barrier_step t True (bar s) (bpc s t) of
              None \<Rightarrow> None
            | Some r \<Rightarrow> bar_exec ts (bar_next t s r)))"

lemma bar_exec_reachable: "bar_reachable count s \<Longrightarrow> bar_exec ts s = Some s' \<Longrightarrow> bar_reachable count s'"
  by (induction ts arbitrary: s)
    (auto split: if_splits option.splits intro: bar_reachable.step bar_step.intros)

definition two_threads :: bar_sys where
  "two_threads =
     \<lparr>bar = the (fst (pthread_barrier_init True True True (Cell None) NullRef 2)), bpc = (\<lambda>_. BarOut),
      arrivals = 0, departures = 0, serials = 0, failures = 0\<rparr>"

lemma two_threads_reachable: "bar_reachable 2 two_threads"
  unfolding two_threads_def
  by (rule bar_reachable.start) (simp add: pthread_barrier_init_def sem_init_def SEM_VALUE_MAX_def)

text \<open>
  Thread 0 blocks, thread 1 arrives, wakes it and increments the height; then thread 0 leaves as
  the last one. Thread 1 has still to compare.
\<close>

definition one_round :: "nat list" where
  "one_round = [0, 0, 0, 0, 0, 1, 1, 1, 1, 1, 1, 0, 0, 0, 0]"

lemma one_round_runs:
  "map_option (\<lambda>s. (arrivals s, departures s, serials s, bpc s 0, bpc s 1)) (bar_exec one_round two_threads) =
     Some (2, 2, 1, BarOut, BarCompare Zero 1)"
  "map_option (\<lambda>s. pthread_barrier_destroy True True True (Cell (Some (bar s)))) (bar_exec one_round two_threads) =
     Some (None, OK)"
  by code_simp+

subsection \<open>Properties\<close>

text \<open>
  C6: For a barrier of \<open>count\<close> threads: no thread leaves before all threads of its round have
  arrived, and none enters the next round before all have left; in each round exactly one thread gets
  \<open>PTHREAD_BARRIER_SERIAL_THREAD\<close> and the others 0; and the threads inside can only come to a stop
  when fewer than \<open>count\<close> have arrived, all of them on the semaphore.
\<close>

theorem barrier_rendezvous:
  assumes "bar_reachable count s" "uint count \<le> 2 ^ 31"
  shows "departures s \<le> uint count * (arrivals s div uint count) \<and>
    arrivals s \<le> uint count * (departures s div uint count) + uint count \<and>
    serials s \<le> departures s div uint count \<and> departures s div uint count \<le> serials s + 1 \<and>
    failures s = 0 \<and>
    (bar_stuck s \<longrightarrow> (\<forall>t. bpc s t \<in> {BarOut, BarBlocked}) \<and> arrivals s < departures s + uint count)"
proof -
  let ?n = "uint count"
  have inv: "bar_inv ?n s" using bar_inv_reachable [OF assms] .
  then have n: "0 < ?n" and f: "failures s = 0" by (simp_all add: bar_inv_def)
  obtain x where "gathering ?n (serials s) s x \<or> complete ?n (serials s) s x \<or> draining ?n (serials s) s x"
    using inv by (auto simp: bar_inv_def)
  then obtain a d where ad: "arrivals s = ?n * serials s + a" "departures s = ?n * serials s + d"
    "0 \<le> a" "a \<le> ?n" "0 \<le> d" "d \<le> ?n" "0 < d \<longrightarrow> a = ?n"
    using inside_nonneg [of s "(=) BarUnlock"] inside_nonneg [of s "(=) BarEnter"]
      inside_nonneg [of s "(=) BarBlocked"] inside_nonneg [of s leaving] n
    by (elim disjE) (auto simp: phase_defs add.assoc)
  have "(?n * serials s + a) div ?n = serials s + a div ?n" "(?n * serials s + d) div ?n = serials s + d div ?n"
    using n by simp_all
  moreover have "0 \<le> a div ?n" "0 \<le> d div ?n" "d div ?n \<le> 1" "a = ?n \<longrightarrow> a div ?n = 1"
    using ad n by (simp_all add: pos_imp_zdiv_nonneg_iff zdiv_mono1 [of d ?n ?n, simplified])
  ultimately show ?thesis
    using ad n f stuck_gathering [OF inv] by (auto simp: distrib_left)
qed

lemma barrier_rendezvous_witness:
  "\<exists>s. bar_exec one_round two_threads = Some s \<and> departures s = 2 \<and> failures s = 0"
proof -
  obtain s where s: "bar_exec one_round two_threads = Some s" "departures s = 2"
    using one_round_runs(1) by auto
  have "bar_reachable 2 s" using bar_exec_reachable [OF two_threads_reachable s(1)] .
  from barrier_rendezvous [OF this] s show ?thesis by auto
qed

subsection \<open>Deviations\<close>

text \<open>
  The increment and the read of the initial height it is compared with are two accesses, in the
  order the compiler chooses. When the read comes last, the barrier can be gone: the last thread to
  leave has returned, \<open>pthread_barrier_destroy\<close> succeeds and frees the object, and another
  thread of the same round has still to read it.
\<close>

lemma barrier_destroy_race:
  "\<exists>s. bar_reachable 2 s \<and> bpc s 1 = BarCompare Zero 1 \<and>
       pthread_barrier_destroy True True True (Cell (Some (bar s))) = (None, OK)"
proof -
  obtain s where s: "bar_exec one_round two_threads = Some s" "bpc s 1 = BarCompare Zero 1"
    "pthread_barrier_destroy True True True (Cell (Some (bar s))) = (None, OK)"
    using one_round_runs by auto
  then show ?thesis using bar_exec_reachable [OF two_threads_reachable] by blast
qed

end
