(* ===== verification/Block_Hash.thy ===== *)
theory Block_Hash
  imports C_String
begin

text \<open>
  What the digests share: blocks of 64 bytes are absorbed one after the other, the rest of the
  input waits in a buffer, and the message ends with its length in bits.
\<close>

subsection \<open>Absorbing a message\<close>

function absorb :: "('st \<Rightarrow> byte list \<Rightarrow> 'st) \<Rightarrow> 'st \<Rightarrow> byte list \<Rightarrow> 'st" where
  "absorb tr st m = (if 63 < length m then absorb tr (tr st (take 64 m)) (drop 64 m) else st)"
  by pat_completeness auto
termination by (relation "measure (\<lambda>(tr, st, m). length m)") auto

declare absorb.simps [simp del]

lemma absorb_short: "length m < 64 \<Longrightarrow> absorb tr st m = st"
  by (subst absorb.simps) simp

lemma absorb_block: "length b = 64 \<Longrightarrow> absorb tr st (b @ m) = absorb tr (tr st b) m"
  by (subst absorb.simps) simp

lemma absorb_append: "length a mod 64 = 0 \<Longrightarrow> absorb tr st (a @ b) = absorb tr (absorb tr st a) b"
proof (induction tr st a rule: absorb.induct)
  case (1 tr st a)
  show ?case
  proof (cases "63 < length a")
    case True
    have a: "take 64 a @ drop 64 a = a" "length (take 64 a) = 64" using True by simp_all
    have "length (drop 64 a) mod 64 = 0" using 1(2) True by (simp add: le_mod_geq)
    then have "absorb tr (tr st (take 64 a)) (drop 64 a @ b) =
        absorb tr (absorb tr (tr st (take 64 a)) (drop 64 a)) b"
      by (rule 1(1) [OF True])
    then show ?thesis
      using absorb_block [OF a(2), of tr st "drop 64 a @ b"] absorb_block [OF a(2), of tr st "drop 64 a"]
      by (metis a(1) append.assoc)
  next
    case False
    then have "a = []" using 1(2) by auto
    then show ?thesis by (simp add: absorb_short)
  qed
qed

lemma absorb_map: "absorb (\<lambda>st b. tr st (map f b)) st m = absorb tr st (map f m)"
proof (induction "\<lambda>st b. tr st (map f b)" st m rule: absorb.induct)
  case (1 st m)
  then show ?case
    by (cases "63 < length m") (simp_all add: absorb.simps [of _ _ m] absorb.simps [of _ _ "map f m"] take_map drop_map)
qed

subsection \<open>The rest of a message\<close>

definition rest_of :: "byte list \<Rightarrow> byte list" where
  "rest_of m = drop (64 * (length m div 64)) m"

lemma length_rest [simp]: "length (rest_of m) = length m mod 64"
  by (simp add: rest_of_def modulo_nat_def mult.commute)

lemma rest_append: "length a mod 64 = 0 \<Longrightarrow> rest_of (a @ b) = rest_of b"
proof -
  assume "length a mod 64 = 0"
  then obtain k where k: "length a = 64 * k" by (metis mod_0_imp_dvd dvdE)
  then have "length (a @ b) div 64 = k + length b div 64" by simp
  then show ?thesis by (simp add: rest_of_def k distrib_left)
qed

lemma rest_short: "length m < 64 \<Longrightarrow> rest_of m = m"
  by (simp add: rest_of_def)

lemma split_rest:
  obtains a where "m = a @ rest_of m" "length a mod 64 = 0"
proof
  show "m = take (64 * (length m div 64)) m @ rest_of m" by (simp add: rest_of_def)
  have "64 * (length m div 64) \<le> length m" by simp
  then show "length (take (64 * (length m div 64)) m) mod 64 = 0" by (simp add: min_absorb2)
qed

lemma absorb_join: "absorb tr st (m @ d) = absorb tr (absorb tr st m) (rest_of m @ d)"
proof -
  obtain a where a: "m = a @ rest_of m" "length a mod 64 = 0" by (rule split_rest)
  have "absorb tr st m = absorb tr st a"
    using absorb_append [OF a(2), of tr st "rest_of m"] a(1) by (simp add: absorb_short)
  moreover have "absorb tr st (m @ d) = absorb tr (absorb tr st a) (rest_of m @ d)"
    using absorb_append [OF a(2), of tr st "rest_of m @ d"] a(1) by (metis append.assoc)
  ultimately show ?thesis by simp
qed

lemma rest_join: "rest_of (m @ d) = rest_of (rest_of m @ d)"
proof -
  obtain a where a: "m = a @ rest_of m" "length a mod 64 = 0" by (rule split_rest)
  then show ?thesis using rest_append [OF a(2), of "rest_of m @ d"] by (metis append.assoc)
qed

subsection \<open>Bit counts\<close>

text \<open>The two halves of the number of bits, and how adding the bits of \<open>L\<close> bytes changes them.\<close>

definition count_lo :: "nat \<Rightarrow> u32" where "count_lo n = of_nat (8 * n)"
definition count_hi :: "nat \<Rightarrow> u32" where "count_hi n = of_nat (8 * n div 2 ^ 32)"

lemma add_mod_less:
  assumes "(x :: nat) < M" "y < M"
  shows "(x + y) mod M < y \<longleftrightarrow> M \<le> x + y"
proof (cases "x + y < M")
  case False
  then have "(x + y) mod M = x + y - M" using assms by (simp add: le_mod_geq)
  then show ?thesis using False assms by auto
qed simp

lemma unat_drop_bit: "unat (drop_bit k (w :: u32)) = drop_bit k (unat w)"
proof -
  have "unat w < 2 ^ 32" using unsigned_less [of w] by simp
  then show ?thesis by (simp add: unsigned_drop_bit_eq take_bit_nat_eq_self)
qed

lemma word_add_carry:
  "(of_nat a + of_nat b :: u32) < of_nat b \<longleftrightarrow> 2 ^ 32 \<le> a mod 2 ^ 32 + b mod 2 ^ 32"
proof -
  have "(a + b) mod 2 ^ 32 < b mod 2 ^ 32 \<longleftrightarrow> (2 :: nat) ^ 32 \<le> a mod 2 ^ 32 + b mod 2 ^ 32"
    using add_mod_less [of "a mod 2 ^ 32" "2 ^ 32" "b mod 2 ^ 32"] by (simp only: mod_add_eq) simp
  moreover have "unat (of_nat a + of_nat b :: u32) = (a + b) mod 2 ^ 32" "unat (of_nat b :: u32) = b mod 2 ^ 32"
    using unat_of_nat [where 'a = 32, of "a + b"] unat_of_nat [where 'a = 32, of b] by simp_all
  ultimately show ?thesis unfolding word_less_nat_alt by simp
qed

lemma count_add:
  assumes "L < 2 ^ 32"
  shows "count_lo n + push_bit 3 (of_nat L) = count_lo (n + L)"
    "count_hi n + (if count_lo n + push_bit 3 (of_nat L) < push_bit 3 (of_nat L) then 1 else 0)
       + drop_bit 29 (of_nat L) = count_hi (n + L)"
    "(if count_lo n + push_bit 3 (of_nat L) < count_lo n then count_hi n + 1 else count_hi n)
       + drop_bit 29 (of_nat L) = count_hi (n + L)"
proof -
  have p: "push_bit 3 (of_nat L) = (of_nat (8 * L) :: u32)" by (simp add: push_bit_eq_mult)
  show lo: "count_lo n + push_bit 3 (of_nat L) = count_lo (n + L)" by (simp add: p count_lo_def)
  have "(drop_bit 29 (of_nat L) :: u32) = of_nat (L div 2 ^ 29)"
  proof (rule word_unat_eq_iff [THEN iffD2])
    have "unat (of_nat L :: u32) = L" "unat (of_nat (L div 2 ^ 29) :: u32) = L div 2 ^ 29"
      using assms by (simp_all add: unat_of_nat)
    then show "unat (drop_bit 29 (of_nat L) :: u32) = unat (of_nat (L div 2 ^ 29) :: u32)"
      unfolding unat_drop_bit by (simp add: drop_bit_eq_div)
  qed
  moreover have "L div 2 ^ 29 = 8 * L div 2 ^ 32" by simp
  ultimately have d: "(drop_bit 29 (of_nat L) :: u32) = of_nat (8 * L div 2 ^ 32)" by simp
  let ?c = "(8 * n mod 2 ^ 32 + 8 * L mod 2 ^ 32) div (2 :: nat) ^ 32"
  have c: "?c = of_bool (2 ^ 32 \<le> 8 * n mod 2 ^ 32 + 8 * L mod (2 :: nat) ^ 32)"
    by (simp add: div_nat_eqI)
  have hi: "count_hi (n + L) = count_hi n + of_nat (8 * L div 2 ^ 32) + of_nat ?c"
    using div_add1_eq [of "8 * n" "8 * L" "2 ^ 32"]
    by (simp only: count_hi_def distrib_left of_nat_add)
  have k1: "count_lo n + push_bit 3 (of_nat L) < push_bit 3 (of_nat L) \<longleftrightarrow> 2 ^ 32 \<le> 8 * n mod 2 ^ 32 + 8 * L mod (2 :: nat) ^ 32"
    unfolding p count_lo_def by (rule word_add_carry)
  have k2: "count_lo n + push_bit 3 (of_nat L) < count_lo n \<longleftrightarrow> 2 ^ 32 \<le> 8 * n mod 2 ^ 32 + 8 * L mod (2 :: nat) ^ 32"
    unfolding p count_lo_def using word_add_carry [of "8 * L" "8 * n"] by (simp only: add.commute)
  show "count_hi n + (if count_lo n + push_bit 3 (of_nat L) < push_bit 3 (of_nat L) then 1 else 0)
       + drop_bit 29 (of_nat L) = count_hi (n + L)"
    unfolding hi k1 c d by simp
  show "(if count_lo n + push_bit 3 (of_nat L) < count_lo n then count_hi n + 1 else count_hi n)
       + drop_bit 29 (of_nat L) = count_hi (n + L)"
    unfolding hi k2 c d by simp
qed

lemma count_index: "unat (drop_bit 3 (count_lo n) AND 0x3F) = n mod 64"
proof -
  have "drop_bit 3 (count_lo n) AND 0x3F = take_bit 6 (drop_bit 3 (count_lo n))"
    by (simp add: take_bit_eq_mask mask_eq_exp_minus_1)
  then have "unat (drop_bit 3 (count_lo n) AND 0x3F) = take_bit 6 (drop_bit 3 (unat (count_lo n)))"
    by (simp only: unsigned_take_bit_eq unat_drop_bit)
  also have "unat (count_lo n) = take_bit 32 (8 * n)"
    unfolding count_lo_def unat_of_nat by (simp add: take_bit_eq_mod)
  also have "take_bit 6 (drop_bit 3 (take_bit 32 (8 * n))) = take_bit 6 (take_bit 29 (drop_bit 3 (8 * n)))" by (simp add: drop_bit_take_bit)
  also have "\<dots> = n mod 64" by (simp add: drop_bit_eq_div) (simp add: take_bit_eq_mod)
  finally show ?thesis .
qed

subsection \<open>Padding\<close>

text \<open>A one bit, zeros up to eight bytes before the end of a block, and the coded length.\<close>

definition md_pad :: "(nat \<Rightarrow> byte list) \<Rightarrow> byte list \<Rightarrow> byte list" where
  "md_pad len_code m = m @ 0x80 # replicate ((119 - length m mod 64) mod 64) 0 @ len_code (8 * length m)"

definition reference_digest :: "('st \<Rightarrow> byte list \<Rightarrow> 'st) \<Rightarrow> 'st \<Rightarrow> (nat \<Rightarrow> byte list) \<Rightarrow> ('st \<Rightarrow> byte list) \<Rightarrow>
    byte list \<Rightarrow> byte list" where
  "reference_digest tr iv len_code out m = out (absorb tr iv (md_pad len_code m))"

lemma length_pad: "length (len_code (8 * length m)) = 8 \<Longrightarrow> length (md_pad len_code m) mod 64 = 0"
proof -
  assume l: "length (len_code (8 * length m)) = 8"
  define q k where "q = length m div 64" and "k = length m mod 64"
  have m: "length m = 64 * q + k" "k < 64" by (simp_all add: q_def k_def)
  have "(119 - k) mod 64 = (if k < 56 then 55 - k else 119 - k)"
  proof (cases "k < 56")
    case True
    then have "119 - k = 64 + (55 - k)" by simp
    then have "(119 - k) mod 64 = (55 - k) mod 64" by (metis mod_add_self1)
    then show ?thesis using True by simp
  qed (use m in simp)
  then have "length (md_pad len_code m) = 64 * (q + (if k < 56 then 1 else 2))"
    using m(2) l by (simp add: md_pad_def k_def [symmetric]) (simp add: m(1))
  then show ?thesis by simp
qed

subsection \<open>Interface: a digest computed piece by piece\<close>

text \<open>
  What a client of the three functions relies on: \<open>repr c m\<close> says that the context \<open>c\<close> has
  taken the message \<open>m\<close>; the end gives the digest of it, however it was cut into pieces that
  are shorter than \<open>limit\<close>.
\<close>

locale block_hash =
  fixes repr :: "'ctx \<Rightarrow> byte list \<Rightarrow> bool"
    and start :: 'ctx
    and update :: "'ctx \<Rightarrow> byte list \<Rightarrow> 'ctx"
    and final :: "'ctx \<Rightarrow> byte list"
    and conv :: "byte list \<Rightarrow> byte list"
    and digest :: "byte list \<Rightarrow> byte list"
    and limit :: nat
  assumes repr_start: "repr start []"
    and repr_update: "repr c m \<Longrightarrow> length d < limit \<Longrightarrow> repr (update c d) (m @ conv d)"
    and final_digest: "repr c m \<Longrightarrow> final c = digest m"
begin

lemma repr_stream:
  "repr c m \<Longrightarrow> \<forall>d \<in> set ds. length d < limit \<Longrightarrow>
     repr (fold (\<lambda>d c. update c d) ds c) (m @ concat (map conv ds))"
proof (induction ds arbitrary: c m)
  case (Cons d ds)
  then have "repr (update c d) (m @ conv d)" by (intro repr_update) auto
  then show ?case using Cons.IH [of "update c d" "m @ conv d"] Cons.prems by simp
qed simp

lemma stream:
  "\<forall>d \<in> set ds. length d < limit \<Longrightarrow>
     final (fold (\<lambda>d c. update c d) ds start) = digest (concat (map conv ds))"
  using final_digest [OF repr_stream [OF repr_start]] by simp

text \<open>Only the bytes count, not how they were cut.\<close>

lemma stream_cong:
  "\<forall>d \<in> set ds. length d < limit \<Longrightarrow> \<forall>d \<in> set ds'. length d < limit \<Longrightarrow>
     concat (map conv ds) = concat (map conv ds') \<Longrightarrow>
     final (fold (\<lambda>d c. update c d) ds start) = final (fold (\<lambda>d c. update c d) ds' start)"
  by (simp only: stream)

end

end
