(* ===== verification/Apu_Md.thy ===== *)
theory Apu_Md
  imports Block_Hash
begin

text \<open>
  The MD5 and MD4 digests (\<open>src/log4cxx/apr-util-1.5.4/crypto/apr_md5.c\<close> and
  \<open>apr_md4.c\<close>), built with \<open>APR_HAS_XLATE\<close>. The two files share their code but for the
  transformation of a block, which is an argument here. The translation of a single-byte
  handle (\<open>apr_xlate_conv_buffer\<close>) is a function on bytes. The index of the loop over the
  blocks is a 32-bit number and the length of the input is not: the loop is right for pieces shorter
  than \<open>2 ^ 32 - 63\<close> bytes, and does not end for pieces of \<open>2 ^ 32\<close> bytes or more.
\<close>

unbundle bit_operations_syntax

subsection \<open>The basic functions\<close>

definition md5_F :: "u32 \<Rightarrow> u32 \<Rightarrow> u32 \<Rightarrow> u32" where "md5_F x y z = ((x AND y) OR (NOT x AND z))"
definition md5_G :: "u32 \<Rightarrow> u32 \<Rightarrow> u32 \<Rightarrow> u32" where "md5_G x y z = ((x AND z) OR (y AND NOT z))"
definition md5_H :: "u32 \<Rightarrow> u32 \<Rightarrow> u32 \<Rightarrow> u32" where "md5_H x y z = (x XOR y XOR z)"
definition md5_I :: "u32 \<Rightarrow> u32 \<Rightarrow> u32 \<Rightarrow> u32" where "md5_I x y z = (y XOR (x OR NOT z))"
definition md4_G :: "u32 \<Rightarrow> u32 \<Rightarrow> u32 \<Rightarrow> u32" where "md4_G x y z = ((x AND y) OR (x AND z) OR (y AND z))"

definition ROTATE_LEFT :: "u32 \<Rightarrow> nat \<Rightarrow> u32" where
  "ROTATE_LEFT x n = (push_bit n x OR drop_bit (32 - n) x)"

text \<open>The macros: the new value of their first argument.\<close>

definition FF :: "u32 \<Rightarrow> u32 \<Rightarrow> u32 \<Rightarrow> u32 \<Rightarrow> u32 \<Rightarrow> nat \<Rightarrow> u32 \<Rightarrow> u32" where
  "FF a b c d x s ac = ROTATE_LEFT (a + (md5_F b c d + x + ac)) s + b"
definition GG :: "u32 \<Rightarrow> u32 \<Rightarrow> u32 \<Rightarrow> u32 \<Rightarrow> u32 \<Rightarrow> nat \<Rightarrow> u32 \<Rightarrow> u32" where
  "GG a b c d x s ac = ROTATE_LEFT (a + (md5_G b c d + x + ac)) s + b"
definition HH :: "u32 \<Rightarrow> u32 \<Rightarrow> u32 \<Rightarrow> u32 \<Rightarrow> u32 \<Rightarrow> nat \<Rightarrow> u32 \<Rightarrow> u32" where
  "HH a b c d x s ac = ROTATE_LEFT (a + (md5_H b c d + x + ac)) s + b"
definition II :: "u32 \<Rightarrow> u32 \<Rightarrow> u32 \<Rightarrow> u32 \<Rightarrow> u32 \<Rightarrow> nat \<Rightarrow> u32 \<Rightarrow> u32" where
  "II a b c d x s ac = ROTATE_LEFT (a + (md5_I b c d + x + ac)) s + b"

definition FF4 :: "u32 \<Rightarrow> u32 \<Rightarrow> u32 \<Rightarrow> u32 \<Rightarrow> u32 \<Rightarrow> nat \<Rightarrow> u32" where
  "FF4 a b c d x s = ROTATE_LEFT (a + (md5_F b c d + x)) s"
definition GG4 :: "u32 \<Rightarrow> u32 \<Rightarrow> u32 \<Rightarrow> u32 \<Rightarrow> u32 \<Rightarrow> nat \<Rightarrow> u32" where
  "GG4 a b c d x s = ROTATE_LEFT (a + (md4_G b c d + x + 0x5a827999)) s"
definition HH4 :: "u32 \<Rightarrow> u32 \<Rightarrow> u32 \<Rightarrow> u32 \<Rightarrow> u32 \<Rightarrow> nat \<Rightarrow> u32" where
  "HH4 a b c d x s = ROTATE_LEFT (a + (md5_H b c d + x + 0x6ed9eba1)) s"

subsection \<open>Words and bytes\<close>

text \<open>\<open>Encode\<close> and \<open>Decode\<close>: the least significant byte comes first.\<close>

definition le_bytes :: "u32 \<Rightarrow> byte list" where
  "le_bytes k = map ucast [k AND 0xff, drop_bit 8 k AND 0xff, drop_bit 16 k AND 0xff, drop_bit 24 k AND 0xff]"

definition le_word :: "byte \<Rightarrow> byte \<Rightarrow> byte \<Rightarrow> byte \<Rightarrow> u32" where
  "le_word b0 b1 b2 b3 =
     (ucast b0 OR push_bit 8 (ucast b1) OR push_bit 16 (ucast b2) OR push_bit 24 (ucast b3))"

definition Encode :: "u32 list \<Rightarrow> byte list" where
  "Encode input = concat (map le_bytes input)"

fun Decode :: "byte list \<Rightarrow> u32 list" where
  "Decode (b0 # b1 # b2 # b3 # bs) = le_word b0 b1 b2 b3 # Decode bs"
| "Decode bs = []"

subsection \<open>The transformations\<close>

text \<open>
  The calls of the macros, in order: each changes the word that the next one takes as its last,
  so the four words rotate. (An aligned block is read in place on a little-endian machine, which
  gives the same words as \<open>Decode\<close>.)
\<close>

type_synonym quad = "u32 \<times> u32 \<times> u32 \<times> u32"

definition md5_calls :: "((u32 \<Rightarrow> u32 \<Rightarrow> u32 \<Rightarrow> u32 \<Rightarrow> u32 \<Rightarrow> nat \<Rightarrow> u32 \<Rightarrow> u32) \<times> nat \<times> nat \<times> u32) list" where
  "md5_calls =
     [(FF, 0, 7, 0xd76aa478), (FF, 1, 12, 0xe8c7b756), (FF, 2, 17, 0x242070db), (FF, 3, 22, 0xc1bdceee),
      (FF, 4, 7, 0xf57c0faf), (FF, 5, 12, 0x4787c62a), (FF, 6, 17, 0xa8304613), (FF, 7, 22, 0xfd469501),
      (FF, 8, 7, 0x698098d8), (FF, 9, 12, 0x8b44f7af), (FF, 10, 17, 0xffff5bb1), (FF, 11, 22, 0x895cd7be),
      (FF, 12, 7, 0x6b901122), (FF, 13, 12, 0xfd987193), (FF, 14, 17, 0xa679438e), (FF, 15, 22, 0x49b40821),
      (GG, 1, 5, 0xf61e2562), (GG, 6, 9, 0xc040b340), (GG, 11, 14, 0x265e5a51), (GG, 0, 20, 0xe9b6c7aa),
      (GG, 5, 5, 0xd62f105d), (GG, 10, 9, 0x2441453), (GG, 15, 14, 0xd8a1e681), (GG, 4, 20, 0xe7d3fbc8),
      (GG, 9, 5, 0x21e1cde6), (GG, 14, 9, 0xc33707d6), (GG, 3, 14, 0xf4d50d87), (GG, 8, 20, 0x455a14ed),
      (GG, 13, 5, 0xa9e3e905), (GG, 2, 9, 0xfcefa3f8), (GG, 7, 14, 0x676f02d9), (GG, 12, 20, 0x8d2a4c8a),
      (HH, 5, 4, 0xfffa3942), (HH, 8, 11, 0x8771f681), (HH, 11, 16, 0x6d9d6122), (HH, 14, 23, 0xfde5380c),
      (HH, 1, 4, 0xa4beea44), (HH, 4, 11, 0x4bdecfa9), (HH, 7, 16, 0xf6bb4b60), (HH, 10, 23, 0xbebfbc70),
      (HH, 13, 4, 0x289b7ec6), (HH, 0, 11, 0xeaa127fa), (HH, 3, 16, 0xd4ef3085), (HH, 6, 23, 0x4881d05),
      (HH, 9, 4, 0xd9d4d039), (HH, 12, 11, 0xe6db99e5), (HH, 15, 16, 0x1fa27cf8), (HH, 2, 23, 0xc4ac5665),
      (II, 0, 6, 0xf4292244), (II, 7, 10, 0x432aff97), (II, 14, 15, 0xab9423a7), (II, 5, 21, 0xfc93a039),
      (II, 12, 6, 0x655b59c3), (II, 3, 10, 0x8f0ccc92), (II, 10, 15, 0xffeff47d), (II, 1, 21, 0x85845dd1),
      (II, 8, 6, 0x6fa87e4f), (II, 15, 10, 0xfe2ce6e0), (II, 6, 15, 0xa3014314), (II, 13, 21, 0x4e0811a1),
      (II, 4, 6, 0xf7537e82), (II, 11, 10, 0xbd3af235), (II, 2, 15, 0x2ad7d2bb), (II, 9, 21, 0xeb86d391)]"

definition md5_call ::
  "u32 list \<Rightarrow> (u32 \<Rightarrow> u32 \<Rightarrow> u32 \<Rightarrow> u32 \<Rightarrow> u32 \<Rightarrow> nat \<Rightarrow> u32 \<Rightarrow> u32) \<times> nat \<times> nat \<times> u32 \<Rightarrow> quad \<Rightarrow> quad" where
  "md5_call x call st =
     (case call of (f, k, s, ac) \<Rightarrow> case st of (a, b, c, d) \<Rightarrow> (d, f a b c d (x ! k) s ac, b, c))"

definition MD5Transform :: "u32 list \<Rightarrow> byte list \<Rightarrow> u32 list" where
  "MD5Transform state block =
     (case fold (md5_call (Decode block)) md5_calls (state ! 0, state ! 1, state ! 2, state ! 3) of
        (a, b, c, d) \<Rightarrow> [state ! 0 + a, state ! 1 + b, state ! 2 + c, state ! 3 + d])"

definition md4_calls :: "((u32 \<Rightarrow> u32 \<Rightarrow> u32 \<Rightarrow> u32 \<Rightarrow> u32 \<Rightarrow> nat \<Rightarrow> u32) \<times> nat \<times> nat) list" where
  "md4_calls =
     [(FF4, 0, 3), (FF4, 1, 7), (FF4, 2, 11), (FF4, 3, 19),
      (FF4, 4, 3), (FF4, 5, 7), (FF4, 6, 11), (FF4, 7, 19),
      (FF4, 8, 3), (FF4, 9, 7), (FF4, 10, 11), (FF4, 11, 19),
      (FF4, 12, 3), (FF4, 13, 7), (FF4, 14, 11), (FF4, 15, 19),
      (GG4, 0, 3), (GG4, 4, 5), (GG4, 8, 9), (GG4, 12, 13),
      (GG4, 1, 3), (GG4, 5, 5), (GG4, 9, 9), (GG4, 13, 13),
      (GG4, 2, 3), (GG4, 6, 5), (GG4, 10, 9), (GG4, 14, 13),
      (GG4, 3, 3), (GG4, 7, 5), (GG4, 11, 9), (GG4, 15, 13),
      (HH4, 0, 3), (HH4, 8, 9), (HH4, 4, 11), (HH4, 12, 15),
      (HH4, 2, 3), (HH4, 10, 9), (HH4, 6, 11), (HH4, 14, 15),
      (HH4, 1, 3), (HH4, 9, 9), (HH4, 5, 11), (HH4, 13, 15),
      (HH4, 3, 3), (HH4, 11, 9), (HH4, 7, 11), (HH4, 15, 15)]"

definition md4_call ::
  "u32 list \<Rightarrow> (u32 \<Rightarrow> u32 \<Rightarrow> u32 \<Rightarrow> u32 \<Rightarrow> u32 \<Rightarrow> nat \<Rightarrow> u32) \<times> nat \<times> nat \<Rightarrow> quad \<Rightarrow> quad" where
  "md4_call x call st =
     (case call of (f, k, s) \<Rightarrow> case st of (a, b, c, d) \<Rightarrow> (d, f a b c d (x ! k) s, b, c))"

definition MD4Transform :: "u32 list \<Rightarrow> byte list \<Rightarrow> u32 list" where
  "MD4Transform state block =
     (case fold (md4_call (Decode block)) md4_calls (state ! 0, state ! 1, state ! 2, state ! 3) of
        (a, b, c, d) \<Rightarrow> [state ! 0 + a, state ! 1 + b, state ! 2 + c, state ! 3 + d])"

subsection \<open>Contexts\<close>

text \<open>
  The last field is not in the C structure: it records that a call with this context did not
  return, or read past the end of its input.
\<close>

record md_ctx =
  md_state :: "u32 list"
  md_count0 :: u32
  md_count1 :: u32
  md_buffer :: "byte list"
  md_xlate :: "(byte \<Rightarrow> byte) option"
  md_lost :: bool

text \<open>\<open>init\<close> leaves the buffer as it is.\<close>

definition md_iv :: "u32 list" where
  "md_iv = [0x67452301, 0xefcdab89, 0x98badcfe, 0x10325476]"

definition apr_md5_init :: "md_ctx \<Rightarrow> md_ctx" where
  "apr_md5_init context = context\<lparr>md_state := md_iv, md_count0 := 0, md_count1 := 0, md_xlate := None\<rparr>"

definition apr_md4_init :: "md_ctx \<Rightarrow> md_ctx" where
  "apr_md4_init context = context\<lparr>md_state := md_iv, md_count0 := 0, md_count1 := 0, md_xlate := None\<rparr>"

text \<open>\<open>sb\<close> is the answer of \<open>apr_xlate_sb_get\<close>: an error, or whether the handle is single-byte.\<close>

definition apr_md5_set_xlate :: "md_ctx \<Rightarrow> (byte \<Rightarrow> byte) option \<Rightarrow> apr_status + bool \<Rightarrow> md_ctx \<times> apr_status" where
  "apr_md5_set_xlate context xlate sb =
     (case sb of Inl rv \<Rightarrow> (context, rv)
      | Inr is_sb \<Rightarrow> if \<not> is_sb then (context, APR_EINVAL) else (context\<lparr>md_xlate := xlate\<rparr>, APR_SUCCESS))"

definition apr_md4_set_xlate :: "md_ctx \<Rightarrow> (byte \<Rightarrow> byte) option \<Rightarrow> apr_status + bool \<Rightarrow> md_ctx \<times> apr_status" where
  "apr_md4_set_xlate context xlate sb =
     (case sb of Inl rv \<Rightarrow> (context, rv)
      | Inr is_sb \<Rightarrow> if \<not> is_sb then (context, APR_EINVAL) else (context\<lparr>md_xlate := xlate\<rparr>, APR_SUCCESS))"

text \<open>
  The loop \<open>for (i = partLen; i + 63 < inputLen; i += 64)\<close>: \<open>i\<close> and \<open>i + 63\<close> wrap
  around. There is no value if the loop does not end or a block does not lie in the input.
\<close>

partial_function (option) md_loop ::
  "('st \<Rightarrow> byte list \<Rightarrow> 'st) \<Rightarrow> byte list \<Rightarrow> u32 \<Rightarrow> 'st \<Rightarrow> ('st \<times> u32) option" where
  "md_loop transform input i st =
     (if unat (i + 63) < length input then
        (if unat i + 64 \<le> length input then
           md_loop transform input (i + 64) (transform st (take 64 (drop (unat i) input)))
         else None)
      else Some (st, i))"

text \<open>How bytes are copied: translated if there is a handle and \<open>xlate_buffer\<close> asks for it.\<close>

definition md_conv :: "(byte \<Rightarrow> byte) option \<Rightarrow> bool \<Rightarrow> byte list \<Rightarrow> byte list" where
  "md_conv xlate do_xlate bs = (case xlate of Some f \<Rightarrow> if do_xlate then map f bs else bs | None \<Rightarrow> bs)"

definition md_update :: "(u32 list \<Rightarrow> byte list \<Rightarrow> u32 list) \<Rightarrow> bool \<Rightarrow> md_ctx \<Rightarrow> byte list \<Rightarrow> md_ctx" where
  "md_update transform do_xlate context input =
     (let idx = unat (drop_bit 3 (md_count0 context) AND 0x3F);
          bits = push_bit 3 (of_nat (length input));
          count0 = md_count0 context + bits;
          count1 = md_count1 context + (if count0 < bits then 1 else 0) + drop_bit 29 (of_nat (length input));
          partLen = 64 - idx;
          conv = md_conv (md_xlate context) do_xlate;
          context = context\<lparr>md_count0 := count0, md_count1 := count1\<rparr>
      in if partLen \<le> length input then
           (let buffer = memcpy_at (md_buffer context) idx (conv (take partLen input))
            in case md_loop (\<lambda>st b. transform st (conv b)) input (of_nat partLen) (transform (md_state context) buffer) of
                 None \<Rightarrow> context\<lparr>md_lost := True\<rparr>
               | Some (st, i) \<Rightarrow>
                   context\<lparr>md_state := st, md_buffer := memcpy_at buffer 0 (conv (drop (unat i) input))\<rparr>)
         else context\<lparr>md_buffer := memcpy_at (md_buffer context) idx (conv input)\<rparr>)"

definition PADDING :: "byte list" where
  "PADDING = 0x80 # replicate 63 0"

text \<open>\<open>memset(context, 0, sizeof *context)\<close> at the end.\<close>

definition md_zero :: md_ctx where
  "md_zero = \<lparr>md_state = replicate 4 0, md_count0 = 0, md_count1 = 0, md_buffer = replicate 64 0, md_xlate = None,
              md_lost = False\<rparr>"

definition md_final :: "(u32 list \<Rightarrow> byte list \<Rightarrow> u32 list) \<Rightarrow> md_ctx \<Rightarrow> byte list \<times> md_ctx" where
  "md_final transform context =
     (let bits = Encode [md_count0 context, md_count1 context];
          context = context\<lparr>md_xlate := None\<rparr>;
          idx = unat (drop_bit 3 (md_count0 context) AND 0x3f);
          padLen = (if idx < 56 then 56 - idx else 120 - idx);
          context = md_update transform True context (take padLen PADDING);
          context = md_update transform True context bits
      in (Encode (md_state context), md_zero))"

definition md5_update_buffer :: "bool \<Rightarrow> md_ctx \<Rightarrow> byte list \<Rightarrow> md_ctx" where
  "md5_update_buffer do_xlate = md_update MD5Transform do_xlate"

definition apr_md5_update :: "md_ctx \<Rightarrow> byte list \<Rightarrow> md_ctx" where
  "apr_md5_update = md5_update_buffer True"

definition apr_md5_final :: "md_ctx \<Rightarrow> byte list \<times> md_ctx" where
  "apr_md5_final = md_final MD5Transform"

text \<open>\<open>apr_md5\<close> has its context on the stack: the buffer is any 64 bytes \<open>junk\<close>.\<close>

definition stack_ctx :: "byte list \<Rightarrow> md_ctx" where
  "stack_ctx junk = \<lparr>md_state = [], md_count0 = 0, md_count1 = 0, md_buffer = junk, md_xlate = None,
                       md_lost = False\<rparr>"

definition apr_md5 :: "byte list \<Rightarrow> byte list \<Rightarrow> byte list" where
  "apr_md5 junk input = fst (apr_md5_final (apr_md5_update (apr_md5_init (stack_ctx junk)) input))"

definition apr_md4_update :: "md_ctx \<Rightarrow> byte list \<Rightarrow> md_ctx" where
  "apr_md4_update = md_update MD4Transform True"

definition apr_md4_final :: "md_ctx \<Rightarrow> byte list \<times> md_ctx" where
  "apr_md4_final = md_final MD4Transform"

definition apr_md4 :: "byte list \<Rightarrow> byte list \<Rightarrow> byte list" where
  "apr_md4 junk input = fst (apr_md4_final (apr_md4_update (apr_md4_init (stack_ctx junk)) input))"

subsection \<open>Messages in pieces\<close>

text \<open>While the index does not wrap around, the loop absorbs all full blocks.\<close>

lemma md_loop_absorb:
  assumes "length input < 2 ^ 32 - 63" and "unat i \<le> length input"
  shows "\<exists>i'. md_loop tr input i st = Some (absorb tr st (drop (unat i) input), i') \<and>
             drop (unat i') input = rest_of (drop (unat i) input)"
  using assms(2)
proof (induction "length input - unat i" arbitrary: i st rule: less_induct)
  case less
  have u63: "unat (i + 63) = unat i + 63"
    using less.prems assms(1) by (simp add: unat_word_ariths)
  show ?case
  proof (cases "unat i + 63 < length input")
    case True
    have u64: "unat (i + 64) = unat i + 64"
      using True assms(1) by (simp add: unat_word_ariths)
    let ?d = "drop (unat i) input"
    have split: "?d = take 64 ?d @ drop (unat (i + 64)) input" and l: "length (take 64 ?d) = 64"
      using True append_take_drop_id [of 64 "drop (unat i) input"] by (simp_all only: u64 drop_drop add.commute [of "unat i"]) simp
    have "length input - unat (i + 64) < length input - unat i" "unat (i + 64) \<le> length input"
      using True u64 by simp_all
    from less.hyps [OF this, of "tr st (take 64 ?d)"] obtain i' where
      i': "md_loop tr input (i + 64) (tr st (take 64 ?d)) =
             Some (absorb tr (tr st (take 64 ?d)) (drop (unat (i + 64)) input), i')"
        "drop (unat i') input = rest_of (drop (unat (i + 64)) input)" by blast
    have "absorb tr st ?d = absorb tr (tr st (take 64 ?d)) (drop (unat (i + 64)) input)"
      using absorb_block [OF l, of tr st "drop (unat (i + 64)) input"] split by simp
    moreover have "rest_of ?d = rest_of (drop (unat (i + 64)) input)"
      using rest_append [of "take 64 ?d" "drop (unat (i + 64)) input"] l split by simp
    ultimately show ?thesis
      using i' True by (simp add: md_loop.simps [of tr input i] u63)
  next
    case False
    then have "length (drop (unat i) input) < 64" by simp
    then show ?thesis
      using False by (simp add: md_loop.simps [of tr input i] u63 absorb_short rest_short)
  qed
qed

text \<open>On inputs of \<open>2 ^ 32\<close> bytes and more the test always succeeds.\<close>

lemma md_loop_no_end: "2 ^ 32 \<le> length input \<Longrightarrow> md_loop tr input i st = None"
proof -
  assume l: "2 ^ 32 \<le> length input"
  have "\<not> (2 ^ 32 \<le> length input)" if "md_loop tr input i st = Some y" for y
  proof (rule md_loop.raw_induct [where P = "\<lambda>tr input i st y. \<not> (2 ^ 32 \<le> length input)", OF _ that])
    fix f and tr :: "'a \<Rightarrow> byte list \<Rightarrow> 'a" and input and i :: u32 and st z
    assume ih: "\<And>tr input i st y. f tr input i st = Some y \<Longrightarrow> \<not> 2 ^ 32 \<le> length input"
      and eq: "(if unat (i + 63) < length input then if unat i + 64 \<le> length input
          then f tr input (i + 64) (tr st (take 64 (drop (unat i) input))) else None else Some (st, i)) = Some z"
    show "\<not> 2 ^ 32 \<le> length input"
    proof
      assume l: "2 ^ 32 \<le> length input"
      have "unat (i + 63 :: u32) < 2 ^ LENGTH(32)" by (rule unsigned_less)
      then have "unat (i + 63) < length input" using l by simp
      then show False using eq ih l by (auto split: if_splits)
    qed
  qed
  then show ?thesis using l by (cases "md_loop tr input i st") auto
qed

lemma md_conv_simps [simp]:
  "length (md_conv x b d) = length d"
  "md_conv x b (take n d) = take n (md_conv x b d)"
  "md_conv x b (drop n d) = drop n (md_conv x b d)"
  "md_conv x b (rest_of d) = rest_of (md_conv x b d)"
  by (simp_all add: md_conv_def take_map drop_map rest_of_def split: option.split)

lemma absorb_conv: "absorb (\<lambda>st b. tr st (md_conv x c b)) st m = absorb tr st (md_conv x c m)"
proof (cases "x = None \<or> \<not> c")
  case True
  then show ?thesis by (auto simp: md_conv_def split: option.split)
next
  case False
  then obtain f where "x = Some f" "c" by auto
  then show ?thesis by (simp add: md_conv_def absorb_map)
qed

definition md_repr ::
  "(u32 list \<Rightarrow> byte list \<Rightarrow> u32 list) \<Rightarrow> (byte \<Rightarrow> byte) option \<Rightarrow> md_ctx \<Rightarrow> byte list \<Rightarrow> bool" where
  "md_repr tr x ctx m \<longleftrightarrow>
     md_state ctx = absorb tr md_iv m \<and> length (md_buffer ctx) = 64 \<and>
     take (length m mod 64) (md_buffer ctx) = rest_of m \<and>
     md_count0 ctx = count_lo (length m) \<and> md_count1 ctx = count_hi (length m) \<and> md_xlate ctx = x \<and>
     \<not> md_lost ctx"

lemma md_repr_update:
  assumes "md_repr tr x ctx m" and len: "length d < 2 ^ 32 - 63"
  shows "md_repr tr x (md_update tr b ctx d) (m @ md_conv x b d)"
proof -
  define k e where "k = length m mod 64" and "e = md_conv x b d"
  have le: "length e = length d" "length (m @ e) = length m + length d" and k: "k < 64" "length (rest_of m) = k"
    by (simp_all add: e_def k_def)
  have idx: "unat (drop_bit 3 (md_count0 ctx) AND 0x3F) = k"
    using assms(1) by (simp add: md_repr_def count_index k_def)
  note r = assms(1) [unfolded md_repr_def, folded k_def]
  have len': "length d < 2 ^ 32" using len by simp
  note c = count_add(1,2) [OF len', of "length m"]
  show ?thesis
  proof (cases "64 - k \<le> length d")
    case True
    define b1 where "b1 = memcpy_at (md_buffer ctx) k (take (64 - k) e)"
    have b1: "b1 = rest_of m @ take (64 - k) e" "length b1 = 64"
      using r k True le by (auto simp: b1_def memcpy_at_def)
    have split: "rest_of m @ e = b1 @ drop (64 - k) e" by (simp add: b1)
    have st: "absorb tr (tr (absorb tr md_iv m) b1) (drop (64 - k) e) = absorb tr md_iv (m @ e)"
      using absorb_join [of tr md_iv m e] absorb_block [OF b1(2), of tr "absorb tr md_iv m"] split by simp
    have rest: "rest_of (drop (64 - k) e) = rest_of (m @ e)"
      using rest_join [of m e] rest_append [of b1 "drop (64 - k) e"] split b1(2) by simp
    let ?tr = "\<lambda>st b'. tr st (md_conv x b b')" and ?i = "of_nat (64 - k) :: u32"
    have ui: "unat ?i = 64 - k" unfolding unat_of_nat using k by simp
    obtain i' where i': "md_loop ?tr d ?i (tr (absorb tr md_iv m) b1) =
          Some (absorb ?tr (tr (absorb tr md_iv m) b1) (drop (64 - k) d), i')"
        "drop (unat i') d = rest_of (drop (64 - k) d)"
      using md_loop_absorb [OF len, of ?i ?tr "tr (absorb tr md_iv m) b1"] True ui by auto
    have st': "absorb tr (tr (absorb tr md_iv m) b1) (md_conv x b (drop (64 - k) d)) = absorb tr md_iv (m @ e)"
      using st by (simp add: e_def)
    have rest': "md_conv x b (drop (unat i') d) = rest_of (m @ e)"
      using rest by (simp add: i'(2) e_def)
    have upd: "md_update tr b ctx d = ctx\<lparr>md_count0 := count_lo (length m + length d),
        md_count1 := count_hi (length m + length d), md_state := absorb tr md_iv (m @ e),
        md_buffer := memcpy_at b1 0 (rest_of (m @ e))\<rparr>"
      using r c True idx
      by (simp add: md_update_def Let_def i'(1) absorb_conv e_def [symmetric] b1_def [symmetric] st' rest'
        del: md_conv_simps(3))
    have "length (memcpy_at b1 0 (rest_of (m @ e))) = 64"
      using b1(2) by (subst memcpy_simps(1)) (auto simp: less_imp_le)
    moreover have "take (length (m @ e) mod 64) (memcpy_at b1 0 (rest_of (m @ e))) = rest_of (m @ e)"
      using memcpy_simps(2) [of 0 b1 "rest_of (m @ e)"] by simp
    ultimately show ?thesis unfolding upd using r le by (simp add: md_repr_def e_def [symmetric])
  next
    case False
    have lt: "length (rest_of m @ e) < 64" using False le k by simp
    have j: "(length m + length d) mod 64 = k + length d"
    proof -
      have "(length m + length d) mod 64 = (k + length d) mod 64" unfolding k_def by (simp add: mod_add_left_eq)
      then show ?thesis using lt le k by simp
    qed
    have upd: "md_update tr b ctx d = ctx\<lparr>md_count0 := count_lo (length m + length d),
        md_count1 := count_hi (length m + length d), md_buffer := memcpy_at (md_buffer ctx) k e\<rparr>"
      using r c False idx by (simp add: md_update_def Let_def e_def [symmetric])
    have "absorb tr md_iv (m @ e) = md_state ctx"
      using absorb_join [of tr md_iv m e] absorb_short [OF lt] r by simp
    moreover have "rest_of (m @ e) = rest_of m @ e" using rest_join [of m e] rest_short [OF lt] by simp
    moreover have "take (k + length d) (memcpy_at (md_buffer ctx) k e) = rest_of m @ e"
      using memcpy_simps(2) [of k "md_buffer ctx" e] r k le by simp
    moreover have "length (memcpy_at (md_buffer ctx) k e) = 64"
      using memcpy_simps(1) [of k e "md_buffer ctx"] r lt le k by simp
    ultimately show ?thesis unfolding upd using r le j by (simp add: md_repr_def e_def [symmetric])
  qed
qed

text \<open>The length field, least significant byte first.\<close>

definition le_length :: "nat \<Rightarrow> byte list" where
  "le_length n = map (\<lambda>i. of_nat (n div 256 ^ i)) [0..<8]"

lemma byte_of_count:
  assumes "k \<le> 24"
  shows "(ucast (drop_bit k (of_nat n :: u32) AND 0xff) :: byte) = of_nat (n div 2 ^ k)"
proof (rule word_unat_eq_iff [THEN iffD2])
  have m: "drop_bit k (of_nat n :: u32) AND 0xff = take_bit 8 (drop_bit k (of_nat n))"
    by (simp add: take_bit_eq_mask mask_eq_exp_minus_1)
  have "unat (ucast (drop_bit k (of_nat n :: u32) AND 0xff) :: byte) = take_bit 8 (drop_bit k (take_bit 32 n))"
    unfolding m by (simp add: unsigned_ucast_eq unsigned_take_bit_eq unat_drop_bit unsigned_of_nat)
  also have "\<dots> = take_bit 8 (drop_bit k n)" using assms by (simp add: drop_bit_take_bit)
  also have "\<dots> = unat (of_nat (n div 2 ^ k) :: byte)"
    by (simp add: unsigned_of_nat drop_bit_eq_div)
  finally show "unat (ucast (drop_bit k (of_nat n :: u32) AND 0xff) :: byte) = unat (of_nat (n div 2 ^ k) :: byte)" .
qed

lemma le_bytes_of_nat: "le_bytes (of_nat n) = map (\<lambda>i. of_nat (n div 256 ^ i)) [0..<4]"
  using byte_of_count [of 0 n] byte_of_count [of 8 n] byte_of_count [of 16 n] byte_of_count [of 24 n]
  by (simp add: le_bytes_def upt_rec)

lemma Encode_counts: "Encode [count_lo n, count_hi n] = le_length (8 * n)"
proof -
  have "le_length (8 * n) = map (\<lambda>i. of_nat (8 * n div 256 ^ i)) [0..<4] @ map (\<lambda>i. of_nat (8 * n div 2 ^ 32 div 256 ^ i)) [0..<4]"
    by (simp add: le_length_def upt_rec div_mult2_eq [symmetric])
  then show ?thesis by (simp add: Encode_def count_lo_def count_hi_def le_bytes_of_nat del: of_nat_mult)
qed

lemma md_final_digest:
  assumes "md_repr tr x ctx m"
  shows "fst (md_final tr ctx) = reference_digest tr md_iv le_length Encode m"
proof -
  let ?c = "ctx\<lparr>md_xlate := None\<rparr>"
  define k where "k = length m mod 64"
  define padLen where "padLen = (if k < 56 then 56 - k else 120 - k)"
  have k: "k < 64" by (simp add: k_def)
  have idx: "unat (drop_bit 3 (md_count0 ctx) AND 0x3F) = k"
    using assms(1) by (simp add: md_repr_def count_index k_def)
  have bits: "Encode [md_count0 ctx, md_count1 ctx] = le_length (8 * length m)"
    using assms by (simp add: md_repr_def Encode_counts)
  have c: "md_repr tr None ?c m" using assms by (simp add: md_repr_def)
  have zeros: "(119 - k) mod 64 = padLen - 1"
  proof (cases "k < 56")
    case True
    then have "119 - k = 64 + (55 - k)" by simp
    then have "(119 - k) mod 64 = (55 - k) mod 64" by (metis mod_add_self1)
    then show ?thesis using True by (simp add: padLen_def)
  qed (use k in \<open>simp add: padLen_def\<close>)
  have pl: "0 < padLen" "padLen \<le> 64" using k by (auto simp: padLen_def)
  then have pad: "take padLen PADDING = 0x80 # replicate ((119 - k) mod 64) 0"
    unfolding zeros by (cases padLen) (simp_all add: PADDING_def min_absorb1)
  have len: "length (take padLen PADDING) < 2 ^ 32 - 63" "length (le_length (8 * length m)) < 2 ^ 32 - 63"
    using pl by (simp_all add: PADDING_def le_length_def)
  have "md_repr tr None (md_update tr True ?c (take padLen PADDING)) (m @ take padLen PADDING)"
    using md_repr_update [OF c len(1), of True] by (simp add: md_conv_def)
  then have "md_repr tr None (md_update tr True (md_update tr True ?c (take padLen PADDING)) (le_length (8 * length m)))
      (m @ take padLen PADDING @ le_length (8 * length m))"
    using md_repr_update [OF _ len(2), of tr None _ "m @ take padLen PADDING" True] by (simp add: md_conv_def)
  moreover have "m @ take padLen PADDING @ le_length (8 * length m) = md_pad le_length m"
    unfolding pad md_pad_def k_def by simp
  moreover have "fst (md_final tr ctx) =
      Encode (md_state (md_update tr True (md_update tr True ?c (take padLen PADDING)) (le_length (8 * length m))))"
    by (simp add: md_final_def Let_def idx bits padLen_def)
  ultimately show ?thesis by (simp add: reference_digest_def md_repr_def)
qed

text \<open>A context that was initialised and given a translation, or none.\<close>

definition md_start :: "(byte \<Rightarrow> byte) option \<Rightarrow> byte list \<Rightarrow> md_ctx" where
  "md_start x junk = (apr_md5_init (stack_ctx junk))\<lparr>md_xlate := x\<rparr>"

lemma md_repr_start: "length junk = 64 \<Longrightarrow> md_repr tr x (md_start x junk) []"
  by (simp add: md_repr_def md_start_def apr_md5_init_def stack_ctx_def absorb_short rest_short count_lo_def count_hi_def)

interpretation md5: block_hash "md_repr MD5Transform x" "md_start x (replicate 64 0)" apr_md5_update
  "\<lambda>c. fst (apr_md5_final c)" "md_conv x True" "reference_digest MD5Transform md_iv le_length Encode" "2 ^ 32 - 63" for x
  by unfold_locales
    (auto simp: md_repr_start apr_md5_update_def md5_update_buffer_def apr_md5_final_def md_repr_update md_final_digest)

interpretation md4: block_hash "md_repr MD4Transform x" "md_start x (replicate 64 0)" apr_md4_update
  "\<lambda>c. fst (apr_md4_final c)" "md_conv x True" "reference_digest MD4Transform md_iv le_length Encode" "2 ^ 32 - 63" for x
  by unfold_locales
    (auto simp: md_repr_start apr_md4_update_def apr_md4_final_def md_repr_update md_final_digest)

subsection \<open>A test vector\<close>

text \<open>The digest of \<open>abc\<close> in the appendix of RFC 1321, one round after the other.\<close>

definition abc_words :: "u32 list" where
  "abc_words = [0x80636261, 0, 0, 0, 0, 0, 0, 0, 0, 0, 0, 0, 0, 0, 24, 0]"

lemma md5_abc_round1:
  "fold (md5_call abc_words) (take 16 (drop 0 md5_calls)) (0x67452301, 0xefcdab89, 0x98badcfe, 0x10325476) =
     (0xdda9b9a6, 0x72aff2e0, 0xe396856b, 0xa1051895)"
  by code_simp

lemma md5_abc_round2:
  "fold (md5_call abc_words) (take 16 (drop 16 md5_calls)) (0xdda9b9a6, 0x72aff2e0, 0xe396856b, 0xa1051895) =
     (0x790a77fb, 0x726342d3, 0xa62884aa, 0x9f47e4f8)"
  by code_simp

lemma md5_abc_round3:
  "fold (md5_call abc_words) (take 16 (drop 32 md5_calls)) (0x790a77fb, 0x726342d3, 0xa62884aa, 0x9f47e4f8) =
     (0x7f2e507b, 0x7beb9700, 0x8fae6399, 0x99d9679d)"
  by code_simp

lemma md5_abc_round4:
  "fold (md5_call abc_words) (take 16 (drop 48 md5_calls)) (0x7f2e507b, 0x7beb9700, 0x8fae6399, 0x99d9679d) =
     (0x310ade8f, 0xc08226b3, 0xe484b9d8, 0x624d8cb2)"
  by code_simp

lemma abc_pad: "md_pad le_length [97, 98, 99] = 97 # 98 # 99 # 0x80 # replicate 52 0 @ [24, 0, 0, 0, 0, 0, 0, 0]"
proof -
  have "le_length 24 = [24, 0, 0, 0, 0, 0, 0, 0]" by (simp add: le_length_def upt_rec)
  then show ?thesis by (simp add: md_pad_def)
qed

lemma md5_abc_words: "Decode (md_pad le_length [97, 98, 99]) = abc_words"
  unfolding abc_pad by code_simp

lemma md5_abc:
  "apr_md5 (replicate 64 0) (str ''abc'') =
     [0x90, 0x01, 0x50, 0x98, 0x3c, 0xd2, 0x4f, 0xb0, 0xd6, 0x96, 0x3f, 0x7d, 0x28, 0xe1, 0x7f, 0x72]"
proof -
  let ?m = "md_pad le_length (str ''abc'')" and ?r = "\<lambda>i. take 16 (drop i md5_calls)"
  have calls: "md5_calls = ?r 0 @ ?r 16 @ ?r 32 @ ?r 48" by (simp add: md5_calls_def)
  have "fold (md5_call abc_words) md5_calls (0x67452301, 0xefcdab89, 0x98badcfe, 0x10325476) = (0x310ade8f, 0xc08226b3, 0xe484b9d8, 0x624d8cb2)"
    by (subst calls) (simp only: fold_append comp_apply md5_abc_round1 md5_abc_round2 md5_abc_round3 md5_abc_round4)
  then have "MD5Transform md_iv ?m = [0x98500190, 0xb04fd23c, 0x7d3f96d6, 0x727fe128]"
    by (simp add: MD5Transform_def md5_abc_words md_iv_def)
  moreover have "length ?m = 64" by (simp add: abc_pad)
  ultimately have "reference_digest MD5Transform md_iv le_length Encode (str ''abc'') =
      Encode [0x98500190, 0xb04fd23c, 0x7d3f96d6, 0x727fe128]"
    using absorb_block [of ?m MD5Transform md_iv "[]"] by (simp add: reference_digest_def absorb_short)
  also have "\<dots> = [0x90, 0x01, 0x50, 0x98, 0x3c, 0xd2, 0x4f, 0xb0, 0xd6, 0x96, 0x3f, 0x7d, 0x28, 0xe1, 0x7f, 0x72]"
    by code_simp
  finally show ?thesis
    using md5.stream [of "[str ''abc'']" None] by (simp add: apr_md5_def md_start_def md_conv_def apr_md5_init_def stack_ctx_def)
qed

end
