(* ===== verification/Apu_Sha1.thy ===== *)
theory Apu_Sha1
  imports Apu_Md
begin

text \<open>
  The SHA-1 digest (\<open>src/log4cxx/apr-util-1.5.4/crypto/apr_sha1.c\<close>, ASCII,
  \<open>USE_MODIFIED_SHA\<close>). The code reads and writes \<open>data\<close> both as bytes and as words; it is
  modelled as its bytes in memory, for both byte orders: \<open>le\<close> is the answer of
  \<open>isLittleEndian\<close>. Lengths are unsigned ints.
\<close>

subsection \<open>The transformation\<close>

definition sha_f1 :: "u32 \<Rightarrow> u32 \<Rightarrow> u32 \<Rightarrow> u32" where "sha_f1 x y z = ((x AND y) OR (NOT x AND z))"
definition sha_f2 :: "u32 \<Rightarrow> u32 \<Rightarrow> u32 \<Rightarrow> u32" where "sha_f2 x y z = (x XOR y XOR z)"
definition sha_f3 :: "u32 \<Rightarrow> u32 \<Rightarrow> u32 \<Rightarrow> u32" where "sha_f3 x y z = ((x AND y) OR (x AND z) OR (y AND z))"
definition sha_f4 :: "u32 \<Rightarrow> u32 \<Rightarrow> u32 \<Rightarrow> u32" where "sha_f4 x y z = (x XOR y XOR z)"

definition CONST1 :: u32 where "CONST1 = 0x5a827999"
definition CONST2 :: u32 where "CONST2 = 0x6ed9eba1"
definition CONST3 :: u32 where "CONST3 = 0x8f1bbcdc"
definition CONST4 :: u32 where "CONST4 = 0xca62c1d6"

definition ROT32 :: "u32 \<Rightarrow> nat \<Rightarrow> u32" where
  "ROT32 x n = (push_bit n x OR drop_bit (32 - n) x)"

type_synonym quint = "u32 \<times> u32 \<times> u32 \<times> u32 \<times> u32"

definition sha_FUNC :: "(u32 \<Rightarrow> u32 \<Rightarrow> u32 \<Rightarrow> u32) \<Rightarrow> u32 \<Rightarrow> u32 list \<Rightarrow> nat \<Rightarrow> quint \<Rightarrow> quint" where
  "sha_FUNC f const W i st =
     (case st of (A, B, C, D, E) \<Rightarrow> (ROT32 A 5 + f B C D + E + W ! i + const, A, ROT32 B 30, C, D))"

definition sha_schedule :: "u32 list \<Rightarrow> u32 list" where
  "sha_schedule data =
     fold (\<lambda>i W. W @ [ROT32 (W ! (i - 3) XOR W ! (i - 8) XOR W ! (i - 14) XOR W ! (i - 16)) 1]) [16..<80] data"

definition sha_rounds :: "u32 list \<Rightarrow> quint \<Rightarrow> quint" where
  "sha_rounds W st =
     fold (sha_FUNC sha_f4 CONST4 W) [60..<80]
       (fold (sha_FUNC sha_f3 CONST3 W) [40..<60]
         (fold (sha_FUNC sha_f2 CONST2 W) [20..<40]
           (fold (sha_FUNC sha_f1 CONST1 W) [0..<20] st)))"

definition sha_words_transform :: "u32 list \<Rightarrow> u32 list \<Rightarrow> u32 list" where
  "sha_words_transform dg data =
     (case sha_rounds (sha_schedule data) (dg ! 0, dg ! 1, dg ! 2, dg ! 3, dg ! 4) of
        (A, B, C, D, E) \<Rightarrow> [dg ! 0 + A, dg ! 1 + B, dg ! 2 + C, dg ! 3 + D, dg ! 4 + E])"

subsection \<open>Words in memory\<close>

fun words_of :: "bool \<Rightarrow> byte list \<Rightarrow> u32 list" where
  "words_of le (b0 # b1 # b2 # b3 # bs) =
     (if le then le_word b0 b1 b2 b3 else le_word b3 b2 b1 b0) # words_of le bs"
| "words_of le bs = []"

definition word_bytes :: "bool \<Rightarrow> u32 \<Rightarrow> byte list" where
  "word_bytes le w = (if le then le_bytes w else rev (le_bytes w))"

fun byte_reverse :: "byte list \<Rightarrow> byte list" where
  "byte_reverse (b0 # b1 # b2 # b3 # bs) = b3 # b2 # b1 # b0 # byte_reverse bs"
| "byte_reverse bs = bs"

definition maybe_byte_reverse :: "bool \<Rightarrow> byte list \<Rightarrow> byte list" where
  "maybe_byte_reverse le buffer = (if le then byte_reverse buffer else buffer)"

subsection \<open>Contexts\<close>

record sha1_ctx =
  sha_digest :: "u32 list"
  sha_count_lo :: u32
  sha_count_hi :: u32
  sha_data :: "byte list"
  sha_local :: nat

definition sha_transform :: "bool \<Rightarrow> sha1_ctx \<Rightarrow> sha1_ctx" where
  "sha_transform le c = c\<lparr>sha_digest := sha_words_transform (sha_digest c) (words_of le (sha_data c))\<rparr>"

definition sha_iv :: "u32 list" where
  "sha_iv = [0x67452301, 0xefcdab89, 0x98badcfe, 0x10325476, 0xc3d2e1f0]"

definition apr_sha1_init :: "sha1_ctx \<Rightarrow> sha1_ctx" where
  "apr_sha1_init c = c\<lparr>sha_digest := sha_iv, sha_count_lo := 0, sha_count_hi := 0, sha_local := 0\<rparr>"

text \<open>\<open>while (count >= SHA_BLOCKSIZE)\<close>, and what follows it.\<close>

function sha_loop :: "bool \<Rightarrow> sha1_ctx \<Rightarrow> byte list \<Rightarrow> sha1_ctx \<times> byte list" where
  "sha_loop le c buffer =
     (if 64 \<le> length buffer then
        sha_loop le (sha_transform le (c\<lparr>sha_data := maybe_byte_reverse le (memcpy_at (sha_data c) 0 (take 64 buffer))\<rparr>))
          (drop 64 buffer)
      else (c, buffer))"
  by pat_completeness auto
termination by (relation "measure (\<lambda>(le, c, buffer). length buffer)") auto

declare sha_loop.simps [simp del]

definition sha_tail :: "bool \<Rightarrow> sha1_ctx \<Rightarrow> byte list \<Rightarrow> sha1_ctx" where
  "sha_tail le c buffer =
     (case sha_loop le c buffer of
        (c, rest) \<Rightarrow> c\<lparr>sha_data := memcpy_at (sha_data c) 0 rest, sha_local := length rest\<rparr>)"

definition apr_sha1_update_binary :: "bool \<Rightarrow> sha1_ctx \<Rightarrow> byte list \<Rightarrow> sha1_ctx" where
  "apr_sha1_update_binary le c buffer =
     (let bits = push_bit 3 (of_nat (length buffer));
          hi = (if sha_count_lo c + bits < sha_count_lo c then sha_count_hi c + 1 else sha_count_hi c);
          c = c\<lparr>sha_count_lo := sha_count_lo c + bits, sha_count_hi := hi + drop_bit 29 (of_nat (length buffer))\<rparr>
      in if sha_local c \<noteq> 0 then
           (let i = min (64 - sha_local c) (length buffer);
                c = c\<lparr>sha_data := memcpy_at (sha_data c) (sha_local c) (take i buffer), sha_local := sha_local c + i\<rparr>
            in if sha_local c = 64 then
                 sha_tail le (sha_transform le (c\<lparr>sha_data := maybe_byte_reverse le (sha_data c)\<rparr>)) (drop i buffer)
               else c)
         else sha_tail le c buffer)"

definition apr_sha1_update :: "bool \<Rightarrow> sha1_ctx \<Rightarrow> byte list \<Rightarrow> sha1_ctx" where
  "apr_sha1_update = apr_sha1_update_binary"

definition be_bytes :: "u32 \<Rightarrow> byte list" where
  "be_bytes k = map ucast [drop_bit 24 k AND 0xff, drop_bit 16 k AND 0xff, drop_bit 8 k AND 0xff, k AND 0xff]"

definition apr_sha1_final :: "bool \<Rightarrow> sha1_ctx \<Rightarrow> byte list \<times> sha1_ctx" where
  "apr_sha1_final le c =
     (let count = unat (drop_bit 3 (sha_count_lo c) AND 0x3f);
          c = c\<lparr>sha_data := memcpy_at (sha_data c) count [0x80]\<rparr>;
          count = count + 1;
          c = (if 64 - 8 < count then
                 (let c = c\<lparr>sha_data := memcpy_at (sha_data c) count (replicate (64 - count) 0)\<rparr>;
                      c = sha_transform le (c\<lparr>sha_data := maybe_byte_reverse le (sha_data c)\<rparr>)
                  in c\<lparr>sha_data := memcpy_at (sha_data c) 0 (replicate (64 - 8) 0)\<rparr>)
               else c\<lparr>sha_data := memcpy_at (sha_data c) count (replicate (64 - 8 - count) 0)\<rparr>);
          c = c\<lparr>sha_data := maybe_byte_reverse le (sha_data c)\<rparr>;
          c = c\<lparr>sha_data := memcpy_at (sha_data c) (4 * 14) (word_bytes le (sha_count_hi c))\<rparr>;
          c = c\<lparr>sha_data := memcpy_at (sha_data c) (4 * 15) (word_bytes le (sha_count_lo c))\<rparr>;
          c = sha_transform le c
      in (concat (map be_bytes (sha_digest c)), c))"

subsection \<open>Byte order\<close>

lemma byte_reverse_length [simp]: "length (byte_reverse bs) = length bs"
  by (induction bs rule: byte_reverse.induct) simp_all

lemma maybe_reverse_length [simp]: "length (maybe_byte_reverse le bs) = length bs"
  by (simp add: maybe_byte_reverse_def)

lemma words_reverse: "length bs mod 4 = 0 \<Longrightarrow> words_of le (maybe_byte_reverse le bs) = words_of False bs"
  by (cases le; simp add: maybe_byte_reverse_def; induction bs rule: byte_reverse.induct) (auto simp: maybe_byte_reverse_def)

lemma words_append: "length a mod 4 = 0 \<Longrightarrow> words_of le (a @ b) = words_of le a @ words_of le b"
  by (induction le a rule: words_of.induct) auto

lemma reverse_append: "length a mod 4 = 0 \<Longrightarrow> maybe_byte_reverse le (a @ b) = maybe_byte_reverse le a @ maybe_byte_reverse le b"
proof (cases le)
  case True
  assume "length a mod 4 = 0"
  then have "byte_reverse (a @ b) = byte_reverse a @ byte_reverse b"
    by (induction a rule: byte_reverse.induct) auto
  then show ?thesis by (simp add: maybe_byte_reverse_def True)
qed (simp add: maybe_byte_reverse_def)

lemma low_byte: "(ucast (w AND 0xff :: u32) :: byte) = ucast w"
proof -
  have "w AND 0xff = take_bit 8 w" by (simp add: take_bit_eq_mask mask_eq_exp_minus_1)
  then show ?thesis by (auto intro!: bit_word_eqI simp: bit_simps)
qed

lemma le_word_bytes: "words_of le (word_bytes le w) = [w]"
proof -
  have "le_word (ucast w) (ucast (drop_bit 8 w)) (ucast (drop_bit 16 w)) (ucast (drop_bit 24 w)) = w"
  proof (rule bit_word_eqI)
    fix n assume "n < LENGTH(32)"
    then consider "n < 8" | "8 \<le> n" "n < 16" | "16 \<le> n" "n < 24" | "24 \<le> n" "n < 32" by fastforce
    then show "bit (le_word (ucast w) (ucast (drop_bit 8 w)) (ucast (drop_bit 16 w)) (ucast (drop_bit 24 w))) n = bit w n"
      by cases (auto simp: le_word_def bit_simps)
  qed
  then show ?thesis by (simp add: word_bytes_def le_bytes_def low_byte)
qed

subsection \<open>Messages in pieces\<close>

text \<open>What a block does to the digest, whatever the byte order.\<close>

definition sha_block :: "u32 list \<Rightarrow> byte list \<Rightarrow> u32 list" where
  "sha_block dg block = sha_words_transform dg (words_of False block)"

definition sha_repr :: "sha1_ctx \<Rightarrow> byte list \<Rightarrow> bool" where
  "sha_repr c m \<longleftrightarrow>
     sha_digest c = absorb sha_block sha_iv m \<and> length (sha_data c) = 64 \<and>
     sha_local c = length m mod 64 \<and> take (length m mod 64) (sha_data c) = rest_of m \<and>
     sha_count_lo c = count_lo (length m) \<and> sha_count_hi c = count_hi (length m)"

lemma sha_transform_reversed:
  "length b = 64 \<Longrightarrow> sha_transform le (c\<lparr>sha_data := maybe_byte_reverse le b\<rparr>) =
     c\<lparr>sha_digest := sha_block (sha_digest c) b, sha_data := maybe_byte_reverse le b\<rparr>"
  by (simp add: sha_transform_def sha_block_def words_reverse)

lemma sha_loop_absorb:
  "length (sha_data c) = 64 \<Longrightarrow>
     \<exists>D. length D = 64 \<and> sha_loop le c b = (c\<lparr>sha_digest := absorb sha_block (sha_digest c) b, sha_data := D\<rparr>, rest_of b)"
proof (induction le c b rule: sha_loop.induct)
  case (1 le c b)
  show ?case
  proof (cases "64 \<le> length b")
    case True
    let ?b = "take 64 b"
    have m: "memcpy_at (sha_data c) 0 ?b = ?b" using True 1(2) by (simp add: memcpy_at_def)
    have len: "length ?b = 64" using True by simp
    let ?c = "c\<lparr>sha_digest := sha_block (sha_digest c) ?b, sha_data := maybe_byte_reverse le ?b\<rparr>"
    have t: "sha_transform le (c\<lparr>sha_data := maybe_byte_reverse le (memcpy_at (sha_data c) 0 ?b)\<rparr>) = ?c"
      unfolding m by (rule sha_transform_reversed [OF len])
    have "length (sha_data ?c) = 64" using len by simp
    from 1(1) [OF True, unfolded t, OF this] obtain D where D: "length D = 64"
      "sha_loop le ?c (drop 64 b) = (?c\<lparr>sha_digest := absorb sha_block (sha_digest ?c) (drop 64 b), sha_data := D\<rparr>, rest_of (drop 64 b))"
      by blast
    have "rest_of (?b @ drop 64 b) = rest_of (drop 64 b)" by (rule rest_append) (use len in simp)
    then show ?thesis using D True
      by (intro exI [of _ D]) (simp add: sha_loop.simps [of le c b] t absorb.simps [of _ _ b])
  next
    case False
    then show ?thesis using 1(2)
      by (intro exI [of _ "sha_data c"]) (simp add: sha_loop.simps [of le c b] absorb_short rest_short)
  qed
qed

lemma sha_repr_tail:
  assumes "length (sha_data c) = 64" "sha_digest c = absorb sha_block sha_iv a" "length a mod 64 = 0"
    "sha_count_lo c = count_lo (length (a @ b))" "sha_count_hi c = count_hi (length (a @ b))"
  shows "sha_repr (sha_tail le c b) (a @ b)"
proof -
  obtain D where D: "length D = 64"
    "sha_loop le c b = (c\<lparr>sha_digest := absorb sha_block (sha_digest c) b, sha_data := D\<rparr>, rest_of b)"
    using sha_loop_absorb [OF assms(1)] by blast
  have r: "rest_of (a @ b) = rest_of b" by (rule rest_append [OF assms(3)])
  have l: "length (a @ b) mod 64 = length b mod 64"
    using arg_cong [OF r, of length] by simp
  have "length (memcpy_at D 0 (rest_of b)) = 64" "take (0 + length (rest_of b)) (memcpy_at D 0 (rest_of b)) = rest_of b"
    using D(1) memcpy_simps(1) [where off = 0 and bs = "rest_of b" and buf = D]
      memcpy_simps(2) [where off = 0 and bs = "rest_of b" and buf = D] by (auto simp: less_imp_le)
  then show ?thesis
    using assms D r l absorb_append [OF assms(3), of sha_block sha_iv b] by (simp add: sha_tail_def sha_repr_def)
qed

lemma sha_update_order:
  "c\<lparr>sha_data := D, sha_local := i, sha_data := D'\<rparr> = c\<lparr>sha_local := i, sha_data := D'\<rparr>"
  "c\<lparr>sha_digest := g, sha_local := i\<rparr> = c\<lparr>sha_local := i, sha_digest := g\<rparr>"
  by simp_all

lemma sha_repr_update:
  assumes "sha_repr c m" "length d < 2 ^ 32"
  shows "sha_repr (apr_sha1_update le c d) (m @ d)"
proof -
  define k where "k = length m mod 64"
  have k: "k < 64" "length (rest_of m) = k" by (simp_all add: k_def)
  note r = assms(1) [unfolded sha_repr_def, folded k_def]
  have cnt: "sha_count_lo c + push_bit 3 (of_nat (length d)) = count_lo (length m + length d)"
    "(if count_lo (length m + length d) < sha_count_lo c then sha_count_hi c + 1 else sha_count_hi c)
       + drop_bit 29 (of_nat (length d)) = count_hi (length m + length d)"
  proof -
    have lo: "sha_count_lo c = count_lo (length m)" and hi: "sha_count_hi c = count_hi (length m)" using r by simp_all
    note cnt = count_add(1,3) [OF assms(2), of "length m"]
    show "sha_count_lo c + push_bit 3 (of_nat (length d)) = count_lo (length m + length d)"
      unfolding lo by (rule cnt(1))
    show "(if count_lo (length m + length d) < sha_count_lo c then sha_count_hi c + 1 else sha_count_hi c)
       + drop_bit 29 (of_nat (length d)) = count_hi (length m + length d)"
      unfolding lo hi using cnt(2) [unfolded cnt(1)] .
  qed
  define c' where "c' = c\<lparr>sha_count_lo := count_lo (length m + length d), sha_count_hi := count_hi (length m + length d)\<rparr>"
  have c': "sha_digest c' = absorb sha_block sha_iv m" "length (sha_data c') = 64" "sha_local c' = k"
    "take k (sha_data c') = rest_of m" "sha_count_lo c' = count_lo (length (m @ d))" "sha_count_hi c' = count_hi (length (m @ d))"
    using r by (simp_all add: c'_def)
  have base: "apr_sha1_update le c d =
      (if sha_local c' \<noteq> 0 then
         (let i = min (64 - sha_local c') (length d);
              c'' = c'\<lparr>sha_data := memcpy_at (sha_data c') (sha_local c') (take i d), sha_local := sha_local c' + i\<rparr>
          in if sha_local c'' = 64 then
               sha_tail le (sha_transform le (c''\<lparr>sha_data := maybe_byte_reverse le (sha_data c'')\<rparr>)) (drop i d)
             else c'')
       else sha_tail le c' d)"
    by (simp only: apr_sha1_update_def apr_sha1_update_binary_def Let_def cnt c'_def)
  show ?thesis
  proof (cases "k = 0")
    case True
    have "apr_sha1_update le c d = sha_tail le c' d"
      using c' True by (simp add: base)
    then show ?thesis using sha_repr_tail [of c' m d le] c' True by (simp add: k_def)
  next
    case k0: False
    define i where "i = min (64 - k) (length d)"
    define D where "D = memcpy_at (sha_data c') k (take i d)"
    have ti: "length (take i d) = i" by (simp add: i_def)
    have Dl: "length D = 64" using c'(2) k ti by (simp add: D_def memcpy_simps i_def)
    have Dt: "take (k + i) D = rest_of m @ take i d"
      using memcpy_simps(2) [of k "sha_data c'" "take i d"] c' k ti by (simp add: D_def)
    have upd: "apr_sha1_update le c d =
        (if k + i = 64 then
           sha_tail le (sha_transform le (c'\<lparr>sha_local := k + i, sha_data := maybe_byte_reverse le D\<rparr>)) (drop i d)
         else c'\<lparr>sha_data := D, sha_local := k + i\<rparr>)"
      using c' k0 by (simp add: base Let_def i_def [symmetric] D_def [symmetric] sha_update_order)
    show ?thesis
    proof (cases "k + i = 64")
      case True
      then have D: "D = rest_of m @ take i d" using Dt Dl by simp
      let ?a = "m @ take i d"
      have "rest_of ?a = []" using rest_join [of m "take i d"] rest_append [of D "[]"] Dl D by (simp add: rest_short)
      then have a: "length ?a mod 64 = 0" by (metis length_rest list.size(3))
      let ?c = "c'\<lparr>sha_local := k + i, sha_data := maybe_byte_reverse le D\<rparr>"
      have t: "sha_transform le ?c = c'\<lparr>sha_digest := sha_block (sha_digest c') D, sha_local := k + i, sha_data := maybe_byte_reverse le D\<rparr>"
        using sha_transform_reversed [OF Dl, of le "c'\<lparr>sha_local := k + i\<rparr>"] by simp
      have "sha_block (sha_digest c') D = absorb sha_block sha_iv ?a"
        using absorb_join [of sha_block sha_iv m "take i d"] absorb_block [OF Dl, of sha_block _ "[]"] c'(1)
        by (simp add: D [symmetric] absorb_short)
      then have "sha_repr (sha_tail le (sha_transform le ?c) (drop i d)) (?a @ drop i d)"
        using c' Dl a by (intro sha_repr_tail) (simp_all add: t)
      then show ?thesis by (simp add: upd True)
    next
      case False
      then have i: "i = length d" and lt: "length (rest_of m @ d) < 64" using k by (auto simp: i_def)
      have j: "(length m + length d) mod 64 = k + length d"
      proof -
        have "(length m + length d) mod 64 = (k + length d) mod 64" unfolding k_def by (simp add: mod_add_left_eq)
        then show ?thesis using lt k by simp
      qed
      have "absorb sha_block sha_iv (m @ d) = absorb sha_block sha_iv m"
        using absorb_join [of sha_block sha_iv m d] absorb_short [OF lt] by simp
      moreover have "rest_of (m @ d) = rest_of m @ d" using rest_join [of m d] rest_short [OF lt] by simp
      ultimately show ?thesis using False c' Dl Dt i j by (simp add: upd sha_repr_def)
    qed
  qed
qed

text \<open>The length field, most significant byte first.\<close>

definition be_length :: "nat \<Rightarrow> byte list" where
  "be_length n = rev (le_length n)"

lemma words_length_field: "words_of False (be_length (8 * n)) = [count_hi n, count_lo n]"
proof -
  have "be_length (8 * n) = word_bytes False (count_hi n) @ word_bytes False (count_lo n)"
    using Encode_counts [of n] by (simp add: be_length_def Encode_def word_bytes_def flip: rev_append)
  moreover have "length (word_bytes False (count_hi n)) mod 4 = 0" by (simp add: word_bytes_def le_bytes_def)
  ultimately show ?thesis by (simp add: words_append le_word_bytes)
qed

lemma be_length_length [simp]: "length (be_length n) = 8"
  by (simp add: be_length_def le_length_def)

text \<open>The last block: 56 bytes in memory, then the two words of the count.\<close>

definition sha_last :: "bool \<Rightarrow> sha1_ctx \<Rightarrow> sha1_ctx" where
  "sha_last le c =
     (let c = c\<lparr>sha_data := maybe_byte_reverse le (sha_data c)\<rparr>;
          c = c\<lparr>sha_data := memcpy_at (sha_data c) 56 (word_bytes le (sha_count_hi c))\<rparr>;
          c = c\<lparr>sha_data := memcpy_at (sha_data c) 60 (word_bytes le (sha_count_lo c))\<rparr>
      in sha_transform le c)"

lemma sha_last_digest:
  assumes "length (sha_data c) = 64" "take 56 (sha_data c) = b" "sha_count_lo c = count_lo n" "sha_count_hi c = count_hi n"
  shows "sha_digest (sha_last le c) = sha_block (sha_digest c) (b @ be_length (8 * n))"
proof -
  have b: "length b = 56" using assms(1,2) by auto
  define e where "e = drop 56 (sha_data c)"
  have e: "sha_data c = b @ e" "length e = 8"
    using append_take_drop_id [of 56 "sha_data c"] assms(1,2) by (simp_all add: e_def)
  have wb: "length (word_bytes le w) = 4" for w by (simp add: word_bytes_def le_bytes_def)
  have rb: "length (maybe_byte_reverse le b) mod 4 = 0" by (simp add: b)
  have "maybe_byte_reverse le (sha_data c) = maybe_byte_reverse le b @ maybe_byte_reverse le e"
    unfolding e(1) by (rule reverse_append) (simp add: b)
  then have d: "memcpy_at (memcpy_at (maybe_byte_reverse le (sha_data c)) 56 (word_bytes le (count_hi n))) 60 (word_bytes le (count_lo n)) =
      maybe_byte_reverse le b @ word_bytes le (count_hi n) @ word_bytes le (count_lo n)"
    by (simp add: memcpy_at_def b e(2) wb)
  have "words_of le (maybe_byte_reverse le b @ word_bytes le (count_hi n) @ word_bytes le (count_lo n)) =
      words_of False b @ [count_hi n, count_lo n]"
    using b by (simp add: words_append wb words_reverse le_word_bytes)
  also have "\<dots> = words_of False (b @ be_length (8 * n))"
    using b by (simp add: words_append words_length_field)
  finally show ?thesis
    by (simp add: sha_last_def Let_def sha_transform_def sha_block_def assms(3,4) d)
qed

definition sha_out :: "u32 list \<Rightarrow> byte list" where
  "sha_out dg = concat (map be_bytes dg)"

lemma sha_final_digest:
  assumes "sha_repr c m"
  shows "fst (apr_sha1_final le c) = reference_digest sha_block sha_iv be_length sha_out m"
proof -
  define k n where "k = length m mod 64" and "n = length m"
  have k: "k < 64" "length (rest_of m) = k" by (simp_all add: k_def)
  note r = assms [unfolded sha_repr_def, folded k_def n_def]
  have idx: "unat (drop_bit 3 (sha_count_lo c) AND 0x3F) = k"
    using r by (simp add: count_index k_def n_def)
  let ?c1 = "c\<lparr>sha_data := memcpy_at (sha_data c) k [0x80]\<rparr>"
  have d1: "take (k + 1) (sha_data ?c1) = rest_of m @ [0x80]" "length (sha_data ?c1) = 64"
    using r k memcpy_simps [where off = k and bs = "[0x80]" and buf = "sha_data c"] by simp_all
  have pad: "absorb sha_block sha_iv (md_pad be_length m) =
      absorb sha_block (sha_digest c) (rest_of m @ 0x80 # replicate ((119 - k) mod 64) 0 @ be_length (8 * n))"
    using absorb_join [of sha_block sha_iv m "0x80 # replicate ((119 - k) mod 64) 0 @ be_length (8 * n)"] r
    by (simp add: md_pad_def k_def n_def)
  show ?thesis
  proof (cases "56 < k + 1")
    case False
    then have "119 - k = 64 + (55 - k)" by simp
    then have "(119 - k) mod 64 = (55 - k) mod 64" by (metis mod_add_self1)
    then have z: "(119 - k) mod 64 = 56 - (k + 1)" using False by simp
    define b where "b = rest_of m @ 0x80 # replicate (56 - (k + 1)) 0"
    have b: "length b = 56" using False k by (simp add: b_def)
    let ?c2 = "?c1\<lparr>sha_data := memcpy_at (sha_data ?c1) (k + 1) (replicate (56 - (k + 1)) 0)\<rparr>"
    have d2: "length (sha_data ?c2) = 64" "take 56 (sha_data ?c2) = b"
      using d1 False memcpy_simps [where off = "k + 1" and bs = "replicate (56 - (k + 1)) 0" and buf = "sha_data ?c1"]
      by (simp_all add: b_def)
    have "sha_digest (sha_last le ?c2) = sha_block (sha_digest c) (b @ be_length (8 * n))"
      using sha_last_digest [OF d2, of n le] r by simp
    moreover have "fst (apr_sha1_final le c) = sha_out (sha_digest (sha_last le ?c2))"
      using False by (simp add: apr_sha1_final_def Let_def idx sha_last_def sha_out_def)
    moreover have e: "rest_of m @ 0x80 # replicate ((119 - k) mod 64) 0 @ be_length (8 * n) = b @ be_length (8 * n)"
      by (simp add: b_def z)
    ultimately show ?thesis unfolding reference_digest_def pad e
      using absorb_block [of "b @ be_length (8 * n)" sha_block _ "[]"] b by (simp add: absorb_short)
  next
    case True
    then have z: "(119 - k) mod 64 = (64 - (k + 1)) + 56" using k by simp
    define b where "b = rest_of m @ 0x80 # replicate (64 - (k + 1)) 0"
    have b: "length b = 64" using True k by (simp add: b_def)
    let ?c2 = "?c1\<lparr>sha_data := memcpy_at (sha_data ?c1) (k + 1) (replicate (64 - (k + 1)) 0)\<rparr>"
    have d2: "sha_data ?c2 = b"
      using d1 True k memcpy_simps [where off = "k + 1" and bs = "replicate (64 - (k + 1)) 0" and buf = "sha_data ?c1"]
      by (simp add: b_def)
    let ?c3 = "sha_transform le (?c2\<lparr>sha_data := maybe_byte_reverse le (sha_data ?c2)\<rparr>)"
    let ?c4 = "?c3\<lparr>sha_data := memcpy_at (sha_data ?c3) 0 (replicate 56 0)\<rparr>"
    have c3: "?c3 = c\<lparr>sha_digest := sha_block (sha_digest c) b, sha_data := maybe_byte_reverse le b\<rparr>"
      unfolding d2 using sha_transform_reversed [OF b, of le c] by simp
    have d4: "length (sha_data ?c4) = 64" "take 56 (sha_data ?c4) = replicate 56 0"
      unfolding c3 using memcpy_simps [where off = 0 and bs = "replicate 56 0" and buf = "maybe_byte_reverse le b"] b
      by simp_all
    have "sha_digest (sha_last le ?c4) = sha_block (sha_block (sha_digest c) b) (replicate 56 0 @ be_length (8 * n))"
      using sha_last_digest [OF d4, of n le] r unfolding c3 by simp
    moreover have "fst (apr_sha1_final le c) = sha_out (sha_digest (sha_last le ?c4))"
      using True by (simp add: apr_sha1_final_def Let_def idx sha_last_def sha_out_def)
    moreover have e: "rest_of m @ 0x80 # replicate ((119 - k) mod 64) 0 @ be_length (8 * n) =
        b @ (replicate 56 0 @ be_length (8 * n))"
      by (simp add: b_def z replicate_add)
    ultimately show ?thesis unfolding reference_digest_def pad e
      using absorb_block [OF b, of sha_block _ "replicate 56 0 @ be_length (8 * n)"]
        absorb_block [of "replicate 56 0 @ be_length (8 * n)" sha_block _ "[]"]
      by (simp add: absorb_short)
  qed
qed

definition sha_start :: "byte list \<Rightarrow> sha1_ctx" where
  "sha_start junk = apr_sha1_init
     \<lparr>sha_digest = [], sha_count_lo = 0, sha_count_hi = 0, sha_data = junk, sha_local = 0\<rparr>"

interpretation sha1: block_hash sha_repr "sha_start (replicate 64 0)" "apr_sha1_update le"
  "\<lambda>c. fst (apr_sha1_final le c)" "\<lambda>d. d" "reference_digest sha_block sha_iv be_length sha_out" "2 ^ 32" for le
  by unfold_locales
    (auto simp: sha_repr_update sha_final_digest,
     simp add: sha_repr_def sha_start_def apr_sha1_init_def absorb_short rest_short count_lo_def count_hi_def)

subsection \<open>Properties\<close>

text \<open>
  C8: However a message is cut into pieces, \<open>init\<close>, one \<open>update\<close> per piece and \<open>final\<close>
  give the reference digest of the whole message: padding, bit count modulo \<open>2 ^ 64\<close>, all full
  blocks absorbed in order. SHA-1 does for pieces shorter than \<open>2 ^ 32\<close> bytes, on machines
  of both byte orders; MD5 and MD4 do for pieces shorter than \<open>2 ^ 32 - 63\<close> bytes, where every
  update returns and reads only its input, and the message is what the translation makes of it.
\<close>

theorem digests_piecewise:
  assumes "\<forall>d \<in> set ds. length d < 2 ^ 32" "length junk = 64"
  shows "((\<forall>d \<in> set ds. length d < 2 ^ 32 - 63) \<longrightarrow>
      \<not> md_lost (fold (\<lambda>d c. apr_md5_update c d) ds (md_start x junk)) \<and>
      \<not> md_lost (fold (\<lambda>d c. apr_md4_update c d) ds (md_start x junk)) \<and>
      fst (apr_md5_final (fold (\<lambda>d c. apr_md5_update c d) ds (md_start x junk))) =
        reference_digest MD5Transform md_iv le_length Encode (concat (map (md_conv x True) ds)) \<and>
      fst (apr_md4_final (fold (\<lambda>d c. apr_md4_update c d) ds (md_start x junk))) =
        reference_digest MD4Transform md_iv le_length Encode (concat (map (md_conv x True) ds))) \<and>
    fst (apr_sha1_final le (fold (\<lambda>d c. apr_sha1_update le c d) ds (sha_start junk))) =
      reference_digest sha_block sha_iv be_length sha_out (concat ds)"
proof -
  have s: "sha_repr (sha_start junk) []"
    using assms(2) by (simp add: sha_repr_def sha_start_def apr_sha1_init_def absorb_short rest_short count_lo_def count_hi_def)
  have "\<not> md_lost (fold (\<lambda>d c. apr_md5_update c d) ds (md_start x junk)) \<and>
      \<not> md_lost (fold (\<lambda>d c. apr_md4_update c d) ds (md_start x junk)) \<and>
      fst (apr_md5_final (fold (\<lambda>d c. apr_md5_update c d) ds (md_start x junk))) =
        reference_digest MD5Transform md_iv le_length Encode (concat (map (md_conv x True) ds)) \<and>
      fst (apr_md4_final (fold (\<lambda>d c. apr_md4_update c d) ds (md_start x junk))) =
        reference_digest MD4Transform md_iv le_length Encode (concat (map (md_conv x True) ds))"
    if l: "\<forall>d \<in> set ds. length d < 2 ^ 32 - 63"
  proof -
    note r5 = md5.repr_stream [OF md_repr_start [OF assms(2)] l, of x]
      and r4 = md4.repr_stream [OF md_repr_start [OF assms(2)] l, of x]
    show ?thesis
      using md5.final_digest [OF r5] md4.final_digest [OF r4] r5 r4 by (simp add: md_repr_def)
  qed
  then show ?thesis using sha1.final_digest [OF sha1.repr_stream [OF s assms(1)]] by simp
qed

lemma digests_piecewise_witness:
  "fst (apr_md5_final (fold (\<lambda>d c. apr_md5_update c d) [str ''a'', str ''bc''] (md_start None (replicate 64 1)))) =
     [0x90, 0x01, 0x50, 0x98, 0x3c, 0xd2, 0x4f, 0xb0, 0xd6, 0x96, 0x3f, 0x7d, 0x28, 0xe1, 0x7f, 0x72]"
  using digests_piecewise [of "[str ''a'', str ''bc'']" "replicate 64 1" None] md5_abc
    md5.stream [of "[str ''abc'']" None]
  by (simp add: apr_md5_def md_start_def md_conv_def apr_md5_init_def stack_ctx_def)

end
