(* ===== verification/Apu_Passwd.thy ===== *)
theory Apu_Passwd
  imports Apu_Sha1 Apu_Base64
begin

text \<open>
  Password hashes (\<open>apr_md5_encode\<close> of \<open>src/log4cxx/apr-util-1.5.4/crypto/apr_md5.c\<close>,
  \<open>apr_sha1_base64\<close> of \<open>apr_sha1.c\<close> and \<open>apr_passwd.c\<close>) on ASCII platforms. Bcrypt
  (\<open>crypt_blowfish.c\<close>) and the system's \<open>crypt\<close> are arguments. \<open>junk n\<close> is what the stack
  of a call holds where its \<open>n\<close>-th context is; calls have stacks of their own. Passwords are
  shorter than \<open>2 ^ 31\<close> characters, because \<open>apr_sha1_base64\<close> takes their length as an \<open>int\<close>.
\<close>

type_synonym stack = "nat \<Rightarrow> byte list"

subsection \<open>The Apache MD5 algorithm\<close>

definition apr1_id :: cstring where
  "apr1_id = str ''$apr1$''"

definition itoa64 :: "byte list" where
  "itoa64 = str ''./0123456789ABCDEFGHIJKLMNOPQRSTUVWXYZabcdefghijklmnopqrstuvwxyz''"

fun to64 :: "u64 \<Rightarrow> nat \<Rightarrow> cstring" where
  "to64 v 0 = []"
| "to64 v (Suc n) = itoa64 ! unat (v AND 0x3f) # to64 (drop_bit 6 v) n"

text \<open>\<open>strncmp\<close> of the first characters with a string of that length.\<close>

definition starts_with :: "cstring \<Rightarrow> cstring \<Rightarrow> bool" where
  "starts_with s p = (take (length p) s = p)"

text \<open>The salt between \<open>sp\<close> and \<open>ep\<close>: after the magic string, up to a dollar sign, eight characters at most.\<close>

definition apr1_salt :: "cstring \<Rightarrow> cstring" where
  "apr1_salt salt =
     takeWhile (\<lambda>c. c \<noteq> 0x24) (take 8 (if starts_with salt apr1_id then drop (length apr1_id) salt else salt))"

text \<open>\<open>for (pl = strlen(pw); pl > 0; pl -= 16)\<close> and \<open>for (i = strlen(pw); i != 0; i >>= 1)\<close>\<close>

function mix_final :: "byte list \<Rightarrow> nat \<Rightarrow> md_ctx \<Rightarrow> md_ctx" where
  "mix_final final pl ctx =
     (if 0 < pl then mix_final final (pl - 16) (md5_update_buffer False ctx (take (if 16 < pl then 16 else pl) final))
      else ctx)"
  by pat_completeness auto
termination by (relation "measure (\<lambda>(final, pl, ctx). pl)") auto

function mix_bits :: "byte list \<Rightarrow> cstring \<Rightarrow> nat \<Rightarrow> md_ctx \<Rightarrow> md_ctx" where
  "mix_bits final pw i ctx =
     (if i \<noteq> 0 then
        mix_bits final pw (drop_bit 1 i)
          (if odd i then md5_update_buffer False ctx (take 1 final) else apr_md5_update ctx (take 1 pw))
      else ctx)"
  by pat_completeness auto
termination
  by (relation "measure (\<lambda>(final, pw, i, ctx). i)") (auto simp: drop_bit_eq_div)

declare mix_final.simps [simp del] mix_bits.simps [simp del]

text \<open>One of the 1000 rounds: the digest and the context, which \<open>final\<close> has cleared.\<close>

definition md5_round :: "cstring \<Rightarrow> cstring \<Rightarrow> nat \<Rightarrow> byte list \<times> md_ctx \<Rightarrow> byte list \<times> md_ctx" where
  "md5_round pw sp i st =
     (case st of (final, ctx1) \<Rightarrow>
        (let ctx1 = apr_md5_init ctx1;
             ctx1 = (if odd i then apr_md5_update ctx1 pw else md5_update_buffer False ctx1 final);
             ctx1 = (if i mod 3 \<noteq> 0 then apr_md5_update ctx1 sp else ctx1);
             ctx1 = (if i mod 7 \<noteq> 0 then apr_md5_update ctx1 pw else ctx1);
             ctx1 = (if odd i then md5_update_buffer False ctx1 final else apr_md5_update ctx1 pw)
         in apr_md5_final ctx1))"

definition md5_crypt :: "stack \<Rightarrow> cstring \<Rightarrow> cstring \<Rightarrow> byte list" where
  "md5_crypt junk pw sp =
     (let ctx = apr_md5_init (stack_ctx (junk 0));
          ctx = apr_md5_update ctx pw;
          ctx = apr_md5_update ctx apr1_id;
          ctx = apr_md5_update ctx sp;
          ctx1 = apr_md5_init (stack_ctx (junk 1));
          ctx1 = apr_md5_update ctx1 pw;
          ctx1 = apr_md5_update ctx1 sp;
          ctx1 = apr_md5_update ctx1 pw
      in case apr_md5_final ctx1 of (final, ctx1) \<Rightarrow>
           (let ctx = mix_final final (length pw) ctx;
                final = replicate 16 0;
                ctx = mix_bits final pw (length pw) ctx
            in case apr_md5_final ctx of (final, ctx) \<Rightarrow>
                 fst (fold (md5_round pw sp) [0..<1000] (final, ctx1))))"

definition md5_group :: "byte list \<Rightarrow> nat \<Rightarrow> nat \<Rightarrow> nat \<Rightarrow> cstring" where
  "md5_group final a b c =
     to64 (push_bit 16 (ucast (final ! a)) OR push_bit 8 (ucast (final ! b)) OR ucast (final ! c)) 4"

text \<open>\<open>apr_cpystrn\<close> copies one character less than the size of the buffer at most.\<close>

definition cpystrn_result :: "nat \<Rightarrow> cstring \<Rightarrow> cstring" where
  "cpystrn_result dst_size src = take (dst_size - 1) src"

definition apr_md5_encode :: "stack \<Rightarrow> cstring \<Rightarrow> cstring \<Rightarrow> nat \<Rightarrow> cstring" where
  "apr_md5_encode junk pw salt nbytes =
     (let sp = apr1_salt salt;
          final = md5_crypt junk pw sp;
          passwd = apr1_id @ sp @ str ''$'' @ md5_group final 0 6 12 @ md5_group final 1 7 13 @
            md5_group final 2 8 14 @ md5_group final 3 9 15 @ md5_group final 4 10 5 @ to64 (ucast (final ! 11)) 2
      in cpystrn_result (nbytes - 1) passwd)"

subsection \<open>SHA-1 passwords and validation\<close>

definition APR_SHA1PW_ID :: cstring where "APR_SHA1PW_ID = str ''{SHA}''"

text \<open>The string in \<open>out\<close>: \<open>l\<close> counts the NUL that the encoder writes.\<close>

definition apr_sha1_base64 :: "bool \<Rightarrow> stack \<Rightarrow> cstring \<Rightarrow> cstring" where
  "apr_sha1_base64 le junk clear =
     (let digest = fst (apr_sha1_final le (apr_sha1_update le (sha_start (junk 0)) clear))
      in APR_SHA1PW_ID @ butlast (fst (apr_base64_encode_binary digest)))"

text \<open>
  \<open>bcrypt\<close> returns the sample or the errno, \<open>crypt\<close> the hash or NULL; without a \<open>crypt\<close>
  (\<open>CRYPT_MISSING\<close>) the hash is the password itself.
\<close>

definition apr_password_validate ::
  "(cstring \<Rightarrow> cstring \<Rightarrow> nat + cstring) \<Rightarrow> (cstring \<Rightarrow> cstring \<Rightarrow> cstring option) option \<Rightarrow> bool \<Rightarrow> stack \<Rightarrow>
     cstring \<Rightarrow> cstring \<Rightarrow> apr_status" where
  "apr_password_validate bcrypt crypt le junk passwd hash =
     (let verdict = (\<lambda>sample. if sample = hash then APR_SUCCESS else APR_EMISMATCH)
      in if str_at hash 0 = 0x24 \<and> str_at hash 1 = 0x32 \<and> (str_at hash 2 = 0x61 \<or> str_at hash 2 = 0x79) \<and>
            str_at hash 3 = 0x24 then
           (case bcrypt passwd hash of Inl e \<Rightarrow> APR_OTHER e | Inr sample \<Rightarrow> verdict sample)
         else if starts_with hash apr1_id then verdict (apr_md5_encode junk passwd hash 200)
         else if starts_with hash APR_SHA1PW_ID then verdict (apr_sha1_base64 le junk passwd)
         else (case crypt of
                 None \<Rightarrow> if passwd = hash then APR_SUCCESS else APR_EMISMATCH
               | Some f \<Rightarrow> (case f passwd hash of None \<Rightarrow> APR_EMISMATCH | Some crypt_pw \<Rightarrow> verdict crypt_pw)))"

subsection \<open>The salt of a hash\<close>

lemma length_to64 [simp]: "length (to64 v n) = n"
  by (induction v n rule: to64.induct) simp_all

lemma apr1_salt_props: "length (apr1_salt salt) \<le> 8" "0x24 \<notin> set (apr1_salt salt)"
proof -
  show "length (apr1_salt salt) \<le> 8"
    unfolding apr1_salt_def by (rule order_trans [OF length_takeWhile_le]) simp
  show "0x24 \<notin> set (apr1_salt salt)" unfolding apr1_salt_def by (auto dest: set_takeWhileD)
qed

lemma apr1_salt_again:
  assumes "length sp \<le> 8" "0x24 \<notin> set sp"
  shows "apr1_salt (apr1_id @ sp @ str ''$'' @ r) = sp"
proof -
  have w: "takeWhile (\<lambda>c. c \<noteq> 0x24) (take n (sp @ 0x24 # r)) = sp" if le: "length sp \<le> n" for n
  proof (cases "length sp = n")
    case True
    then show ?thesis using assms(2) by (auto simp: takeWhile_eq_all_conv)
  next
    case False
    then obtain k where "n - length sp = Suc k" using le False by (cases "n - length sp") auto
    then have "take n (sp @ 0x24 # r) = sp @ 0x24 # take k r" using le by simp
    moreover have "takeWhile (\<lambda>c. c \<noteq> 0x24) (sp @ 0x24 # take k r) = sp @ takeWhile (\<lambda>c. c \<noteq> 0x24) (0x24 # take k r)"
      using assms(2) by (intro takeWhile_append2) auto
    ultimately show ?thesis by simp
  qed
  have "starts_with (apr1_id @ sp @ str ''$'' @ r) apr1_id" by (simp add: starts_with_def)
  moreover have "drop (length apr1_id) (apr1_id @ sp @ str ''$'' @ r) = sp @ 0x24 # r" by simp
  ultimately show ?thesis unfolding apr1_salt_def using w [OF assms(1)] by simp
qed

subsection \<open>What the stack held does not matter\<close>

text \<open>Two contexts that have taken the same message.\<close>

definition md_alike :: "md_ctx \<Rightarrow> md_ctx \<Rightarrow> bool" where
  "md_alike c c' \<longleftrightarrow> (\<exists>m. md_repr MD5Transform None c m \<and> md_repr MD5Transform None c' m)"

lemma md_alike_start:
  "length j = 64 \<Longrightarrow> length j' = 64 \<Longrightarrow> md_alike (apr_md5_init (stack_ctx j)) (apr_md5_init (stack_ctx j'))"
  using md_repr_start [of j MD5Transform None] md_repr_start [of j' MD5Transform None]
  unfolding md_alike_def md_start_def apr_md5_init_def stack_ctx_def by auto

lemma md_alike_buffer:
  assumes "md_alike c c'" and "length d < 2 ^ 32 - 63"
  shows "md_alike (md5_update_buffer b c d) (md5_update_buffer b c' d)"
  using assms md_repr_update unfolding md_alike_def md5_update_buffer_def by blast

lemma md_alike_update:
  "md_alike c c' \<Longrightarrow> length d < 2 ^ 32 - 63 \<Longrightarrow> md_alike (apr_md5_update c d) (apr_md5_update c' d)"
  unfolding apr_md5_update_def by (rule md_alike_buffer)

lemma md_alike_final:
  assumes "md_alike c c'"
  shows "apr_md5_final c = apr_md5_final c'"
proof -
  have "fst (apr_md5_final c) = fst (apr_md5_final c')"
    using assms unfolding md_alike_def apr_md5_final_def by (auto simp: md_final_digest)
  moreover have "snd (apr_md5_final c) = snd (apr_md5_final c')"
    by (simp add: apr_md5_final_def md_final_def Let_def)
  ultimately show ?thesis by (rule prod_eqI)
qed

lemma md_alike_mix_final: "md_alike c c' \<Longrightarrow> md_alike (mix_final final pl c) (mix_final final pl c')"
proof (induction final pl c arbitrary: c' rule: mix_final.induct)
  case (1 final pl c)
  have "length (take (if 16 < pl then 16 else pl) final) \<le> 16" by (auto simp: min_def)
  then have "length (take (if 16 < pl then 16 else pl) final) < 2 ^ 32 - 63" by (rule le_less_trans) simp
  note a = md_alike_buffer [OF 1(2) this, of False]
  show ?case
  proof (cases "0 < pl")
    case True
    then show ?thesis
      using 1(1) [OF True a] by (simp add: mix_final.simps [of final pl c] mix_final.simps [of final pl c'])
  next
    case False
    then show ?thesis
      using 1(2) by (simp add: mix_final.simps [of final 0])
  qed
qed

lemma md_alike_mix_bits: "md_alike c c' \<Longrightarrow> md_alike (mix_bits final pw i c) (mix_bits final pw i c')"
proof (induction final pw i c arbitrary: c' rule: mix_bits.induct)
  case (1 final pw i c)
  have "length (take 1 bs) < 2 ^ 32 - 63" for bs :: "byte list"
    by (rule le_less_trans [of _ 1]) simp_all
  note a = md_alike_buffer [OF 1(2) this, of False final] md_alike_update [OF 1(2) this, of pw]
  show ?case
  proof (cases "i = 0")
    case False
    have "md_alike (if odd i then md5_update_buffer False c (take 1 final) else apr_md5_update c (take 1 pw))
        (if odd i then md5_update_buffer False c' (take 1 final) else apr_md5_update c' (take 1 pw))"
      using a by simp
    from 1(1) [OF False this] False show ?thesis
      by (simp only: mix_bits.simps [of final pw i c] mix_bits.simps [of final pw i c'] if_True not_False_eq_True simp_thms)
  next
    case True
    then show ?thesis
      using 1(2) by (simp add: mix_bits.simps [of final pw 0])
  qed
qed

definition stack_ok :: "stack \<Rightarrow> bool" where
  "stack_ok junk \<longleftrightarrow> (\<forall>n. length (junk n) = 64)"

lemma md5_crypt_stack:
  assumes "stack_ok j" "stack_ok j'" and "length pw < 2 ^ 31" "length sp \<le> 8"
  shows "md5_crypt j pw sp = md5_crypt j' pw sp"
proof -
  have l: "length pw < 2 ^ 32 - 63" "length sp < 2 ^ 32 - 63" "length apr1_id < 2 ^ 32 - 63"
    using assms(3,4) by (simp_all add: apr1_id_def)
  have s: "md_alike (apr_md5_init (stack_ctx (j n))) (apr_md5_init (stack_ctx (j' n)))" for n
    using assms(1,2) by (intro md_alike_start) (simp_all add: stack_ok_def)
  define c1 where "c1 = (\<lambda>j :: stack. apr_md5_update (apr_md5_update (apr_md5_update (apr_md5_init (stack_ctx (j 1))) pw) sp) pw)"
  define c0 where "c0 = (\<lambda>j :: stack. apr_md5_update (apr_md5_update (apr_md5_update (apr_md5_init (stack_ctx (j 0))) pw) apr1_id) sp)"
  have c1: "apr_md5_final (c1 j) = apr_md5_final (c1 j')"
    unfolding c1_def by (intro md_alike_final md_alike_update s l)
  obtain final c where f: "apr_md5_final (c1 j') = (final, c)" by (rule prod.exhaust)
  have "apr_md5_final (mix_bits (replicate 16 0) pw (length pw) (mix_final final (length pw) (c0 j))) =
      apr_md5_final (mix_bits (replicate 16 0) pw (length pw) (mix_final final (length pw) (c0 j')))"
    unfolding c0_def by (intro md_alike_final md_alike_mix_bits md_alike_mix_final md_alike_update s l)
  moreover have "md5_crypt k pw sp = (case apr_md5_final (c1 k) of (final, ctx1) \<Rightarrow>
      (case apr_md5_final (mix_bits (replicate 16 0) pw (length pw) (mix_final final (length pw) (c0 k))) of
         (final, ctx) \<Rightarrow> fst (fold (md5_round pw sp) [0..<1000] (final, ctx1))))" for k
    by (simp only: md5_crypt_def Let_def c1_def c0_def)
  ultimately show ?thesis by (simp only: c1 f prod.case)
qed

lemma apr_md5_encode_stack:
  "stack_ok j \<Longrightarrow> stack_ok j' \<Longrightarrow> length pw < 2 ^ 31 \<Longrightarrow>
     apr_md5_encode j pw salt n = apr_md5_encode j' pw salt n"
  unfolding apr_md5_encode_def Let_def by (simp add: md5_crypt_stack [of j j' pw] apr1_salt_props)

lemma apr_sha1_base64_stack:
  assumes "stack_ok j" "stack_ok j'" "length pw < 2 ^ 31"
  shows "apr_sha1_base64 le j pw = apr_sha1_base64 le j' pw"
proof -
  have "fst (apr_sha1_final le (apr_sha1_update le (sha_start (k 0)) pw)) =
      reference_digest sha_block sha_iv be_length sha_out pw" if "stack_ok k" for k
  proof -
    have s: "sha_repr (sha_start (k 0)) []"
      using that by (simp add: stack_ok_def sha_repr_def sha_start_def apr_sha1_init_def absorb_short
          rest_short count_lo_def count_hi_def)
    show ?thesis
      using sha1.final_digest [OF sha1.repr_stream [OF s, of "[pw]"]] assms(3) by simp
  qed
  then show ?thesis using assms(1,2) by (simp add: apr_sha1_base64_def)
qed

subsection \<open>Properties\<close>

text \<open>
  C24: A hash made by \<open>apr_md5_encode\<close>, with any salt and a buffer of at least 39
  characters, or by \<open>apr_sha1_base64\<close>, is accepted by \<open>apr_password_validate\<close> for the password it was made
  from; and it is accepted for another password exactly if that one has the same hash (under the
  salt, for MD5). Passwords are shorter than \<open>2 ^ 31\<close> characters. The hash does not depend on
  what the stack held where the contexts are: the calls that make it and the one that validates it have
  stacks of their own. The MD5 hash is 29 characters longer than its salt (magic string,
  dollar sign and 22 characters of digest), which has at most 8.
\<close>

theorem password_roundtrip:
  assumes "39 \<le> nbytes" and "length pw < 2 ^ 31" "length pw' < 2 ^ 31"
    and "stack_ok j" "stack_ok j'" "stack_ok junk"
  shows "apr_password_validate bcrypt crypt le junk pw (apr_md5_encode j pw salt nbytes) = APR_SUCCESS \<and>
    apr_password_validate bcrypt crypt le junk pw (apr_sha1_base64 le j pw) = APR_SUCCESS \<and>
    (apr_password_validate bcrypt crypt le junk pw' (apr_md5_encode j pw salt nbytes) = APR_SUCCESS \<longleftrightarrow>
       apr_md5_encode j' pw' salt nbytes = apr_md5_encode j pw salt nbytes) \<and>
    (apr_password_validate bcrypt crypt le junk pw' (apr_sha1_base64 le j pw) = APR_SUCCESS \<longleftrightarrow>
       apr_sha1_base64 le j' pw' = apr_sha1_base64 le j pw) \<and>
    length (apr_md5_encode j pw salt nbytes) = length (apr1_salt salt) + 29 \<and> length (apr1_salt salt) \<le> 8"
proof -
  define sp where "sp = apr1_salt salt"
  define dg where "dg = (\<lambda>pw. let final = md5_crypt junk pw sp in md5_group final 0 6 12 @ md5_group final 1 7 13 @
      md5_group final 2 8 14 @ md5_group final 3 9 15 @ md5_group final 4 10 5 @ to64 (ucast (final ! 11)) 2)"
  have sp: "length sp \<le> 8" "0x24 \<notin> set sp" by (simp_all add: sp_def apr1_salt_props)
  have dl: "length (dg pw) = 22" for pw by (simp add: dg_def md5_group_def Let_def)
  have il: "length apr1_id = 6" by (simp add: apr1_id_def)
  have enc: "apr_md5_encode junk pw salt nbytes = apr1_id @ sp @ str ''$'' @ dg pw" for pw
    using assms(1) sp(1) dl [of pw] il
    by (simp add: apr_md5_encode_def Let_def sp_def [symmetric] dg_def cpystrn_result_def)
  have e: "apr_md5_encode j pw salt nbytes = apr1_id @ sp @ str ''$'' @ dg pw"
      "apr_md5_encode j' pw' salt nbytes = apr1_id @ sp @ str ''$'' @ dg pw'"
    using enc apr_md5_encode_stack [of j junk pw salt nbytes] apr_md5_encode_stack [of j' junk pw' salt nbytes] assms
    by simp_all
  let ?h = "apr1_id @ sp @ str ''$'' @ dg pw"
  have enc2: "apr_md5_encode junk pw' ?h 200 = apr1_id @ sp @ str ''$'' @ dg pw'" for pw'
    using sp dl [of pw'] il apr1_salt_again [OF sp, of "dg pw"]
    by (simp add: apr_md5_encode_def Let_def dg_def cpystrn_result_def)
  have h: "str_at ?h 0 = 0x24" "str_at ?h 1 = 0x61" "starts_with ?h apr1_id"
    by (simp_all add: apr1_id_def starts_with_def)
  have v: "apr_password_validate bcrypt crypt le junk pw' ?h =
      (if dg pw' = dg pw then APR_SUCCESS else APR_EMISMATCH)" for pw'
    unfolding apr_password_validate_def Let_def h(1,2) enc2 using h(3) by simp
  have s: "\<not> (str_at (apr_sha1_base64 le k q) 0 = 0x24)" "\<not> starts_with (apr_sha1_base64 le k q) apr1_id"
    "starts_with (apr_sha1_base64 le k q) APR_SHA1PW_ID" for k q
    by (simp_all add: apr_sha1_base64_def Let_def APR_SHA1PW_ID_def starts_with_def apr1_id_def)
  have vs: "apr_password_validate bcrypt crypt le junk q (apr_sha1_base64 le j pw) =
      (if apr_sha1_base64 le junk q = apr_sha1_base64 le j pw then APR_SUCCESS else APR_EMISMATCH)" for q
    using s by (simp add: apr_password_validate_def)
  have "apr_sha1_base64 le junk pw = apr_sha1_base64 le j pw" "apr_sha1_base64 le junk pw' = apr_sha1_base64 le j' pw'"
    using assms by (auto intro!: apr_sha1_base64_stack)
  then show ?thesis
    using v vs dl [of pw] il sp_def sp(1) by (simp add: e)
qed

lemma password_roundtrip_witness:
  "apr_password_validate (\<lambda>_ _. Inl 0) None True (\<lambda>n. replicate 64 1) (str ''x'')
     (apr_md5_encode (\<lambda>n. replicate 64 0) (str ''x'') (str ''abcdefghij'') 120) = APR_SUCCESS"
  using password_roundtrip [of 120 "str ''x''" "str ''y''" "\<lambda>n. replicate 64 0" "\<lambda>n. replicate 64 0" "\<lambda>n. replicate 64 1"]
  by (simp add: stack_ok_def)

end
