(* ===== verification/Apr_Fnmatch.thy ===== *)
theory Apr_Fnmatch
  imports C_String
begin

text \<open>
  Matching of file name patterns (\<open>src/log4cxx/apr-1.5.2/strings/apr_fnmatch.c\<close>). A pointer
  into a string is the rest of the string from there. \<open>strendseg\<close>, the end of the segment of
  the string up to the next slash, is fixed while a segment is matched: the string is the pair of
  what is left of the segment and what follows it. A \<open>char\<close> is signed.
\<close>

unbundle bit_operations_syntax

subsection \<open>Flags\<close>

definition APR_FNM_NOESCAPE :: u32 where "APR_FNM_NOESCAPE = 0x01"
definition APR_FNM_PATHNAME :: u32 where "APR_FNM_PATHNAME = 0x02"
definition APR_FNM_PERIOD :: u32 where "APR_FNM_PERIOD = 0x04"
definition APR_FNM_CASE_BLIND :: u32 where "APR_FNM_CASE_BLIND = 0x08"
definition APR_FNM_NOMATCH :: int where "APR_FNM_NOMATCH = 1"

definition fnm_nocase :: "u32 \<Rightarrow> bool" where "fnm_nocase flags = (flags AND APR_FNM_CASE_BLIND \<noteq> 0)"
definition fnm_escape :: "u32 \<Rightarrow> bool" where "fnm_escape flags = (flags AND APR_FNM_NOESCAPE = 0)"
definition fnm_slash :: "u32 \<Rightarrow> bool" where "fnm_slash flags = (flags AND APR_FNM_PATHNAME \<noteq> 0)"
definition fnm_period :: "u32 \<Rightarrow> bool" where "fnm_period flags = (flags AND APR_FNM_PERIOD \<noteq> 0)"

subsection \<open>One character\<close>

text \<open>The comparisons of a character with a pattern character and with a range.\<close>

definition same_char :: "u32 \<Rightarrow> byte \<Rightarrow> byte \<Rightarrow> bool" where
  "same_char flags c p \<longleftrightarrow>
     c = p \<or> fnm_nocase flags \<and> (isupper c \<or> isupper p) \<and> apr_tolower c = apr_tolower p"

definition in_range :: "u32 \<Rightarrow> byte \<Rightarrow> byte \<Rightarrow> byte \<Rightarrow> bool" where
  "in_range flags c lo hi \<longleftrightarrow>
     sint lo \<le> sint c \<and> sint c \<le> sint hi \<or>
     fnm_nocase flags \<and> (isupper c \<or> isupper lo \<or> isupper hi) \<and>
       sint (apr_tolower lo) \<le> sint (apr_tolower c) \<and> sint (apr_tolower c) \<le> sint (apr_tolower hi)"

text \<open>
  The loop over a bracket expression, from the character after the bracket and the negation:
  \<open>lead\<close> is a closing bracket that stands first; \<open>result\<close> is True when the character has
  been found. The rest of the pattern after the closing bracket, or None when there is none.
\<close>

function bracket :: "u32 \<Rightarrow> byte \<Rightarrow> bool \<Rightarrow> cstring \<Rightarrow> bool \<Rightarrow> (cstring \<times> bool) option" where
  "bracket flags c lead p result =
     (if p = [] then None
      else if \<not> lead \<and> str_at p 0 = 0x5d then Some (drop 1 p, result)
      else
        (let p = (if \<not> lead \<and> fnm_escape flags \<and> str_at p 0 = 0x5c then drop 1 p else p)
         in if p = [] then None
            else if \<not> lead \<and> fnm_slash flags \<and> str_at p 0 = 0x2f then None
            else if str_at p 1 = 0x2d \<and> str_at p 2 \<noteq> 0x5d then
              (let q = drop (if fnm_escape flags \<and> str_at p 2 = 0x5c then 3 else 2) p
               in if q = [] \<or> fnm_slash flags \<and> str_at q 0 = 0x2f then None
                  else bracket flags c False (drop 1 q) (result \<or> in_range flags c (str_at p 0) (str_at q 0)))
            else bracket flags c False (drop 1 p) (result \<or> same_char flags c (str_at p 0))))"
  by pat_completeness auto
termination
  by (relation "measure (\<lambda>(flags, c, lead, p, result). length p)") (auto simp: Let_def)

declare bracket.simps [simp del]

text \<open>
  \<open>fnmatch_ch\<close>: the result, which is 0 or \<open>APR_FNM_NOMATCH\<close> (True for 0), the pattern and
  the string after it.
\<close>

definition fnmatch_literal :: "u32 \<Rightarrow> cstring \<Rightarrow> cstring \<Rightarrow> bool \<times> cstring \<times> cstring" where
  "fnmatch_literal flags p s =
     (let result = same_char flags (str_at s 0) (str_at p 0)
      in if s = [] \<or> p = [] \<or> fnm_slash flags \<and> (str_at s 0 = 0x2f \<or> str_at p 0 = 0x2f) then (result, p, s)
         else (result, drop 1 p, drop 1 s))"

definition fnmatch_ch :: "u32 \<Rightarrow> cstring \<Rightarrow> cstring \<Rightarrow> bool \<times> cstring \<times> cstring" where
  "fnmatch_ch flags p s =
     (if str_at p 0 = 0x5b then
        (let negate = (str_at p 1 = 0x21 \<or> str_at p 1 = 0x5e);
             q = drop (if negate then 2 else 1) p
         in case bracket flags (str_at s 0) (str_at q 0 = 0x5d) q False of
              Some (p', found) \<Rightarrow> (found \<noteq> negate, p', drop 1 s)
            | None \<Rightarrow> fnmatch_literal flags p s)
      else if str_at p 0 = 0x3f then
        (if s = [] \<or> fnm_slash flags \<and> str_at s 0 = 0x2f then (False, p, s) else (True, drop 1 p, drop 1 s))
      else if fnm_escape flags \<and> str_at p 0 = 0x5c \<and> str_at p 1 \<noteq> 0 then fnmatch_literal flags (drop 1 p) s
      else fnmatch_literal flags p s)"

subsection \<open>Segments\<close>

text \<open>The pattern is at a slash, escaped or not, that matches a slash only.\<close>

definition at_slash :: "u32 \<Rightarrow> cstring \<Rightarrow> bool" where
  "at_slash flags p \<longleftrightarrow>
     fnm_slash flags \<and> (str_at p 0 = 0x2f \<or> fnm_escape flags \<and> str_at p 0 = 0x5c \<and> str_at p 1 = 0x2f)"

text \<open>
  \<open>for (wild = 0; *pattern == '*' || *pattern == '?'; ++pattern)\<close>: None is the return of
  \<open>APR_FNM_NOMATCH\<close>.
\<close>

fun wild_loop :: "cstring \<Rightarrow> cstring \<Rightarrow> bool \<Rightarrow> (bool \<times> cstring \<times> cstring) option" where
  "wild_loop [] seg wild = Some (wild, [], seg)"
| "wild_loop (a # p) seg wild =
     (if a = 0x2a then wild_loop p seg True
      else if a = 0x3f then (if seg \<noteq> [] then wild_loop p (tl seg) wild else None)
      else Some (wild, a # p, seg))"

text \<open>One step of \<open>matchptr\<close>.\<close>

definition matchptr_next :: "u32 \<Rightarrow> cstring \<Rightarrow> cstring" where
  "matchptr_next flags p =
     (if fnm_escape flags \<and> str_at p 0 = 0x5c \<and> str_at p 1 \<noteq> 0 then drop 2 p
      else if str_at p 0 = 0x5b then fst (snd (fnmatch_ch flags p [0x20]))
      else drop 1 p)"

lemma bracket_shorter: "bracket flags c lead p result = Some (p', r) \<Longrightarrow> length p' < length p"
proof (induction flags c lead p result rule: bracket.induct)
  case (1 flags c lead p result)
  note IH1 = 1(1) [OF _ _ refl _ _ _ refl] and IH2 = 1(2) [OF _ _ refl]
  show ?case using 1(3) IH1 IH2
    by (subst (asm) bracket.simps) (fastforce simp: Let_def split: if_splits)
qed

lemma matchptr_shorter: "p \<noteq> [] \<Longrightarrow> length (matchptr_next flags p) < length p"
proof -
  assume p: "p \<noteq> []"
  have "length (fst (snd (fnmatch_ch flags p [0x20]))) < length p" if b: "str_at p 0 = 0x5b"
  proof -
    let ?neg = "str_at p 1 = 0x21 \<or> str_at p 1 = 0x5e"
    let ?q = "drop (if ?neg then 2 else 1) p"
    show ?thesis
    proof (cases "bracket flags 0x20 (str_at ?q 0 = 0x5d) ?q False")
      case None
      then show ?thesis using b p by (simp add: fnmatch_ch_def fnmatch_literal_def Let_def)
    next
      case (Some r)
      obtain p' f where r: "r = (p', f)" by (cases r)
      have "length p' < length ?q" using Some bracket_shorter unfolding r by blast
      then show ?thesis using b Some by (simp add: fnmatch_ch_def Let_def r split: if_splits)
    qed
  qed
  then show ?thesis using p by (simp add: matchptr_next_def)
qed

text \<open>
  The scan for the length of what follows the stars, up to the next star or the end of the
  segment: the length, and whether the end came first.
\<close>

function chunk_scan :: "u32 \<Rightarrow> cstring \<Rightarrow> nat \<Rightarrow> nat \<times> bool" where
  "chunk_scan flags p matchlen =
     (if p = [] \<or> at_slash flags p then (matchlen, True)
      else if str_at p 0 = 0x2a then (matchlen, False)
      else chunk_scan flags (matchptr_next flags p) (Suc matchlen))"
  by pat_completeness auto
termination
  by (relation "measure (\<lambda>(flags, p, matchlen). length p)") (auto intro: matchptr_shorter)

declare chunk_scan.simps [simp del]

datatype outcome = NoMatch | At cstring cstring

text \<open>
  \<open>while (*pattern && string < strendseg)\<close>: None is a loop that does not end. Past its end
  \<open>strstartseg\<close> fails the test against \<open>matchlen\<close>.
\<close>

partial_function (option) fnm_match_loop ::
  "u32 \<Rightarrow> bool \<Rightarrow> nat \<Rightarrow> cstring \<Rightarrow> cstring \<Rightarrow> cstring \<Rightarrow> cstring \<Rightarrow> outcome option" where
  "fnm_match_loop flags wild matchlen mismatch strstartseg p seg =
     (if p = [] \<or> seg = [] \<or> str_at p 0 = 0x2a \<or> fnm_slash flags \<and> str_at seg 0 = 0x2f \<or> at_slash flags p
      then Some (At p seg)
      else (case fnmatch_ch flags p seg of (ok, p', seg') \<Rightarrow>
        if ok then fnm_match_loop flags wild matchlen mismatch strstartseg p' seg'
        else if wild then
          (if strstartseg = [] \<or> length (tl strstartseg) < matchlen then Some NoMatch
           else fnm_match_loop flags wild matchlen mismatch (tl strstartseg) mismatch (tl strstartseg))
        else Some NoMatch))"

text \<open>\<open>while (*pattern)\<close>: one segment.\<close>

partial_function (option) seg_loop :: "u32 \<Rightarrow> cstring \<Rightarrow> cstring \<Rightarrow> outcome option" where
  "seg_loop flags p seg =
     (if p = [] \<or> seg = [] \<and> str_at p 0 \<noteq> 0x2a \<or> at_slash flags p then Some (At p seg)
      else (case wild_loop p seg False of
        None \<Rightarrow> Some NoMatch
      | Some (wild, p1, seg1) \<Rightarrow>
          (case (if wild then chunk_scan flags p1 0 else (0, False)) of (matchlen, at_end) \<Rightarrow>
             if length seg1 < matchlen then Some NoMatch
             else Option.bind
               (fnm_match_loop flags (wild \<and> \<not> at_end) matchlen p1 seg1 p1
                  (if at_end then drop (length seg1 - matchlen) seg1 else seg1))
               (\<lambda>r. case r of NoMatch \<Rightarrow> Some NoMatch | At p2 seg2 \<Rightarrow> seg_loop flags p2 seg2))))"

subsection \<open>The whole string\<close>

text \<open>A leading period has to be matched by a period; None is the return of \<open>APR_FNM_NOMATCH\<close>.\<close>

definition period_skip :: "u32 \<Rightarrow> cstring \<Rightarrow> cstring \<Rightarrow> (cstring \<times> cstring) option" where
  "period_skip flags p s =
     (if fnm_period flags \<and> str_at s 0 = 0x2e then
        (if str_at p 0 = 0x2e then Some (drop 1 p, drop 1 s)
         else if fnm_escape flags \<and> str_at p 0 = 0x5c \<and> str_at p 1 = 0x2e then Some (drop 2 p, drop 1 s)
         else None)
      else Some (p, s))"

text \<open>The string up to \<open>strendseg\<close>, and from there.\<close>

definition first_seg :: "u32 \<Rightarrow> cstring \<Rightarrow> cstring" where
  "first_seg flags s = (if fnm_slash flags then takeWhile (\<lambda>c. c \<noteq> 0x2f) s else s)"

definition from_seg_end :: "u32 \<Rightarrow> cstring \<Rightarrow> cstring" where
  "from_seg_end flags s = (if fnm_slash flags then dropWhile (\<lambda>c. c \<noteq> 0x2f) s else [])"

text \<open>\<open>first\<close> is the jump to \<open>firstsegment\<close>.\<close>

partial_function (option) fnmatch_loop :: "u32 \<Rightarrow> bool \<Rightarrow> cstring \<Rightarrow> cstring \<Rightarrow> int option" where
  "fnmatch_loop flags first p s =
     (if \<not> first \<and> (p = [] \<or> s = []) then Some (if s = [] \<and> p = [] then 0 else APR_FNM_NOMATCH)
      else
        (let p = (if \<not> first \<and> fnm_slash flags \<and> fnm_escape flags \<and> str_at p 0 = 0x5c \<and> str_at p 1 = 0x2f
                  then drop 1 p else p);
             both = (\<not> first \<and> fnm_slash flags \<and> str_at p 0 = 0x2f \<and> str_at s 0 = 0x2f);
             p = (if both then drop 1 p else p);
             s = (if both then drop 1 s else s)
         in case period_skip flags p s of
              None \<Rightarrow> Some APR_FNM_NOMATCH
            | Some (p, s) \<Rightarrow>
                Option.bind (seg_loop flags p (first_seg flags s))
                  (\<lambda>r. case r of
                     NoMatch \<Rightarrow> Some APR_FNM_NOMATCH
                   | At p' seg \<Rightarrow>
                       (let s' = seg @ from_seg_end flags s
                        in if s' \<noteq> [] \<and> \<not> (fnm_slash flags \<and> str_at s' 0 = 0x2f) then Some APR_FNM_NOMATCH
                           else if p' \<noteq> [] \<and> \<not> at_slash flags p' then Some APR_FNM_NOMATCH
                           else fnmatch_loop flags False p' s'))))"

definition apr_fnmatch :: "cstring \<Rightarrow> cstring \<Rightarrow> u32 \<Rightarrow> int option" where
  "apr_fnmatch pattern s flags = fnmatch_loop flags (str_at pattern 0 = 0x2a) pattern s"

subsection \<open>The other functions\<close>

fun fnmatch_test_loop :: "cstring \<Rightarrow> nat \<Rightarrow> int" where
  "fnmatch_test_loop [] nesting = 0"
| "fnmatch_test_loop (c # p) nesting =
     (if c = 0x3f \<or> c = 0x2a then 1
      else if c = 0x5c then (case p of [] \<Rightarrow> 0 | d # p' \<Rightarrow> fnmatch_test_loop p' nesting)
      else if c = 0x5b then fnmatch_test_loop p (Suc nesting)
      else if c = 0x5d \<and> nesting \<noteq> 0 then 1
      else fnmatch_test_loop p nesting)"

definition apr_fnmatch_test :: "cstring \<Rightarrow> int" where
  "apr_fnmatch_test pattern = fnmatch_test_loop pattern 0"

text \<open>
  \<open>dir\<close> gives the entries of a directory or the error of \<open>apr_dir_open\<close>. None if a match does
  not end.
\<close>

definition strrchr_split :: "cstring \<Rightarrow> byte \<Rightarrow> (cstring \<times> cstring) option" where
  "strrchr_split s c =
     (if c \<in> set s then Some (rev (tl (dropWhile (\<lambda>d. d \<noteq> c) (rev s))), rev (takeWhile (\<lambda>d. d \<noteq> c) (rev s)))
      else None)"

fun glob_filter :: "cstring \<Rightarrow> cstring list \<Rightarrow> cstring list option" where
  "glob_filter pattern [] = Some []"
| "glob_filter pattern (n # ns) =
     Option.bind (apr_fnmatch pattern n 0)
       (\<lambda>r. map_option (\<lambda>l. if r = 0 then n # l else l) (glob_filter pattern ns))"

definition apr_match_glob :: "(cstring \<Rightarrow> apr_status + cstring list) \<Rightarrow> cstring \<Rightarrow> (apr_status \<times> cstring list) option" where
  "apr_match_glob dir pattern =
     (let idx = (case strrchr_split pattern 0x2f of Some x \<Rightarrow> Some x | None \<Rightarrow> strrchr_split pattern 0x5c);
          path = (case idx of None \<Rightarrow> str ''.'' | Some (d, _) \<Rightarrow> d);
          pattern = (case idx of None \<Rightarrow> pattern | Some (_, f) \<Rightarrow> f)
      in case dir path of
           Inl rv \<Rightarrow> Some (rv, [])
         | Inr names \<Rightarrow> map_option (\<lambda>l. (APR_SUCCESS, l)) (glob_filter pattern names))"

subsection \<open>What a pattern element matches\<close>

definition elem_ok :: "u32 \<Rightarrow> cstring \<Rightarrow> byte \<Rightarrow> bool" where
  "elem_ok flags p c = fst (fnmatch_ch flags p [c])"

definition no_slash :: "u32 \<Rightarrow> cstring \<Rightarrow> bool" where
  "no_slash flags s \<longleftrightarrow> fnm_slash flags \<longrightarrow> 0x2f \<notin> set s"

lemma no_slash_simps [simp]:
  "no_slash flags []" "no_slash flags (c # s) \<longleftrightarrow> (fnm_slash flags \<longrightarrow> c \<noteq> 0x2f) \<and> no_slash flags s"
  by (auto simp: no_slash_def)

lemma no_slash_drop: "no_slash flags s \<Longrightarrow> no_slash flags (drop i s)"
  by (auto simp: no_slash_def dest: in_set_dropD)

lemma bracket_pattern:
  "map_option fst (bracket flags c lead p r) = map_option fst (bracket flags d lead p r')"
proof (induction p arbitrary: lead r r' rule: length_induct)
  case (1 p)
  let ?p = "if \<not> lead \<and> fnm_escape flags \<and> str_at p 0 = 0x5c then drop 1 p else p"
  let ?q = "drop (if fnm_escape flags \<and> str_at ?p 2 = 0x5c then 3 else 2) ?p"
  show ?case
  proof (cases "p = [] \<or> \<not> lead \<and> str_at p 0 = 0x5d")
    case True
    then show ?thesis by (auto simp: bracket.simps)
  next
    case False
    have IH: "map_option fst (bracket flags c False (drop 1 u) x) = map_option fst (bracket flags d False (drop 1 u) y)"
      if "u \<noteq> []" "length u \<le> length p" for u x y
      by (rule 1 [rule_format]) (use that in \<open>cases u; auto\<close>)
    have p: "(p = []) = False" "(\<not> lead \<and> str_at p 0 = 0x5d) = False" using False by blast+
    note eqs = bracket.simps [of flags c lead p, unfolded Let_def p if_False]
      bracket.simps [of flags d lead p, unfolded Let_def p if_False]
    show ?thesis
    proof (cases "?p = [] \<or> \<not> lead \<and> fnm_slash flags \<and> str_at ?p 0 = 0x2f")
      case True
      then consider (e) "(?p = []) = True"
        | (s) "(?p = []) = False" "(\<not> lead \<and> fnm_slash flags \<and> str_at ?p 0 = 0x2f) = True"
        by blast
      then show ?thesis
      proof cases
        case e
        show ?thesis unfolding eqs e if_True by (rule refl)
      next
        case s
        show ?thesis unfolding eqs s if_True if_False by (rule refl)
      qed
    next
      case False
      then have n: "(?p = []) = False" "(\<not> lead \<and> fnm_slash flags \<and> str_at ?p 0 = 0x2f) = False" by blast+
      show ?thesis
      proof (cases "str_at ?p 1 = 0x2d \<and> str_at ?p 2 \<noteq> 0x5d")
        case True
        show ?thesis
        proof (cases "?q = [] \<or> fnm_slash flags \<and> str_at ?q 0 = 0x2f")
          case e: True
          have tt: "(str_at ?p 1 = 0x2d \<and> str_at ?p 2 \<noteq> 0x5d) = True"
            "(?q = [] \<or> fnm_slash flags \<and> str_at ?q 0 = 0x2f) = True" using True e by blast+
          show ?thesis unfolding eqs n tt if_True if_False by (rule refl)
        next
          case e: False
          have q: "?q \<noteq> []" "length ?q \<le> length p" using e by (blast, simp)
          have tt: "(str_at ?p 1 = 0x2d \<and> str_at ?p 2 \<noteq> 0x5d) = True"
            "(?q = [] \<or> fnm_slash flags \<and> str_at ?q 0 = 0x2f) = False" using True e by blast+
          show ?thesis unfolding eqs n tt if_True if_False by (rule IH [OF q])
        qed
      next
        case False
        have q: "?p \<noteq> []" "length ?p \<le> length p" using n(1) by (blast, simp)
        have tt: "(str_at ?p 1 = 0x2d \<and> str_at ?p 2 \<noteq> 0x5d) = False" using False by blast
        show ?thesis unfolding eqs n tt if_False by (rule IH [OF q])
      qed
    qed
  qed
qed

lemma fnmatch_ch_elem:
  assumes "p \<noteq> []" "\<not> at_slash flags p" "fnm_slash flags \<Longrightarrow> c \<noteq> 0x2f"
  shows "fnmatch_ch flags p (c # s) = (elem_ok flags p c, matchptr_next flags p, s)"
proof -
  consider "str_at p 0 = 0x5b" | "str_at p 0 = 0x3f"
    | "str_at p 0 \<noteq> 0x5b" "str_at p 0 \<noteq> 0x3f" "fnm_escape flags" "str_at p 0 = 0x5c" "str_at p 1 \<noteq> 0"
    | "str_at p 0 \<noteq> 0x5b" "str_at p 0 \<noteq> 0x3f" "\<not> (fnm_escape flags \<and> str_at p 0 = 0x5c \<and> str_at p 1 \<noteq> 0)"
    by blast
  then show ?thesis
  proof cases
    case 1
    let ?q = "drop (if str_at p 1 = 0x21 \<or> str_at p 1 = 0x5e then 2 else 1) p"
    have "map_option fst (bracket flags c (str_at ?q 0 = 0x5d) ?q False) =
        map_option fst (bracket flags 0x20 (str_at ?q 0 = 0x5d) ?q False)"
      by (rule bracket_pattern)
    then consider (none) "bracket flags c (str_at ?q 0 = 0x5d) ?q False = None"
        "bracket flags 0x20 (str_at ?q 0 = 0x5d) ?q False = None"
      | (some) p' f g where "bracket flags c (str_at ?q 0 = 0x5d) ?q False = Some (p', f)"
        "bracket flags 0x20 (str_at ?q 0 = 0x5d) ?q False = Some (p', g)"
      by (cases "bracket flags c (str_at ?q 0 = 0x5d) ?q False";
          cases "bracket flags 0x20 (str_at ?q 0 = 0x5d) ?q False") auto
    then show ?thesis
    proof cases
      case none
      then show ?thesis using 1 assms
        by (simp add: fnmatch_ch_def elem_ok_def matchptr_next_def Let_def fnmatch_literal_def)
    next
      case some
      then show ?thesis using 1
        by (simp add: fnmatch_ch_def elem_ok_def matchptr_next_def Let_def)
    qed
  next
    case 2
    then show ?thesis using assms by (simp add: fnmatch_ch_def elem_ok_def matchptr_next_def)
  next
    case 3
    then obtain d p' where p: "p = 0x5c # d # p'"
      using assms(1) by (cases p; cases "tl p") auto
    then show ?thesis using 3 assms
      by (simp add: fnmatch_ch_def elem_ok_def matchptr_next_def fnmatch_literal_def Let_def at_slash_def)
  next
    case 4
    then have n: "(str_at p 0 = 0x5b) = False" "(str_at p 0 = 0x3f) = False"
      "(fnm_escape flags \<and> str_at p 0 = 0x5c \<and> str_at p 1 \<noteq> 0) = False" by blast+
    show ?thesis
      unfolding fnmatch_ch_def elem_ok_def matchptr_next_def n if_False
      using assms by (auto simp: fnmatch_literal_def Let_def at_slash_def)
  qed
qed

subsection \<open>Reference\<close>

text \<open>
  The pattern up to the end of its segment against a segment of the string: a star matches any
  characters, any other element one.
\<close>

definition seg_end :: "u32 \<Rightarrow> cstring \<Rightarrow> bool" where
  "seg_end flags p \<longleftrightarrow> p = [] \<or> at_slash flags p"

function glob :: "u32 \<Rightarrow> cstring \<Rightarrow> cstring \<Rightarrow> bool" where
  "glob flags p s =
     (if seg_end flags p then s = []
      else if str_at p 0 = 0x2a then glob flags (drop 1 p) s \<or> (if s = [] then False else glob flags p (tl s))
      else if s = [] then False
      else elem_ok flags p (hd s) \<and> glob flags (matchptr_next flags p) (tl s))"
  by pat_completeness auto
termination
proof (relation "measure (\<lambda>(flags, p, s). length p + length s)", goal_cases)
  case (2 flags p s)
  then show ?case by (cases p) (auto simp: seg_end_def)
next
  case (3 flags p s)
  then show ?case by (cases s) auto
next
  case (4 flags p s)
  then show ?case using matchptr_shorter [of p flags] by (cases s) (auto simp: seg_end_def)
qed auto

function seg_rest :: "u32 \<Rightarrow> cstring \<Rightarrow> cstring" where
  "seg_rest flags p =
     (if seg_end flags p then p
      else seg_rest flags (if str_at p 0 = 0x2a then drop 1 p else matchptr_next flags p))"
  by pat_completeness auto
termination
proof (relation "measure (\<lambda>(flags, p). length p)", goal_cases)
  case (2 flags p)
  then show ?case using matchptr_shorter [of p flags] by (cases p) (auto simp: seg_end_def)
qed auto

declare glob.simps [simp del] seg_rest.simps [simp del]

definition period_ok :: "u32 \<Rightarrow> cstring \<Rightarrow> cstring \<Rightarrow> bool" where
  "period_ok flags p s \<longleftrightarrow>
     fnm_period flags \<and> str_at s 0 = 0x2e \<longrightarrow>
       str_at p 0 = 0x2e \<or> fnm_escape flags \<and> str_at p 0 = 0x5c \<and> str_at p 1 = 0x2e"

text \<open>Segment by segment; \<open>after_slash\<close> is the pattern after the slash it is at.\<close>

definition after_slash :: "cstring \<Rightarrow> cstring" where
  "after_slash p = drop (if str_at p 0 = 0x5c then 2 else 1) p"

function glob_path :: "u32 \<Rightarrow> cstring \<Rightarrow> cstring \<Rightarrow> bool" where
  "glob_path flags p s \<longleftrightarrow>
     period_ok flags p s \<and> glob flags p (first_seg flags s) \<and>
     (if from_seg_end flags s = [] then seg_rest flags p = []
      else if seg_rest flags p = [] then False
      else glob_path flags (after_slash (seg_rest flags p)) (tl (from_seg_end flags s)))"
  by pat_completeness auto
termination
proof (relation "measure (\<lambda>(flags, p, s). length s)", goal_cases)
  case (2 flags p s)
  have "length (from_seg_end flags s) \<le> length s" by (simp add: from_seg_end_def length_dropWhile_le)
  with 2 show ?case by (cases "from_seg_end flags s") auto
qed auto

declare glob_path.simps [simp del]

subsection \<open>Stars match from the left\<close>

lemma glob_star:
  assumes "\<not> seg_end flags p" "str_at p 0 = 0x2a"
  shows "glob flags p s \<longleftrightarrow> (\<exists>i \<le> length s. glob flags (drop 1 p) (drop i s))"
proof (induction s)
  case Nil
  then show ?case using assms by (simp add: glob.simps [of flags p])
next
  case (Cons c s)
  have "glob flags p (c # s) \<longleftrightarrow> glob flags (drop 1 p) (c # s) \<or> glob flags p s"
    using assms by (simp add: glob.simps [of flags p "c # s"])
  also have "\<dots> \<longleftrightarrow> (\<exists>i \<le> length (c # s). glob flags (drop 1 p) (drop i (c # s)))"
    unfolding Cons
  proof (intro iffI; elim disjE exE conjE)
    assume "glob flags (drop 1 p) (c # s)"
    then show "\<exists>i \<le> length (c # s). glob flags (drop 1 p) (drop i (c # s))" by (intro exI [of _ 0]) simp
  next
    fix i assume "i \<le> length s" "glob flags (drop 1 p) (drop i s)"
    then show "\<exists>i \<le> length (c # s). glob flags (drop 1 p) (drop i (c # s))" by (intro exI [of _ "Suc i"]) simp
  next
    fix i assume "i \<le> length (c # s)" "glob flags (drop 1 p) (drop i (c # s))"
    then show "glob flags (drop 1 p) (c # s) \<or> (\<exists>i \<le> length s. glob flags (drop 1 p) (drop i s))"
      by (cases i) auto
  qed
  finally show ?case .
qed

lemma glob_star_drop:
  assumes "\<not> seg_end flags p" "str_at p 0 = 0x2a" "glob flags p (drop j s)"
  shows "glob flags p s"
proof -
  obtain i where i: "glob flags (drop 1 p) (drop (i + j) s)"
    using assms glob_star [OF assms(1,2)] by auto
  have "drop (min (i + j) (length s)) s = drop (i + j) s" by (simp add: min_def)
  with i show ?thesis unfolding glob_star [OF assms(1,2)]
    by (intro exI [of _ "min (i + j) (length s)"]) simp
qed

text \<open>What follows a star, as a set of positions.\<close>

definition glob_from :: "u32 \<Rightarrow> bool \<Rightarrow> cstring \<Rightarrow> cstring \<Rightarrow> bool" where
  "glob_from flags wild p s \<longleftrightarrow> (if wild then \<exists>i \<le> length s. glob flags p (drop i s) else glob flags p s)"

lemma glob_one:
  assumes "\<not> seg_end flags p" "str_at p 0 \<noteq> 0x2a"
  shows "glob flags p [] = False"
    "glob flags p (c # s) = (elem_ok flags p c \<and> glob flags (matchptr_next flags p) s)"
  using assms by (simp_all add: glob.simps [of flags p])

lemma glob_from_star:
  assumes "a = 0x2a"
  shows "glob_from flags wild (a # p) s = glob_from flags True p s"
proof -
  have e: "\<not> seg_end flags (a # p)" using assms by (simp add: seg_end_def at_slash_def)
  have st: "str_at (a # p) 0 = 0x2a" by (simp add: assms)
  show ?thesis
  proof (cases wild)
    case True
    have "(\<exists>i \<le> length s. glob flags (a # p) (drop i s)) \<longleftrightarrow> (\<exists>i \<le> length s. glob flags p (drop i s))"
    proof
      assume "\<exists>i \<le> length s. glob flags (a # p) (drop i s)"
      then obtain i j where "i \<le> length s" "j \<le> length (drop i s)" "glob flags p (drop j (drop i s))"
        unfolding glob_star [OF e st] by auto
      then show "\<exists>i \<le> length s. glob flags p (drop i s)" by (intro exI [of _ "j + i"]) simp
    next
      assume "\<exists>i \<le> length s. glob flags p (drop i s)"
      then show "\<exists>i \<le> length s. glob flags (a # p) (drop i s)"
        unfolding glob_star [OF e st] by (intro exI [of _ 0]) auto
    qed
    then show ?thesis by (simp add: glob_from_def True)
  next
    case False
    then show ?thesis using glob_star [OF e st, of s] by (simp add: glob_from_def)
  qed
qed

lemma glob_from_any:
  assumes "a = 0x3f" "no_slash flags s"
  shows "glob_from flags wild (a # p) s \<longleftrightarrow> s \<noteq> [] \<and> glob_from flags wild p (tl s)"
proof -
  have e: "\<not> seg_end flags (a # p)" "str_at (a # p) 0 \<noteq> 0x2a" using assms by (simp_all add: seg_end_def at_slash_def)
  have n: "matchptr_next flags (a # p) = p" using assms(1) by (simp add: matchptr_next_def)
  have g: "glob flags (a # p) u \<longleftrightarrow> u \<noteq> [] \<and> glob flags p (tl u)" if "no_slash flags u" for u
    using that glob_one [OF e] n assms(1)
    by (cases u) (auto simp: elem_ok_def fnmatch_ch_def)
  have ex: "(\<exists>i \<le> length s. drop i s \<noteq> [] \<and> glob flags p (tl (drop i s))) \<longleftrightarrow>
      s \<noteq> [] \<and> (\<exists>i \<le> length (tl s). glob flags p (drop i (tl s)))"
  proof (cases s)
    case (Cons c u)
    have "(\<exists>i \<le> length s. drop i s \<noteq> [] \<and> glob flags p (tl (drop i s))) \<longleftrightarrow> (\<exists>i \<le> length u. glob flags p (drop i u))"
    proof (intro iffI; elim exE conjE)
      fix i assume "i \<le> length s" "drop i s \<noteq> []" "glob flags p (tl (drop i s))"
      then show "\<exists>i \<le> length u. glob flags p (drop i u)"
        by (intro exI [of _ i]) (simp add: Cons tl_drop less_Suc_eq_le)
    next
      fix i assume "i \<le> length u" "glob flags p (drop i u)"
      then show "\<exists>i \<le> length s. drop i s \<noteq> [] \<and> glob flags p (tl (drop i s))"
        by (intro exI [of _ i]) (simp add: Cons tl_drop)
    qed
    then show ?thesis by (simp add: Cons)
  qed simp
  show ?thesis
    using g [OF assms(2)] g [OF no_slash_drop [OF assms(2)]] ex by (simp add: glob_from_def)
qed

lemma wild_loop_glob:
  "no_slash flags s \<Longrightarrow>
     (case wild_loop p s wild of
        None \<Rightarrow> \<not> glob_from flags wild p s
      | Some (w, p1, s1) \<Rightarrow>
          glob_from flags wild p s = glob_from flags w p1 s1 \<and> seg_rest flags p1 = seg_rest flags p \<and>
          no_slash flags s1 \<and> str_at p1 0 \<notin> {0x2a, 0x3f} \<and>
          (p1 = p \<and> s1 = s \<and> w = wild \<or> length p1 < length p))"
proof (induction p s wild rule: wild_loop.induct)
  case (2 a p s wild)
  show ?case
  proof (cases "a = 0x2a \<or> a = 0x3f")
    case True
    define t where "t = (if a = 0x2a then s else tl s)"
    define v where "v = (a = 0x2a \<or> wild)"
    have "\<not> seg_end flags (a # p)" using True by (auto simp: seg_end_def at_slash_def)
    moreover have "a = 0x3f \<Longrightarrow> matchptr_next flags (a # p) = p" by (simp add: matchptr_next_def)
    ultimately have r: "seg_rest flags (a # p) = seg_rest flags p"
      using True by (auto simp: seg_rest.simps [of flags "a # p"])
    show ?thesis
    proof (cases "a = 0x3f \<and> s = []")
      case e: True
      then show ?thesis using glob_from_any [of a flags s wild p] by simp
    next
      case e: False
      have w: "wild_loop (a # p) s wild = wild_loop p t v" using True e by (auto simp: t_def v_def)
      have g: "glob_from flags wild (a # p) s = glob_from flags v p t"
        using True e glob_from_star [of a flags wild p s] glob_from_any [of a flags s wild p] 2(3)
        by (auto simp: t_def v_def)
      have n: "no_slash flags t" using 2(3) no_slash_drop [of flags s 1] by (simp add: t_def drop_Suc)
      have IH: "case wild_loop p t v of
        None \<Rightarrow> \<not> glob_from flags v p t
      | Some (w, p1, s1) \<Rightarrow>
          glob_from flags v p t = glob_from flags w p1 s1 \<and> seg_rest flags p1 = seg_rest flags p \<and>
          no_slash flags s1 \<and> str_at p1 0 \<notin> {0x2a, 0x3f} \<and>
          (p1 = p \<and> s1 = t \<and> w = v \<or> length p1 < length p)"
      proof (cases "a = 0x2a")
        case star: True
        then have tv: "t = s" "v = True" by (simp_all add: t_def v_def)
        show ?thesis unfolding tv by (rule 2(1) [OF star 2(3)])
      next
        case star: False
        then have tv: "t = tl s" "v = wild" by (simp_all add: t_def v_def)
        show ?thesis using 2(2) [OF star] True star e n unfolding tv by blast
      qed
      show ?thesis unfolding w g r using IH by (auto split: option.splits)
    qed
  next
    case False
    then show ?thesis using 2(3) by auto
  qed
qed (auto simp: str_at_def)

subsection \<open>One chunk\<close>

text \<open>
  The scan of a chunk without the retries, and the chunk by itself: how many characters it takes
  and what follows it.
\<close>

function scan :: "u32 \<Rightarrow> cstring \<Rightarrow> cstring \<Rightarrow> outcome" where
  "scan flags p seg =
     (if p = [] \<or> seg = [] \<or> str_at p 0 = 0x2a \<or> at_slash flags p then At p seg
      else if elem_ok flags p (hd seg) then scan flags (matchptr_next flags p) (tl seg)
      else NoMatch)"
  by pat_completeness auto
termination by (relation "measure (\<lambda>(flags, p, seg). length p)") (auto intro: matchptr_shorter)

function chunk :: "u32 \<Rightarrow> cstring \<Rightarrow> nat \<times> cstring" where
  "chunk flags p =
     (if p = [] \<or> str_at p 0 = 0x2a \<or> at_slash flags p then (0, p)
      else (case chunk flags (matchptr_next flags p) of (n, r) \<Rightarrow> (Suc n, r)))"
  by pat_completeness auto
termination by (relation "measure (\<lambda>(flags, p). length p)") (auto intro: matchptr_shorter)

declare scan.simps [simp del] chunk.simps [simp del]

lemma at_slash_not_star: "at_slash flags p \<Longrightarrow> str_at p 0 \<noteq> 0x2a"
  by (auto simp: at_slash_def)

lemma chunk_scan_chunk: "chunk_scan flags p m = (m + fst (chunk flags p), seg_end flags (snd (chunk flags p)))"
proof (induction flags p m rule: chunk_scan.induct)
  case (1 flags p m)
  then show ?case
    by (subst chunk_scan.simps, subst (1 2) chunk.simps)
      (auto simp: seg_end_def at_slash_not_star split: prod.splits)
qed

lemma chunk_step:
  assumes "\<not> (p = [] \<or> str_at p 0 = 0x2a \<or> at_slash flags p)"
  shows "chunk flags p = (Suc (fst (chunk flags (matchptr_next flags p))), snd (chunk flags (matchptr_next flags p)))"
  using assms by (subst chunk.simps) (simp split: prod.splits)

lemma chunk_stop: "p = [] \<or> str_at p 0 = 0x2a \<or> at_slash flags p \<Longrightarrow> chunk flags p = (0, p)"
  by (subst chunk.simps) simp

lemma scan_step:
  assumes "\<not> (p = [] \<or> seg = [] \<or> str_at p 0 = 0x2a \<or> at_slash flags p)"
  shows "scan flags p seg = (if elem_ok flags p (hd seg) then scan flags (matchptr_next flags p) (tl seg) else NoMatch)"
  using assms by (subst scan.simps) simp

lemma scan_stop: "p = [] \<or> seg = [] \<or> str_at p 0 = 0x2a \<or> at_slash flags p \<Longrightarrow> scan flags p seg = At p seg"
  by (subst scan.simps) simp

lemma glob_step:
  assumes "\<not> (p = [] \<or> seg = [] \<or> str_at p 0 = 0x2a \<or> at_slash flags p)"
  shows "glob flags p seg \<longleftrightarrow> elem_ok flags p (hd seg) \<and> glob flags (matchptr_next flags p) (tl seg)"
  using assms by (subst glob.simps) (simp add: seg_end_def)

lemma seg_rest_step:
  assumes "\<not> (p = [] \<or> str_at p 0 = 0x2a \<or> at_slash flags p)"
  shows "seg_rest flags (matchptr_next flags p) = seg_rest flags p"
  using assms by (subst (2) seg_rest.simps) (simp add: seg_end_def)

lemma scan_glob:
  "no_slash flags seg \<Longrightarrow>
     (case scan flags p seg of
        NoMatch \<Rightarrow> \<not> glob flags p seg
      | At p' seg' \<Rightarrow> glob flags p seg = glob flags p' seg' \<and> seg_rest flags p' = seg_rest flags p \<and>
          no_slash flags seg' \<and> length p' \<le> length p \<and>
          (\<not> (p = [] \<or> seg = [] \<or> str_at p 0 = 0x2a \<or> at_slash flags p) \<longrightarrow> length p' < length p))"
proof (induction flags p seg rule: scan.induct)
  case (1 flags p seg)
  show ?case
  proof (cases "p = [] \<or> seg = [] \<or> str_at p 0 = 0x2a \<or> at_slash flags p")
    case True
    then show ?thesis using 1(2) by (simp add: scan_stop)
  next
    case False
    have ns: "no_slash flags (tl seg)" using 1(2) no_slash_drop [of flags seg 1] by (simp add: drop_Suc)
    have l: "length (matchptr_next flags p) < length p" using False by (intro matchptr_shorter) blast
    have r: "seg_rest flags (matchptr_next flags p) = seg_rest flags p"
      by (rule seg_rest_step) (use False in blast)
    show ?thesis
    proof (cases "elem_ok flags p (hd seg)")
      case True
      show ?thesis unfolding scan_step [OF False] glob_step [OF False]
        using 1(1) [OF False True ns] True l r by (auto split: outcome.splits)
    next
      case no: False
      then show ?thesis unfolding scan_step [OF False] glob_step [OF False] by simp
    qed
  qed
qed

lemma scan_chunk:
  "scan flags p seg = At p' seg' \<Longrightarrow> fst (chunk flags p) \<le> length seg \<Longrightarrow>
     p' = snd (chunk flags p) \<and> seg' = drop (fst (chunk flags p)) seg"
proof (induction flags p seg arbitrary: rule: scan.induct)
  case (1 flags p seg)
  show ?case
  proof (cases "p = [] \<or> str_at p 0 = 0x2a \<or> at_slash flags p")
    case True
    then show ?thesis using 1(2) by (auto simp: scan_stop chunk_stop)
  next
    case False
    then have s: "\<not> (p = [] \<or> seg = [] \<or> str_at p 0 = 0x2a \<or> at_slash flags p)"
      using 1(3) chunk_step [OF False] by auto
    have e: "elem_ok flags p (hd seg)" using 1(2) scan_step [OF s] by (auto split: if_splits)
    show ?thesis
      using 1(1) [OF s e] 1(2,3) e s unfolding scan_step [OF s] chunk_step [OF False]
      by (cases seg) simp_all
  qed
qed

lemma glob_chunk:
  "glob flags p seg \<Longrightarrow> fst (chunk flags p) \<le> length seg \<and>
     glob flags (snd (chunk flags p)) (drop (fst (chunk flags p)) seg)"
proof (induction flags p seg rule: scan.induct)
  case (1 flags p seg)
  show ?case
  proof (cases "p = [] \<or> str_at p 0 = 0x2a \<or> at_slash flags p")
    case True
    then show ?thesis using 1(2) by (simp add: chunk_stop)
  next
    case False
    have "seg \<noteq> []" using 1(2) False glob_one(1) [of flags p] by (auto simp: seg_end_def)
    then have s: "\<not> (p = [] \<or> seg = [] \<or> str_at p 0 = 0x2a \<or> at_slash flags p)" using False by blast
    have e: "elem_ok flags p (hd seg)" "glob flags (matchptr_next flags p) (tl seg)"
      using 1(2) unfolding glob_step [OF s] by blast+
    show ?thesis
      using 1(1) [OF s e] \<open>seg \<noteq> []\<close> unfolding chunk_step [OF False] by (cases seg) simp_all
  qed
qed

subsection \<open>The search of a chunk\<close>

lemma fnm_match_loop_scan:
  "no_slash flags seg \<Longrightarrow>
     fnm_match_loop flags wild n mm ss p seg =
       (case scan flags p seg of
          At p' seg' \<Rightarrow> Some (At p' seg')
        | NoMatch \<Rightarrow>
            (if wild then
               (if ss = [] \<or> length (tl ss) < n then Some NoMatch
                else fnm_match_loop flags wild n mm (tl ss) mm (tl ss))
             else Some NoMatch))"
proof (induction flags p seg rule: scan.induct)
  case (1 flags p seg)
  show ?case
  proof (cases "p = [] \<or> seg = [] \<or> str_at p 0 = 0x2a \<or> at_slash flags p")
    case True
    then have c: "(p = [] \<or> seg = [] \<or> str_at p 0 = 0x2a \<or> fnm_slash flags \<and> str_at seg 0 = 0x2f \<or> at_slash flags p) = True"
      by blast
    show ?thesis
      unfolding scan_stop [OF True] by (subst fnm_match_loop.simps) (simp only: c if_True outcome.case)
  next
    case False
    obtain c s where seg: "seg = c # s" using False by (cases seg) auto
    have tl: "tl seg = s" by (simp add: seg)
    have cond: "(p = [] \<or> seg = [] \<or> str_at p 0 = 0x2a \<or> fnm_slash flags \<and> str_at seg 0 = 0x2f \<or> at_slash flags p) = False"
      using False 1(2) by (simp add: seg)
    have f: "fnmatch_ch flags p seg = (elem_ok flags p c, matchptr_next flags p, s)"
      unfolding seg by (rule fnmatch_ch_elem) (use False 1(2) seg in auto)
    show ?thesis
    proof (cases "elem_ok flags p c")
      case True
      have "fnm_match_loop flags wild n mm ss p seg = fnm_match_loop flags wild n mm ss (matchptr_next flags p) (tl seg)"
        by (subst fnm_match_loop.simps) (simp only: cond if_False f prod.case True if_True tl)
      also note 1(1) [OF False]
      finally show ?thesis using True 1(2) unfolding scan_step [OF False] by (simp add: seg)
    next
      case no: False
      have "scan flags p seg = NoMatch" unfolding scan_step [OF False] using no by (simp add: seg)
      moreover have "fnm_match_loop flags wild n mm ss p seg =
          (if wild then (if ss = [] \<or> length (tl ss) < n then Some NoMatch
             else fnm_match_loop flags wild n mm (tl ss) mm (tl ss)) else Some NoMatch)"
        by (subst fnm_match_loop.simps) (simp only: cond if_False f prod.case no)
      ultimately show ?thesis by simp
    qed
  qed
qed

text \<open>The retries from one position after the other.\<close>

fun first_fit :: "u32 \<Rightarrow> nat \<Rightarrow> cstring \<Rightarrow> cstring \<Rightarrow> outcome" where
  "first_fit flags n p [] = scan flags p []"
| "first_fit flags n p (c # ss) =
     (case scan flags p (c # ss) of
        At p' s' \<Rightarrow> At p' s'
      | NoMatch \<Rightarrow> if length ss < n then NoMatch else first_fit flags n p ss)"

lemma fnm_match_loop_wild:
  "no_slash flags ss \<Longrightarrow> fnm_match_loop flags True n p ss p ss = Some (first_fit flags n p ss)"
  by (induction ss) (auto simp: fnm_match_loop_scan scan_stop split: outcome.splits)

lemma first_fit_glob:
  assumes "str_at (snd (chunk flags p)) 0 = 0x2a" "no_slash flags ss" "fst (chunk flags p) \<le> length ss"
  shows "case first_fit flags (fst (chunk flags p)) p ss of
        NoMatch \<Rightarrow> \<not> glob_from flags True p ss
      | At p' s' \<Rightarrow> glob_from flags True p ss = glob flags p' s' \<and> seg_rest flags p' = seg_rest flags p \<and>
          no_slash flags s' \<and> length p' \<le> length p"
  using assms(2,3)
proof (induction ss)
  case Nil
  then show ?case by (simp add: scan_stop glob_from_def)
next
  case (Cons c ss)
  let ?n = "fst (chunk flags p)" and ?r = "snd (chunk flags p)"
  have r: "\<not> seg_end flags ?r"
    using assms(1) at_slash_not_star [of flags ?r] by (auto simp: seg_end_def)
  note sg = scan_glob [OF Cons.prems(1), of p]
  show ?case
  proof (cases "scan flags p (c # ss)")
    case NoMatch
    then have n: "\<not> glob flags p (c # ss)" using sg by simp
    have g: "glob_from flags True p (c # ss) = glob_from flags True p ss" (is "?L = ?R")
    proof
      assume ?L
      then obtain i where "i \<le> length (c # ss)" "glob flags p (drop i (c # ss))" by (auto simp: glob_from_def)
      then show ?R using n by (cases i) (auto simp: glob_from_def)
    next
      assume ?R
      then obtain i where "i \<le> length ss" "glob flags p (drop i ss)" by (auto simp: glob_from_def)
      then show ?L unfolding glob_from_def by (auto intro!: exI [of _ "Suc i"])
    qed
    have short: "\<not> glob_from flags True p ss" if l: "length ss < ?n"
    proof
      assume "glob_from flags True p ss"
      then obtain i where "glob flags p (drop i ss)" by (auto simp: glob_from_def)
      from conjunct1 [OF glob_chunk [OF this]] l show False by simp
    qed
    show ?thesis
      using Cons.IH Cons.prems(1) NoMatch short unfolding g by (cases "length ss < ?n") simp_all
  next
    case (At p' s')
    have e: "p' = ?r" "s' = drop ?n (c # ss)" using scan_chunk [OF At Cons.prems(2)] by blast+
    have "glob_from flags True p (c # ss) = glob flags p' s'" (is "?L = ?R")
    proof
      assume ?L
      then obtain i where "glob flags p (drop i (c # ss))" by (auto simp: glob_from_def)
      from glob_chunk [OF this] have "glob flags ?r (drop i (drop ?n (c # ss)))" by (simp add: add.commute)
      then show ?R unfolding e by (rule glob_star_drop [OF r assms(1)])
    next
      assume ?R
      then have "glob flags p (c # ss)" using sg At by simp
      then show ?L unfolding glob_from_def by (auto intro!: exI [of _ 0])
    qed
    then show ?thesis using sg At by simp
  qed
qed

lemma at_end_glob:
  assumes "seg_end flags (snd (chunk flags p))"
  shows "glob_from flags True p ss \<longleftrightarrow>
    fst (chunk flags p) \<le> length ss \<and> glob flags p (drop (length ss - fst (chunk flags p)) ss)"
proof
  assume "glob_from flags True p ss"
  then obtain i where i: "i \<le> length ss" "glob flags p (drop i ss)" by (auto simp: glob_from_def)
  let ?n = "fst (chunk flags p)"
  from glob_chunk [OF i(2)] have "?n \<le> length ss - i" "drop ?n (drop i ss) = []"
    using assms glob.simps [of flags "snd (chunk flags p)"] by simp_all
  then have "?n = length ss - i" by simp
  then show "?n \<le> length ss \<and> glob flags p (drop (length ss - ?n) ss)" using i by simp
next
  assume "fst (chunk flags p) \<le> length ss \<and> glob flags p (drop (length ss - fst (chunk flags p)) ss)"
  then show "glob_from flags True p ss" unfolding glob_from_def
    by (auto intro!: exI [of _ "length ss - fst (chunk flags p)"])
qed

subsection \<open>One segment\<close>

lemma str_at_0: "str_at p 0 = c \<Longrightarrow> c \<noteq> 0 \<Longrightarrow> p = c # tl p"
  by (cases p) auto

text \<open>What the loop over a segment has to leave.\<close>

definition seg_ok :: "u32 \<Rightarrow> cstring \<Rightarrow> bool \<Rightarrow> outcome \<Rightarrow> bool" where
  "seg_ok flags p g r \<longleftrightarrow>
     (case r of
        NoMatch \<Rightarrow> \<not> g
      | At p' s' \<Rightarrow> g = (s' = [] \<and> seg_end flags p') \<and> no_slash flags s' \<and> seg_rest flags p' = seg_rest flags p)"

text \<open>The loop over the characters after the stars, in the three cases.\<close>

lemma fnm_match_loop_glob:
  assumes ns: "no_slash flags s" and not_star: "str_at p 0 \<noteq> 0x2a"
  shows "\<exists>r. (case (if wild then chunk_scan flags p 0 else (0, False)) of (n, at_end) \<Rightarrow>
         if length s < n then Some NoMatch
         else fnm_match_loop flags (wild \<and> \<not> at_end) n p s p (if at_end then drop (length s - n) s else s)) = Some r \<and>
       (case r of
          NoMatch \<Rightarrow> \<not> glob_from flags wild p s
        | At p' s' \<Rightarrow> glob_from flags wild p s = glob flags p' s' \<and> seg_rest flags p' = seg_rest flags p \<and>
            no_slash flags s' \<and> length p' \<le> length p \<and>
            (\<not> wild \<and> \<not> (p = [] \<or> s = [] \<or> at_slash flags p) \<longrightarrow> length p' < length p))"
proof (cases wild)
  case False
  then show ?thesis using scan_glob [OF ns, of p] not_star ns
    by (simp add: fnm_match_loop_scan glob_from_def split: outcome.splits)
next
  case True
  let ?n = "fst (chunk flags p)" and ?r = "snd (chunk flags p)"
  show ?thesis
  proof (cases "seg_end flags ?r")
    case e: True
    show ?thesis
    proof (cases "length s < ?n")
      case l: True
      then show ?thesis using True at_end_glob [OF e, of s] by (simp add: chunk_scan_chunk e)
    next
      case l: False
      have "no_slash flags (drop (length s - ?n) s)" by (rule no_slash_drop [OF ns])
      from scan_glob [OF this, of p] fnm_match_loop_scan [OF this, of False ?n p s p]
      show ?thesis using True l at_end_glob [OF e, of s]
        by (simp add: chunk_scan_chunk e split: outcome.splits)
    qed
  next
    case e: False
    have star: "str_at ?r 0 = 0x2a"
      using e by (induction flags p rule: chunk.induct) (subst chunk.simps, subst (asm) (3) chunk.simps, auto simp: seg_end_def split: if_splits prod.splits)
    show ?thesis
    proof (cases "length s < ?n")
      case l: True
      have "\<not> glob_from flags True p s"
      proof
        assume "glob_from flags True p s"
        then obtain i where "glob flags p (drop i s)" by (auto simp: glob_from_def)
        from conjunct1 [OF glob_chunk [OF this]] l show False by simp
      qed
      then show ?thesis using True l by (simp add: chunk_scan_chunk e)
    next
      case l: False
      then have "?n \<le> length s" by simp
      from first_fit_glob [OF star ns this] fnm_match_loop_wild [OF ns, of ?n p]
      show ?thesis using True l by (simp add: chunk_scan_chunk e split: outcome.splits)
    qed
  qed
qed

lemma seg_loop_glob: "no_slash flags s \<Longrightarrow> \<exists>r. seg_loop flags p s = Some r \<and> seg_ok flags p (glob flags p s) r"
proof (induction p arbitrary: s rule: length_induct)
  case (1 p)
  show ?case
  proof (cases "p = [] \<or> s = [] \<and> str_at p 0 \<noteq> 0x2a \<or> at_slash flags p")
    case True
    then have c: "(p = [] \<or> s = [] \<and> str_at p 0 \<noteq> 0x2a \<or> at_slash flags p) = True" by blast
    have "seg_loop flags p s = Some (At p s)" by (subst seg_loop.simps) (simp only: c if_True)
    moreover have "seg_ok flags p (glob flags p s) (At p s)"
      using True 1(2) glob_one(1) [of flags p] by (subst glob.simps) (auto simp: seg_ok_def seg_end_def)
    ultimately show ?thesis by blast
  next
    case False
    then have c: "(p = [] \<or> s = [] \<and> str_at p 0 \<noteq> 0x2a \<or> at_slash flags p) = False" by blast
    note wl = wild_loop_glob [OF 1(2), where p = p and wild = False]
    have gf: "glob_from flags False p s = glob flags p s" by (simp add: glob_from_def)
    show ?thesis
    proof (cases "wild_loop p s False")
      case None
      have "seg_loop flags p s = Some NoMatch" by (subst seg_loop.simps) (simp only: c if_False None option.case)
      then show ?thesis using wl None by (simp add: seg_ok_def gf)
    next
      case (Some x)
      obtain w p1 s1 where x: "wild_loop p s False = Some (w, p1, s1)" using Some by (cases x) auto
      have w: "glob flags p s = glob_from flags w p1 s1" "seg_rest flags p1 = seg_rest flags p"
        "no_slash flags s1" "str_at p1 0 \<noteq> 0x2a" "p1 = p \<and> s1 = s \<and> \<not> w \<or> length p1 < length p"
        using wl by (simp_all add: x gf)
      obtain n e where ne: "(if w then chunk_scan flags p1 0 else (0, False)) = (n, e)" by (cases "if w then chunk_scan flags p1 0 else (0, False)")
      obtain r where r: "(if length s1 < n then Some NoMatch
         else fnm_match_loop flags (w \<and> \<not> e) n p1 s1 p1 (if e then drop (length s1 - n) s1 else s1)) = Some r"
        and rg: "case r of
          NoMatch \<Rightarrow> \<not> glob_from flags w p1 s1
        | At p' s' \<Rightarrow> glob_from flags w p1 s1 = glob flags p' s' \<and> seg_rest flags p' = seg_rest flags p1 \<and>
            no_slash flags s' \<and> length p' \<le> length p1 \<and>
            (\<not> w \<and> \<not> (p1 = [] \<or> s1 = [] \<or> at_slash flags p1) \<longrightarrow> length p' < length p1)"
        using fnm_match_loop_glob [OF w(3,4), of w] unfolding ne prod.case by blast
      have step: "seg_loop flags p s = (case r of NoMatch \<Rightarrow> Some NoMatch | At p2 s2 \<Rightarrow> seg_loop flags p2 s2)"
        by (subst seg_loop.simps)
          (use r in \<open>simp only: c if_False x option.case prod.case ne; auto split: if_splits\<close>)
      show ?thesis
      proof (cases r)
        case NoMatch
        then show ?thesis using rg unfolding step by (simp add: seg_ok_def w)
      next
        case (At p2 s2)
        have "length p2 < length p" using rg w(4,5) False by (auto simp: At)
        then obtain r' where "seg_loop flags p2 s2 = Some r'" "seg_ok flags p2 (glob flags p2 s2) r'"
          using 1(1) rg At by fastforce
        then show ?thesis using rg unfolding step by (cases r') (simp_all add: At seg_ok_def w(1,2))
      qed
    qed
  qed
qed

subsection \<open>The whole string\<close>

lemma first_seg_no_slash: "no_slash flags (first_seg flags s)"
  by (auto simp: no_slash_def first_seg_def dest: set_takeWhileD)

lemma from_seg_end_head:
  "from_seg_end flags s \<noteq> [] \<Longrightarrow> fnm_slash flags \<and> from_seg_end flags s = 0x2f # tl (from_seg_end flags s)"
  by (induction s) (auto simp: from_seg_end_def split: if_splits)

lemma length_from_seg_end: "length (from_seg_end flags s) \<le> length s"
  by (simp add: from_seg_end_def length_dropWhile_le)

lemma str_at_nth: "str_at p (Suc i) = str_at (tl p) i"
  by (cases p) (auto simp: str_at_def)

text \<open>Skipping the period that is matched by itself keeps the meaning.\<close>

lemma period_skip_dot:
  assumes p: "p = 0x2e # p2 \<or> fnm_escape flags \<and> p = 0x5c # 0x2e # p2"
  shows "glob flags p (first_seg flags (0x2e # s2)) = glob flags p2 (first_seg flags s2)"
    "from_seg_end flags (0x2e # s2) = from_seg_end flags s2" "seg_rest flags p = seg_rest flags p2"
proof -
  have e: "\<not> (p = [] \<or> str_at p 0 = 0x2a \<or> at_slash flags p)" using p by (auto simp: at_slash_def)
  have n: "matchptr_next flags p = p2" using p by (auto simp: matchptr_next_def)
  have "elem_ok flags p 0x2e" using p by (auto simp: elem_ok_def fnmatch_ch_def fnmatch_literal_def same_char_def)
  moreover have f: "first_seg flags (0x2e # s2) = 0x2e # first_seg flags s2" by (simp add: first_seg_def)
  ultimately show "glob flags p (first_seg flags (0x2e # s2)) = glob flags p2 (first_seg flags s2)"
    using glob_one(2) [of flags p] e n by (simp add: seg_end_def)
  show "from_seg_end flags (0x2e # s2) = from_seg_end flags s2" by (simp add: from_seg_end_def)
  show "seg_rest flags p = seg_rest flags p2" using seg_rest_step [OF e] n by simp
qed

lemma period_skip_cases:
  obtains (none) "period_skip flags p s = None" "\<not> period_ok flags p s"
  | (some) p2 s2 where "period_skip flags p s = Some (p2, s2)" "period_ok flags p s"
      "glob flags p (first_seg flags s) = glob flags p2 (first_seg flags s2)"
      "from_seg_end flags s = from_seg_end flags s2" "seg_rest flags p = seg_rest flags p2"
proof (cases "fnm_period flags \<and> str_at s 0 = 0x2e")
  case False
  show thesis by (rule some [of p s]) (use False in \<open>auto simp: period_skip_def period_ok_def\<close>)
next
  case True
  then have s: "s = 0x2e # tl s" by (intro str_at_0) simp_all
  consider (dot) "str_at p 0 = 0x2e" | (esc) "fnm_escape flags" "str_at p 0 = 0x5c" "str_at p 1 = 0x2e"
    | (no) "str_at p 0 \<noteq> 0x2e" "\<not> (fnm_escape flags \<and> str_at p 0 = 0x5c \<and> str_at p 1 = 0x2e)" by blast
  then show thesis
  proof cases
    case no
    then show ?thesis using True none by (auto simp: period_skip_def period_ok_def)
  next
    case dot
    then have p: "p = 0x2e # tl p" by (intro str_at_0) simp_all
    then have q: "p = 0x2e # tl p \<or> fnm_escape flags \<and> p = 0x5c # 0x2e # tl p" by blast
    show ?thesis
      by (rule some [of "tl p" "tl s"])
        (use True dot period_skip_dot(1,2) [OF q, of "tl s"] period_skip_dot(3) [OF q] s in \<open>simp_all add: period_skip_def period_ok_def drop_Suc\<close>)
  next
    case esc
    then have "p = 0x5c # tl p" "tl p = 0x2e # tl (tl p)" by (intro str_at_0; simp add: str_at_nth)+
    then have p: "p = 0x5c # 0x2e # tl (tl p)" by metis
    then have q: "p = 0x2e # tl (tl p) \<or> fnm_escape flags \<and> p = 0x5c # 0x2e # tl (tl p)" using esc by blast
    have d: "drop 2 p = tl (tl p)" by (simp add: drop_Suc numeral_2_eq_2)
    show ?thesis
      by (rule some [of "tl (tl p)" "tl s"])
        (use True esc d period_skip_dot(1,2) [OF q, of "tl s"] period_skip_dot(3) [OF q] s in \<open>simp_all add: period_skip_def period_ok_def drop_Suc\<close>)
  qed
qed

text \<open>The two entries of the loop: at the first segment, and after one.\<close>

lemma fnmatch_loop_first:
  "fnmatch_loop flags True p s =
     (case period_skip flags p s of
        None \<Rightarrow> Some APR_FNM_NOMATCH
      | Some (p, s) \<Rightarrow>
          Option.bind (seg_loop flags p (first_seg flags s))
            (\<lambda>r. case r of
               NoMatch \<Rightarrow> Some APR_FNM_NOMATCH
             | At p' seg \<Rightarrow>
                 (let s' = seg @ from_seg_end flags s
                  in if s' \<noteq> [] \<and> \<not> (fnm_slash flags \<and> str_at s' 0 = 0x2f) then Some APR_FNM_NOMATCH
                     else if p' \<noteq> [] \<and> \<not> at_slash flags p' then Some APR_FNM_NOMATCH
                     else fnmatch_loop flags False p' s')))"
  by (subst fnmatch_loop.simps) (simp add: Let_def)

lemma fnmatch_loop_slash:
  assumes "at_slash flags p" "s = 0x2f # t"
  shows "fnmatch_loop flags False p s = fnmatch_loop flags True (after_slash p) t"
proof -
  have p: "p \<noteq> []" "fnm_slash flags" using assms(1) by (auto simp: at_slash_def)
  consider "str_at p 0 = 0x2f" | "fnm_escape flags" "str_at p 0 = 0x5c" "str_at p 1 = 0x2f"
    using assms(1) by (auto simp: at_slash_def)
  then show ?thesis
  proof cases
    case 1
    then show ?thesis using p assms(2)
      by (subst (1 2) fnmatch_loop.simps) (simp add: Let_def after_slash_def)
  next
    case 2
    then have d: "str_at (drop (Suc 0) p) 0 = 0x2f" "drop (Suc 0) (drop (Suc 0) p) = drop 2 p"
      by (simp_all add: str_at_nth drop_Suc numeral_2_eq_2)
    show ?thesis using p assms(2) 2 d
      by (subst (1 2) fnmatch_loop.simps) (simp add: Let_def after_slash_def)
  qed
qed

lemma fnmatch_loop_no_slash:
  assumes "p \<noteq> []" "s \<noteq> []" "\<not> at_slash flags p"
  shows "fnmatch_loop flags False p s = fnmatch_loop flags True p s"
proof -
  have c: "(fnm_slash flags \<and> fnm_escape flags \<and> str_at p 0 = 0x5c \<and> str_at p 1 = 0x2f) = False"
    "(fnm_slash flags \<and> str_at p 0 = 0x2f \<and> str_at s 0 = 0x2f) = False"
    using assms(3) by (auto simp: at_slash_def)
  show ?thesis
    by (subst (1 2) fnmatch_loop.simps) (simp only: c assms not_True_eq_False not_False_eq_True simp_thms Let_def if_True if_False)
qed

lemma fnmatch_loop_end: "p = [] \<or> s = [] \<Longrightarrow>
    fnmatch_loop flags False p s = Some (if s = [] \<and> p = [] then 0 else APR_FNM_NOMATCH)"
  by (subst fnmatch_loop.simps) simp

lemma fnmatch_loop_glob: "\<exists>r. fnmatch_loop flags True p s = Some r \<and> (r = 0 \<longleftrightarrow> glob_path flags p s)"
proof (induction s arbitrary: p rule: length_induct)
  case (1 s)
  show ?case
  proof (cases rule: period_skip_cases [of flags p s])
    case none
    then show ?thesis by (subst glob_path.simps) (simp add: fnmatch_loop_first APR_FNM_NOMATCH_def)
  next
    case (some p2 s2)
    have gp: "glob_path flags p s \<longleftrightarrow> glob flags p2 (first_seg flags s2) \<and>
        (if from_seg_end flags s = [] then seg_rest flags p2 = []
         else if seg_rest flags p2 = [] then False
         else glob_path flags (after_slash (seg_rest flags p2)) (tl (from_seg_end flags s)))"
      by (subst glob_path.simps) (simp only: some(2,3,5) simp_thms)
    obtain r where r: "seg_loop flags p2 (first_seg flags s2) = Some r"
      "seg_ok flags p2 (glob flags p2 (first_seg flags s2)) r"
      using seg_loop_glob [OF first_seg_no_slash] by blast
    show ?thesis
    proof (cases r)
      case NoMatch
      then have "fnmatch_loop flags True p s = Some APR_FNM_NOMATCH" by (simp add: fnmatch_loop_first some(1) r(1))
      then show ?thesis using r(2) NoMatch unfolding gp by (simp add: seg_ok_def APR_FNM_NOMATCH_def)
    next
      case (At p' s')
      have ok: "glob flags p2 (first_seg flags s2) \<longleftrightarrow> s' = [] \<and> seg_end flags p'" "no_slash flags s'"
        "seg_rest flags p' = seg_rest flags p2" using r(2) by (simp_all add: At seg_ok_def)
      show ?thesis
      proof (cases "s' = [] \<and> seg_end flags p'")
        case False
        have "fnmatch_loop flags True p s = Some APR_FNM_NOMATCH"
        proof (cases s')
          case Nil
          then show ?thesis using False some(1) r(1) At by (auto simp: fnmatch_loop_first seg_end_def Let_def)
        next
          case (Cons c t)
          then show ?thesis using ok(2) some(1) r(1) At by (auto simp: fnmatch_loop_first Let_def)
        qed
        then show ?thesis using False unfolding gp ok(1) by (auto simp: APR_FNM_NOMATCH_def)
      next
        case True
        have sr: "seg_rest flags p2 = p'" using True ok(3) by (subst (asm) seg_rest.simps) simp
        have st: "fnmatch_loop flags True p s = fnmatch_loop flags False p' (from_seg_end flags s)"
          using True some(1,4) r(1) At from_seg_end_head [of flags s2]
          by (cases "from_seg_end flags s2") (auto simp: fnmatch_loop_first Let_def seg_end_def)
        show ?thesis
        proof (cases "p' = [] \<or> from_seg_end flags s = []")
          case e: True
          then show ?thesis using True unfolding gp st sr ok(1) fnmatch_loop_end [OF e]
            by (auto simp: APR_FNM_NOMATCH_def)
        next
          case e: False
          then have a: "at_slash flags p'" using True by (simp add: seg_end_def)
          have h: "from_seg_end flags s = 0x2f # tl (from_seg_end flags s)" using e from_seg_end_head by blast
          have l: "length (tl (from_seg_end flags s)) < length s"
            using length_from_seg_end [of flags s] e by (cases "from_seg_end flags s") auto
          obtain r' where "fnmatch_loop flags True (after_slash p') (tl (from_seg_end flags s)) = Some r'"
            "r' = 0 \<longleftrightarrow> glob_path flags (after_slash p') (tl (from_seg_end flags s))"
            using 1 [rule_format, OF l, of "after_slash p'"] by blast
          then show ?thesis using True e unfolding gp st sr ok(1) fnmatch_loop_slash [OF a h] by simp
        qed
      qed
    qed
  qed
qed

lemma glob_path_slash:
  assumes "at_slash flags p"
  shows "glob_path flags p s \<longleftrightarrow> s \<noteq> [] \<and> hd s = 0x2f \<and> glob_path flags (after_slash p) (tl s)"
proof -
  have p: "p \<noteq> []" "fnm_slash flags" "seg_end flags p" using assms by (auto simp: at_slash_def seg_end_def)
  have r: "seg_rest flags p = p" "\<And>u. glob flags p u \<longleftrightarrow> u = []"
    using p(3) by (simp_all add: seg_rest.simps [of flags p] glob.simps [of flags p])
  show ?thesis
  proof (cases s)
    case Nil
    then show ?thesis using p by (subst glob_path.simps) (simp add: r from_seg_end_def first_seg_def)
  next
    case (Cons c t)
    then show ?thesis using p
      by (subst glob_path.simps) (simp add: r from_seg_end_def first_seg_def period_ok_def)
  qed
qed

lemma fnmatch_loop_at_slash:
  assumes "at_slash flags p" "s \<noteq> []" "hd s \<noteq> 0x2f"
  shows "\<exists>q. at_slash flags q \<and> fnmatch_loop flags False p s = fnmatch_loop flags True q s"
proof -
  have s: "str_at s 0 \<noteq> 0x2f" using assms by (cases s) auto
  have p: "p \<noteq> []" "fnm_slash flags" using assms(1) by (auto simp: at_slash_def)
  consider "str_at p 0 = 0x2f" | "fnm_escape flags" "str_at p 0 = 0x5c" "str_at p 1 = 0x2f"
    using assms(1) by (auto simp: at_slash_def)
  then show ?thesis
  proof cases
    case 1
    have "fnmatch_loop flags False p s = fnmatch_loop flags True p s"
      using p s 1 assms(2) by (subst (1 2) fnmatch_loop.simps) (simp add: Let_def)
    with assms(1) show ?thesis by blast
  next
    case 2
    have "fnmatch_loop flags False p s = fnmatch_loop flags True (drop 1 p) s"
      using p s 2 assms(2) by (subst (1 2) fnmatch_loop.simps) (simp add: Let_def)
    moreover have "at_slash flags (drop 1 p)" using 2 p by (simp add: at_slash_def str_at_nth drop_Suc)
    ultimately show ?thesis by blast
  qed
qed

lemma glob_path_end:
  assumes "p = [] \<or> s = []" "str_at p 0 \<noteq> 0x2a"
  shows "glob_path flags p s \<longleftrightarrow> s = [] \<and> p = []"
proof (cases p)
  case Nil
  have "seg_rest flags [] = []" "\<And>u. glob flags [] u \<longleftrightarrow> u = []"
    by (simp_all add: seg_rest.simps [of flags "[]"] glob.simps [of flags "[]"] seg_end_def)
  then show ?thesis
    by (cases s; subst glob_path.simps) (auto simp: Nil first_seg_def from_seg_end_def period_ok_def)
next
  case (Cons a u)
  then have s: "s = []" using assms by simp
  show ?thesis
  proof (cases "at_slash flags p")
    case True
    then show ?thesis by (simp add: glob_path_slash s Cons)
  next
    case False
    then have "glob flags p [] = False" using Cons assms(2) by (intro glob_one) (auto simp: seg_end_def)
    then show ?thesis by (subst glob_path.simps) (simp add: s Cons first_seg_def)
  qed
qed

lemma fnmatch_loop_total:
  "\<exists>r. apr_fnmatch p s flags = Some r \<and> (r = 0 \<longleftrightarrow> glob_path flags p s)"
proof (cases "str_at p 0 = 0x2a")
  case True
  then show ?thesis using fnmatch_loop_glob by (simp add: apr_fnmatch_def)
next
  case star: False
  have a: "apr_fnmatch p s flags = fnmatch_loop flags False p s" using star by (simp add: apr_fnmatch_def)
  show ?thesis
  proof (cases "p = [] \<or> s = []")
    case True
    show ?thesis unfolding a fnmatch_loop_end [OF True] glob_path_end [OF True star]
      by (simp add: APR_FNM_NOMATCH_def)
  next
    case False
    show ?thesis
    proof (cases "at_slash flags p")
      case n: False
      show ?thesis unfolding a using False n fnmatch_loop_glob by (simp add: fnmatch_loop_no_slash)
    next
      case at: True
      show ?thesis
      proof (cases "hd s = 0x2f")
        case h: True
        then have s: "s = 0x2f # tl s" using False by (cases s) auto
        show ?thesis unfolding a fnmatch_loop_slash [OF at s] glob_path_slash [OF at]
          using fnmatch_loop_glob False h by simp
      next
        case h: False
        obtain q where "at_slash flags q" "fnmatch_loop flags False p s = fnmatch_loop flags True q s"
          using fnmatch_loop_at_slash [OF at _ h] False by blast
        then show ?thesis unfolding a glob_path_slash [OF at]
          using fnmatch_loop_glob [of flags q s] glob_path_slash [of flags q s] h by simp
      qed
    qed
  qed
qed

text \<open>
  C4: \<open>apr_fnmatch\<close> returns for every pattern, string and flags, although its loops
  go back in the string after a failed try, and it returns 0 exactly if the pattern matches:
  segment by segment under \<open>APR_FNM_PATHNAME\<close>, a star for any characters, any other element
  for one, and a leading period under \<open>APR_FNM_PERIOD\<close> by a period only. The greedy search for
  the leftmost fit of what follows a star misses no match.
\<close>
theorem fnmatch_total:
  "\<exists>r. apr_fnmatch p s flags = Some r \<and> (r = 0 \<longleftrightarrow> glob_path flags p s)"
  by (rule fnmatch_loop_total)

subsection \<open>Patterns without wild cards\<close>

text \<open>The pattern with its escapes removed.\<close>

fun unescape_pattern :: "cstring \<Rightarrow> cstring" where
  "unescape_pattern [] = []"
| "unescape_pattern (c # p) =
     (if c = 0x5c then (case p of [] \<Rightarrow> [c] | d # p' \<Rightarrow> d # unescape_pattern p') else c # unescape_pattern p)"

lemma test_loop_plain:
  "fnmatch_test_loop (a # p) n = 0 \<Longrightarrow> a \<noteq> 0x5c \<Longrightarrow>
     a \<noteq> 0x3f \<and> a \<noteq> 0x2a \<and> (n \<noteq> 0 \<longrightarrow> a \<noteq> 0x5d) \<and> fnmatch_test_loop p (if a = 0x5b then Suc n else n) = 0"
  by (auto split: if_splits)

lemma test_loop_escape: "fnmatch_test_loop (0x5c # d # p) n = 0 \<Longrightarrow> fnmatch_test_loop p n = 0"
  by simp

text \<open>A bracket that nothing closes is an ordinary character.\<close>

lemma test_bracket:
  "fnmatch_test_loop p n = 0 \<Longrightarrow> n \<noteq> 0 \<Longrightarrow> fnm_escape flags \<Longrightarrow> bracket flags c False p r = None"
proof (induction p arbitrary: n r rule: length_induct)
  case (1 p)
  have IH: "bracket flags c False u x = None" if "length u < length p" "fnmatch_test_loop u m = 0" "m \<noteq> 0" for u m x
    using 1(1) [rule_format, OF that(1,2,3) 1(4)] .
  show ?case
  proof (cases p)
    case Nil
    then show ?thesis by (simp add: bracket.simps)
  next
    case (Cons a t)
    define u where "u = (if a = 0x5c then t else p)"
    have np: "str_at p 0 \<noteq> 0x5d" using 1(2,3) by (auto simp: Cons split: if_splits)
    have eq: "bracket flags c False p r =
        (if u = [] then None
         else if fnm_slash flags \<and> str_at u 0 = 0x2f then None
         else if str_at u 1 = 0x2d \<and> str_at u 2 \<noteq> 0x5d then
           (let q = drop (if str_at u 2 = 0x5c then 3 else 2) u
            in if q = [] \<or> fnm_slash flags \<and> str_at q 0 = 0x2f then None
               else bracket flags c False (drop 1 q) (r \<or> in_range flags c (str_at u 0) (str_at q 0)))
         else bracket flags c False (drop 1 u) (r \<or> same_char flags c (str_at u 0)))"
    proof -
      have c: "(p = []) = False" "(str_at p 0 = 0x5d) = False" "fnm_escape flags = True"
        "(if str_at p 0 = 0x5c then drop 1 p else p) = u"
        using np 1(4) by (simp_all add: u_def Cons)
      show ?thesis by (subst bracket.simps) (simp only: c Let_def simp_thms if_True if_False not_False_eq_True)
    qed
    show ?thesis
    proof (cases u)
      case Nil
      then show ?thesis unfolding eq by simp
    next
      case u: (Cons b w)
      have l: "length w < length p" using u by (auto simp: u_def Cons split: if_splits)
      obtain m where m: "fnmatch_test_loop w m = 0" "m \<noteq> 0"
      proof (cases "a = 0x5c")
        case True
        then have "p = 0x5c # b # w" using u by (simp add: u_def Cons)
        then show ?thesis using that [of n] 1(2,3) test_loop_escape [of b w n] by simp
      next
        case False
        then have "a = b" "t = w" using u by (simp_all add: u_def Cons)
        then show ?thesis
          using that [of "if a = 0x5b then Suc n else n"] 1(2,3) test_loop_plain [of a t n] False Cons by auto
      qed
      have one: "bracket flags c False w x = None" for x by (rule IH [OF l m])
      show ?thesis
      proof (cases "str_at u 1 = 0x2d \<and> str_at u 2 \<noteq> 0x5d")
        case False
        then show ?thesis unfolding eq using one by (auto simp: u)
      next
        case True
        then have "str_at w 0 = 0x2d" by (simp add: u str_at_nth)
        then have w: "w = 0x2d # tl w" by (intro str_at_0) simp_all
        let ?v = "tl w"
        have v: "fnmatch_test_loop ?v m = 0" using m(1) test_loop_plain [of "0x2d" ?v m] w by simp
        have lv: "length ?v < length p" using l by simp
        let ?q = "drop (if str_at u 2 = 0x5c then 3 else 2) u"
        have q: "?q = (if str_at ?v 0 = 0x5c then tl ?v else ?v)"
          using w by (simp add: u numeral_2_eq_2 numeral_3_eq_3 drop_Suc str_at_nth)
        have last: "bracket flags c False (drop 1 ?q) x = None" if ne: "?q \<noteq> []" for x
        proof (cases "str_at ?v 0 = 0x5c")
          case True
          then have "?v = 0x5c # tl ?v" by (intro str_at_0) simp_all
          moreover obtain d z where dz: "tl ?v = d # z" using ne True unfolding q by (cases "tl ?v") auto
          ultimately have "?v = 0x5c # d # z" by (simp only:)
          with v test_loop_escape [of d z m] have "fnmatch_test_loop z m = 0" by (simp only:)
          moreover have "length z < length p" using lv dz by (cases w; cases "tl w") auto
          ultimately show ?thesis using IH [OF _ _ m(2)] True dz unfolding q by simp
        next
          case False
          obtain d z where dz: "?v = d # z" using ne False unfolding q by (cases ?v) auto
          then have "d \<noteq> 0x5c" using False by simp
          from test_loop_plain [OF v [unfolded dz] this]
          have "fnmatch_test_loop z (if d = 0x5b then Suc m else m) = 0" by blast
          moreover have "length z < length p" "(if d = 0x5b then Suc m else m) \<noteq> 0"
            using lv dz m(2) by simp_all
          ultimately have "bracket flags c False z x = None" by (intro IH)
          then show ?thesis unfolding q using False dz by simp
        qed
        show ?thesis unfolding eq using last True u by (auto simp: Let_def)
      qed
    qed
  qed
qed

lemma test_elem:
  assumes "fnmatch_test_loop p n = 0" "0 \<notin> set p" "p \<noteq> []"
  shows "elem_ok 0 p c \<longleftrightarrow> c = hd (unescape_pattern p)"
    "fnmatch_test_loop (matchptr_next 0 p) (if hd p = 0x5b then Suc n else n) = 0"
    "unescape_pattern p = hd (unescape_pattern p) # unescape_pattern (matchptr_next 0 p)"
    "0 \<notin> set (matchptr_next 0 p)" "str_at p 0 \<noteq> 0x2a"
proof -
  have fl: "fnm_escape 0" "\<not> fnm_slash 0" "\<not> fnm_nocase 0"
    by (simp_all add: fnm_escape_def fnm_slash_def fnm_nocase_def)
  obtain a t where p: "p = a # t" using assms(3) by (cases p) auto
  have lit: "fnmatch_literal 0 (b # w) [d] = (d = b, w, [])" for b w d
    by (simp add: fnmatch_literal_def same_char_def fl)
  have main: "(\<forall>d. fnmatch_ch 0 p [d] = (d = hd (unescape_pattern p), matchptr_next 0 p, [])) \<and>
    fnmatch_test_loop (matchptr_next 0 p) (if hd p = 0x5b then Suc n else n) = 0 \<and>
    unescape_pattern p = hd (unescape_pattern p) # unescape_pattern (matchptr_next 0 p) \<and>
    0 \<notin> set (matchptr_next 0 p) \<and> str_at p 0 \<noteq> 0x2a"
  proof (cases "a = 0x5c")
    case True
    then show ?thesis
      using assms(1,2) by (cases t) (auto simp: p fnmatch_ch_def matchptr_next_def fl lit)
  next
    case False
    note pl = test_loop_plain [OF assms(1) [unfolded p] False]
    show ?thesis
    proof (cases "a = 0x5b")
      case True
      let ?q = "drop (if str_at p 1 = 0x21 \<or> str_at p 1 = 0x5e then 2 else 1) p"
      have tq: "fnmatch_test_loop ?q (Suc n) = 0"
      proof (cases "str_at p 1 = 0x21 \<or> str_at p 1 = 0x5e")
        case neg: True
        then have "str_at t 0 = 0x21 \<or> str_at t 0 = 0x5e" by (simp add: p)
        then obtain b where "t = b # tl t" "b = 0x21 \<or> b = 0x5e" using str_at_0 by fastforce
        then have "fnmatch_test_loop (tl t) (Suc n) = 0"
          using pl True test_loop_plain [of b "tl t" "Suc n"] by auto
        then show ?thesis using neg by (simp add: p drop_Suc numeral_2_eq_2)
      next
        case neg: False
        show ?thesis using neg pl True by (simp add: p)
      qed
      have "str_at ?q 0 \<noteq> 0x5d" using tq by (cases ?q) (auto split: if_splits)
      then have "bracket 0 d (str_at ?q 0 = 0x5d) ?q False = None" for d
        using test_bracket [OF tq _ fl(1), of d False] by simp
      then have "fnmatch_ch 0 p [d] = (d = a, t, [])" for d
        using True by (simp add: fnmatch_ch_def p lit)
      then show ?thesis using pl True assms(2) by (simp add: p matchptr_next_def)
    next
      case b: False
      have "fnmatch_ch 0 p [d] = (d = a, t, [])" for d
        using False b pl by (simp add: fnmatch_ch_def p lit)
      then show ?thesis using pl False b assms(2) by (simp add: p matchptr_next_def)
    qed
  qed
  then show "elem_ok 0 p c \<longleftrightarrow> c = hd (unescape_pattern p)" by (simp add: elem_ok_def)
  from main show "fnmatch_test_loop (matchptr_next 0 p) (if hd p = 0x5b then Suc n else n) = 0"
    "unescape_pattern p = hd (unescape_pattern p) # unescape_pattern (matchptr_next 0 p)"
    "0 \<notin> set (matchptr_next 0 p)" "str_at p 0 \<noteq> 0x2a" by blast+
qed

lemma glob_plain:
  "fnmatch_test_loop p n = 0 \<Longrightarrow> 0 \<notin> set p \<Longrightarrow> glob 0 p s \<longleftrightarrow> s = unescape_pattern p"
proof (induction p arbitrary: n s rule: length_induct)
  case (1 p)
  show ?case
  proof (cases "p = []")
    case True
    then show ?thesis by (subst glob.simps) (simp add: seg_end_def)
  next
    case False
    note e = test_elem [OF 1(2,3) False]
    have ne: "\<not> seg_end 0 p" using False by (simp add: seg_end_def at_slash_def fnm_slash_def)
    have IH: "glob 0 (matchptr_next 0 p) u \<longleftrightarrow> u = unescape_pattern (matchptr_next 0 p)" for u
      using 1(1) matchptr_shorter [OF False] e(2,4) by blast
    show ?thesis
      by (cases s; subst e(3)) (simp_all add: glob_one [OF ne e(5)] e(1) IH)
  qed
qed

lemma seg_rest_no_slash: "\<not> fnm_slash flags \<Longrightarrow> seg_rest flags p = []"
  by (induction flags p rule: seg_rest.induct) (subst seg_rest.simps, auto simp: seg_end_def at_slash_def)

text \<open>
  C40: a pattern for which \<open>apr_fnmatch_test\<close> returns 0 has no wild card:
  \<open>apr_fnmatch\<close> with no flag set matches it with one string, itself with the escapes removed. An
  opening bracket that nothing closes does not make the test succeed and stands for itself,
  although \<open>apr_fnmatch.h\<close> says that such a pattern never matches.
\<close>
theorem fnmatch_test_plain:
  assumes "apr_fnmatch_test p = 0" "0 \<notin> set p"
  shows "apr_fnmatch p s 0 = Some 0 \<longleftrightarrow> s = unescape_pattern p"
proof -
  have "glob_path 0 p s \<longleftrightarrow> glob 0 p s"
    by (subst glob_path.simps)
      (simp add: period_ok_def fnm_period_def fnm_slash_def first_seg_def from_seg_end_def seg_rest_no_slash)
  also have "\<dots> \<longleftrightarrow> s = unescape_pattern p"
    using assms glob_plain unfolding apr_fnmatch_test_def by blast
  finally have "glob_path 0 p s \<longleftrightarrow> s = unescape_pattern p" .
  moreover obtain r where "apr_fnmatch p s 0 = Some r" "r = 0 \<longleftrightarrow> glob_path 0 p s"
    using fnmatch_loop_total by blast
  ultimately show ?thesis by auto
qed

text \<open>The pattern \<open>[a\*\<close> matches \<open>[a*\<close>.\<close>

theorem fnmatch_test_plain_witness: "apr_fnmatch [0x5b, 0x61, 0x5c, 0x2a] [0x5b, 0x61, 0x2a] 0 = Some 0"
  using fnmatch_test_plain [of "[0x5b, 0x61, 0x5c, 0x2a]" "[0x5b, 0x61, 0x2a]"] by (simp add: apr_fnmatch_test_def)

end
