(* ===== verification/Apu_Sdbm_Page.thy ===== *)
theory Apu_Sdbm_Page
  imports C_String
begin

text \<open>
  The pages of an SDBM database (\<open>src/log4cxx/apr-util-1.5.4/dbm/sdbm/sdbm_pair.c\<close>) and the hash
  function (\<open>sdbm_hash.c\<close>). A page is its 1024 bytes: an index of shorts from the bottom, keys
  and values from the top. \<open>le\<close> is the byte order of the platform. An item is the list of its
  bytes, None the item with a NULL pointer.
\<close>

unbundle bit_operations_syntax

type_synonym page = "byte list"

definition PBLKSIZ :: nat where "PBLKSIZ = 1024"
definition DBLKSIZ :: nat where "DBLKSIZ = 4096"
definition PAIRMAX :: int where "PAIRMAX = 1008"
definition SPLTMAX :: nat where "SPLTMAX = 10"
definition BYTESIZ :: nat where "BYTESIZ = 8"

lemma PBLKSIZ_nat [simp]: "PBLKSIZ = 1024" by (simp add: PBLKSIZ_def)

subsection \<open>Hash\<close>

text \<open>
  \<open>n = *str++ + 65599 * n\<close> in an \<open>unsigned long\<close> of 64 bits, with a signed \<open>char\<close>. Duff's device
  enters its loop of eight steps in the middle.
\<close>

definition HASHC :: "u64 \<Rightarrow> byte \<Rightarrow> u64" where "HASHC n c = scast c + 65599 * n"

primrec duff :: "nat \<Rightarrow> byte list \<Rightarrow> u64 \<Rightarrow> u64" where
  "duff 0 s n = n"
| "duff (Suc l) s n = duff l (drop 8 s) (foldl HASHC n (take 8 s))"

definition sdbm_hash :: "byte list \<Rightarrow> u64" where
  "sdbm_hash s =
     (if length s > 0 then
        (let loop = (length s + 8 - 1) div 2 ^ 3;
             entry = (if length s mod 8 = 0 then 8 else length s mod 8)
         in duff (loop - 1) (drop entry s) (foldl HASHC 0 (take entry s)))
      else 0)"

lemma duff_foldl: "length s = 8 * l \<Longrightarrow> duff l s n = foldl HASHC n s"
proof (induction l arbitrary: s n)
  case (Suc l)
  have "foldl HASHC n s = foldl HASHC (foldl HASHC n (take 8 s)) (drop 8 s)"
    by (metis append_take_drop_id foldl_append)
  then show ?case using Suc by simp
qed simp

lemma sdbm_hash_foldl: "sdbm_hash s = foldl HASHC 0 s"
proof (cases "s = []")
  case False
  let ?e = "if length s mod 8 = 0 then 8 else length s mod 8"
  have le: "?e \<le> length s" using False by (auto simp: Suc_le_eq dest: mod_eq_0_iff_dvd [THEN iffD1] dvd_imp_le)
  have "length s - ?e = 8 * ((length s + 8 - 1) div 2 ^ 3 - 1)"
  proof (cases "length s mod 8 = 0")
    case True
    then obtain k where "length s = 8 * k" by auto
    moreover have "(8 * k + 7) div 8 = k" by simp
    ultimately show ?thesis by (simp add: right_diff_distrib')
  next
    case False
    have "(length s + 7) div 8 = Suc (length s div 8)"
    proof -
      have "(8 * q + r + 7) div 8 = Suc q" if "0 < r" "r < 8" for q r :: nat
        by (rule div_nat_eqI) (use that in auto)
      from this [of "length s mod 8" "length s div 8"] False show ?thesis by simp
    qed
    then show ?thesis using False by (simp add: minus_mod_eq_mult_div)
  qed
  then have "length (drop ?e s) = 8 * ((length s + 8 - 1) div 2 ^ 3 - 1)" by simp
  from duff_foldl [OF this] show ?thesis
    using False by (simp add: sdbm_hash_def Let_def flip: foldl_append)
qed (simp add: sdbm_hash_def)

subsection \<open>Access to a page\<close>

text \<open>\<open>ino[i]\<close>, read and written.\<close>

definition short_of :: "byte \<Rightarrow> byte \<Rightarrow> 16 word" where
  "short_of lo hi = ucast lo OR push_bit 8 (ucast hi)"

definition get_ino :: "bool \<Rightarrow> page \<Rightarrow> nat \<Rightarrow> int" where
  "get_ino le pag i =
     sint (if le then short_of (pag ! (2 * i)) (pag ! (2 * i + 1)) else short_of (pag ! (2 * i + 1)) (pag ! (2 * i)))"

definition set_ino :: "bool \<Rightarrow> page \<Rightarrow> nat \<Rightarrow> int \<Rightarrow> page" where
  "set_ino le pag i x =
     (let w = (word_of_int x :: 16 word); lo = ucast w; hi = ucast (drop_bit 8 w)
      in if le then pag[2 * i := lo, 2 * i + 1 := hi] else pag[2 * i := hi, 2 * i + 1 := lo])"

text \<open>The item at an offset, and \<open>off = ((n = ino[0]) > 0) ? ino[n] : PBLKSIZ\<close>.\<close>

definition item_at :: "page \<Rightarrow> int \<Rightarrow> int \<Rightarrow> byte list" where
  "item_at pag off siz = take (nat siz) (drop (nat off) pag)"

definition last_off :: "bool \<Rightarrow> page \<Rightarrow> int" where
  "last_off le pag = (let n = get_ino le pag 0 in if n > 0 then get_ino le pag (nat n) else int PBLKSIZ)"

subsection \<open>Operations\<close>

definition fitpair :: "bool \<Rightarrow> page \<Rightarrow> int \<Rightarrow> bool" where
  "fitpair le pag need =
     (let n = get_ino le pag 0; off = last_off le pag; avail = off - (n + 1) * 2; need = need + 2 * 2
      in need \<le> avail)"

definition putpair :: "bool \<Rightarrow> page \<Rightarrow> byte list \<Rightarrow> byte list \<Rightarrow> page" where
  "putpair le pag key val =
     (let n = get_ino le pag 0;
          off = last_off le pag - int (length key);
          pag = memcpy_at pag (nat off) key;
          pag = set_ino le pag (nat (n + 1)) off;
          off = off - int (length val);
          pag = memcpy_at pag (nat off) val;
          pag = set_ino le pag (nat (n + 2)) off
      in set_ino le pag 0 (get_ino le pag 0 + 2))"

text \<open>The index of a key, 0 if it is not there.\<close>

function seepair_loop :: "bool \<Rightarrow> page \<Rightarrow> int \<Rightarrow> byte list \<Rightarrow> nat \<Rightarrow> int \<Rightarrow> nat" where
  "seepair_loop le pag n key i off =
     (if int i < n then
        (if int (length key) = off - get_ino le pag i \<and>
            key = item_at pag (get_ino le pag i) (int (length key)) then i
         else seepair_loop le pag n key (i + 2) (get_ino le pag (i + 1)))
      else 0)"
  by pat_completeness auto
termination by (relation "measure (\<lambda>(le, pag, n, key, i, off). nat n - i)") auto

declare seepair_loop.simps [simp del]

definition seepair :: "bool \<Rightarrow> page \<Rightarrow> int \<Rightarrow> byte list \<Rightarrow> nat" where
  "seepair le pag n key = seepair_loop le pag n key 1 (int PBLKSIZ)"

definition getpair :: "bool \<Rightarrow> page \<Rightarrow> byte list \<Rightarrow> byte list option" where
  "getpair le pag key =
     (let n = get_ino le pag 0
      in if n = 0 then None
         else (let i = seepair le pag n key
               in if i = 0 then None
                  else Some (item_at pag (get_ino le pag (i + 1)) (get_ino le pag i - get_ino le pag (i + 1)))))"

definition duppair :: "bool \<Rightarrow> page \<Rightarrow> byte list \<Rightarrow> bool" where
  "duppair le pag key \<longleftrightarrow> get_ino le pag 0 > 0 \<and> seepair le pag (get_ino le pag 0) key > 0"

definition getnkey :: "bool \<Rightarrow> page \<Rightarrow> int \<Rightarrow> byte list option" where
  "getnkey le pag num =
     (let num = num * 2 - 1
      in if get_ino le pag 0 = 0 \<or> num > get_ino le pag 0 then None
         else (let off = (if num > 1 then get_ino le pag (nat (num - 1)) else int PBLKSIZ)
               in Some (item_at pag (get_ino le pag (nat num)) (off - get_ino le pag (nat num)))))"

text \<open>\<open>while (i < n - 1)\<close>: the entries behind a deleted pair move down.\<close>

function delpair_loop :: "bool \<Rightarrow> page \<Rightarrow> nat \<Rightarrow> int \<Rightarrow> int \<Rightarrow> page" where
  "delpair_loop le pag i n zoo =
     (if int i < n - 1 then delpair_loop le (set_ino le pag i (get_ino le pag (i + 2) + zoo)) (i + 1) n zoo
      else pag)"
  by pat_completeness auto
termination by (relation "measure (\<lambda>(le, pag, i, n, zoo). nat n - i)") auto

declare delpair_loop.simps [simp del]

definition delpair :: "bool \<Rightarrow> page \<Rightarrow> byte list \<Rightarrow> bool \<times> page" where
  "delpair le pag key =
     (let n = get_ino le pag 0
      in if n = 0 then (False, pag)
         else (let i = seepair le pag n key
               in if i = 0 then (False, pag)
                  else
                    (let pag =
                       (if int i < n - 1 then
                          (let dst = (if i = 1 then int PBLKSIZ else get_ino le pag (i - 1));
                               src = get_ino le pag (i + 1);
                               zoo = dst - src;
                               m = get_ino le pag (i + 1) - get_ino le pag (nat n);
                               dst = dst - m;
                               src = src - m
                           in delpair_loop le (memcpy_at pag (nat dst) (item_at pag src m)) i n zoo)
                        else pag)
                     in (True, set_ino le pag 0 (get_ino le pag 0 - 2)))))"

text \<open>The pairs whose hash has the bit go to the new page.\<close>

function splpage_loop :: "bool \<Rightarrow> page \<Rightarrow> u64 \<Rightarrow> nat \<Rightarrow> int \<Rightarrow> int \<Rightarrow> page \<Rightarrow> page \<Rightarrow> page \<times> page" where
  "splpage_loop le cur sbit ino n off pag new =
     (if n > 0 then
        (let key = item_at cur (get_ino le cur ino) (off - get_ino le cur ino);
             val = item_at cur (get_ino le cur (ino + 1)) (get_ino le cur ino - get_ino le cur (ino + 1));
             up = (sdbm_hash key AND sbit \<noteq> 0)
         in splpage_loop le cur sbit (ino + 2) (n - 2) (get_ino le cur (ino + 1))
              (if up then pag else putpair le pag key val) (if up then putpair le new key val else new))
      else (pag, new))"
  by pat_completeness auto
termination by (relation "measure (\<lambda>(le, cur, sbit, ino, n, off, pag, new). nat n)") auto

declare splpage_loop.simps [simp del]

definition splpage :: "bool \<Rightarrow> page \<Rightarrow> u64 \<Rightarrow> page \<times> page" where
  "splpage le pag sbit =
     splpage_loop le pag sbit 1 (get_ino le pag 0) (int PBLKSIZ) (replicate PBLKSIZ 0) (replicate PBLKSIZ 0)"

function chkpage_loop :: "bool \<Rightarrow> page \<Rightarrow> nat \<Rightarrow> int \<Rightarrow> int \<Rightarrow> bool" where
  "chkpage_loop le pag ino n off =
     (if n > 0 then
        (if get_ino le pag ino > off \<or> get_ino le pag (ino + 1) > off \<or>
            get_ino le pag (ino + 1) > get_ino le pag ino then False
         else chkpage_loop le pag (ino + 2) (n - 2) (get_ino le pag (ino + 1)))
      else True)"
  by pat_completeness auto
termination by (relation "measure (\<lambda>(le, pag, ino, n, off). nat n)") auto

declare chkpage_loop.simps [simp del]

definition chkpage :: "bool \<Rightarrow> page \<Rightarrow> bool" where
  "chkpage le pag =
     (let n = get_ino le pag 0
      in if n < 0 \<or> n > int PBLKSIZ div 2 then False
         else if n > 0 then chkpage_loop le pag 1 n (int PBLKSIZ)
         else True)"

subsection \<open>Shorts in a page\<close>

lemma short_of_bytes: "short_of (ucast w) (ucast (drop_bit 8 w)) = (w :: 16 word)"
proof (rule bit_word_eqI)
  fix n assume "n < LENGTH(16)"
  then show "bit (short_of (ucast w) (ucast (drop_bit 8 w)) :: 16 word) n = bit w n"
    by (auto simp: short_of_def bit_simps)
qed

lemma sint_short: "- 32768 \<le> x \<Longrightarrow> x < 32768 \<Longrightarrow> sint (word_of_int x :: 16 word) = x"
  by (simp add: signed_of_int signed_take_bit_int_eq_self)

lemma get_set_ino:
  assumes "length pag = 1024" "i < 512" "j < 512" "- 32768 \<le> x" "x < 32768"
  shows "get_ino le (set_ino le pag i x) j = (if i = j then x else get_ino le pag j)"
proof -
  have e: "2 * i \<noteq> 2 * j + 1" "2 * i + 1 \<noteq> 2 * j" by presburger+
  then show ?thesis using assms short_of_bytes [of "word_of_int x"] sint_short [of x]
    by (cases le; cases "i = j") (simp_all add: get_ino_def set_ino_def Let_def nth_list_update)
qed

lemma length_set_ino [simp]: "length (set_ino le pag i x) = length pag"
  by (simp add: set_ino_def Let_def)

lemma drop_set_ino: "2 * i + 2 \<le> off \<Longrightarrow> drop off (set_ino le pag i x) = drop off pag"
  by (simp add: set_ino_def Let_def)

lemma get_ino_memcpy: "2 * i + 2 \<le> off \<Longrightarrow> off \<le> length pag \<Longrightarrow> get_ino le (memcpy_at pag off b) i = get_ino le pag i"
  by (simp add: get_ino_def memcpy_at_def nth_append)

lemma drop_memcpy: "off \<le> length pag \<Longrightarrow> drop off (memcpy_at pag off b) = b @ drop (off + length b) pag"
  by (simp add: memcpy_at_def)

subsection \<open>The pairs of a page\<close>

text \<open>
  The bytes of the pairs as they lie at the top of the page, the last pair first, and the lower
  end of these bytes.
\<close>

type_synonym pair = "byte list \<times> byte list"

definition pair_data :: "pair list \<Rightarrow> byte list" where
  "pair_data ps = concat (map (\<lambda>(k, v). v @ k) (rev ps))"

definition data_off :: "pair list \<Rightarrow> nat" where
  "data_off ps = 1024 - length (pair_data ps)"

text \<open>The page is well formed and holds these pairs, in this order.\<close>

definition page_has :: "bool \<Rightarrow> page \<Rightarrow> pair list \<Rightarrow> bool" where
  "page_has le pag ps \<longleftrightarrow>
     length pag = 1024 \<and> 4 * length ps + 2 + length (pair_data ps) \<le> 1024 \<and>
     get_ino le pag 0 = 2 * int (length ps) \<and>
     (\<forall>j < length ps. get_ino le pag (2 * j + 1) = int (data_off (take (Suc j) ps) + length (snd (ps ! j))) \<and>
        get_ino le pag (2 * j + 2) = int (data_off (take (Suc j) ps))) \<and>
     drop (data_off ps) pag = pair_data ps"

lemma pair_data_simps [simp]:
  "pair_data [] = []" "pair_data (ps @ [p]) = snd p @ fst p @ pair_data ps"
  "pair_data (p # ps) = pair_data ps @ snd p @ fst p" "pair_data (ps @ qs) = pair_data qs @ pair_data ps"
  by (auto simp: pair_data_def split: prod.splits)

lemma pair_data_take: "length (pair_data (take l ps)) \<le> length (pair_data ps)"
  by (metis append_take_drop_id le_add2 length_append pair_data_simps(4))

lemma data_off_Nil [simp]: "data_off [] = 1024"
  by (simp add: data_off_def)

lemma page_hasD:
  assumes "page_has le pag ps"
  shows "length pag = 1024" "4 * length ps + 2 + length (pair_data ps) \<le> 1024"
    "get_ino le pag 0 = 2 * int (length ps)"
    "j < length ps \<Longrightarrow> get_ino le pag (2 * j + 1) = int (data_off (take (Suc j) ps) + length (snd (ps ! j)))"
    "j < length ps \<Longrightarrow> get_ino le pag (2 * j + 2) = int (data_off (take (Suc j) ps))"
    "drop (data_off ps) pag = pair_data ps"
  using assms unfolding page_has_def by blast+

lemma last_off: "page_has le pag ps \<Longrightarrow> last_off le pag = int (data_off ps)"
proof (cases "ps = []")
  case False
  assume p: "page_has le pag ps"
  let ?j = "length ps - 1"
  have "get_ino le pag (2 * ?j + 2) = int (data_off (take (Suc ?j) ps))"
    by (rule page_hasD(5) [OF p]) (use False in simp)
  moreover have "2 * ?j + 2 = 2 * length ps" "Suc ?j = length ps" using False by (cases ps; simp)+
  ultimately show ?thesis using page_hasD(3) [OF p] False by (simp add: last_off_def nat_mult_distrib)
qed (simp add: last_off_def page_has_def)

text \<open>The bytes of one pair.\<close>

lemma pair_bytes:
  assumes p: "page_has le pag ps" and j: "j < length ps"
  shows "item_at pag (int (data_off (take (Suc j) ps))) (int (length (snd (ps ! j)))) = snd (ps ! j)"
    "item_at pag (int (data_off (take (Suc j) ps) + length (snd (ps ! j)))) (int (length (fst (ps ! j)))) = fst (ps ! j)"
    "data_off (take (Suc j) ps) + length (snd (ps ! j)) + length (fst (ps ! j)) = data_off (take j ps)"
    "data_off (take j ps) \<le> 1024"
proof -
  note d = page_hasD [OF p]
  let ?a = "pair_data (drop (Suc j) ps)" and ?b = "pair_data (take (Suc j) ps)"
  have dec: "pair_data ps = ?a @ ?b"
    by (metis append_take_drop_id pair_data_simps(4))
  have b: "?b = snd (ps ! j) @ fst (ps ! j) @ pair_data (take j ps)"
    using j by (simp add: take_Suc_conv_app_nth)
  have off: "data_off (take (Suc j) ps) = data_off ps + length ?a"
    using d(2) dec by (simp add: data_off_def)
  have "drop (data_off (take (Suc j) ps)) pag = drop (length ?a) (drop (data_off ps) pag)"
    unfolding off by (simp add: add.commute)
  also have "\<dots> = ?b" unfolding d(6) dec by simp
  finally have dr: "drop (data_off (take (Suc j) ps)) pag = ?b" .
  then show "item_at pag (int (data_off (take (Suc j) ps))) (int (length (snd (ps ! j)))) = snd (ps ! j)"
    by (simp add: item_at_def b)
  have "drop (data_off (take (Suc j) ps) + length (snd (ps ! j))) pag = drop (length (snd (ps ! j))) ?b"
    unfolding dr [symmetric] by (simp add: add.commute)
  then show "item_at pag (int (data_off (take (Suc j) ps) + length (snd (ps ! j)))) (int (length (fst (ps ! j)))) = fst (ps ! j)"
    by (simp add: item_at_def b nat_int_add)
  have "length ?b \<le> 1024" using d(2) dec by simp
  then show "data_off (take (Suc j) ps) + length (snd (ps ! j)) + length (fst (ps ! j)) = data_off (take j ps)"
    by (simp add: data_off_def b)
  show "data_off (take j ps) \<le> 1024" by (simp add: data_off_def)
qed

lemma page_empty: "page_has le (replicate 1024 0) []"
  by (simp add: page_has_def get_ino_def short_of_def)

subsection \<open>Insertion\<close>

lemma fitpair_iff:
  "page_has le pag ps \<Longrightarrow> fitpair le pag (int need) \<longleftrightarrow> 4 * length ps + 6 + need + length (pair_data ps) \<le> 1024"
  using page_hasD(2) [of le pag ps] by (auto simp: fitpair_def last_off page_hasD(3) data_off_def Let_def)

lemma putpair_has:
  assumes p: "page_has le pag ps" and fit: "4 * length ps + 6 + length k + length v + length (pair_data ps) \<le> 1024"
  shows "page_has le (putpair le pag k v) (ps @ [(k, v)])"
proof -
  note d = page_hasD [OF p]
  let ?n = "length ps" and ?L = "length (pair_data ps)"
  define o1 where "o1 = data_off ps - length k"
  define o2 where "o2 = o1 - length v"
  have o: "o1 + length k = data_off ps" "o2 + length v = o1" "4 * ?n + 6 \<le> o2" "data_off ps = 1024 - ?L" "o1 \<le> 1024" "o2 \<le> 1024"
    using fit by (simp_all add: o1_def o2_def data_off_def)
  define p1 where "p1 = memcpy_at pag o1 k"
  define p2 where "p2 = set_ino le p1 (2 * ?n + 1) (int o1)"
  define p3 where "p3 = memcpy_at p2 o2 v"
  define p4 where "p4 = set_ino le p3 (2 * ?n + 2) (int o2)"
  define p5 where "p5 = set_ino le p4 0 (2 * int ?n + 2)"
  have l: "length p1 = 1024" "length p2 = 1024" "length p3 = 1024" "length p4 = 1024" "length p5 = 1024"
    using d(1) o by (auto simp: p1_def p2_def p3_def p4_def p5_def memcpy_simps)
  have i: "get_ino le p3 j = (if j = 2 * ?n + 1 then int o1 else get_ino le pag j)" if "j \<le> 2 * ?n + 2" for j
    unfolding p3_def p2_def p1_def
    using that o d(1) l by (simp add: get_ino_memcpy get_set_ino memcpy_simps p1_def)
  have ino: "get_ino le p5 j = (if j = 0 then 2 * int ?n + 2 else if j = 2 * ?n + 2 then int o2 else
      if j = 2 * ?n + 1 then int o1 else get_ino le pag j)" if "j \<le> 2 * ?n + 2" for j
    unfolding p5_def p4_def using that o l i by (simp add: get_set_ino)
  have "drop o2 p5 = drop o2 p3" unfolding p5_def p4_def using o by (simp add: drop_set_ino)
  also have "\<dots> = v @ drop o1 p2" unfolding p3_def using o l by (simp add: drop_memcpy)
  also have "drop o1 p2 = k @ drop (data_off ps) pag" unfolding p2_def p1_def using o d(1)
    by (simp add: drop_set_ino drop_memcpy)
  finally have data: "drop o2 p5 = pair_data (ps @ [(k, v)])" using d(6) by simp
  have eq: "putpair le pag k v = p5"
  proof -
    have g: "get_ino le p4 0 = 2 * int ?n"
      using i [of 0] d(3) l o unfolding p4_def by (simp add: get_set_ino)
    have e: "int (data_off ps) - int (length k) = int o1" "int o1 - int (length v) = int o2"
      "nat (2 * int ?n + 1) = 2 * ?n + 1" "nat (2 * int ?n + 2) = 2 * ?n + 2"
      using o by (simp_all add: nat_add_distrib nat_mult_distrib)
    show ?thesis
      unfolding putpair_def Let_def last_off [OF p] d(3) e nat_int
      using g by (simp add: p5_def p4_def p3_def p2_def p1_def)
  qed
  have o2: "data_off (ps @ [(k, v)]) = o2" using o by (simp add: data_off_def)
  show ?thesis unfolding page_has_def eq
  proof (intro conjI allI impI)
    show "length p5 = 1024" by (rule l)
    show "4 * length (ps @ [(k, v)]) + 2 + length (pair_data (ps @ [(k, v)])) \<le> 1024" using fit by simp
    show "get_ino le p5 0 = 2 * int (length (ps @ [(k, v)]))" using ino [of 0] by simp
    show "drop (data_off (ps @ [(k, v)])) p5 = pair_data (ps @ [(k, v)])" unfolding o2 by (rule data)
    fix j assume "j < length (ps @ [(k, v)])"
    then have j: "j < ?n \<or> j = ?n" by auto
    have par: "2 * j + 1 \<noteq> 2 * ?n + 2" "2 * j + 2 \<noteq> 2 * ?n + 1" by presburger+
    show "get_ino le p5 (2 * j + 1) = int (data_off (take (Suc j) (ps @ [(k, v)])) + length (snd ((ps @ [(k, v)]) ! j)))"
      using j ino [of "2 * j + 1"] d(4) [of j] par o o2 by (auto simp: nth_append)
    show "get_ino le p5 (2 * j + 2) = int (data_off (take (Suc j) (ps @ [(k, v)])))"
      using j ino [of "2 * j + 2"] d(5) [of j] par o o2 by (auto simp: nth_append)
  qed
qed

subsection \<open>Lookup\<close>

text \<open>The position of the first pair with a key.\<close>

fun key_pos :: "byte list \<Rightarrow> pair list \<Rightarrow> nat option" where
  "key_pos key [] = None"
| "key_pos key (p # ps) = (if fst p = key then Some 0 else map_option Suc (key_pos key ps))"

lemma key_pos_Some:
  "key_pos key ps = Some j \<longleftrightarrow> j < length ps \<and> fst (ps ! j) = key \<and> (\<forall>i < j. fst (ps ! i) \<noteq> key)"
proof (induction ps arbitrary: j)
  case (Cons p ps)
  show ?case
  proof (cases j)
    case 0
    then show ?thesis by auto
  next
    case (Suc i)
    have "(\<forall>l < Suc i. fst ((p # ps) ! l) \<noteq> key) \<longleftrightarrow> fst p \<noteq> key \<and> (\<forall>l < i. fst (ps ! l) \<noteq> key)"
      by (auto simp: less_Suc_eq_0_disj)
    then show ?thesis using Suc Cons [of i] by auto
  qed
qed simp

lemma key_pos_None: "key_pos key ps = None \<longleftrightarrow> key \<notin> fst ` set ps"
  by (induction ps) auto

lemma seepair_loop_has:
  assumes p: "page_has le pag ps"
  shows "j \<le> length ps \<Longrightarrow> seepair_loop le pag (2 * int (length ps)) key (2 * j + 1) (int (data_off (take j ps))) =
    (case key_pos key (drop j ps) of None \<Rightarrow> 0 | Some i \<Rightarrow> 2 * (j + i) + 1)"
proof (induction "length ps - j" arbitrary: j)
  case 0
  then show ?case by (subst seepair_loop.simps) simp
next
  case (Suc m)
  then have j: "j < length ps" by simp
  note d = page_hasD(4,5) [OF p j] and b = pair_bytes [OF p j]
  have "int (length key) = int (data_off (take j ps)) - get_ino le pag (2 * j + 1) \<and>
      key = item_at pag (get_ino le pag (2 * j + 1)) (int (length key)) \<longleftrightarrow> fst (ps ! j) = key"
    (is "?l \<longleftrightarrow> ?r")
  proof
    assume ?r
    then show ?l using b(2) unfolding d(1) b(3) [symmetric] by auto
  next
    assume l: ?l
    then have "length key = length (fst (ps ! j))" unfolding d(1) b(3) [symmetric] by simp
    then show ?r using l b(2) unfolding d(1) by simp
  qed
  moreover have "drop j ps = ps ! j # drop (Suc j) ps" using j by (simp add: Cons_nth_drop_Suc)
  moreover have "2 * j + 1 + 2 = 2 * Suc j + 1" "2 * j + 1 + 1 = 2 * j + 2" "int (2 * j + 1) < 2 * int (length ps)"
    using j by simp_all
  ultimately show ?case using Suc(1) [of "Suc j"] Suc(2) j d(2)
    by (subst seepair_loop.simps) (auto split: option.splits)
qed

lemma seepair_has:
  "page_has le pag ps \<Longrightarrow>
     seepair le pag (get_ino le pag 0) key = (case key_pos key ps of None \<Rightarrow> 0 | Some i \<Rightarrow> 2 * i + 1)"
  using seepair_loop_has [of le pag ps 0 key] by (simp add: seepair_def page_hasD(3) cong: option.case_cong)

lemma seepair_n: "page_has le pag ps \<Longrightarrow>
     seepair le pag (2 * int (length ps)) key = (case key_pos key ps of None \<Rightarrow> 0 | Some i \<Rightarrow> 2 * i + 1)"
  using seepair_has [of le pag ps key] by (simp add: page_hasD(3))

text \<open>\<open>assoc\<close>: the first value of a key; \<open>getpair\<close> returns it.\<close>

lemma getpair_has: "page_has le pag ps \<Longrightarrow> getpair le pag key = map_of ps key"
proof -
  assume p: "page_has le pag ps"
  have m: "map_of ps key = (case key_pos key ps of None \<Rightarrow> None | Some j \<Rightarrow> Some (snd (ps ! j)))"
    by (induction ps) (auto split: option.splits)
  show ?thesis
  proof (cases "key_pos key ps")
    case None
    then show ?thesis by (simp add: getpair_def Let_def seepair_n [OF p] page_hasD(3) [OF p] m)
  next
    case (Some j)
    then have j: "j < length ps" by (simp add: key_pos_Some)
    note d = page_hasD(4,5) [OF p j] and b = pair_bytes(1) [OF p j]
    have "get_ino le pag (2 * j + 1 + 1) = int (data_off (take (Suc j) ps))" using d(2) by simp
    then show ?thesis using Some j d(1) b length_pos_if_in_set
      by (auto simp add: getpair_def Let_def seepair_n [OF p] page_hasD(3) [OF p] m)
  qed
qed

lemma duppair_has: "page_has le pag ps \<Longrightarrow> duppair le pag key \<longleftrightarrow> key \<in> fst ` set ps"
  using key_pos_None [of key ps]
  by (cases "key_pos key ps") (auto simp: duppair_def seepair_n page_hasD(3))

lemma getnkey_has:
  assumes p: "page_has le pag ps" and n: "n > 0"
  shows "getnkey le pag (int n) = (if n \<le> length ps then Some (fst (ps ! (n - 1))) else None)"
proof (cases "n \<le> length ps")
  case True
  obtain j where nj: "n = Suc j" "j < length ps" using n True by (cases n) auto
  note d = page_hasD(4,5) [OF p nj(2)] and b = pair_bytes [OF p nj(2)]
  have off: "(if int n * 2 - 1 > 1 then get_ino le pag (nat (int n * 2 - 1 - 1)) else int PBLKSIZ) = int (data_off (take j ps))"
  proof (cases j)
    case 0
    then show ?thesis by (simp add: nj)
  next
    case (Suc i)
    then have "nat (int n * 2 - 1 - 1) = 2 * i + 2" by (simp add: nj nat_eq_iff)
    then show ?thesis using page_hasD(5) [OF p, of i] nj Suc by simp
  qed
  have e: "nat (int n * 2 - 1) = 2 * j + 1" by (simp add: nj nat_eq_iff)
  have g: "(get_ino le pag 0 = 0 \<or> int n * 2 - 1 > get_ino le pag 0) = False"
    using nj page_hasD(3) [OF p] by (cases ps) simp_all
  show ?thesis
    unfolding getnkey_def Let_def off e g if_False d(1) using b(2) True
    by (simp add: b(3) [symmetric]) (simp add: nj)
next
  case False
  then show ?thesis using page_hasD(3) [OF p] by (simp add: getnkey_def Let_def)
qed

subsection \<open>Deletion\<close>

fun del_first :: "byte list \<Rightarrow> pair list \<Rightarrow> pair list" where
  "del_first key [] = []"
| "del_first key (p # ps) = (if fst p = key then ps else p # del_first key ps)"

lemma del_first_pos:
  "del_first key ps = (case key_pos key ps of None \<Rightarrow> ps | Some j \<Rightarrow> take j ps @ drop (Suc j) ps)"
  by (induction ps) (auto split: option.splits)

lemma delpair_loop_ino:
  "length pag = 1024 \<Longrightarrow> n < 512 \<Longrightarrow>
     \<forall>j. i + 2 \<le> j \<and> j \<le> n \<longrightarrow> 0 \<le> get_ino le pag j + zoo \<and> get_ino le pag j + zoo \<le> 1024 \<Longrightarrow>
     length (delpair_loop le pag i (int n) zoo) = 1024 \<and>
     (\<forall>j < 512. get_ino le (delpair_loop le pag i (int n) zoo) j =
        (if i \<le> j \<and> j + 1 < n then get_ino le pag (j + 2) + zoo else get_ino le pag j)) \<and>
     (\<forall>off. 2 * n \<le> off \<longrightarrow> drop off (delpair_loop le pag i (int n) zoo) = drop off pag)"
proof (induction "n - i" arbitrary: i pag)
  case 0
  then show ?case by (subst (1 2 3) delpair_loop.simps) auto
next
  case (Suc m)
  show ?case
  proof (cases "i + 1 < n")
    case False
    then show ?thesis using Suc by (subst (1 2 3) delpair_loop.simps) auto
  next
    case True
    let ?p = "set_ino le pag i (get_ino le pag (i + 2) + zoo)"
    have b: "0 \<le> get_ino le pag (i + 2) + zoo" "get_ino le pag (i + 2) + zoo \<le> 1024" using Suc(5) True by auto
    have g: "get_ino le ?p j = (if i = j then get_ino le pag (i + 2) + zoo else get_ino le pag j)" if "j < 512" for j
      by (rule get_set_ino) (use Suc that True b in auto)
    have st: "delpair_loop le pag i (int n) zoo = delpair_loop le ?p (i + 1) (int n) zoo"
      using True by (subst delpair_loop.simps) simp
    have IH: "length (delpair_loop le ?p (i + 1) (int n) zoo) = 1024 \<and>
     (\<forall>j < 512. get_ino le (delpair_loop le ?p (i + 1) (int n) zoo) j =
        (if i + 1 \<le> j \<and> j + 1 < n then get_ino le ?p (j + 2) + zoo else get_ino le ?p j)) \<and>
     (\<forall>off. 2 * n \<le> off \<longrightarrow> drop off (delpair_loop le ?p (i + 1) (int n) zoo) = drop off ?p)"
      by (rule Suc(1)) (use Suc(2-5) g in auto)
    show ?thesis unfolding st
    proof (intro conjI allI impI)
      show "length (delpair_loop le ?p (i + 1) (int n) zoo) = 1024" using IH by blast
      fix off assume "2 * n \<le> off"
      then show "drop off (delpair_loop le ?p (i + 1) (int n) zoo) = drop off pag"
        using IH True by (simp add: drop_set_ino)
    next
      fix j assume j: "j < (512 :: nat)"
      then have "get_ino le (delpair_loop le ?p (i + 1) (int n) zoo) j =
        (if i + 1 \<le> j \<and> j + 1 < n then get_ino le ?p (j + 2) + zoo else get_ino le ?p j)" using IH by blast
      then show "get_ino le (delpair_loop le ?p (i + 1) (int n) zoo) j =
        (if i \<le> j \<and> j + 1 < n then get_ino le pag (j + 2) + zoo else get_ino le pag j)"
        using g [OF j] g [of "j + 2"] Suc(4) True j by auto
    qed
  qed
qed

lemma delpair_has:
  assumes p: "page_has le pag ps"
  shows "fst (delpair le pag key) \<longleftrightarrow> key \<in> fst ` set ps"
    "page_has le (snd (delpair le pag key)) (del_first key ps)"
proof -
  have "(fst (delpair le pag key) \<longleftrightarrow> key \<in> fst ` set ps) \<and> page_has le (snd (delpair le pag key)) (del_first key ps)"
  proof (cases "key_pos key ps")
    case None
    note d0 = page_hasD(3) [OF p]
    from None have "delpair le pag key = (False, pag)" by (simp add: delpair_def Let_def seepair_n [OF p] d0)
    then show ?thesis using None p key_pos_None [of key ps] by (simp add: del_first_pos)
  next
    case (Some j)
    then have j: "j < length ps" by (simp add: key_pos_Some)
    let ?n = "length ps" and ?a = "take j ps" and ?c = "drop (Suc j) ps"
    obtain k v where kv: "ps ! j = (k, v)" by (cases "ps ! j")
    have dec: "ps = ?a @ (k, v) # ?c" using j kv by (metis id_take_nth_drop)
    have df: "del_first key ps = ?a @ ?c" using Some by (simp add: del_first_pos)
    note d = page_hasD [OF p] and bj = pair_bytes [OF p j]
    have data: "pair_data ps = pair_data ?c @ v @ k @ pair_data ?a" by (subst dec) simp
    have see: "seepair le pag (2 * int ?n) key = 2 * j + 1" using seepair_n [OF p, of key] Some by simp
    have n0: "(2 * int ?n = 0) = False" using j by auto
    define off where "off = data_off ps"
    define z where "z = length k + length v"
    have offs: "data_off (take (Suc j) ps) = off + length (pair_data ?c)" "data_off ?a = off + length (pair_data ?c) + z"
      "data_off (?a @ ?c) = off + z" "off + length (pair_data ?c) + z + length (pair_data ?a) = 1024" "4 * ?n + 2 \<le> off"
      using d(2) data j kv by (simp_all add: off_def z_def data_off_def take_Suc_conv_app_nth)
    have r: "\<exists>q. delpair le pag key = (True, set_ino le q 0 (2 * int ?n - 2)) \<and> length q = 1024 \<and>
        get_ino le q 0 = 2 * int ?n \<and>
        (\<forall>m < ?n - 1. get_ino le q (2 * m + 1) = (if m < j then get_ino le pag (2 * m + 1) else get_ino le pag (2 * m + 3) + int z) \<and>
           get_ino le q (2 * m + 2) = (if m < j then get_ino le pag (2 * m + 2) else get_ino le pag (2 * m + 4) + int z)) \<and>
        drop (off + z) q = pair_data (?a @ ?c)"
    proof (cases "j = ?n - 1")
      case True
      then have c: "?c = []" "Suc j = ?n" using j by auto
      have dp: "delpair le pag key = (True, set_ino le pag 0 (2 * int ?n - 2))"
      proof -
        have nlt: "(int (2 * j + 1) < 2 * int ?n - 1) = False" "(2 * j + 1 = 0) = False" using True j by auto
        show ?thesis unfolding delpair_def Let_def d(3) n0 if_False see nlt ..
      qed
      have "drop (off + z) pag = drop z (drop off pag)" by (simp add: add.commute)
      also have "\<dots> = pair_data ?a" using d(6) data c by (simp add: off_def z_def)
      finally show ?thesis using dp c d(1,3) True by (intro exI [of _ pag]) auto
    next
      case False
      then have lt: "int (2 * j + 1) < 2 * int ?n - 1" using j by linarith
      have dst: "(if 2 * j + 1 = 1 then int PBLKSIZ else get_ino le pag (2 * j + 1 - 1)) = int (data_off ?a)"
      proof (cases j)
        case (Suc i)
        then show ?thesis using page_hasD(5) [OF p, of i] j by simp
      qed simp
      have src: "get_ino le pag (2 * j + 1 + 1) = int (data_off (take (Suc j) ps))" using d(5) [OF j] by simp
      have lst: "get_ino le pag (nat (2 * int ?n)) = int off"
        using last_off [OF p] d(3) j by (auto simp: last_off_def off_def Let_def split: if_splits)
      define m where "m = length (pair_data ?c)"
      have e: "int (data_off ?a) - int (data_off (take (Suc j) ps)) = int z"
        "int (data_off (take (Suc j) ps)) - int off = int m" "nat (int (data_off ?a) - int m) = off + z"
        "int (data_off (take (Suc j) ps)) - int m = int off"
        using offs by (simp_all add: m_def)
      define q1 where "q1 = memcpy_at pag (off + z) (item_at pag (int off) (int m))"
      define q where "q = delpair_loop le q1 (2 * j + 1) (2 * int ?n) (int z)"
      have n2: "2 * int ?n = int (2 * ?n)" by simp
      have it: "item_at pag (int off) (int m) = pair_data ?c"
        using d(6) data by (simp add: item_at_def off_def m_def)
      have lq: "length q1 = 1024" unfolding q1_def it using d(1) offs by (simp add: memcpy_simps m_def)
      have g1: "get_ino le q1 i = get_ino le pag i" if "i \<le> 2 * ?n" for i
        unfolding q1_def by (rule get_ino_memcpy) (use that offs d(1) in auto)
      have rng: "0 \<le> get_ino le q1 i + int z \<and> get_ino le q1 i + int z \<le> 1024" if i: "2 * j + 1 + 2 \<le> i \<and> i \<le> 2 * ?n" for i
      proof -
        define l where "l = (i - 1) div 2"
        have l: "j < l" "l < ?n" "i = 2 * l + 1 \<or> i = 2 * l + 2" using i by (auto simp: l_def) 
        have "data_off (take l ps) + z \<le> 1024"
        proof -
          have "pair_data (take l ps) = pair_data (take (l - Suc j) ?c) @ v @ k @ pair_data ?a"
            using l(1) by (subst dec) (simp add: take_Cons' min_def)
          then show ?thesis using pair_data_take [of l ps] d(2) by (simp add: z_def data_off_def)
        qed
        then show ?thesis
          using l(3) g1 [of i] i d(4,5) [OF l(2)] pair_bytes(3) [OF p l(2)] by auto
      qed
      have q: "length q = 1024" "\<And>i. i < 512 \<Longrightarrow> get_ino le q i =
          (if 2 * j + 1 \<le> i \<and> i + 1 < 2 * ?n then get_ino le q1 (i + 2) + int z else get_ino le q1 i)"
        "\<And>i. 2 * (2 * ?n) \<le> i \<Longrightarrow> drop i q = drop i q1"
        using delpair_loop_ino [of q1 "2 * ?n" "2 * j + 1" le "int z"] lq rng offs unfolding q_def n2 by auto
      have dl: "delpair le pag key = (True, set_ino le q 0 (2 * int ?n - 2))"
      proof -
        have c: "(2 * j + 1 = 0) = False" "(int (2 * j + 1) < 2 * int ?n - 1) = True" using lt by auto
        have "delpair le pag key = (True, set_ino le q 0 (get_ino le q 0 - 2))"
          unfolding delpair_def Let_def d(3) n0 if_False see c if_True dst src lst e q_def q1_def ..
        moreover have "get_ino le q 0 = 2 * int ?n" using q(2) g1 [of 0] d(3) by simp
        ultimately show ?thesis by simp
      qed
      show ?thesis
      proof (intro exI [of _ q] conjI allI impI)
        show "delpair le pag key = (True, set_ino le q 0 (2 * int ?n - 2))" by (rule dl)
        show "length q = 1024" by (rule q(1))
        show "get_ino le q 0 = 2 * int ?n" using q(2) g1 [of 0] d(3) by simp
        have "drop (off + z) q = drop (off + z) q1" using q(3) offs by simp
        also have "\<dots> = pair_data ?c @ drop (off + z + m) pag"
          unfolding q1_def it using drop_memcpy [of "off + z" pag "pair_data ?c"] offs d(1) by (simp add: m_def)
        also have "drop (off + z + m) pag = drop (z + m) (drop off pag)" by (simp add: ac_simps)
        also have "\<dots> = pair_data ?a" using d(6) data by (simp add: off_def z_def m_def)
        finally show "drop (off + z) q = pair_data (?a @ ?c)" by simp
        fix l assume l: "l < ?n - 1"
        have par: "2 * j + 1 \<le> 2 * l + 1 \<longleftrightarrow> j \<le> l" "2 * j + 1 \<le> 2 * l + 2 \<longleftrightarrow> j \<le> l" by presburger+
        have q': "get_ino le q (2 * l + 1) = (if 2 * j + 1 \<le> 2 * l + 1 \<and> 2 * l + 1 + 1 < 2 * ?n then get_ino le q1 (2 * l + 1 + 2) + int z else get_ino le q1 (2 * l + 1))"
          "get_ino le q (2 * l + 2) = (if 2 * j + 1 \<le> 2 * l + 2 \<and> 2 * l + 2 + 1 < 2 * ?n then get_ino le q1 (2 * l + 2 + 2) + int z else get_ino le q1 (2 * l + 2))"
          using q(2) l offs by auto
        have i: "2 * l + 1 + 2 = 2 * l + 3" "2 * l + 2 + 2 = 2 * l + 4" "2 * l + 1 + 1 < 2 * ?n" "2 * l + 2 + 1 < 2 * ?n"
          using l by auto
        show "get_ino le q (2 * l + 1) = (if l < j then get_ino le pag (2 * l + 1) else get_ino le pag (2 * l + 3) + int z)"
          unfolding q'(1) i(1) par using g1 [of "2 * l + 1"] g1 [of "2 * l + 3"] i l by auto
        show "get_ino le q (2 * l + 2) = (if l < j then get_ino le pag (2 * l + 2) else get_ino le pag (2 * l + 4) + int z)"
          unfolding q'(2) i(2) par using g1 [of "2 * l + 2"] g1 [of "2 * l + 4"] i l by auto
      qed
    qed
    then obtain q where q: "delpair le pag key = (True, set_ino le q 0 (2 * int ?n - 2))" "length q = 1024"
      "drop (off + z) q = pair_data (?a @ ?c)"
      and qi: "\<And>m. m < ?n - 1 \<Longrightarrow> get_ino le q (2 * m + 1) = (if m < j then get_ino le pag (2 * m + 1) else get_ino le pag (2 * m + 3) + int z)"
        "\<And>m. m < ?n - 1 \<Longrightarrow> get_ino le q (2 * m + 2) = (if m < j then get_ino le pag (2 * m + 2) else get_ino le pag (2 * m + 4) + int z)"
      by blast
    let ?q = "set_ino le q 0 (2 * int ?n - 2)" and ?r = "?a @ ?c"
    have n512: "?n < 256" using d(2) by simp
    have gq: "get_ino le ?q i = (if i = 0 then 2 * int ?n - 2 else get_ino le q i)" if "i < 512" for i
      using get_set_ino [of q 0 i "2 * int ?n - 2" le] q(2) that n512 by auto
    have key: "key \<in> fst ` set ps" using Some key_pos_None [of key ps] by auto
    have "page_has le ?q ?r" unfolding page_has_def
    proof (intro conjI allI impI)
      show "length ?q = 1024" using q(2) by simp
      show "4 * length ?r + 2 + length (pair_data ?r) \<le> 1024" using d(2) data j by simp
      show "get_ino le ?q 0 = 2 * int (length ?r)" using gq [of 0] j by simp
      show "drop (data_off ?r) ?q = pair_data ?r" unfolding offs(3) using q(3) offs(5) by (simp add: drop_set_ino)
      fix m assume m: "m < length ?r"
      then have mn: "m < ?n - 1" "m < ?n" using j by auto
      have lt: "2 * m + 1 < 512" "2 * m + 2 < 512" using mn n512 by auto
      have "get_ino le ?q (2 * m + 1) = int (data_off (take (Suc m) ?r) + length (snd (?r ! m))) \<and>
          get_ino le ?q (2 * m + 2) = int (data_off (take (Suc m) ?r))"
      proof (cases "m < j")
        case True
        then have r: "take (Suc m) ?r = take (Suc m) ps" "?r ! m = ps ! m" using j by (auto simp: nth_append min_def)
        show ?thesis unfolding r using qi [OF mn(1)] gq [OF lt(1)] gq [OF lt(2)] d(4,5) [OF mn(2)] True by simp
      next
        case False
        then have sm: "Suc m < ?n" using mn by simp
        have nth: "?r ! m = ps ! Suc m" using False j sm by (simp add: nth_append)
        have tk: "take (Suc m) ?r = ?a @ take (Suc m - j) ?c" using False j by (simp add: min_def)
        have "take (Suc (Suc m)) ps = ?a @ (k, v) # take (Suc m - j) ?c"
          using False j by (subst dec) (simp add: min_def Suc_diff_le)
        then have o: "data_off (take (Suc m) ?r) = data_off (take (Suc (Suc m)) ps) + z"
          using pair_data_take [of "Suc (Suc m)" ps] d(2) unfolding tk
          by (simp add: data_off_def z_def)
        have e: "2 * Suc m + 1 = 2 * m + 3" "2 * Suc m + 2 = 2 * m + 4" by simp_all
        show ?thesis
          using qi [OF mn(1)] gq [OF lt(1)] gq [OF lt(2)] d(4,5) [OF sm] False by (simp only: e o nth) simp
      qed
      then show "get_ino le ?q (2 * m + 1) = int (data_off (take (Suc m) ?r) + length (snd (?r ! m)))"
        "get_ino le ?q (2 * m + 2) = int (data_off (take (Suc m) ?r))" by blast+
    qed
    then show ?thesis unfolding q(1) df using key by simp
  qed
  then show "fst (delpair le pag key) \<longleftrightarrow> key \<in> fst ` set ps" "page_has le (snd (delpair le pag key)) (del_first key ps)"
    by blast+
qed

subsection \<open>Splitting\<close>

definition pairs_size :: "pair list \<Rightarrow> nat" where
  "pairs_size ps = (\<Sum>p \<leftarrow> ps. 4 + length (fst p) + length (snd p))"

lemma pairs_size: "pairs_size ps = 4 * length ps + length (pair_data ps)"
  by (induction ps) (simp_all add: pairs_size_def)

lemma pairs_size_filter: "pairs_size (filter P (take j ps)) \<le> pairs_size ps"
proof -
  have "pairs_size (filter P (take j ps)) \<le> pairs_size (take j ps)"
    unfolding pairs_size_def by (rule sum_list_filter_le_nat)
  also have "\<dots> \<le> pairs_size (take j ps @ drop j ps)" by (simp add: pairs_size_def del: append_take_drop_id)
  also have "\<dots> = pairs_size ps" by simp
  finally show ?thesis .
qed

text \<open>A page that has the pairs before \<open>j\<close> that satisfy \<open>P\<close> has room for the pair \<open>j\<close>.\<close>

lemma putpair_filter:
  assumes cur: "page_has le cur ps" and j: "j < length ps" and P: "P (ps ! j)"
    and p: "page_has le pag (filter P (take j ps))"
  shows "page_has le (putpair le pag (fst (ps ! j)) (snd (ps ! j))) (filter P (take (Suc j) ps))"
proof -
  have f: "filter P (take (Suc j) ps) = filter P (take j ps) @ [ps ! j]"
    using j P by (simp add: take_Suc_conv_app_nth)
  have "pairs_size (filter P (take (Suc j) ps)) \<le> 1022"
    using pairs_size_filter [of P "Suc j" ps] pairs_size [of ps] page_hasD(2) [OF cur] by simp
  then have "4 * length (filter P (take j ps)) + 6 + length (fst (ps ! j)) + length (snd (ps ! j)) +
      length (pair_data (filter P (take j ps))) \<le> 1024"
    unfolding f pairs_size by simp
  from putpair_has [OF p this] show ?thesis unfolding f by simp
qed

lemma splpage_loop_has:
  fixes sbit :: u64
  assumes cur: "page_has le cur ps"
  defines "P \<equiv> \<lambda>(k, v). sdbm_hash k AND sbit \<noteq> 0"
  shows "j \<le> length ps \<Longrightarrow> page_has le pag (filter (\<lambda>p. \<not> P p) (take j ps)) \<Longrightarrow> page_has le new (filter P (take j ps)) \<Longrightarrow>
     splpage_loop le cur sbit (2 * j + 1) (2 * (int (length ps) - int j)) (int (data_off (take j ps))) pag new = (pag', new') \<Longrightarrow>
     page_has le pag' (filter (\<lambda>p. \<not> P p) ps) \<and> page_has le new' (filter P ps)"
proof (induction "length ps - j" arbitrary: j pag new)
  case 0
  then show ?case by (subst (asm) splpage_loop.simps) simp
next
  case (Suc m)
  then have j: "j < length ps" by simp
  obtain k v where kv: "ps ! j = (k, v)" by (cases "ps ! j")
  note d = page_hasD(4,5) [OF cur j, unfolded kv fst_conv snd_conv] and b = pair_bytes [OF cur j, unfolded kv fst_conv snd_conv]
  have key: "item_at cur (get_ino le cur (2 * j + 1)) (int (data_off (take j ps)) - get_ino le cur (2 * j + 1)) = k"
  proof -
    have "int (data_off (take j ps)) - get_ino le cur (2 * j + 1) = int (length k)"
      unfolding d(1) b(3) [symmetric] by simp
    then show ?thesis using b(2) unfolding d(1) by (simp only:)
  qed
  have e: "2 * j + 1 + 1 = 2 * j + 2" "2 * j + 1 + 2 = 2 * Suc j + 1" "2 * (int (length ps) - int j) - 2 = 2 * (int (length ps) - int (Suc j))"
    by simp_all
  have val: "item_at cur (int (data_off (take (Suc j) ps))) (get_ino le cur (2 * j + 1) - int (data_off (take (Suc j) ps))) = v"
    unfolding d using b(1) by simp
  have pos: "(2 * (int (length ps) - int j) > 0) = True" using j by simp
  let ?up = "sdbm_hash k AND sbit \<noteq> 0"
  have P: "P (ps ! j) = ?up" by (simp add: P_def kv)
  have step: "splpage_loop le cur sbit (2 * j + 1) (2 * (int (length ps) - int j)) (int (data_off (take j ps))) pag new =
      splpage_loop le cur sbit (2 * Suc j + 1) (2 * (int (length ps) - int (Suc j))) (int (data_off (take (Suc j) ps)))
        (if ?up then pag else putpair le pag k v) (if ?up then putpair le new k v else new)"
    by (subst splpage_loop.simps) (simp only: pos if_True Let_def key val e d(2))
  show ?case
  proof (rule Suc(1))
    show "m = length ps - Suc j" "Suc j \<le> length ps" using Suc(2) j by simp_all
    show "page_has le (if ?up then pag else putpair le pag k v) (filter (\<lambda>p. \<not> P p) (take (Suc j) ps))"
      using Suc(4) putpair_filter [OF cur j, of "\<lambda>p. \<not> P p" pag] P j
      by (auto simp: kv take_Suc_conv_app_nth)
    show "page_has le (if ?up then putpair le new k v else new) (filter P (take (Suc j) ps))"
      using Suc(5) putpair_filter [OF cur j, of P new] P j
      by (auto simp: kv take_Suc_conv_app_nth)
    show "splpage_loop le cur sbit (2 * Suc j + 1) (2 * (int (length ps) - int (Suc j))) (int (data_off (take (Suc j) ps)))
        (if ?up then pag else putpair le pag k v) (if ?up then putpair le new k v else new) = (pag', new')"
      using Suc(6) unfolding step .
  qed
qed

lemma splpage_has:
  assumes "page_has le pag ps" "splpage le pag sbit = (pag', new)"
  shows "page_has le pag' (filter (\<lambda>p. sdbm_hash (fst p) AND sbit = 0) ps)"
    "page_has le new (filter (\<lambda>p. sdbm_hash (fst p) AND sbit \<noteq> 0) ps)"
  using splpage_loop_has [OF assms(1), of 0 "replicate 1024 0" sbit "replicate 1024 0" pag' new] assms(2)
    page_empty [of le] page_hasD(3) [OF assms(1)]
  by (simp_all add: splpage_def case_prod_unfold)

subsection \<open>The check of a page\<close>

lemma chkpage_loop_has:
  assumes p: "page_has le pag ps"
  shows "j \<le> length ps \<Longrightarrow>
     chkpage_loop le pag (2 * j + 1) (2 * (int (length ps) - int j)) (int (data_off (take j ps)))"
proof (induction "length ps - j" arbitrary: j)
  case 0
  then show ?case by (subst chkpage_loop.simps) simp
next
  case (Suc m)
  then have j: "j < length ps" by simp
  note d = page_hasD(4,5) [OF p j] and b = pair_bytes [OF p j]
  have e: "2 * j + 1 + 1 = 2 * j + 2" "2 * j + 1 + 2 = 2 * Suc j + 1" "2 * (int (length ps) - int j) - 2 = 2 * (int (length ps) - int (Suc j))"
    by simp_all
  have pos: "(2 * (int (length ps) - int j) > 0) = True" using j by simp
  have g: "(get_ino le pag (2 * j + 1) > int (data_off (take j ps)) \<or> get_ino le pag (2 * j + 2) > int (data_off (take j ps)) \<or>
      get_ino le pag (2 * j + 2) > get_ino le pag (2 * j + 1)) = False"
    unfolding d b(3) [symmetric] by simp
  show ?case
    by (subst chkpage_loop.simps)
      (use Suc(1) [of "Suc j"] Suc(2) j in \<open>simp only: pos if_True e g if_False d(2) [symmetric]; simp add: d(2)\<close>)
qed

lemma chkpage_has: "page_has le pag ps \<Longrightarrow> chkpage le pag"
  using chkpage_loop_has [of le pag ps 0] page_hasD(2,3) [of le pag ps]
  by (simp add: chkpage_def Let_def)

text \<open>The check has no lower bound: an offset before the page passes it.\<close>

lemma chkpage_negative:
  fixes le :: bool
  defines "pag \<equiv> set_ino le (set_ino le (set_ino le (replicate 1024 0) 1 (-4)) 2 (-8)) 0 2"
  shows "chkpage le pag \<and> get_ino le pag 1 = - 4 \<and> get_ino le pag 2 = - 8"
proof -
  have z: "get_ino le (replicate 1024 0) j = 0" if "j < 512" for j
    using that by (simp add: get_ino_def short_of_def)
  have g: "get_ino le pag 0 = 2" "get_ino le pag 1 = - 4" "get_ino le pag 2 = - 8"
    by (simp_all add: pag_def get_set_ino)
  have e: "(1 :: nat) + 1 = 2" "(2 :: int) - 2 = 0" by simp_all
  have "chkpage_loop le pag (1 + 2) 0 (- 8)" by (subst chkpage_loop.simps) simp
  then have "chkpage_loop le pag 1 2 1024" by (subst chkpage_loop.simps) (simp only: e g; simp)
  then show ?thesis using g by (simp add: chkpage_def)
qed

subsection \<open>The property\<close>

text \<open>
  C20: a well-formed page (the offsets descend from the end of the page and the
  index does not meet the data) passes \<open>chkpage\<close>, and every operation keeps it well formed: a
  pair that \<open>fitpair\<close> admits is appended by \<open>putpair\<close>, \<open>delpair\<close> takes out the first pair of a
  key and closes the gap, \<open>splpage\<close> distributes the pairs over two pages in their order, and
  \<open>getpair\<close> and \<open>duppair\<close> find exactly the first pair of a key.
\<close>

theorem page_ops_typed:
  assumes "page_has le pag ps"
  shows "chkpage le pag \<and> getpair le pag key = map_of ps key \<and> (duppair le pag key \<longleftrightarrow> key \<in> fst ` set ps) \<and>
    (fitpair le pag (int (length key + length val)) \<longrightarrow> page_has le (putpair le pag key val) (ps @ [(key, val)])) \<and>
    (fst (delpair le pag key) \<longleftrightarrow> key \<in> fst ` set ps) \<and> page_has le (snd (delpair le pag key)) (del_first key ps) \<and>
    page_has le (fst (splpage le pag sbit)) (filter (\<lambda>p. sdbm_hash (fst p) AND sbit = 0) ps) \<and>
    page_has le (snd (splpage le pag sbit)) (filter (\<lambda>p. sdbm_hash (fst p) AND sbit \<noteq> 0) ps)"
proof (intro conjI impI)
  assume "fitpair le pag (int (length key + length val))"
  then show "page_has le (putpair le pag key val) (ps @ [(key, val)])"
    unfolding fitpair_iff [OF assms] by (intro putpair_has [OF assms]) simp
qed (use assms chkpage_has getpair_has duppair_has delpair_has splpage_has [of le pag ps sbit] in \<open>auto simp: prod_eq_iff\<close>)

theorem page_ops_typed_witness:
  "page_has True (putpair True (replicate 1024 0) [107] [118]) [([107], [118])] \<and>
   getpair True (putpair True (replicate 1024 0) [107] [118]) [107] = Some [118] \<and>
   page_has True (snd (delpair True (putpair True (replicate 1024 0) [107] [118]) [107])) []"
proof -
  have "fitpair True (replicate 1024 0) (int (length [107 :: byte] + length [118 :: byte]))"
    unfolding fitpair_iff [OF page_empty] by simp
  then have p: "page_has True (putpair True (replicate 1024 0) [107] [118]) [([107], [118])]"
    using page_ops_typed [OF page_empty, of True "[107]" "[118]"] by simp
  show ?thesis using p page_ops_typed [OF p, of "[107]"] by simp
qed

end
