(* ===== verification/Apu_Sdbm.thy ===== *)
theory Apu_Sdbm
  imports Apu_Sdbm_Page
begin

text \<open>
  An SDBM database (\<open>src/log4cxx/apr-util-1.5.4/dbm/sdbm/sdbm.c\<close>, \<open>sdbm_lock.c\<close>): pages are
  found by extendible hashing over a directory of bits. A file is the list of its blocks, a block
  of zeros where nothing was written. Every call of a file operation takes its outcome off \<open>io\<close>: None
  or an exhausted list is success, Some a status with the bytes a failed read leaves in the
  buffer; a failed write changes nothing. One process uses the files.
\<close>

unbundle bit_operations_syntax

subsection \<open>State\<close>

type_synonym blocks = "byte list list"

record sdbm =
  le :: bool
  dirf :: blocks
  pagf :: blocks
  pagpos :: nat
  io :: "(apr_status \<times> byte list) option list"
  rdonly :: bool
  shared :: bool
  shared_lock :: bool
  exclusive_lock :: bool
  maxbno :: nat
  curbit :: nat
  hmask :: u64
  blkptr :: int
  keyptr :: int
  pagbno :: int
  pagbuf :: page
  dirbno :: int
  dirbuf :: "byte list"
  lckcnt :: int

definition zeros :: "nat \<Rightarrow> byte list" where "zeros n = replicate n 0"

subsection \<open>Files\<close>

definition io_call :: "sdbm \<Rightarrow> (apr_status \<times> byte list) option \<times> sdbm" where
  "io_call db = (case io db of [] \<Rightarrow> (None, db) | x # xs \<Rightarrow> (x, db\<lparr>io := xs\<rparr>))"

text \<open>\<open>read_from\<close> of a block: the status, the buffer and the position in the file after it.\<close>

definition read_from :: "sdbm \<Rightarrow> blocks \<Rightarrow> nat \<Rightarrow> byte list \<Rightarrow> nat \<Rightarrow> nat \<Rightarrow> apr_status \<times> byte list \<times> nat \<times> sdbm" where
  "read_from db f pos buf b len =
     (case io_call db of
        (Some (status, _), db) \<Rightarrow> if status = APR_EOF then (APR_SUCCESS, zeros len, pos, db) else (status, buf, pos, db)
      | (None, db) \<Rightarrow>
          (case io_call db of
             (Some (status, junk), db) \<Rightarrow> if status = APR_EOF then (APR_SUCCESS, zeros len, b, db) else (status, junk, b, db)
           | (None, db) \<Rightarrow>
               if b < length f then (APR_SUCCESS, f ! b, Suc b, db) else (APR_SUCCESS, zeros len, b, db)))"

definition put_block :: "nat \<Rightarrow> blocks \<Rightarrow> nat \<Rightarrow> byte list \<Rightarrow> blocks" where
  "put_block len f b buf =
     (if b < length f then f[b := buf] else f @ replicate (b - length f) (zeros len) @ [buf])"

text \<open>A seek and a full write.\<close>

definition write_block :: "sdbm \<Rightarrow> nat \<Rightarrow> blocks \<Rightarrow> nat \<Rightarrow> nat \<Rightarrow> byte list \<Rightarrow> apr_status \<times> blocks \<times> nat \<times> sdbm" where
  "write_block db len f pos b buf =
     (case io_call db of
        (Some (status, _), db) \<Rightarrow> (status, f, pos, db)
      | (None, db) \<Rightarrow>
          (case io_call db of
             (Some (status, _), db) \<Rightarrow> (status, f, b, db)
           | (None, db) \<Rightarrow> (APR_SUCCESS, put_block len f b buf, Suc b, db)))"

definition write_page :: "sdbm \<Rightarrow> page \<Rightarrow> nat \<Rightarrow> apr_status \<times> sdbm" where
  "write_page db buf pagno =
     (case write_block db PBLKSIZ (pagf db) (pagpos db) pagno buf of
        (status, f, pos, db) \<Rightarrow> (status, db\<lparr>pagf := f, pagpos := pos\<rparr>))"

subsection \<open>Locks\<close>

definition APR_FLOCK_SHARED :: u32 where "APR_FLOCK_SHARED = 1"
definition APR_FLOCK_EXCLUSIVE :: u32 where "APR_FLOCK_EXCLUSIVE = 2"
definition APR_FLOCK_TYPEMASK :: u32 where "APR_FLOCK_TYPEMASK = 0xf"

definition SDBM_INVALIDATE_CACHE :: "sdbm \<Rightarrow> sdbm" where
  "SDBM_INVALIDATE_CACHE db =
     db\<lparr>dirbno := (if length (dirf db) = 0 then 0 else -1), pagbno := -1, maxbno := DBLKSIZ * length (dirf db) * BYTESIZ\<rparr>"

definition apr_sdbm_lock :: "sdbm \<Rightarrow> u32 \<Rightarrow> apr_status \<times> sdbm" where
  "apr_sdbm_lock db type =
     (let lock_type = type AND APR_FLOCK_TYPEMASK
      in if \<not> (lock_type = APR_FLOCK_SHARED \<or> lock_type = APR_FLOCK_EXCLUSIVE) then (APR_EINVAL, db)
         else if exclusive_lock db then (APR_SUCCESS, db\<lparr>lckcnt := lckcnt db + 1\<rparr>)
         else if shared_lock db then
           (if type = APR_FLOCK_EXCLUSIVE then (APR_EINVAL, db) else (APR_SUCCESS, db\<lparr>lckcnt := lckcnt db + 1\<rparr>))
         else
           (case io_call db of
              (Some (status, _), db) \<Rightarrow> (status, db)
            | (None, db) \<Rightarrow>
                (case io_call db of
                   (Some (status, _), db) \<Rightarrow> (status, snd (io_call db))
                 | (None, db) \<Rightarrow>
                     (let db = SDBM_INVALIDATE_CACHE db;
                          db = db\<lparr>lckcnt := lckcnt db + 1\<rparr>
                      in (APR_SUCCESS,
                          if type = APR_FLOCK_SHARED then db\<lparr>shared_lock := True\<rparr>
                          else if type = APR_FLOCK_EXCLUSIVE then db\<lparr>exclusive_lock := True\<rparr>
                          else db)))))"

definition apr_sdbm_unlock :: "sdbm \<Rightarrow> apr_status \<times> sdbm" where
  "apr_sdbm_unlock db =
     (if \<not> (shared_lock db \<or> exclusive_lock db) then (APR_EINVAL, db)
      else
        (let db = db\<lparr>lckcnt := lckcnt db - 1\<rparr>
         in if lckcnt db > 0 then (APR_SUCCESS, db)
            else (case io_call (db\<lparr>shared_lock := False, exclusive_lock := False\<rparr>) of
                    (Some (status, _), db) \<Rightarrow> (status, db)
                  | (None, db) \<Rightarrow> (APR_SUCCESS, db))))"

subsection \<open>Directory\<close>

text \<open>\<open>masks\<close>, in octal in the source.\<close>

definition masks :: "u64 list" where
  "masks =
    [0x0, 0x1, 0x3, 0x7,
     0xf, 0x1f, 0x3f, 0x7f,
     0xff, 0x1ff, 0x3ff, 0x7ff,
     0xfff, 0x1fff, 0x3fff, 0x7fff,
     0xffff, 0x1ffff, 0x3ffff, 0x7ffff,
     0xfffff, 0x1fffff, 0x3fffff, 0x7fffff,
     0xffffff, 0x1ffffff, 0x3ffffff, 0x7ffffff,
     0xfffffff, 0x1fffffff, 0x3fffffff, 0x7fffffff]"

text \<open>The block of the directory with a bit; a failed read is taken for a bit that is not set.\<close>

definition load_dir :: "sdbm \<Rightarrow> nat \<Rightarrow> apr_status \<times> sdbm" where
  "load_dir db dirb =
     (if int dirb \<noteq> dirbno db then
        (case read_from db (dirf db) 0 (dirbuf db) dirb DBLKSIZ of
           (status, buf, _, db) \<Rightarrow>
             if status \<noteq> APR_SUCCESS then (status, db\<lparr>dirbuf := buf\<rparr>)
             else (APR_SUCCESS, db\<lparr>dirbuf := buf, dirbno := int dirb\<rparr>))
      else (APR_SUCCESS, db))"

definition getdbit :: "sdbm \<Rightarrow> nat \<Rightarrow> bool \<times> sdbm" where
  "getdbit db dbit =
     (let c = dbit div BYTESIZ; dirb = c div DBLKSIZ
      in case load_dir db dirb of (status, db) \<Rightarrow>
           if status \<noteq> APR_SUCCESS then (False, db)
           else (bit (dirbuf db ! (c mod DBLKSIZ)) (dbit mod BYTESIZ), db))"

definition setdbit :: "sdbm \<Rightarrow> nat \<Rightarrow> apr_status \<times> sdbm" where
  "setdbit db dbit =
     (let c = dbit div BYTESIZ; dirb = c div DBLKSIZ
      in case load_dir db dirb of (status, db) \<Rightarrow>
           if status \<noteq> APR_SUCCESS then (status, db)
           else
             (let i = c mod DBLKSIZ;
                  db = db\<lparr>dirbuf := (dirbuf db)[i := dirbuf db ! i OR push_bit (dbit mod BYTESIZ) 1]\<rparr>;
                  db = (if dbit \<ge> maxbno db then db\<lparr>maxbno := maxbno db + DBLKSIZ * BYTESIZ\<rparr> else db)
              in case write_block db DBLKSIZ (dirf db) 0 dirb (dirbuf db) of
                   (status, f, _, db) \<Rightarrow> (status, db\<lparr>dirf := f\<rparr>)))"

text \<open>\<open>while (dbit < db->maxbno && getdbit(db, dbit))\<close>.\<close>

lemma getdbit_maxbno: "maxbno (snd (getdbit db dbit)) = maxbno db"
  by (auto simp: getdbit_def load_dir_def read_from_def io_call_def Let_def split: list.splits option.splits if_splits)

function getpage_walk :: "sdbm \<Rightarrow> u64 \<Rightarrow> nat \<Rightarrow> nat \<Rightarrow> nat \<times> nat \<times> sdbm" where
  "getpage_walk db hash dbit hbit =
     (if dbit < maxbno db then
        (let r = getdbit db dbit
         in if fst r then getpage_walk (snd r) hash (2 * dbit + (if bit hash hbit then 2 else 1)) (Suc hbit)
            else (dbit, hbit, snd r))
      else (dbit, hbit, db))"
  by pat_completeness auto
termination
  by (relation "measure (\<lambda>(db, hash, dbit, hbit). maxbno db - dbit)") (auto simp: getdbit_maxbno)

declare getpage_walk.simps [simp del]

definition getpage :: "sdbm \<Rightarrow> u64 \<Rightarrow> apr_status \<times> sdbm" where
  "getpage db hash =
     (case getpage_walk db hash 0 0 of (dbit, hbit, db) \<Rightarrow>
        let db = db\<lparr>curbit := dbit, hmask := masks ! hbit\<rparr>;
            pagb = unat (hash AND hmask db)
        in if int pagb \<noteq> pagbno db then
             (case read_from db (pagf db) (pagpos db) (pagbuf db) pagb PBLKSIZ of
                (status, buf, pos, db) \<Rightarrow>
                  let db = db\<lparr>pagbuf := buf, pagpos := pos\<rparr>
                  in if status \<noteq> APR_SUCCESS then (status, db)
                     else if \<not> chkpage (le db) (pagbuf db) then (APR_ENOSPC, db)
                     else (APR_SUCCESS, db\<lparr>pagbno := int pagb\<rparr>))
           else (APR_SUCCESS, db))"

subsection \<open>Operations\<close>

text \<open>\<open>bad\<close>: a NULL pointer or no bytes.\<close>

definition bad :: "byte list \<Rightarrow> bool" where "bad x = (length x = 0)"

definition APR_SDBM_INSERT :: u32 where "APR_SDBM_INSERT = 0"
definition APR_SDBM_REPLACE :: u32 where "APR_SDBM_REPLACE = 1"
definition APR_SDBM_INSERTDUP :: u32 where "APR_SDBM_INSERTDUP = 2"

definition apr_sdbm_rdonly :: "sdbm \<Rightarrow> bool" where "apr_sdbm_rdonly db = rdonly db"

definition apr_sdbm_fetch :: "sdbm \<Rightarrow> byte list \<Rightarrow> apr_status \<times> byte list option \<times> sdbm" where
  "apr_sdbm_fetch db key =
     (if bad key then (APR_EINVAL, None, db)
      else
        (case apr_sdbm_lock db APR_FLOCK_SHARED of (status, db) \<Rightarrow>
           if status \<noteq> APR_SUCCESS then (status, None, db)
           else
             (case getpage db (sdbm_hash key) of (status, db) \<Rightarrow>
                let val = (if status = APR_SUCCESS then getpair (le db) (pagbuf db) key else None)
                in (status, val, snd (apr_sdbm_unlock db)))))"

definition apr_sdbm_delete :: "sdbm \<Rightarrow> byte list \<Rightarrow> apr_status \<times> sdbm" where
  "apr_sdbm_delete db key =
     (if bad key then (APR_EINVAL, db)
      else if apr_sdbm_rdonly db then (APR_EINVAL, db)
      else
        (case apr_sdbm_lock db APR_FLOCK_EXCLUSIVE of (status, db) \<Rightarrow>
           if status \<noteq> APR_SUCCESS then (status, db)
           else
             (case getpage db (sdbm_hash key) of (status, db) \<Rightarrow>
                if status \<noteq> APR_SUCCESS then (status, snd (apr_sdbm_unlock db))
                else
                  (case delpair (le db) (pagbuf db) key of (found, pag) \<Rightarrow>
                     let db = db\<lparr>pagbuf := pag\<rparr>
                     in if \<not> found then (APR_EGENERAL, snd (apr_sdbm_unlock db))
                        else (case write_page db (pagbuf db) (nat (pagbno db)) of
                                (status, db) \<Rightarrow> (status, snd (apr_sdbm_unlock db)))))))"

text \<open>The rounds of \<open>makroom\<close>, at most \<open>SPLTMAX\<close> of them.\<close>

fun makroom_loop :: "nat \<Rightarrow> sdbm \<Rightarrow> u64 \<Rightarrow> int \<Rightarrow> apr_status \<times> sdbm" where
  "makroom_loop 0 db hash need = (APR_ENOSPC, db)"
| "makroom_loop (Suc smax) db hash need =
     (case splpage (le db) (pagbuf db) (hmask db + 1) of (pag, new) \<Rightarrow>
        let db = db\<lparr>pagbuf := pag\<rparr>;
            newp = unat ((hash AND hmask db) OR (hmask db + 1));
            up = (hash AND (hmask db + 1) \<noteq> 0)
        in case (if up then write_page db (pagbuf db) (nat (pagbno db)) else write_page db new newp) of (status, db) \<Rightarrow>
             if status \<noteq> APR_SUCCESS then (status, db)
             else
               (let db = (if up then db\<lparr>pagbno := int newp, pagbuf := new\<rparr> else db)
                in case setdbit db (curbit db) of (status, db) \<Rightarrow>
                     if status \<noteq> APR_SUCCESS then (status, db)
                     else if fitpair (le db) (pagbuf db) need then (APR_SUCCESS, db)
                     else
                       (let db = db\<lparr>curbit := 2 * curbit db + (if hash AND (hmask db + 1) \<noteq> 0 then 2 else 1)\<rparr>;
                            db = db\<lparr>hmask := hmask db OR (hmask db + 1)\<rparr>
                        in case write_page db (pagbuf db) (nat (pagbno db)) of (status, db) \<Rightarrow>
                             if status \<noteq> APR_SUCCESS then (status, db)
                             else makroom_loop smax db hash need)))"

definition makroom :: "sdbm \<Rightarrow> u64 \<Rightarrow> int \<Rightarrow> apr_status \<times> sdbm" where
  "makroom db hash need = makroom_loop SPLTMAX db hash need"

definition apr_sdbm_store :: "sdbm \<Rightarrow> byte list \<Rightarrow> byte list \<Rightarrow> u32 \<Rightarrow> apr_status \<times> sdbm" where
  "apr_sdbm_store db key val flags =
     (if bad key then (APR_EINVAL, db)
      else if apr_sdbm_rdonly db then (APR_EINVAL, db)
      else
        (let need = sint (of_nat (length key) + of_nat (length val) :: u32)
         in if need < 0 \<or> need > PAIRMAX then (APR_EINVAL, db)
            else
              (case apr_sdbm_lock db APR_FLOCK_EXCLUSIVE of (status, db) \<Rightarrow>
                 if status \<noteq> APR_SUCCESS then (status, db)
                 else
                   (case getpage db (sdbm_hash key) of (status, db) \<Rightarrow>
                      if status \<noteq> APR_SUCCESS then (status, snd (apr_sdbm_unlock db))
                      else if flags \<noteq> APR_SDBM_REPLACE \<and> flags AND APR_SDBM_INSERTDUP = 0 \<and>
                          duppair (le db) (pagbuf db) key then
                        (APR_EEXIST, snd (apr_sdbm_unlock db))
                      else
                        (let db = (if flags = APR_SDBM_REPLACE then db\<lparr>pagbuf := snd (delpair (le db) (pagbuf db) key)\<rparr> else db)
                         in case (if \<not> fitpair (le db) (pagbuf db) need then makroom db (sdbm_hash key) need
                                  else (APR_SUCCESS, db)) of (status, db) \<Rightarrow>
                              if status \<noteq> APR_SUCCESS then (status, snd (apr_sdbm_unlock db))
                              else
                                (let db = db\<lparr>pagbuf := putpair (le db) (pagbuf db) key val\<rparr>
                                 in case write_page db (pagbuf db) (nat (pagbno db)) of (status, db) \<Rightarrow>
                                      (status, snd (apr_sdbm_unlock db))))))))"

text \<open>Sequential access; the position in the page file is that of the last read or write.\<close>

function getnext :: "sdbm \<Rightarrow> apr_status \<times> byte list option \<times> sdbm" where
  "getnext db =
     (let db = db\<lparr>keyptr := keyptr db + 1\<rparr>;
          key = getnkey (le db) (pagbuf db) (keyptr db)
      in if key \<noteq> None then (APR_SUCCESS, key, db)
         else
           (let db = db\<lparr>keyptr := 0\<rparr>;
                seek = (pagbno db \<noteq> blkptr db);
                db = db\<lparr>blkptr := blkptr db + 1\<rparr>
            in case (if seek then io_call db else (None, db)) of
                 (Some (status, _), db) \<Rightarrow> (status, None, db)
               | (None, db) \<Rightarrow>
                   (let db = (if seek then db\<lparr>pagpos := nat (blkptr db)\<rparr> else db);
                        db = db\<lparr>pagbno := blkptr db\<rparr>
                    in case io_call db of
                         (Some (status, junk), db) \<Rightarrow> (status, None, db\<lparr>pagbuf := junk\<rparr>)
                       | (None, db) \<Rightarrow>
                           if pagpos db \<ge> length (pagf db) then (APR_EOF, None, db)
                           else
                             (let db = db\<lparr>pagbuf := pagf db ! pagpos db, pagpos := Suc (pagpos db)\<rparr>
                              in if \<not> chkpage (le db) (pagbuf db) then (APR_EGENERAL, None, db)
                                 else getnext db))))"
  by pat_completeness auto
termination
proof (relation "measure (\<lambda>db. if pagbno db = blkptr db then length (pagf db) - pagpos db else Suc (length (pagf db)))", goal_cases)
  case 1
  then show ?case by simp
qed (auto simp: io_call_def Let_def split: if_splits list.splits)

declare getnext.simps [simp del]

definition apr_sdbm_firstkey :: "sdbm \<Rightarrow> apr_status \<times> byte list option \<times> sdbm" where
  "apr_sdbm_firstkey db =
     (case apr_sdbm_lock db APR_FLOCK_SHARED of (status, db) \<Rightarrow>
        if status \<noteq> APR_SUCCESS then (status, None, db)
        else
          (case read_from db (pagf db) (pagpos db) (pagbuf db) 0 PBLKSIZ of (status, buf, pos, db) \<Rightarrow>
             let db = db\<lparr>pagbuf := buf, pagpos := pos\<rparr>
             in case (if status = APR_SUCCESS then getnext (db\<lparr>pagbno := 0, blkptr := 0, keyptr := 0\<rparr>)
                      else (status, None, db)) of
                  (status, key, db) \<Rightarrow> (status, key, snd (apr_sdbm_unlock db))))"

definition apr_sdbm_nextkey :: "sdbm \<Rightarrow> apr_status \<times> byte list option \<times> sdbm" where
  "apr_sdbm_nextkey db =
     (case apr_sdbm_lock db APR_FLOCK_SHARED of (status, db) \<Rightarrow>
        if status \<noteq> APR_SUCCESS then (status, None, db)
        else (case getnext db of (status, key, db) \<Rightarrow> (status, key, snd (apr_sdbm_unlock db))))"

text \<open>
  \<open>prep\<close> on open files, after the handle was cleared: \<open>wr\<close> and \<open>sharelock\<close> are the flags
  \<open>APR_FOPEN_WRITE\<close> and \<open>APR_FOPEN_SHARELOCK\<close>. On an error the handle is freed.
\<close>

definition prep :: "bool \<Rightarrow> blocks \<Rightarrow> blocks \<Rightarrow> (apr_status \<times> byte list) option list \<Rightarrow> bool \<Rightarrow> bool \<Rightarrow> apr_status \<times> sdbm option" where
  "prep order dir pag outcomes wr sharelock =
     (let db = \<lparr>le = order, dirf = dir, pagf = pag, pagpos = 0, io = outcomes, rdonly = \<not> wr, shared = sharelock,
            shared_lock = False, exclusive_lock = False, maxbno = 0, curbit = 0, hmask = 0, blkptr = 0, keyptr = 0,
            pagbno = 0, pagbuf = zeros PBLKSIZ, dirbno = 0, dirbuf = zeros DBLKSIZ, lckcnt = 0\<rparr>
      in case io_call db of
           (Some (status, _), db) \<Rightarrow> (status, None)
         | (None, db) \<Rightarrow>
             (case io_call db of
                (Some (status, _), db) \<Rightarrow> (status, None)
              | (None, db) \<Rightarrow>
                  (case apr_sdbm_lock db (if rdonly db then APR_FLOCK_SHARED else APR_FLOCK_EXCLUSIVE) of (status, db) \<Rightarrow>
                     if status \<noteq> APR_SUCCESS then (status, None)
                     else if shared db then
                       (case apr_sdbm_unlock db of (status, db) \<Rightarrow>
                          if status \<noteq> APR_SUCCESS then (status, None) else (APR_SUCCESS, Some db))
                     else (APR_SUCCESS, Some db))))"

text \<open>The clean-up that \<open>apr_sdbm_close\<close> runs: unlock and close; the handle is then freed.\<close>

definition database_cleanup :: "sdbm \<Rightarrow> apr_status \<times> sdbm" where
  "database_cleanup db =
     (let db = (if shared_lock db \<or> exclusive_lock db then snd (io_call db) else db)
      in (APR_SUCCESS, snd (io_call (snd (io_call db)))))"

subsection \<open>The tree of the directory\<close>

text \<open>The number of the node that a hash reaches after \<open>n\<close> bits, and the depth of its leaf.\<close>

primrec node :: "u64 \<Rightarrow> nat \<Rightarrow> nat" where
  "node h 0 = 0"
| "node h (Suc n) = 2 * node h n + (if bit h n then 2 else 1)"

definition depth :: "(nat \<Rightarrow> bool) \<Rightarrow> u64 \<Rightarrow> nat" where
  "depth B h = (LEAST n. \<not> B (node h n))"

definition page_no :: "(nat \<Rightarrow> bool) \<Rightarrow> u64 \<Rightarrow> nat" where
  "page_no B h = unat (take_bit (depth B h) h)"

lemma take_bit_agree: "take_bit n h = take_bit n g \<longleftrightarrow> (\<forall>i < n. bit h i = bit (g :: u64) i)"
proof -
  have l: "bit x i \<Longrightarrow> i < 64" for x :: u64 and i using bit_imp_le_length [of x i] by simp
  show ?thesis
  proof
    assume e: "take_bit n h = take_bit n g"
    show "\<forall>i < n. bit h i = bit g i"
    proof (intro allI impI)
      fix i assume "i < n"
      then show "bit h i = bit g i" using arg_cong [OF e, of "\<lambda>x. bit x i"] by (simp add: bit_take_bit_iff)
    qed
  next
    assume "\<forall>i < n. bit h i = bit g i"
    then show "take_bit n h = take_bit n g" by (intro bit_eqI) (auto simp: bit_take_bit_iff)
  qed
qed

lemma take_bit_less: "take_bit n h = take_bit n g \<Longrightarrow> i \<le> n \<Longrightarrow> take_bit i h = take_bit i (g :: u64)"
  unfolding take_bit_agree by auto

lemma node_range: "2 ^ n \<le> Suc (node h n)" "node h n + 2 \<le> 2 * 2 ^ n"
  by (induction n) auto

lemma node_ge: "n \<le> node h n"
  using node_range(1) [of n h] less_exp [of n] by linarith

lemma node_cong: "take_bit n h = take_bit n g \<Longrightarrow> node h n = node g n"
proof (induction n)
  case (Suc n)
  have "take_bit n h = take_bit n g" "bit h n = bit g n" using Suc.prems by (auto simp: take_bit_agree)
  then show ?case using Suc.IH by simp
qed simp

lemma node_inj: "node h n = node g n \<Longrightarrow> take_bit n h = take_bit n g"
proof (induction n)
  case (Suc n)
  have "node h n = node g n \<and> bit h n = bit g n"
    using Suc.prems by (auto split: if_splits) presburger+
  then show ?case using Suc.IH by (auto simp: take_bit_agree less_Suc_eq)
qed simp

lemma node_level: "node h n = node g m \<Longrightarrow> n = m"
proof (rule ccontr)
  assume e: "node h n = node g m" and "n \<noteq> m"
  then consider "Suc n \<le> m" | "Suc m \<le> n" by linarith
  then show False
  proof cases
    case 1
    then have "(2 :: nat) ^ Suc n \<le> 2 ^ m" by (intro power_increasing) auto
    then show False using node_range(2) [of h n] node_range(1) [of m g] e by simp
  next
    case 2
    then have "(2 :: nat) ^ Suc m \<le> 2 ^ n" by (intro power_increasing) auto
    then show False using node_range(2) [of g m] node_range(1) [of n h] e by simp
  qed
qed

text \<open>
  A directory: the bits set are nodes with all their ancestors, and within the 16 levels that the
  growth of \<open>maxbno\<close> keeps up with.
\<close>

definition dir_ok :: "(nat \<Rightarrow> bool) \<Rightarrow> bool" where
  "dir_ok B \<longleftrightarrow> (\<forall>d. B d \<longrightarrow> d < 65535) \<and> (\<forall>h n. B (node h (Suc n)) \<longrightarrow> B (node h n))"

lemma dir_ok_leaf:
  assumes "dir_ok B"
  shows "\<not> B (node h (depth B h))" "i < depth B h \<Longrightarrow> B (node h i)" "depth B h \<le> 16"
proof -
  have 16: "\<not> B (node h 16)"
  proof
    assume "B (node h 16)"
    then have "node h 16 < 65535" using assms by (auto simp: dir_ok_def)
    then show False using node_range(1) [of 16 h] by simp
  qed
  then show "\<not> B (node h (depth B h))" unfolding depth_def by (rule LeastI)
  show "i < depth B h \<Longrightarrow> B (node h i)" unfolding depth_def using not_less_Least by blast
  show "depth B h \<le> 16" unfolding depth_def using 16 by (rule Least_le)
qed

lemma depth_eqI: "\<not> B (node h n) \<Longrightarrow> (\<And>i. i < n \<Longrightarrow> B (node h i)) \<Longrightarrow> depth B h = n"
  unfolding depth_def by (rule Least_equality) (auto simp: not_le_imp_less, meson not_le_imp_less)

lemma same_leaf:
  assumes "dir_ok B" "take_bit (depth B h) g = take_bit (depth B h) h"
  shows "depth B g = depth B h"
proof (rule depth_eqI)
  show "\<not> B (node g (depth B h))" using dir_ok_leaf(1) [OF assms(1), of h] node_cong [OF assms(2)] by simp
  fix i assume i: "i < depth B h"
  then have "node g i = node h i" using take_bit_less [OF assms(2)] by (intro node_cong) simp
  then show "B (node g i)" using dir_ok_leaf(2) [OF assms(1) i] by simp
qed

text \<open>Two leaves have two pages.\<close>

lemma page_no_inj:
  assumes B: "dir_ok B" and eq: "page_no B g = page_no B h"
  shows "depth B g = depth B h \<and> take_bit (depth B h) g = take_bit (depth B h) h"
proof -
  have x: "take_bit (depth B g) g = take_bit (depth B h) h" using eq by (simp only: page_no_def word_unat_eq_iff)
  have bits: "(i < depth B g \<and> bit g i) = (i < depth B h \<and> bit h i)" if "i < 64" for i
    using arg_cong [OF x, of "\<lambda>x. bit x i"] that by (simp add: bit_take_bit_iff)
  have l: "depth B g < 64" "depth B h < 64" using dir_ok_leaf(3) [OF B, of g] dir_ok_leaf(3) [OF B, of h] by simp_all
  have 1: "take_bit (depth B h) g = take_bit (depth B h) h" if "depth B h \<le> depth B g"
    unfolding take_bit_agree
  proof (intro allI impI)
    fix i assume "i < depth B h"
    then show "bit g i = bit h i" using bits [of i] that l by auto
  qed
  have 2: "take_bit (depth B g) h = take_bit (depth B g) g" if "depth B g \<le> depth B h"
    unfolding take_bit_agree
  proof (intro allI impI)
    fix i assume "i < depth B g"
    then show "bit h i = bit g i" using bits [of i] that l by auto
  qed
  show ?thesis
  proof (cases "depth B h \<le> depth B g")
    case True
    show ?thesis using same_leaf [OF B 1 [OF True]] 1 [OF True] by blast
  next
    case False
    then have le: "depth B g \<le> depth B h" by simp
    have e: "depth B h = depth B g" by (rule same_leaf [OF B 2 [OF le]])
    show ?thesis using 2 [OF le] unfolding e by simp
  qed
qed

subsection \<open>A split in the tree\<close>

lemma split_dir:
  assumes B: "dir_ok B" and n: "n = depth B h" "n < 16"
  defines "C \<equiv> B(node h n := True)"
  shows "dir_ok C"
    "take_bit n g = take_bit n h \<Longrightarrow> depth C g = Suc n"
    "take_bit n g \<noteq> take_bit n h \<Longrightarrow> depth C g = depth B g"
proof -
  have C: "C d \<longleftrightarrow> d = node h n \<or> B d" for d by (auto simp: C_def)
  have lt: "node h n < 65535"
  proof -
    have "(2 :: nat) ^ n \<le> 2 ^ 15" using n(2) by (intro power_increasing) auto
    then show ?thesis using node_range(2) [of h n] by simp
  qed
  show "dir_ok C" unfolding dir_ok_def
  proof (intro conjI allI impI)
    fix d assume "C d"
    then show "d < 65535" using lt B by (auto simp: C dir_ok_def)
  next
    fix g m assume "C (node g (Suc m))"
    then consider "node g (Suc m) = node h n" | "B (node g (Suc m))" by (auto simp: C)
    then show "C (node g m)"
    proof cases
      case 1
      then have nm: "n = Suc m" by (metis node_level)
      then have "node g m = node h m" using 1 node_inj [of g n h] take_bit_less [of n g h m] by (auto intro: node_cong)
      then show ?thesis using dir_ok_leaf(2) [OF B, of m h] n(1) nm by (simp add: C)
    next
      case 2
      then have "B (node g m)" using B unfolding dir_ok_def by blast
      then show ?thesis by (simp add: C)
    qed
  qed
  show "depth C g = Suc n" if g: "take_bit n g = take_bit n h"
  proof (rule depth_eqI)
    have gn: "node g n = node h n" using g by (rule node_cong)
    have "node g (Suc n) \<noteq> node h n" using node_level by (metis n_not_Suc_n)
    moreover have "\<not> B (node g (Suc n))"
      using B dir_ok_leaf(1) [OF B, of h] gn n(1) unfolding dir_ok_def by metis
    ultimately show "\<not> C (node g (Suc n))" by (simp add: C)
    fix i assume "i < Suc n"
    then consider "i = n" | "i < n" by linarith
    then show "C (node g i)"
    proof cases
      case 1
      then show ?thesis using gn by (simp add: C)
    next
      case 2
      then have "node g i = node h i" using take_bit_less [OF g] by (intro node_cong) simp
      then show ?thesis using dir_ok_leaf(2) [OF B, of i h] 2 n(1) by (simp add: C)
    qed
  qed
  show "depth C g = depth B g" if g: "take_bit n g \<noteq> take_bit n h"
  proof (rule depth_eqI)
    have "node g (depth B g) \<noteq> node h n"
    proof
      assume e: "node g (depth B g) = node h n"
      then have "depth B g = n" by (rule node_level)
      then show False using e g node_inj by blast
    qed
    then show "\<not> C (node g (depth B g))" using dir_ok_leaf(1) [OF B] by (simp add: C)
    fix i assume "i < depth B g"
    then show "C (node g i)" using dir_ok_leaf(2) [OF B] by (simp add: C)
  qed
qed

subsection \<open>What a handle stands for\<close>

definition block_at :: "nat \<Rightarrow> blocks \<Rightarrow> nat \<Rightarrow> byte list" where
  "block_at len f b = (if b < length f then f ! b else zeros len)"

definition dirbit :: "blocks \<Rightarrow> nat \<Rightarrow> bool" where
  "dirbit f d = bit (block_at DBLKSIZ f (d div BYTESIZ div DBLKSIZ) ! (d div BYTESIZ mod DBLKSIZ)) (d mod BYTESIZ)"

text \<open>A page, which may be newer in the buffer than on disk, and its pairs.\<close>

definition cur_page :: "sdbm \<Rightarrow> nat \<Rightarrow> page" where
  "cur_page db p = (if int p = pagbno db then pagbuf db else block_at PBLKSIZ (pagf db) p)"

definition page_pairs :: "bool \<Rightarrow> page \<Rightarrow> pair list" where
  "page_pairs order pag =
     map (\<lambda>j. let key_off = get_ino order pag (2 * j + 1); val_off = get_ino order pag (2 * j + 2);
                  end = (if j = 0 then 1024 else get_ino order pag (2 * j))
              in (item_at pag key_off (end - key_off), item_at pag val_off (key_off - val_off)))
       [0..<nat (get_ino order pag 0) div 2]"

text \<open>The values of a key, in the order of their insertion.\<close>

definition sdbm_view :: "sdbm \<Rightarrow> byte list \<Rightarrow> byte list list" where
  "sdbm_view db key =
     map snd (filter (\<lambda>p. fst p = key) (page_pairs (le db) (cur_page db (page_no (dirbit (dirf db)) (sdbm_hash key)))))"

lemma page_pairs_has: "page_has order pag ps \<Longrightarrow> page_pairs order pag = ps"
proof (rule nth_equalityI)
  assume p: "page_has order pag ps"
  show l: "length (page_pairs order pag) = length ps" by (simp add: page_pairs_def page_hasD(3) [OF p])
  fix j assume "j < length (page_pairs order pag)"
  then have j: "j < length ps" using l by simp
  note d = page_hasD(4,5) [OF p j] and b = pair_bytes [OF p j]
  have e: "(if j = 0 then 1024 else get_ino order pag (2 * j)) = int (data_off (take j ps))"
  proof (cases j)
    case (Suc i)
    then show ?thesis using page_hasD(5) [OF p, of i] j by simp
  qed simp
  have k: "int (data_off (take j ps)) - int (data_off (take (Suc j) ps) + length (snd (ps ! j))) = int (length (fst (ps ! j)))"
    "int (data_off (take (Suc j) ps) + length (snd (ps ! j))) - int (data_off (take (Suc j) ps)) = int (length (snd (ps ! j)))"
    unfolding b(3) [symmetric] by simp_all
  have "page_pairs order pag ! j =
      (item_at pag (get_ino order pag (2 * j + 1)) ((if j = 0 then 1024 else get_ino order pag (2 * j)) - get_ino order pag (2 * j + 1)),
       item_at pag (get_ino order pag (2 * j + 2)) (get_ino order pag (2 * j + 1) - get_ino order pag (2 * j + 2)))"
    using j page_hasD(3) [OF p] by (simp add: page_pairs_def Let_def)
  then show "page_pairs order pag ! j = ps ! j" unfolding e d k b by simp
qed

definition sdbm_core :: "sdbm \<Rightarrow> bool" where
  "sdbm_core db \<longleftrightarrow>
     io db = [] \<and> (\<forall>b \<in> set (dirf db). length b = DBLKSIZ) \<and>
     (\<forall>p. \<exists>ps. page_has (le db) (cur_page db p) ps) \<and>
     (0 \<le> dirbno db \<longrightarrow> dirbuf db = block_at DBLKSIZ (dirf db) (nat (dirbno db))) \<and>
     (dirf db = [] \<longrightarrow> dirbuf db = zeros DBLKSIZ) \<and>
     32768 dvd maxbno db \<and> dir_ok (dirbit (dirf db)) \<and> (\<forall>d. dirbit (dirf db) d \<longrightarrow> d < maxbno db)"

text \<open>The page in the buffer is the one on disk.\<close>

definition coherent :: "sdbm \<Rightarrow> bool" where
  "coherent db \<longleftrightarrow> (0 \<le> pagbno db \<longrightarrow> pagbuf db = block_at PBLKSIZ (pagf db) (nat (pagbno db)))"

lemma cur_page_coherent: "coherent db \<Longrightarrow> cur_page db = block_at PBLKSIZ (pagf db)"
proof
  fix p assume c: "coherent db"
  show "cur_page db p = block_at PBLKSIZ (pagf db) p"
  proof (cases "pagbno db = int p")
    case True
    then show ?thesis using c by (simp add: coherent_def cur_page_def)
  next
    case False
    then show ?thesis by (auto simp: cur_page_def)
  qed
qed

text \<open>What an operation leaves alone.\<close>

definition same_files :: "sdbm \<Rightarrow> sdbm \<Rightarrow> bool" where
  "same_files db db' \<longleftrightarrow> le db' = le db \<and> dirf db' = dirf db \<and> pagf db' = pagf db"

definition same_mode :: "sdbm \<Rightarrow> sdbm \<Rightarrow> bool" where
  "same_mode db db' \<longleftrightarrow> le db' = le db \<and> rdonly db' = rdonly db \<and> shared_lock db' = shared_lock db \<and>
     exclusive_lock db' = exclusive_lock db \<and> lckcnt db' = lckcnt db"

lemma same_mode_trans: "same_mode a b \<Longrightarrow> same_mode b c \<Longrightarrow> same_mode a c"
  by (simp add: same_mode_def)

lemma view_same_files:
  "same_files db db' \<Longrightarrow> coherent db \<Longrightarrow> coherent db' \<Longrightarrow> sdbm_view db' = sdbm_view db"
  by (simp add: same_files_def sdbm_view_def cur_page_coherent fun_eq_iff)

subsection \<open>Successful calls\<close>

lemma io_call_ok [simp]: "io db = [] \<Longrightarrow> io_call db = (None, db)"
  by (simp add: io_call_def)

lemma read_from_ok:
  "io db = [] \<Longrightarrow>
     read_from db f pos buf b len = (APR_SUCCESS, block_at len f b, if b < length f then Suc b else b, db)"
  by (simp add: read_from_def block_at_def)

lemma write_block_ok:
  "io db = [] \<Longrightarrow> write_block db len f pos b buf = (APR_SUCCESS, put_block len f b buf, Suc b, db)"
  by (simp add: write_block_def)

lemma write_page_ok:
  "io db = [] \<Longrightarrow>
     write_page db buf p = (APR_SUCCESS, db\<lparr>pagf := put_block PBLKSIZ (pagf db) p buf, pagpos := Suc p\<rparr>)"
  by (simp add: write_page_def write_block_ok)

lemma block_at_put: "block_at len (put_block len f b buf) c = (if c = b then buf else block_at len f c)"
  by (auto simp: block_at_def put_block_def nth_append nth_list_update zeros_def)

lemma length_put: "length (put_block len f b buf) = max (length f) (Suc b)"
  by (auto simp: put_block_def)

subsection \<open>Directory\<close>

definition dir_cached :: "sdbm \<Rightarrow> nat \<Rightarrow> sdbm" where
  "dir_cached db b = db\<lparr>dirbuf := block_at DBLKSIZ (dirf db) b, dirbno := int b\<rparr>"

lemma dir_cached_simps [simp]:
  "le (dir_cached db b) = le db" "dirf (dir_cached db b) = dirf db" "pagf (dir_cached db b) = pagf db"
  "pagbno (dir_cached db b) = pagbno db" "pagbuf (dir_cached db b) = pagbuf db" "pagpos (dir_cached db b) = pagpos db"
  "io (dir_cached db b) = io db" "maxbno (dir_cached db b) = maxbno db" "cur_page (dir_cached db b) = cur_page db"
  "dir_cached (dir_cached db b) c = dir_cached db c" "hmask (dir_cached db b) = hmask db"
  by (simp_all add: dir_cached_def cur_page_def fun_eq_iff)

lemma dir_cached_mode: "same_mode db (dir_cached db b)"
  by (simp add: same_mode_def dir_cached_def)

lemma core_dir_cached: "sdbm_core db \<Longrightarrow> sdbm_core (dir_cached db b)"
  by (simp add: sdbm_core_def) (simp add: dir_cached_def block_at_def)

lemma load_dir_ok: "sdbm_core db \<Longrightarrow> load_dir db b = (APR_SUCCESS, dir_cached db b)"
proof (cases "int b = dirbno db")
  case True
  then have no: "dirbno db = int b" by simp
  assume "sdbm_core db"
  then have "0 \<le> dirbno db \<longrightarrow> dirbuf db = block_at DBLKSIZ (dirf db) (nat (dirbno db))"
    unfolding sdbm_core_def by blast
  then have "block_at DBLKSIZ (dirf db) b = dirbuf db" unfolding no by simp
  then have "dir_cached db b = db" using no by (cases db) (simp add: dir_cached_def)
  then show ?thesis using True by (simp add: load_dir_def)
next
  case False
  assume "sdbm_core db"
  then show ?thesis using False by (simp add: load_dir_def read_from_ok sdbm_core_def dir_cached_def)
qed

lemma getdbit_ok:
  "sdbm_core db \<Longrightarrow> getdbit db d = (dirbit (dirf db) d, dir_cached db (d div BYTESIZ div DBLKSIZ))"
  by (simp add: getdbit_def load_dir_ok Let_def dirbit_def) (simp add: dir_cached_def)

lemma walk_ok:
  "sdbm_core db \<Longrightarrow> n = depth (dirbit (dirf db)) h \<Longrightarrow> i \<le> n \<Longrightarrow>
     \<exists>db'. getpage_walk db h (node h i) i = (node h n, n, db') \<and> (db' = db \<or> (\<exists>b. db' = dir_cached db b))"
proof (induction "n - i" arbitrary: i db)
  case 0
  then have i: "i = n" by simp
  have nb: "\<not> dirbit (dirf db) (node h n)"
    unfolding 0(3) by (rule dir_ok_leaf) (use 0 in \<open>simp add: sdbm_core_def\<close>)
  show ?case using nb 0 unfolding i
    by (subst getpage_walk.simps) (auto simp: getdbit_ok Let_def)
next
  case (Suc m)
  then have i: "i < n" by simp
  have B: "dir_ok (dirbit (dirf db))" using Suc(3) by (simp add: sdbm_core_def)
  have b: "dirbit (dirf db) (node h i)" using dir_ok_leaf(2) [OF B] i unfolding Suc(4) by blast
  then have lt: "node h i < maxbno db" using Suc(3) by (simp add: sdbm_core_def)
  let ?db = "dir_cached db (node h i div BYTESIZ div DBLKSIZ)"
  have "getpage_walk db h (node h i) i = getpage_walk ?db h (node h (Suc i)) (Suc i)"
    by (subst getpage_walk.simps) (simp add: lt getdbit_ok [OF Suc(3)] Let_def b)
  moreover have "\<exists>db'. getpage_walk ?db h (node h (Suc i)) (Suc i) = (node h n, n, db') \<and>
      (db' = ?db \<or> (\<exists>b. db' = dir_cached ?db b))"
    by (rule Suc(1)) (use Suc(2,4) i core_dir_cached [OF Suc(3)] in auto)
  ultimately show ?case by auto
qed

lemma masks_nth: "n \<le> 31 \<Longrightarrow> masks ! n = mask n"
proof -
  assume "n \<le> 31"
  then have "n \<in> set [0..<32]" by simp
  moreover have "\<forall>i \<in> set [0..<32]. masks ! i = mask i"
    by (simp add: masks_def upt_rec mask_eq_exp_minus_1)
  ultimately show ?thesis by blast
qed

lemma getpage_ok:
  assumes c: "sdbm_core db" and co: "coherent db"
  shows "\<exists>db'. getpage db h = (APR_SUCCESS, db') \<and> sdbm_core db' \<and> coherent db' \<and> same_files db db' \<and> same_mode db db' \<and>
    pagbno db' = int (page_no (dirbit (dirf db)) h) \<and> curbit db' = node h (depth (dirbit (dirf db)) h) \<and>
    hmask db' = mask (depth (dirbit (dirf db)) h)"
proof -
  let ?n = "depth (dirbit (dirf db)) h"
  obtain db1 where w: "getpage_walk db h 0 0 = (node h ?n, ?n, db1)" and d: "db1 = db \<or> (\<exists>b. db1 = dir_cached db b)"
    using walk_ok [OF c refl, of 0 h] by auto
  have c1: "sdbm_core db1" using d c core_dir_cached by auto
  have s: "le db1 = le db" "dirf db1 = dirf db" "pagf db1 = pagf db" "pagbno db1 = pagbno db" "pagbuf db1 = pagbuf db" "io db1 = []"
    "cur_page db1 = cur_page db" "same_mode db db1"
    using d c by (auto simp: sdbm_core_def dir_cached_mode) (simp_all add: same_mode_def)
  have n: "?n \<le> 31" using dir_ok_leaf(3) [of "dirbit (dirf db)" h] c by (simp add: sdbm_core_def)
  define db2 where "db2 = db1\<lparr>curbit := node h ?n, hmask := mask ?n\<rparr>"
  have p: "unat (h AND mask ?n) = page_no (dirbit (dirf db)) h" by (simp add: page_no_def take_bit_eq_mask)
  define p where "p = page_no (dirbit (dirf db)) h"
  have h2: "unat (h AND hmask db2) = p" using p by (simp add: db2_def p_def)
  have gp: "getpage db h =
      (if int p \<noteq> pagbno db2 then
         (case read_from db2 (pagf db2) (pagpos db2) (pagbuf db2) p PBLKSIZ of
            (status, buf, pos, db) \<Rightarrow>
              if status \<noteq> APR_SUCCESS then (status, db\<lparr>pagbuf := buf, pagpos := pos\<rparr>)
              else if \<not> chkpage (le (db\<lparr>pagbuf := buf, pagpos := pos\<rparr>)) (pagbuf (db\<lparr>pagbuf := buf, pagpos := pos\<rparr>))
              then (APR_ENOSPC, db\<lparr>pagbuf := buf, pagpos := pos\<rparr>)
              else (APR_SUCCESS, db\<lparr>pagbuf := buf, pagpos := pos, pagbno := int p\<rparr>))
       else (APR_SUCCESS, db2))"
    unfolding getpage_def w prod.case Let_def masks_nth [OF n] db2_def [symmetric] h2 by (rule refl)
  have "cur_page db2 = cur_page db1" by (simp add: db2_def cur_page_def fun_eq_iff)
  then have c2: "sdbm_core db2" using c1 by (simp add: sdbm_core_def) (simp add: db2_def)
  have co2: "coherent db2" using co s by (simp add: db2_def coherent_def)
  show ?thesis
  proof (cases "int p = pagbno db")
    case True
    have "getpage db h = (APR_SUCCESS, db2)"
      using True s unfolding gp by (simp add: db2_def)
    then show ?thesis using c2 co2 s True
      by (auto simp: db2_def same_files_def same_mode_def p_def)
  next
    case False
    let ?db = "db2\<lparr>pagbuf := block_at PBLKSIZ (pagf db) p, pagpos := if p < length (pagf db) then Suc p else p, pagbno := int p\<rparr>"
    have co3: "coherent ?db" using s by (simp add: coherent_def db2_def)
    have cur: "cur_page ?db = cur_page db"
      using cur_page_coherent [OF co3] cur_page_coherent [OF co] s by (simp add: db2_def)
    have c3: "sdbm_core ?db" unfolding sdbm_core_def cur
      using c2 c s unfolding sdbm_core_def by (simp add: db2_def)
    have chk: "chkpage (le db) (block_at PBLKSIZ (pagf db) p)"
      using c cur_page_coherent [OF co] unfolding sdbm_core_def by (metis chkpage_has)
    have i: "io db2 = []" using s by (simp add: db2_def)
    have "getpage db h = (APR_SUCCESS, ?db)"
      using False s chk unfolding gp read_from_ok [OF i] by (simp add: db2_def)
    then show ?thesis using c3 co3 s by (auto simp: db2_def same_files_def same_mode_def p_def)
  qed
qed

subsection \<open>Setting a bit\<close>

lemma dirbit_put:
  assumes "\<forall>b \<in> set f. length b = DBLKSIZ"
  shows "dirbit (put_block DBLKSIZ f (d div BYTESIZ div DBLKSIZ)
      ((block_at DBLKSIZ f (d div BYTESIZ div DBLKSIZ))
         [d div BYTESIZ mod DBLKSIZ :=
            block_at DBLKSIZ f (d div BYTESIZ div DBLKSIZ) ! (d div BYTESIZ mod DBLKSIZ) OR push_bit (d mod BYTESIZ) 1])) =
    (dirbit f)(d := True)"
proof
  fix e
  have l: "length (block_at DBLKSIZ f b) = DBLKSIZ" for b using assms by (auto simp: block_at_def zeros_def)
  have k: "d mod BYTESIZ < 8" "e mod BYTESIZ < 8" "e div BYTESIZ mod DBLKSIZ < DBLKSIZ" "d div BYTESIZ mod DBLKSIZ < DBLKSIZ"
    by (simp_all add: BYTESIZ_def DBLKSIZ_def)
  have e: "e = d \<longleftrightarrow> e div BYTESIZ div DBLKSIZ = d div BYTESIZ div DBLKSIZ \<and>
      e div BYTESIZ mod DBLKSIZ = d div BYTESIZ mod DBLKSIZ \<and> e mod BYTESIZ = d mod BYTESIZ"
    by (metis div_mult_mod_eq)
  have b: "bit (x OR 2 ^ (d mod BYTESIZ)) (e mod BYTESIZ) \<longleftrightarrow> bit x (e mod BYTESIZ) \<or> e mod BYTESIZ = d mod BYTESIZ" for x :: byte
    using k by (auto simp: bit_or_iff bit_push_bit_iff bit_exp_iff)
  show "dirbit (put_block DBLKSIZ f (d div BYTESIZ div DBLKSIZ)
      ((block_at DBLKSIZ f (d div BYTESIZ div DBLKSIZ))
         [d div BYTESIZ mod DBLKSIZ :=
            block_at DBLKSIZ f (d div BYTESIZ div DBLKSIZ) ! (d div BYTESIZ mod DBLKSIZ) OR push_bit (d mod BYTESIZ) 1])) e =
    ((dirbit f)(d := True)) e"
    unfolding dirbit_def block_at_put fun_upd_apply e
    using l k(3,4) b by (cases "e mod BYTESIZ = d mod BYTESIZ") (auto simp: nth_list_update)
qed

lemma setdbit_ok:
  assumes c: "sdbm_core db" and d: "dir_ok ((dirbit (dirf db))(d := True))" "d < maxbno db + 32768"
  shows "\<exists>db'. setdbit db d = (APR_SUCCESS, db') \<and> sdbm_core db' \<and> dirbit (dirf db') = (dirbit (dirf db))(d := True) \<and>
    same_mode db db' \<and> pagf db' = pagf db \<and> pagbno db' = pagbno db \<and> pagbuf db' = pagbuf db \<and> hmask db' = hmask db \<and>
    curbit db' = curbit db"
proof -
  let ?b = "d div BYTESIZ div DBLKSIZ" and ?i = "d div BYTESIZ mod DBLKSIZ"
  define buf where "buf = (block_at DBLKSIZ (dirf db) ?b)[?i := block_at DBLKSIZ (dirf db) ?b ! ?i OR push_bit (d mod BYTESIZ) 1]"
  define db' where "db' = db\<lparr>dirbuf := buf, dirbno := int ?b, maxbno := (if d \<ge> maxbno db then maxbno db + 32768 else maxbno db),
      dirf := put_block DBLKSIZ (dirf db) ?b buf\<rparr>"
  have io: "io db = []" and bl: "\<forall>b \<in> set (dirf db). length b = DBLKSIZ" using c by (simp_all add: sdbm_core_def)
  have s: "setdbit db d = (APR_SUCCESS, db')"
    unfolding setdbit_def Let_def load_dir_ok [OF c] prod.case
    by (simp add: dir_cached_def write_block_ok io db'_def buf_def BYTESIZ_def DBLKSIZ_def)
  have lb: "length (block_at DBLKSIZ (dirf db) ?b) = DBLKSIZ" using bl by (auto simp: block_at_def zeros_def)
  have db: "dirbit (dirf db') = (dirbit (dirf db))(d := True)"
    using dirbit_put [OF bl, of d] by (simp add: db'_def buf_def)
  have cur: "cur_page db' = cur_page db" by (simp add: db'_def cur_page_def fun_eq_iff)
  have lbuf: "length buf = DBLKSIZ" using lb by (simp add: buf_def)
  have "sdbm_core db'" unfolding sdbm_core_def db cur
  proof (intro conjI)
    show "\<forall>b \<in> set (dirf db'). length b = DBLKSIZ"
      using bl lbuf by (auto simp: db'_def put_block_def zeros_def dest!: set_update_subset_insert [THEN subsetD] split: if_splits)
    show "dir_ok ((dirbit (dirf db))(d := True))" by (rule d(1))
    show "\<forall>e. ((dirbit (dirf db))(d := True)) e \<longrightarrow> e < maxbno db'"
      using c d(2) unfolding sdbm_core_def by (auto simp: db'_def less_Suc_eq_le intro: less_le_trans)
    show "0 \<le> dirbno db' \<longrightarrow> dirbuf db' = block_at DBLKSIZ (dirf db') (nat (dirbno db'))"
      by (simp add: db'_def block_at_put)
    show "dirf db' = [] \<longrightarrow> dirbuf db' = zeros DBLKSIZ"
      by (auto simp: db'_def put_block_def)
    show "\<forall>p. \<exists>ps. page_has (le db') (cur_page db p) ps" "io db' = []" "32768 dvd maxbno db'"
      using c unfolding sdbm_core_def by (auto simp: db'_def)
  qed
  then show ?thesis using s db by (auto simp: db'_def same_mode_def)
qed

subsection \<open>Splitting a page\<close>

text \<open>The state of a round of \<open>makroom\<close> before it sets the bit.\<close>

definition split_write :: "sdbm \<Rightarrow> u64 \<Rightarrow> sdbm" where
  "split_write db hash =
     (case splpage (le db) (pagbuf db) (hmask db + 1) of (pag, new) \<Rightarrow>
        let newp = unat ((hash AND hmask db) OR (hmask db + 1))
        in if hash AND (hmask db + 1) \<noteq> 0 then
             db\<lparr>pagf := put_block PBLKSIZ (pagf db) (nat (pagbno db)) pag, pagpos := Suc (nat (pagbno db)),
                pagbno := int newp, pagbuf := new\<rparr>
           else db\<lparr>pagbuf := pag, pagf := put_block PBLKSIZ (pagf db) newp new, pagpos := Suc newp\<rparr>)"

lemma makroom_loop_Suc:
  assumes "io db = []"
  shows "makroom_loop (Suc smax) db hash need =
    (let db = split_write db hash
     in case setdbit db (curbit db) of (status, db) \<Rightarrow>
          if status \<noteq> APR_SUCCESS then (status, db)
          else if fitpair (le db) (pagbuf db) need then (APR_SUCCESS, db)
          else
            (let db = db\<lparr>curbit := 2 * curbit db + (if hash AND (hmask db + 1) \<noteq> 0 then 2 else 1)\<rparr>;
                 db = db\<lparr>hmask := hmask db OR (hmask db + 1)\<rparr>
             in case write_page db (pagbuf db) (nat (pagbno db)) of (status, db) \<Rightarrow>
                  if status \<noteq> APR_SUCCESS then (status, db) else makroom_loop smax db hash need))"
proof -
  obtain pag new where s: "splpage (le db) (pagbuf db) (hmask db + 1) = (pag, new)" by fastforce
  have i: "io (db\<lparr>pagbuf := pag\<rparr>) = []" using assms by simp
  show ?thesis
  proof (cases "hash AND (hmask db + 1) \<noteq> 0")
    case True
    then show ?thesis by (simp add: s Let_def write_page_ok [OF i] split_write_def)
  next
    case False
    then show ?thesis by (simp add: s Let_def write_page_ok [OF i] split_write_def)
  qed
qed

lemma mask_bits:
  assumes "n \<le> 16"
  shows "mask n + 1 = (2 ^ n :: u64)" "h AND (mask n + 1) \<noteq> 0 \<longleftrightarrow> bit (h :: u64) n"
    "(mask n :: u64) OR (mask n + 1) = mask (Suc n)"
    "unat ((h AND mask n) OR (mask n + 1)) = unat (take_bit n h) + 2 ^ n"
proof -
  show m: "mask n + 1 = (2 ^ n :: u64)" by (simp add: mask_eq_exp_minus_1)
  show "h AND (mask n + 1) \<noteq> 0 \<longleftrightarrow> bit h n" unfolding m by (simp add: and_exp_eq_0_iff_not_bit)
  show "(mask n :: u64) OR (mask n + 1) = mask (Suc n)" unfolding m by (rule bit_word_eqI) (auto simp: bit_simps less_Suc_eq)
  have n: "n < 64" using assms by simp
  have "unat ((h AND mask n) OR (mask n + 1)) = unat (take_bit n h) OR 2 ^ n"
  proof -
    have "(2 :: nat) ^ n < 2 ^ LENGTH(64)" using n power_strict_increasing [of n 64 "2 :: nat"] by simp
    then have "unat (of_nat (2 ^ n) :: u64) = 2 ^ n"
      unfolding unsigned_of_nat by (simp only: take_bit_nat_eq_self of_nat_id)
    then have "unat (2 ^ n :: u64) = 2 ^ n" by simp
    then show ?thesis unfolding m unsigned_or_eq by (simp add: take_bit_eq_mask)
  qed
  also have "\<dots> = unat (take_bit n h) + 2 ^ n"
    by (rule disjunctive_add_eq_or [symmetric], rule bit_eqI) (auto simp: unsigned_take_bit_eq bit_simps)
  finally show "unat ((h AND mask n) OR (mask n + 1)) = unat (take_bit n h) + 2 ^ n" .
qed

text \<open>The page of the upper half is a new one.\<close>

lemma split_page_no:
  assumes B: "dir_ok B" and n: "n = depth B h" "n < 16"
  defines "C \<equiv> B(node h n := True)" and "newp \<equiv> page_no B h + 2 ^ n"
  shows "take_bit n g = take_bit n h \<Longrightarrow> page_no C g = (if bit g n then newp else page_no B h)"
    "take_bit n g \<noteq> take_bit n h \<Longrightarrow> page_no C g = page_no B g \<and> page_no B g \<noteq> page_no B h \<and> page_no B g \<noteq> newp"
    "newp \<noteq> page_no B h"
proof -
  note sd = split_dir [OF B n, folded C_def]
  show ne: "newp \<noteq> page_no B h" by (simp add: newp_def)
  have up: "page_no C g = (if bit g n then newp else page_no B h)" if g: "take_bit n g = take_bit n h" for g
  proof -
    have "take_bit (Suc n) g = (if bit g n then take_bit n h OR 2 ^ n else take_bit n h)"
      unfolding g [symmetric] by (rule bit_word_eqI) (auto simp: bit_simps less_Suc_eq)
    moreover have "unat (take_bit n h OR 2 ^ n) = unat (take_bit n h) + 2 ^ n"
      using mask_bits(4) [of n h] mask_bits(1) [of n] n(2) by (simp add: take_bit_eq_mask)
    ultimately show ?thesis using sd(2) [OF g] by (simp add: page_no_def newp_def n(1))
  qed
  then show "take_bit n g = take_bit n h \<Longrightarrow> page_no C g = (if bit g n then newp else page_no B h)" .
  show "page_no C g = page_no B g \<and> page_no B g \<noteq> page_no B h \<and> page_no B g \<noteq> newp" if g: "take_bit n g \<noteq> take_bit n h"
  proof (intro conjI)
    have dp: "depth C g = depth B g" by (rule sd(3) [OF g])
    show pc: "page_no C g = page_no B g" using dp by (simp add: page_no_def)
    show "page_no B g \<noteq> page_no B h" using page_no_inj [OF B, of g h] g n(1) by auto
    define u where "u = take_bit n h OR 2 ^ n"
    have u: "take_bit n u = take_bit n h" "bit u n"
      using n(2) unfolding u_def by (auto simp: bit_simps intro!: bit_word_eqI)
    show "page_no B g \<noteq> newp"
    proof
      assume "page_no B g = newp"
      then have "page_no C g = page_no C u" using up [OF u(1)] u(2) pc by simp
      from page_no_inj [OF sd(1) this] have "take_bit (Suc n) g = take_bit (Suc n) u"
        using sd(2) [OF u(1)] by simp
      then have "take_bit n g = take_bit n u" by (rule take_bit_less) simp
      then show False using u(1) g by simp
    qed
  qed
qed

text \<open>\<open>makroom\<close> is in the middle of its work: the buffer is the page of the hash, at depth \<open>n\<close>.\<close>

definition at_leaf :: "sdbm \<Rightarrow> u64 \<Rightarrow> bool" where
  "at_leaf db h \<longleftrightarrow>
     sdbm_core db \<and> pagbno db = int (page_no (dirbit (dirf db)) h) \<and>
     curbit db = node h (depth (dirbit (dirf db)) h) \<and> hmask db = mask (depth (dirbit (dirf db)) h)"

lemma split_write_ok:
  assumes a: "at_leaf db h" and n: "n = depth (dirbit (dirf db)) h" "n < 16"
  defines "p0 \<equiv> page_no (dirbit (dirf db)) h"
  obtains pag new ps where
    "cur_page (split_write db h) = (cur_page db)(p0 := pag, p0 + 2 ^ n := new)"
    "page_has (le db) (cur_page db p0) ps"
    "page_has (le db) pag (filter (\<lambda>p. \<not> bit (sdbm_hash (fst p)) n) ps)"
    "page_has (le db) new (filter (\<lambda>p. bit (sdbm_hash (fst p)) n) ps)"
    "dirf (split_write db h) = dirf db" "same_mode db (split_write db h)" "curbit (split_write db h) = curbit db"
    "hmask (split_write db h) = hmask db" "maxbno (split_write db h) = maxbno db"
    "pagbno (split_write db h) = int (if bit h n then p0 + 2 ^ n else p0)"
    "length (pagf db) \<le> length (pagf (split_write db h))"
    "p0 + 2 ^ n < length (pagf (split_write db h)) \<or> pagbno (split_write db h) = int (p0 + 2 ^ n)"
    "sdbm_core (split_write db h)"
proof -
  have c: "sdbm_core db" and pb: "pagbno db = int p0" and hm: "hmask db = mask n"
    using a n by (auto simp: at_leaf_def p0_def)
  obtain pag new where s: "splpage (le db) (pagbuf db) (hmask db + 1) = (pag, new)" by fastforce
  have buf: "pagbuf db = cur_page db p0" by (simp add: cur_page_def pb)
  obtain ps where ps: "page_has (le db) (cur_page db p0) ps" using c unfolding sdbm_core_def by blast
  have n16: "n \<le> 16" using n(2) by simp
  note mb = mask_bits [OF n16] and sp = splpage_has [OF ps s [unfolded buf]]
  have pag: "page_has (le db) pag (filter (\<lambda>p. \<not> bit (sdbm_hash (fst p)) n) ps)"
    and new: "page_has (le db) new (filter (\<lambda>p. bit (sdbm_hash (fst p)) n) ps)"
  proof -
    have "(x AND (mask n + 1) = 0) = (\<not> bit x n)" "(x AND (mask n + 1) \<noteq> 0) = bit x n" for x :: u64 using mb(2) by blast+
    then show "page_has (le db) pag (filter (\<lambda>p. \<not> bit (sdbm_hash (fst p)) n) ps)"
      "page_has (le db) new (filter (\<lambda>p. bit (sdbm_hash (fst p)) n) ps)"
      using sp unfolding hm by (simp_all only:)
  qed
  have np: "unat ((h AND hmask db) OR (hmask db + 1)) = p0 + 2 ^ n"
    unfolding hm mb(4) by (simp add: p0_def page_no_def n)
  have sw: "split_write db h = (if bit h n then
      db\<lparr>pagf := put_block PBLKSIZ (pagf db) p0 pag, pagpos := Suc p0, pagbno := int (p0 + 2 ^ n), pagbuf := new\<rparr>
      else db\<lparr>pagbuf := pag, pagf := put_block PBLKSIZ (pagf db) (p0 + 2 ^ n) new, pagpos := Suc (p0 + 2 ^ n)\<rparr>)"
    unfolding split_write_def s prod.case Let_def np pb using mb(2) [of h] by (simp add: hm)
  have cur: "cur_page (split_write db h) = (cur_page db)(p0 := pag, p0 + 2 ^ n := new)"
  proof
    fix q
    consider "q = p0" | "q = p0 + 2 ^ n" | "q \<noteq> p0" "q \<noteq> p0 + 2 ^ n" by blast
    then show "cur_page (split_write db h) q = ((cur_page db)(p0 := pag, p0 + 2 ^ n := new)) q"
    proof cases
      case 3
      then have "int q \<noteq> int p0" "int q \<noteq> int (p0 + 2 ^ n)" by (simp_all only: of_nat_eq_iff not_False_eq_True)
      then show ?thesis unfolding sw using 3 by (simp add: cur_page_def pb block_at_put)
    qed (auto simp: sw cur_page_def pb block_at_put)
  qed
  have fr: "dirf (split_write db h) = dirf db" "same_mode db (split_write db h)" "curbit (split_write db h) = curbit db"
    "hmask (split_write db h) = hmask db" "maxbno (split_write db h) = maxbno db" "io (split_write db h) = io db"
    "dirbuf (split_write db h) = dirbuf db" "dirbno (split_write db h) = dirbno db" "le (split_write db h) = le db"
    unfolding sw by (simp_all add: same_mode_def)
  have pn: "pagbno (split_write db h) = int (if bit h n then p0 + 2 ^ n else p0)" unfolding sw by (simp add: pb)
  have len: "length (pagf db) \<le> length (pagf (split_write db h))"
    "p0 + 2 ^ n < length (pagf (split_write db h)) \<or> pagbno (split_write db h) = int (p0 + 2 ^ n)"
    unfolding sw by (auto simp: length_put)
  have "sdbm_core (split_write db h)"
    using c pag new unfolding sdbm_core_def cur fr by auto
  then show thesis using that [OF cur ps pag new] fr pn len by blast
qed

text \<open>The pairs of a page belong there.\<close>

definition sdbm_own :: "sdbm \<Rightarrow> bool" where
  "sdbm_own db \<longleftrightarrow>
     (\<forall>g. \<forall>p \<in> set (page_pairs (le db) (cur_page db (page_no (dirbit (dirf db)) g))).
        page_no (dirbit (dirf db)) (sdbm_hash (fst p)) = page_no (dirbit (dirf db)) g)"

lemma own_cong: "le db' = le db \<Longrightarrow> cur_page db' = cur_page db \<Longrightarrow> dirf db' = dirf db \<Longrightarrow> sdbm_own db' = sdbm_own db"
  by (simp add: sdbm_own_def)

text \<open>One round, up to the test for room.\<close>

lemma split_round:
  assumes a: "at_leaf db h" and n: "n = depth (dirbit (dirf db)) h" "n < 16"
  obtains db' where "setdbit (split_write db h) (curbit (split_write db h)) = (APR_SUCCESS, db')"
    "sdbm_core db'" "same_mode db db'" "sdbm_view db' = sdbm_view db" "hmask db' = mask n" "curbit db' = node h n"
    "depth (dirbit (dirf db')) h = Suc n" "pagbno db' = int (page_no (dirbit (dirf db')) h)"
    "length (pagf db) \<le> length (pagf db')" "sdbm_own db \<Longrightarrow> sdbm_own db'"
proof -
  let ?B = "dirbit (dirf db)" and ?d = "node h n"
  define p0 where "p0 = page_no ?B h"
  obtain pag new ps where
    cur: "cur_page (split_write db h) = (cur_page db)(p0 := pag, p0 + 2 ^ n := new)"
    and ps: "page_has (le db) (cur_page db p0) ps"
    and pag: "page_has (le db) pag (filter (\<lambda>p. \<not> bit (sdbm_hash (fst p)) n) ps)"
    and new: "page_has (le db) new (filter (\<lambda>p. bit (sdbm_hash (fst p)) n) ps)"
    and w: "dirf (split_write db h) = dirf db" "same_mode db (split_write db h)" "curbit (split_write db h) = curbit db"
    "hmask (split_write db h) = hmask db" "maxbno (split_write db h) = maxbno db"
    "pagbno (split_write db h) = int (if bit h n then p0 + 2 ^ n else p0)"
    "length (pagf db) \<le> length (pagf (split_write db h))"
    and c1: "sdbm_core (split_write db h)"
    using split_write_ok [OF a n] unfolding p0_def by blast
  have c: "sdbm_core db" and hm: "hmask db = mask n" and cb: "curbit db = ?d" using a n by (auto simp: at_leaf_def)
  have B: "dir_ok ?B" and mx: "\<And>d. ?B d \<Longrightarrow> d < maxbno db" and dvd: "32768 dvd maxbno db"
    using c by (auto simp: sdbm_core_def)
  note sd = split_dir [OF B n] and sp = split_page_no [OF B n]
  have room: "?d < maxbno (split_write db h) + 32768"
  proof (cases n)
    case 0
    then show ?thesis by (simp add: w(5))
  next
    case (Suc m)
    have "?B (node h m)" using dir_ok_leaf(2) [OF B, of m h] n Suc by simp
    then have "0 < maxbno db" using mx by fastforce
    then have "32768 \<le> maxbno db" using dvd by (auto dest: dvd_imp_le)
    moreover have "(2 :: nat) ^ n \<le> 2 ^ 15" using n(2) by (intro power_increasing) auto
    then have "?d < 65536" using node_range(2) [of h n] by simp
    ultimately show ?thesis using w(5) by simp
  qed
  obtain db' where st: "setdbit (split_write db h) ?d = (APR_SUCCESS, db')" and c': "sdbm_core db'"
    and C: "dirbit (dirf db') = ?B(?d := True)" and m: "same_mode (split_write db h) db'"
    and f: "pagf db' = pagf (split_write db h)" "pagbno db' = pagbno (split_write db h)" "pagbuf db' = pagbuf (split_write db h)"
      "hmask db' = hmask (split_write db h)" "curbit db' = curbit (split_write db h)"
    using setdbit_ok [OF c1, of ?d] sd(1) room w(1) by auto
  have cur': "cur_page db' = (cur_page db)(p0 := pag, p0 + 2 ^ n := new)"
  proof -
    have "cur_page db' = cur_page (split_write db h)" unfolding cur_page_def f ..
    then show ?thesis using cur by simp
  qed
  have le': "le db' = le db" using w(2) m by (simp add: same_mode_def)
  have view: "sdbm_view db' = sdbm_view db"
  proof
    fix k
    let ?g = "sdbm_hash k"
    show "sdbm_view db' k = sdbm_view db k"
    proof (cases "take_bit n ?g = take_bit n h")
      case True
      have old: "page_no ?B ?g = p0"
        using same_leaf [OF B True [unfolded n(1)]] True by (simp add: page_no_def p0_def n(1))
      have fil: "filter (\<lambda>p. P p \<and> fst p = k) ps = filter (\<lambda>p. fst p = k) ps"
        if "\<And>p. fst p = k \<Longrightarrow> P p" for P
        using that by (induction ps) auto
      show ?thesis
        unfolding sdbm_view_def C sp(1) [OF True] cur' old le' page_pairs_has [OF ps]
        using page_pairs_has [OF pag] page_pairs_has [OF new]
        by (auto simp: p0_def [symmetric] fil)
    next
      case False
      then show ?thesis unfolding sdbm_view_def C cur' le' using sp(2) [OF False] by (simp add: p0_def)
    qed
  qed
  have dp: "depth (dirbit (dirf db')) h = Suc n" unfolding C by (rule sd(2)) simp
  have pn: "pagbno db' = int (page_no (dirbit (dirf db')) h)"
    unfolding C sp(1) [OF refl] f(2) w(6) by (simp add: p0_def)
  have own: "sdbm_own db'" if o: "sdbm_own db"
    unfolding sdbm_own_def
  proof (intro allI ballI)
    fix g p assume p: "p \<in> set (page_pairs (le db') (cur_page db' (page_no (dirbit (dirf db')) g)))"
    let ?k = "sdbm_hash (fst p)"
    show "page_no (dirbit (dirf db')) ?k = page_no (dirbit (dirf db')) g"
    proof (cases "take_bit n g = take_bit n h")
      case True
      have in_ps: "p \<in> set ps" and b: "bit ?k n = bit g n"
        using p unfolding C sp(1) [OF True] cur' le' by (auto simp: p0_def [symmetric] page_pairs_has [OF pag] page_pairs_has [OF new] split: if_splits)
      have "page_no ?B ?k = page_no ?B h" using o in_ps page_pairs_has [OF ps] unfolding sdbm_own_def p0_def by blast
      then have "take_bit n ?k = take_bit n h" using page_no_inj [OF B] n(1) by blast
      then show ?thesis unfolding C sp(1) [OF True] using sp(1) [of ?k] b by simp
    next
      case False
      note q = sp(2) [OF False]
      have "p \<in> set (page_pairs (le db) (cur_page db (page_no ?B g)))"
        using p q unfolding C cur' le' by (simp add: p0_def)
      then have e: "page_no ?B ?k = page_no ?B g" using o unfolding sdbm_own_def by blast
      have "take_bit n ?k \<noteq> take_bit n h"
      proof
        assume t: "take_bit n ?k = take_bit n h"
        then have "page_no ?B ?k = page_no ?B h"
          using same_leaf [OF B t [unfolded n(1)]] by (simp add: page_no_def n(1))
        then show False using e q by simp
      qed
      then show ?thesis unfolding C using sp(2) [of ?k] q e by simp
    qed
  qed
  show thesis
    by (rule that [of db']) (use st c' m w f view dp pn cb hm same_mode_trans own in auto)
qed

text \<open>The number of pages that a state has on disk or in the buffer.\<close>

definition extent :: "sdbm \<Rightarrow> nat" where
  "extent db = max (length (pagf db)) (nat (pagbno db + 1))"

text \<open>Files do not shrink.\<close>

lemma setdbit_io:
  "io db = [] \<Longrightarrow> setdbit db d = (st, db') \<Longrightarrow>
     st = APR_SUCCESS \<and> io db' = [] \<and> pagf db' = pagf db \<and> pagbno db' = pagbno db"
  by (auto simp: setdbit_def load_dir_def read_from_ok write_block_ok Let_def split: if_splits)

lemma split_write_io: "io (split_write db h) = io db" "length (pagf db) \<le> length (pagf (split_write db h))"
  by (auto simp: split_write_def Let_def length_put split: prod.splits)

lemma split_extent:
  assumes a: "at_leaf db h" and n: "n = depth (dirbit (dirf db)) h" "n \<le> 16"
    and e: "setdbit (split_write db h) (curbit (split_write db h)) = (st, db')"
  shows "2 ^ n < extent db'" "length (pagf db) \<le> length (pagf db')"
proof -
  obtain pag new where s: "splpage (le db) (pagbuf db) (hmask db + 1) = (pag, new)" by fastforce
  have hm: "hmask db = mask n" and pb: "0 \<le> pagbno db" using a n by (auto simp: at_leaf_def)
  have np: "2 ^ n \<le> unat ((h AND hmask db) OR (hmask db + 1))" unfolding hm mask_bits(4) [OF n(2)] by simp
  have keep: "pagf db' = pagf (split_write db h)" "pagbno db' = pagbno (split_write db h)"
    using setdbit_io [OF _ e] split_write_io(1) [of db h] a by (auto simp: at_leaf_def sdbm_core_def)
  define q where "q = unat ((h AND hmask db) OR (hmask db + 1))"
  have "2 ^ n < extent (split_write db h) \<and> length (pagf db) \<le> length (pagf (split_write db h))"
    using np unfolding split_write_def s prod.case Let_def q_def [symmetric]
    by (auto simp: extent_def length_put nat_add_distrib)
  then show "2 ^ n < extent db'" "length (pagf db) \<le> length (pagf db')" by (simp_all add: keep extent_def)
qed

lemma write_page_core:
  assumes "sdbm_core db" "0 \<le> pagbno db" "pagbuf db = b"
  shows "\<exists>db'. write_page db b (nat (pagbno db)) = (APR_SUCCESS, db') \<and> sdbm_core db' \<and> coherent db' \<and>
    cur_page db' = cur_page db \<and> dirf db' = dirf db \<and> same_mode db db' \<and> pagbno db' = pagbno db \<and> hmask db' = hmask db \<and>
    curbit db' = curbit db \<and> pagbuf db' = pagbuf db \<and> sdbm_view db' = sdbm_view db \<and> length (pagf db) \<le> length (pagf db') \<and>
    nat (pagbno db') < length (pagf db')"
proof -
  let ?p = "nat (pagbno db)"
  let ?db = "db\<lparr>pagf := put_block PBLKSIZ (pagf db) ?p b, pagpos := Suc ?p\<rparr>"
  have w: "write_page db b ?p = (APR_SUCCESS, ?db)" using assms(1) by (intro write_page_ok) (simp add: sdbm_core_def)
  have cur: "cur_page ?db = cur_page db"
    using assms(2,3) by (auto simp: cur_page_def block_at_put fun_eq_iff)
  have "sdbm_core ?db" using assms(1) unfolding sdbm_core_def cur by simp
  moreover have "coherent ?db" using assms(3) by (simp add: coherent_def block_at_put)
  moreover have "sdbm_view ?db = sdbm_view db" by (intro ext) (simp only: sdbm_view_def cur, simp)
  ultimately show ?thesis using w cur by (auto simp: same_mode_def length_put)
qed

lemma makroom_mono:
  "io db = [] \<Longrightarrow> makroom_loop smax db h need = (st, db') \<Longrightarrow>
     length (pagf db) \<le> length (pagf db') \<and> io db' = [] \<and>
     (st \<noteq> APR_SUCCESS \<longrightarrow> smax = 0 \<and> db' = db \<or> extent db' \<le> length (pagf db'))"
proof (induction smax arbitrary: db)
  case (Suc smax)
  obtain st1 db1 where s1: "setdbit (split_write db h) (curbit (split_write db h)) = (st1, db1)" by fastforce
  have "io (split_write db h) = []" using Suc(2) split_write_io(1) by simp
  note k = setdbit_io [OF this s1]
  define d where "d = db1\<lparr>curbit := 2 * curbit db1 + (if h AND (hmask db1 + 1) \<noteq> 0 then 2 else 1), hmask := hmask db1 OR (hmask db1 + 1)\<rparr>"
  have d: "io d = []" "pagf d = pagf db1" using k by (simp_all add: d_def)
  have rr: "makroom_loop (Suc smax) db h need =
      (if fitpair (le db1) (pagbuf db1) need then (APR_SUCCESS, db1)
       else makroom_loop smax (d\<lparr>pagf := put_block PBLKSIZ (pagf d) (nat (pagbno d)) (pagbuf d), pagpos := Suc (nat (pagbno d))\<rparr>) h need)"
    unfolding makroom_loop_Suc [OF Suc(2)] Let_def s1 prod.case
    using k write_page_ok [OF d(1)] by (simp add: d_def)
  define f where "f = d\<lparr>pagf := put_block PBLKSIZ (pagf d) (nat (pagbno d)) (pagbuf d), pagpos := Suc (nat (pagbno d))\<rparr>"
  have r: "(if fitpair (le db1) (pagbuf db1) need then (APR_SUCCESS, db1) else makroom_loop smax f h need) = (st, db')"
    using Suc(3) unfolding rr f_def .
  have f: "io f = []" "extent f \<le> length (pagf f)" "length (pagf db1) \<le> length (pagf f)"
    using d by (auto simp: f_def extent_def length_put)
  show ?case
  proof (cases "fitpair (le db1) (pagbuf db1) need")
    case True
    then show ?thesis using r k split_write_io(2) [of db h] by auto
  next
    case False
    then have "makroom_loop smax f h need = (st, db')" using r by simp
    from Suc(1) [OF f(1) this] show ?thesis using f k split_write_io(2) [of db h] by auto
  qed
qed simp

lemma makroom_ok:
  "at_leaf db h \<Longrightarrow> makroom_loop smax db h need = (st, db') \<Longrightarrow> sdbm_own db \<Longrightarrow> \<not> fitpair (le db) (pagbuf db) need \<Longrightarrow>
     length (pagf db) \<le> length (pagf db') \<and>
     (extent db' \<le> 65536 \<longrightarrow>
        sdbm_core db' \<and> same_mode db db' \<and> sdbm_view db' = sdbm_view db \<and> sdbm_own db' \<and>
        pagbno db' = int (page_no (dirbit (dirf db')) h) \<and>
        (st = APR_SUCCESS \<and> fitpair (le db') (pagbuf db') need \<or>
         st = APR_ENOSPC \<and> \<not> fitpair (le db') (pagbuf db') need \<and>
           smax \<le> depth (dirbit (dirf db')) h - depth (dirbit (dirf db)) h \<and>
           (if smax = 0 then db' = db else coherent db')))"
proof (induction smax arbitrary: db)
  case 0
  then show ?case by (auto simp: at_leaf_def same_mode_def)
next
  case (Suc smax)
  define n where "n = depth (dirbit (dirf db)) h"
  have c: "sdbm_core db" using Suc(2) by (simp add: at_leaf_def)
  have io: "io db = []" and B: "dir_ok (dirbit (dirf db))" using c by (simp_all add: sdbm_core_def)
  have n16: "n \<le> 16" unfolding n_def by (rule dir_ok_leaf(3) [OF B])
  obtain st1 db1 where s1: "setdbit (split_write db h) (curbit (split_write db h)) = (st1, db1)" by fastforce
  note ext = split_extent [OF Suc(2) n_def n16 s1]
  have eq: "makroom_loop (Suc smax) db h need =
      (if st1 \<noteq> APR_SUCCESS then (st1, db1)
       else if fitpair (le db1) (pagbuf db1) need then (APR_SUCCESS, db1)
       else
         (let db = db1\<lparr>curbit := 2 * curbit db1 + (if h AND (hmask db1 + 1) \<noteq> 0 then 2 else 1)\<rparr>;
              db = db\<lparr>hmask := hmask db OR (hmask db + 1)\<rparr>
          in case write_page db (pagbuf db) (nat (pagbno db)) of (status, db) \<Rightarrow>
               if status \<noteq> APR_SUCCESS then (status, db) else makroom_loop smax db h need))"
    unfolding makroom_loop_Suc [OF io] by (simp only: Let_def s1 prod.case)
  show ?case
  proof (cases "n < 16")
    case False
    then have n: "n = 16" using n16 by simp
    have "io (split_write db h) = []" using io split_write_io(1) by simp
    note k = setdbit_io [OF this s1]
    have big: "65536 < extent db1" using ext(1) n by simp
    have "65536 < extent db'"
    proof (cases "fitpair (le db1) (pagbuf db1) need")
      case True
      then show ?thesis using Suc(3) big k unfolding eq by simp
    next
      case False
      define d where "d = db1\<lparr>curbit := 2 * curbit db1 + (if h AND (hmask db1 + 1) \<noteq> 0 then 2 else 1), hmask := hmask db1 OR (hmask db1 + 1)\<rparr>"
      define e where "e = d\<lparr>pagf := put_block PBLKSIZ (pagf d) (nat (pagbno d)) (pagbuf d), pagpos := Suc (nat (pagbno d))\<rparr>"
      have d: "io d = []" "pagf d = pagf db1" "pagbno d = pagbno db1" using k by (simp_all add: d_def)
      have "makroom_loop smax e h need = (st, db')"
        using Suc(3) False k write_page_ok [OF d(1)] unfolding eq by (simp add: e_def d_def)
      then have "length (pagf e) \<le> length (pagf db')" using makroom_mono [of e] d by (simp add: e_def)
      moreover have "extent db1 \<le> length (pagf e)"
        by (auto simp: e_def d extent_def length_put)
      ultimately have "65536 < length (pagf db')" using big by linarith
      then show ?thesis by (simp add: extent_def)
    qed
    moreover have "length (pagf db) \<le> length (pagf db')" using makroom_mono [OF io Suc(3)] by blast
    ultimately show ?thesis by simp
  next
    case True
    obtain d where d: "setdbit (split_write db h) (curbit (split_write db h)) = (APR_SUCCESS, d)"
      "sdbm_core d" "same_mode db d" "sdbm_view d = sdbm_view db" "hmask d = mask n" "curbit d = node h n"
      "depth (dirbit (dirf d)) h = Suc n" "pagbno d = int (page_no (dirbit (dirf d)) h)"
      "length (pagf db) \<le> length (pagf d)" "sdbm_own d"
      using Suc(4) split_round [OF Suc(2) n_def True] by blast
    have st1: "st1 = APR_SUCCESS" "db1 = d" using d(1) s1 by auto
    show ?thesis
    proof (cases "fitpair (le d) (pagbuf d) need")
      case fit: True
      then have "st = APR_SUCCESS" "db' = d" using Suc(3) unfolding eq st1 by simp_all
      then show ?thesis using d fit by auto
    next
      case fit: False
      define e where "e = d\<lparr>curbit := node h (Suc n), hmask := mask (Suc n)\<rparr>"
      have n16': "n \<le> 16" using True by simp
      have upd: "(let db = d\<lparr>curbit := 2 * curbit d + (if h AND (hmask d + 1) \<noteq> 0 then 2 else 1)\<rparr>
          in db\<lparr>hmask := hmask db OR (hmask db + 1)\<rparr>) = e"
      proof -
        have c: "2 * curbit d + (if h AND (hmask d + 1) \<noteq> 0 then 2 else 1) = node h (Suc n)"
          "hmask d OR (hmask d + 1) = mask (Suc n)"
          unfolding d(5,6) mask_bits(2,3) [OF n16'] by simp_all
        have "(let db = d\<lparr>curbit := 2 * curbit d + (if h AND (hmask d + 1) \<noteq> 0 then 2 else 1)\<rparr>
            in db\<lparr>hmask := hmask db OR (hmask db + 1)\<rparr>) =
          d\<lparr>curbit := 2 * curbit d + (if h AND (hmask d + 1) \<noteq> 0 then 2 else 1), hmask := hmask d OR (hmask d + 1)\<rparr>"
          by (simp add: Let_def)
        then show ?thesis unfolding c e_def .
      qed
      have ce: "sdbm_core e"
      proof -
        have "cur_page e = cur_page d" by (simp add: e_def cur_page_def fun_eq_iff)
        then show ?thesis using d(2) by (simp add: sdbm_core_def) (simp add: e_def)
      qed
      have ve: "sdbm_view e = sdbm_view d" by (simp add: e_def sdbm_view_def cur_page_def fun_eq_iff)
      obtain f where f: "write_page e (pagbuf e) (nat (pagbno e)) = (APR_SUCCESS, f)" "sdbm_core f" "coherent f"
        "dirf f = dirf e" "same_mode e f" "pagbno f = pagbno e" "hmask f = hmask e" "curbit f = curbit e"
        "sdbm_view f = sdbm_view e" "length (pagf e) \<le> length (pagf f)" "cur_page f = cur_page e" "pagbuf f = pagbuf e"
        using write_page_core [OF ce _ refl] d(8) by (auto simp: e_def)
      have al: "at_leaf f h" using f(2,4,6,7,8) d(7,8) by (simp add: at_leaf_def e_def)
      have r: "makroom_loop (Suc smax) db h need = makroom_loop smax f h need"
      proof -
        have "makroom_loop (Suc smax) db h need =
            (let db = (let db = d\<lparr>curbit := 2 * curbit d + (if h AND (hmask d + 1) \<noteq> 0 then 2 else 1)\<rparr>
                in db\<lparr>hmask := hmask db OR (hmask db + 1)\<rparr>)
             in case write_page db (pagbuf db) (nat (pagbno db)) of (status, db) \<Rightarrow>
               if status \<noteq> APR_SUCCESS then (status, db) else makroom_loop smax db h need)"
          unfolding eq st1 using fit by (simp add: Let_def)
        then show ?thesis unfolding upd by (simp add: Let_def f(1))
      qed
      have m: "same_mode db f" using d(3) f(5) by (simp add: same_mode_def e_def)
      have len: "length (pagf db) \<le> length (pagf f)" using d(9) f(10) by (simp add: e_def)
      have ow: "sdbm_own f"
      proof -
        have "cur_page e = cur_page d" by (simp add: e_def cur_page_def fun_eq_iff)
        moreover have "le f = le d" using f(5) by (simp add: same_mode_def e_def)
        ultimately show ?thesis using d(10) own_cong [of f d] f(4,11) by (simp add: e_def)
      qed
      have nf: "\<not> fitpair (le f) (pagbuf f) need" using fit f(5,12) by (simp add: same_mode_def e_def)
      have df: "depth (dirbit (dirf f)) h = Suc (depth (dirbit (dirf db)) h)" using d(7) f(4) by (simp add: e_def n_def)
      from Suc(1) [OF al Suc(3) [unfolded r] ow nf] show ?thesis
        using m len f(3,9) ve d(4) df by (auto intro: same_mode_trans split: if_splits)
    qed
  qed
qed

subsection \<open>Whole operations\<close>

text \<open>
  Between two calls: the buffer is the page on disk, and no shared lock is held, so that the
  database is locked exclusively (the handle does not share) or not at all.
\<close>

definition sdbm_ok :: "sdbm \<Rightarrow> bool" where
  "sdbm_ok db \<longleftrightarrow> sdbm_core db \<and> coherent db \<and> sdbm_own db \<and> \<not> rdonly db \<and> \<not> shared_lock db \<and>
     (if exclusive_lock db then 0 < lckcnt db else lckcnt db = 0)"

lemma own_same_files:
  "same_files db db' \<Longrightarrow> coherent db \<Longrightarrow> coherent db' \<Longrightarrow> sdbm_own db' = sdbm_own db"
  by (rule own_cong) (simp_all add: same_files_def cur_page_coherent)

lemma invalidate_ok:
  assumes "sdbm_core db" "coherent db"
  shows "sdbm_core (SDBM_INVALIDATE_CACHE db)" "coherent (SDBM_INVALIDATE_CACHE db)" "same_files db (SDBM_INVALIDATE_CACHE db)"
proof -
  let ?db = "SDBM_INVALIDATE_CACHE db"
  show co: "coherent ?db" by (simp add: SDBM_INVALIDATE_CACHE_def coherent_def)
  show "same_files db ?db" by (simp add: SDBM_INVALIDATE_CACHE_def same_files_def)
  have cur: "cur_page ?db = cur_page db"
    using cur_page_coherent [OF co] cur_page_coherent [OF assms(2)] by (simp add: SDBM_INVALIDATE_CACHE_def)
  have "d < DBLKSIZ * length (dirf db) * BYTESIZ" if "dirbit (dirf db) d" for d
  proof (rule ccontr)
    assume "\<not> d < DBLKSIZ * length (dirf db) * BYTESIZ"
    then have "length (dirf db) \<le> d div BYTESIZ div DBLKSIZ"
      by (simp add: div_mult2_eq [symmetric] less_eq_div_iff_mult_less_eq DBLKSIZ_def BYTESIZ_def)
    then show False using that by (simp add: dirbit_def block_at_def zeros_def DBLKSIZ_def)
  qed
  moreover have "32768 dvd DBLKSIZ * length (dirf db) * BYTESIZ"
  proof -
    have "DBLKSIZ * length (dirf db) * BYTESIZ = 32768 * length (dirf db)" by (simp add: DBLKSIZ_def BYTESIZ_def)
    then show ?thesis by (simp only: dvd_triv_left)
  qed
  ultimately show "sdbm_core ?db"
    using assms(1) unfolding sdbm_core_def cur
    by (simp add: SDBM_INVALIDATE_CACHE_def block_at_def)
qed

text \<open>An operation runs between \<open>apr_sdbm_lock\<close> and \<open>apr_sdbm_unlock\<close>.\<close>

lemma lock_ok:
  assumes ok: "sdbm_ok db" and t: "type = APR_FLOCK_SHARED \<or> type = APR_FLOCK_EXCLUSIVE"
  obtains db' where "apr_sdbm_lock db type = (APR_SUCCESS, db')" "sdbm_core db'" "coherent db'" "same_files db db'"
    "rdonly db' = rdonly db" "0 < lckcnt db'" "shared_lock db' \<or> exclusive_lock db'"
    "lckcnt db' = 1 \<or> exclusive_lock db' \<and> \<not> shared_lock db'"
proof -
  have tt: "type AND APR_FLOCK_TYPEMASK = APR_FLOCK_SHARED \<or> type AND APR_FLOCK_TYPEMASK = APR_FLOCK_EXCLUSIVE"
    using t by (auto simp: APR_FLOCK_SHARED_def APR_FLOCK_EXCLUSIVE_def APR_FLOCK_TYPEMASK_def)
  have io: "io db = []" using ok by (simp add: sdbm_ok_def sdbm_core_def)
  show thesis
  proof (cases "exclusive_lock db")
    case True
    let ?db = "db\<lparr>lckcnt := lckcnt db + 1\<rparr>"
    have cur: "cur_page ?db = cur_page db" by (simp add: cur_page_def fun_eq_iff)
    have "sdbm_core ?db" using ok unfolding sdbm_ok_def sdbm_core_def cur by simp
    then show thesis
      using that [of ?db] ok tt True
      by (auto simp: apr_sdbm_lock_def Let_def sdbm_ok_def coherent_def same_files_def)
  next
    case False
    define d where "d = (let db = SDBM_INVALIDATE_CACHE db; db = db\<lparr>lckcnt := lckcnt db + 1\<rparr>
       in if type = APR_FLOCK_SHARED then db\<lparr>shared_lock := True\<rparr> else db\<lparr>exclusive_lock := True\<rparr>)"
    have l: "apr_sdbm_lock db type = (APR_SUCCESS, d)"
      using False ok tt t io by (auto simp: apr_sdbm_lock_def Let_def sdbm_ok_def d_def)
    note inv = invalidate_ok [of db]
    have cur: "cur_page d = cur_page (SDBM_INVALIDATE_CACHE db)" by (simp add: d_def Let_def cur_page_def fun_eq_iff)
    have i: "sdbm_core (SDBM_INVALIDATE_CACHE db)" using inv(1) ok by (simp add: sdbm_ok_def)
    have "sdbm_core d" using i unfolding sdbm_core_def cur by (simp add: d_def Let_def)
    moreover have "coherent d" using inv(2) ok by (simp add: sdbm_ok_def coherent_def d_def Let_def)
    moreover have "same_files db d" using inv(3) ok by (simp add: sdbm_ok_def same_files_def d_def Let_def)
    ultimately show thesis
      using that [of d] l False ok by (auto simp: d_def Let_def sdbm_ok_def SDBM_INVALIDATE_CACHE_def)
  qed
qed

lemma unlock_ok:
  assumes "sdbm_core db" "coherent db" "sdbm_own db" "\<not> rdonly db" "0 < lckcnt db" "shared_lock db \<or> exclusive_lock db"
    "lckcnt db = 1 \<or> exclusive_lock db \<and> \<not> shared_lock db"
  shows "sdbm_ok (snd (apr_sdbm_unlock db)) \<and> same_files db (snd (apr_sdbm_unlock db)) \<and>
    sdbm_view (snd (apr_sdbm_unlock db)) = sdbm_view db"
proof -
  define d where "d = (if lckcnt db - 1 > 0 then db\<lparr>lckcnt := lckcnt db - 1\<rparr>
      else db\<lparr>lckcnt := lckcnt db - 1, shared_lock := False, exclusive_lock := False\<rparr>)"
  have io: "io db = []" using assms(1) by (simp add: sdbm_core_def)
  have u: "snd (apr_sdbm_unlock db) = d" using assms io by (auto simp: apr_sdbm_unlock_def Let_def d_def)
  have cur: "cur_page d = cur_page db" by (simp add: d_def cur_page_def fun_eq_iff)
  have c: "sdbm_core d" using assms(1) unfolding sdbm_core_def cur by (simp add: d_def)
  have co: "coherent d" using assms(2) by (simp add: coherent_def d_def)
  have f: "same_files db d" by (simp add: same_files_def d_def)
  have o: "sdbm_own d" using own_same_files [OF f assms(2) co] assms(3) by simp
  have "\<not> rdonly d" "\<not> shared_lock d" "if exclusive_lock d then 0 < lckcnt d else lckcnt d = 0"
    using assms(4-7) by (auto simp: d_def)
  then have "sdbm_ok d" using c co o unfolding sdbm_ok_def by blast
  then show ?thesis unfolding u using f view_same_files [OF f assms(2) co] by simp
qed

lemma view_page:
  "sdbm_core db \<Longrightarrow> pagbno db = int (page_no (dirbit (dirf db)) (sdbm_hash key)) \<Longrightarrow>
     \<exists>ps. page_has (le db) (pagbuf db) ps \<and> sdbm_view db key = map snd (filter (\<lambda>p. fst p = key) ps)"
  unfolding sdbm_core_def sdbm_view_def by (auto simp: cur_page_def) (metis page_pairs_has)+

lemma map_of_hd: "map_of ps key = (case map snd (filter (\<lambda>p. fst p = key) ps) of [] \<Rightarrow> None | v # _ \<Rightarrow> Some v)"
  by (induction ps) auto

text \<open>A fetch returns the first value and changes nothing.\<close>

lemma fetch_ok:
  assumes ok: "sdbm_ok db" and k: "key \<noteq> []"
  shows "\<exists>db'. apr_sdbm_fetch db key = (APR_SUCCESS, (case sdbm_view db key of [] \<Rightarrow> None | v # _ \<Rightarrow> Some v), db') \<and>
    sdbm_ok db' \<and> same_files db db' \<and> sdbm_view db' = sdbm_view db"
proof -
  obtain d where d: "apr_sdbm_lock db APR_FLOCK_SHARED = (APR_SUCCESS, d)" "sdbm_core d" "coherent d" "same_files db d"
    "rdonly d = rdonly db" "0 < lckcnt d" "shared_lock d \<or> exclusive_lock d" "lckcnt d = 1 \<or> exclusive_lock d \<and> \<not> shared_lock d"
    by (rule lock_ok [OF ok, of APR_FLOCK_SHARED]) auto
  have vd: "sdbm_view d = sdbm_view db" using view_same_files [OF d(4) _ d(3)] ok by (simp add: sdbm_ok_def)
  obtain e where e: "getpage d (sdbm_hash key) = (APR_SUCCESS, e)" "sdbm_core e" "coherent e" "same_files d e" "same_mode d e"
    "pagbno e = int (page_no (dirbit (dirf d)) (sdbm_hash key))"
    using getpage_ok [OF d(2,3)] by blast
  have ve: "sdbm_view e = sdbm_view db" using view_same_files [OF e(4) d(3) e(3)] vd by simp
  have "sdbm_own e" using own_same_files [OF d(4) _ d(3)] own_same_files [OF e(4) d(3) e(3)] ok by (simp add: sdbm_ok_def)
  have de: "dirf e = dirf d" "le e = le d" using e(4) by (simp_all add: same_files_def)
  obtain ps where ps: "page_has (le e) (pagbuf e) ps" "sdbm_view e key = map snd (filter (\<lambda>p. fst p = key) ps)"
    using view_page [OF e(2)] e(6) de by auto
  have "getpair (le e) (pagbuf e) key = (case sdbm_view db key of [] \<Rightarrow> None | v # _ \<Rightarrow> Some v)"
    using getpair_has [OF ps(1), of key] ps(2) map_of_hd [of ps key] ve by simp
  then have "apr_sdbm_fetch db key = (APR_SUCCESS, (case sdbm_view db key of [] \<Rightarrow> None | v # _ \<Rightarrow> Some v), snd (apr_sdbm_unlock e))"
    using k by (simp add: apr_sdbm_fetch_def bad_def d(1) e(1) Let_def)
  moreover have "sdbm_ok (snd (apr_sdbm_unlock e)) \<and> same_files e (snd (apr_sdbm_unlock e)) \<and> sdbm_view (snd (apr_sdbm_unlock e)) = sdbm_view e"
    by (rule unlock_ok) (use e d ok \<open>sdbm_own e\<close> in \<open>auto simp: same_mode_def sdbm_ok_def\<close>)
  ultimately show ?thesis using ve d(4) e(4) by (auto simp: same_files_def)
qed

text \<open>The start of a change: the page of the key is in the buffer.\<close>

lemma open_page:
  assumes ok: "sdbm_ok db"
  obtains d e ps where "apr_sdbm_lock db APR_FLOCK_EXCLUSIVE = (APR_SUCCESS, d)" "getpage d (sdbm_hash key) = (APR_SUCCESS, e)"
    "at_leaf e (sdbm_hash key)" "coherent e" "sdbm_own e" "sdbm_view e = sdbm_view db" "\<not> rdonly e" "0 < lckcnt e"
    "shared_lock e \<or> exclusive_lock e" "lckcnt e = 1 \<or> exclusive_lock e \<and> \<not> shared_lock e" "pagf e = pagf db"
    "page_has (le e) (pagbuf e) ps" "sdbm_view db key = map snd (filter (\<lambda>p. fst p = key) ps)"
    "\<And>k. k \<in> fst ` set ps \<Longrightarrow> sdbm_view db k = map snd (filter (\<lambda>p. fst p = k) ps)"
proof -
  obtain d where d: "apr_sdbm_lock db APR_FLOCK_EXCLUSIVE = (APR_SUCCESS, d)" "sdbm_core d" "coherent d" "same_files db d"
    "rdonly d = rdonly db" "0 < lckcnt d" "shared_lock d \<or> exclusive_lock d" "lckcnt d = 1 \<or> exclusive_lock d \<and> \<not> shared_lock d"
    by (rule lock_ok [OF ok, of APR_FLOCK_EXCLUSIVE]) auto
  have vd: "sdbm_view d = sdbm_view db" using view_same_files [OF d(4) _ d(3)] ok by (simp add: sdbm_ok_def)
  obtain e where e: "getpage d (sdbm_hash key) = (APR_SUCCESS, e)" "sdbm_core e" "coherent e" "same_files d e" "same_mode d e"
    "pagbno e = int (page_no (dirbit (dirf d)) (sdbm_hash key))" "curbit e = node (sdbm_hash key) (depth (dirbit (dirf d)) (sdbm_hash key))"
    "hmask e = mask (depth (dirbit (dirf d)) (sdbm_hash key))"
    using getpage_ok [OF d(2,3)] by blast
  have ve: "sdbm_view e = sdbm_view db" using view_same_files [OF e(4) d(3) e(3)] vd by simp
  have own: "sdbm_own e" using own_same_files [OF d(4) _ d(3)] own_same_files [OF e(4) d(3) e(3)] ok by (simp add: sdbm_ok_def)
  have de: "dirf e = dirf d" "le e = le d" "pagf e = pagf db" using e(4) d(4) by (simp_all add: same_files_def)
  have al: "at_leaf e (sdbm_hash key)" using e de by (simp add: at_leaf_def)
  obtain ps where ps: "page_has (le e) (pagbuf e) ps" "sdbm_view e key = map snd (filter (\<lambda>p. fst p = key) ps)"
    using view_page [OF e(2)] e(6) de by auto
  have all: "sdbm_view db k = map snd (filter (\<lambda>p. fst p = k) ps)" if k: "k \<in> fst ` set ps" for k
  proof -
    have cp: "cur_page e (page_no (dirbit (dirf e)) (sdbm_hash key)) = pagbuf e" using e(6) de by (simp add: cur_page_def)
    obtain p where p: "p \<in> set ps" "fst p = k" using k by auto
    have "page_no (dirbit (dirf e)) (sdbm_hash (fst p)) = page_no (dirbit (dirf e)) (sdbm_hash key)"
      using own p(1) page_pairs_has [OF ps(1)] cp unfolding sdbm_own_def by metis
    then show ?thesis unfolding ve [symmetric] sdbm_view_def using cp page_pairs_has [OF ps(1)] p(2) by simp
  qed
  show thesis
    by (rule that [OF d(1) e(1) al e(3) own ve _ _ _ _ de(3) ps(1) _ all]) (use d e ok ps ve in \<open>auto simp: same_mode_def sdbm_ok_def\<close>)
qed

text \<open>A change of the page in the buffer that concerns one key only.\<close>

lemma change_page:
  assumes c: "sdbm_core db" and own: "sdbm_own db" and pb: "pagbno db = int (page_no (dirbit (dirf db)) (sdbm_hash key))"
    and ps: "page_has (le db) (pagbuf db) ps" and qs: "page_has (le db) pag qs"
    and same: "\<And>k. k \<noteq> key \<Longrightarrow> filter (\<lambda>p. fst p = k) qs = filter (\<lambda>p. fst p = k) ps"
  shows "sdbm_core (db\<lparr>pagbuf := pag\<rparr>)" "sdbm_own (db\<lparr>pagbuf := pag\<rparr>)"
    "sdbm_view (db\<lparr>pagbuf := pag\<rparr>) = (sdbm_view db)(key := map snd (filter (\<lambda>p. fst p = key) qs))"
proof -
  let ?db = "db\<lparr>pagbuf := pag\<rparr>" and ?B = "dirbit (dirf db)"
  let ?p0 = "page_no ?B (sdbm_hash key)"
  have cur: "cur_page ?db = (cur_page db)(?p0 := pag)" by (auto simp: cur_page_def pb fun_eq_iff)
  have p0: "cur_page db ?p0 = pagbuf db" by (simp add: cur_page_def pb)
  show "sdbm_core ?db" using c qs unfolding sdbm_core_def cur by auto
  have "sdbm_own ?db \<longleftrightarrow> (\<forall>g. \<forall>p \<in> set (page_pairs (le db) (((cur_page db)(?p0 := pag)) (page_no ?B g))).
      page_no ?B (sdbm_hash (fst p)) = page_no ?B g)"
    unfolding sdbm_own_def cur by simp
  also have "\<dots>"
  proof (intro allI ballI)
    fix g p assume p: "p \<in> set (page_pairs (le db) (((cur_page db)(?p0 := pag)) (page_no ?B g)))"
    show "page_no ?B (sdbm_hash (fst p)) = page_no ?B g"
    proof (cases "page_no ?B g = ?p0")
      case True
      then have q: "p \<in> set qs" using p page_pairs_has [OF qs] by simp
      show ?thesis
      proof (cases "fst p = key")
        case False
        have "p \<in> set (filter (\<lambda>r. fst r = fst p) qs)" using q by simp
        then have "p \<in> set ps" unfolding same [OF False] by simp
        then show ?thesis using own p0 page_pairs_has [OF ps] True unfolding sdbm_own_def by metis
      qed (simp add: True)
    next
      case False
      then show ?thesis using own p unfolding sdbm_own_def by simp
    qed
  qed
  finally show "sdbm_own ?db" .
  show "sdbm_view ?db = (sdbm_view db)(key := map snd (filter (\<lambda>p. fst p = key) qs))"
  proof
    fix k
    show "sdbm_view ?db k = ((sdbm_view db)(key := map snd (filter (\<lambda>p. fst p = key) qs))) k"
    proof (cases "page_no ?B (sdbm_hash k) = ?p0")
      case True
      then show ?thesis using same [of k] page_pairs_has [OF qs] page_pairs_has [OF ps] p0
        unfolding sdbm_view_def cur by auto
    next
      case False
      then have "k \<noteq> key" by auto
      then show ?thesis using False unfolding sdbm_view_def cur by simp
    qed
  qed
qed

lemma filter_del_first:
  "filter (\<lambda>p. fst p = k) (del_first key ps) =
     (if k = key then tl (filter (\<lambda>p. fst p = key) ps) else filter (\<lambda>p. fst p = k) ps)"
  by (induction ps) auto

text \<open>The end of a change: the buffer is written.\<close>

lemma close_page:
  assumes c: "sdbm_core db" and own: "sdbm_own db" and pb: "0 \<le> pagbno db"
    and l: "\<not> rdonly db" "0 < lckcnt db" "shared_lock db \<or> exclusive_lock db" "lckcnt db = 1 \<or> exclusive_lock db \<and> \<not> shared_lock db"
  obtains d where "write_page db (pagbuf db) (nat (pagbno db)) = (APR_SUCCESS, d)" "sdbm_ok (snd (apr_sdbm_unlock d))"
    "sdbm_view (snd (apr_sdbm_unlock d)) = sdbm_view db" "extent db \<le> length (pagf (snd (apr_sdbm_unlock d)))"
proof -
  obtain d where d: "write_page db (pagbuf db) (nat (pagbno db)) = (APR_SUCCESS, d)" "sdbm_core d" "coherent d"
    "cur_page d = cur_page db" "dirf d = dirf db" "same_mode db d" "pagbno d = pagbno db" "sdbm_view d = sdbm_view db"
    "length (pagf db) \<le> length (pagf d)" "nat (pagbno d) < length (pagf d)"
    using write_page_core [OF c pb refl] by blast
  have "sdbm_own d" using own_cong [of d db] d own by (simp add: same_mode_def)
  then have "sdbm_ok (snd (apr_sdbm_unlock d)) \<and> same_files d (snd (apr_sdbm_unlock d)) \<and>
      sdbm_view (snd (apr_sdbm_unlock d)) = sdbm_view d"
    using d l by (intro unlock_ok) (auto simp: same_mode_def)
  then show thesis using that [OF d(1)] d(7-10) pb by (auto simp: same_files_def extent_def nat_add_distrib)
qed

subsection \<open>Specification: a map to lists of values\<close>

type_synonym spec = "byte list \<Rightarrow> byte list list"

text \<open>
  A store that finds no room within \<open>SPLTMAX\<close> splits (\<open>full\<close>) loses the value it was to replace.
\<close>

definition spec_store :: "spec \<Rightarrow> byte list \<Rightarrow> byte list \<Rightarrow> u32 \<Rightarrow> bool \<Rightarrow> apr_status \<times> spec" where
  "spec_store m key val flags full =
     (if key = [] \<or> length key + length val > 1008 then (APR_EINVAL, m)
      else if flags \<noteq> APR_SDBM_REPLACE \<and> flags AND APR_SDBM_INSERTDUP = 0 \<and> m key \<noteq> [] then (APR_EEXIST, m)
      else (let vals = (if flags = APR_SDBM_REPLACE then tl (m key) else m key)
            in if full then (APR_ENOSPC, m(key := vals)) else (APR_SUCCESS, m(key := vals @ [val]))))"

definition spec_delete :: "spec \<Rightarrow> byte list \<Rightarrow> apr_status \<times> spec" where
  "spec_delete m key =
     (if key = [] then (APR_EINVAL, m) else if m key = [] then (APR_EGENERAL, m) else (APR_SUCCESS, m(key := tl (m key))))"

text \<open>
  Why a store may find no room: keys of the map whose hashes agree with that of the key in the
  last ten bits take more than a page together with the new pair.
\<close>

definition crowded :: "spec \<Rightarrow> byte list \<Rightarrow> byte list \<Rightarrow> bool" where
  "crowded m key val \<longleftrightarrow>
     (\<exists>ps. (\<forall>p \<in> set ps. take_bit 10 (sdbm_hash (fst p)) = take_bit 10 (sdbm_hash key)) \<and>
        (\<forall>k \<in> fst ` set ps. map snd (filter (\<lambda>p. fst p = k) ps) = m k) \<and>
        1022 < pairs_size (ps @ [(key, val)]))"

lemma delete_ok:
  assumes ok: "sdbm_ok db"
  obtains st db' where "apr_sdbm_delete db key = (st, db')" "sdbm_ok db'"
    "spec_delete (sdbm_view db) key = (st, sdbm_view db')" "length (pagf db) \<le> length (pagf db')"
proof (cases "key = []")
  case True
  then show thesis using that [of APR_EINVAL db] ok by (simp add: apr_sdbm_delete_def bad_def spec_delete_def)
next
  case key: False
  obtain d e ps where l: "apr_sdbm_lock db APR_FLOCK_EXCLUSIVE = (APR_SUCCESS, d)" and g: "getpage d (sdbm_hash key) = (APR_SUCCESS, e)"
    and al: "at_leaf e (sdbm_hash key)" and e: "coherent e" "sdbm_own e" "sdbm_view e = sdbm_view db"
    and lk: "\<not> rdonly e" "0 < lckcnt e" "shared_lock e \<or> exclusive_lock e" "lckcnt e = 1 \<or> exclusive_lock e \<and> \<not> shared_lock e"
    and pf: "pagf e = pagf db" and ps: "page_has (le e) (pagbuf e) ps" and v: "sdbm_view db key = map snd (filter (\<lambda>p. fst p = key) ps)"
    using open_page [OF ok, of key] by metis
  have c: "sdbm_core e" and pb: "pagbno e = int (page_no (dirbit (dirf e)) (sdbm_hash key))" using al by (simp_all add: at_leaf_def)
  obtain found pag where dp: "delpair (le e) (pagbuf e) key = (found, pag)" by fastforce
  note dh = delpair_has [OF ps, of key, unfolded dp fst_conv snd_conv]
  have rd: "\<not> apr_sdbm_rdonly db" using ok by (simp add: sdbm_ok_def apr_sdbm_rdonly_def)
  have fnd: "found \<longleftrightarrow> sdbm_view db key \<noteq> []" unfolding v dh(1) by (auto simp: filter_empty_conv)
  show thesis
  proof (cases found)
    case False
    then have "pag = pagbuf e" using dp by (auto simp: delpair_def Let_def split: if_splits)
    then have "apr_sdbm_delete db key = (APR_EGENERAL, snd (apr_sdbm_unlock e))"
      using key rd l g dp False by (simp add: apr_sdbm_delete_def bad_def Let_def)
    moreover have "sdbm_ok (snd (apr_sdbm_unlock e)) \<and> same_files e (snd (apr_sdbm_unlock e)) \<and> sdbm_view (snd (apr_sdbm_unlock e)) = sdbm_view e"
      by (rule unlock_ok [OF c e(1,2) lk])
    ultimately show thesis using that fnd False key e(3) pf by (auto simp: spec_delete_def same_files_def)
  next
    case True
    have sm: "filter (\<lambda>p. fst p = k) (del_first key ps) = filter (\<lambda>p. fst p = k) ps" if "k \<noteq> key" for k
      using that by (simp add: filter_del_first)
    note ch = change_page [OF c e(2) pb ps dh(2) sm]
    let ?e = "e\<lparr>pagbuf := pag\<rparr>"
    obtain f where f: "write_page ?e (pagbuf ?e) (nat (pagbno ?e)) = (APR_SUCCESS, f)" "sdbm_ok (snd (apr_sdbm_unlock f))"
      "sdbm_view (snd (apr_sdbm_unlock f)) = sdbm_view ?e" "extent ?e \<le> length (pagf (snd (apr_sdbm_unlock f)))"
      by (rule close_page [OF ch(1,2)]) (use lk pb in auto)
    have "apr_sdbm_delete db key = (APR_SUCCESS, snd (apr_sdbm_unlock f))"
      using key rd l g dp True f(1) by (simp add: apr_sdbm_delete_def bad_def Let_def)
    moreover have "sdbm_view ?e = (sdbm_view db)(key := tl (sdbm_view db key))"
      using ch(3) e(3) v by (simp add: filter_del_first map_tl)
    ultimately show thesis using that f fnd True key pf by (auto simp: spec_delete_def extent_def)
  qed
qed

lemma store_need:
  assumes "length k < 2 ^ 31" "length v < 2 ^ 31"
  defines "need \<equiv> sint (of_nat (length k) + of_nat (length v) :: u32)"
  shows "need < 0 \<or> need > PAIRMAX \<longleftrightarrow> length k + length v > 1008"
    "length k + length v \<le> 1008 \<Longrightarrow> need = int (length k + length v)"
proof -
  let ?n = "length k + length v"
  have need: "need = signed_take_bit 31 (int ?n)"
    unfolding need_def by (simp flip: of_nat_add) (simp add: signed_of_nat del: of_nat_add)
  show "?n \<le> 1008 \<Longrightarrow> need = int ?n" unfolding need by (rule signed_take_bit_int_eq_self) auto
  moreover have "need < 0" if "?n \<ge> 2 ^ 31"
  proof -
    have "signed_take_bit 31 (int ?n) = signed_take_bit 31 (int ?n - 2 ^ 32)"
      by (rule signed_take_bit_eq_iff_take_bit_eq [THEN iffD2]) (simp add: take_bit_eq_mod)
    also have "\<dots> = int ?n - 2 ^ 32" by (rule signed_take_bit_int_eq_self) (use assms that in auto)
    finally show ?thesis unfolding need using assms by simp
  qed
  moreover have "need = int ?n" if "?n < 2 ^ 31" unfolding need by (rule signed_take_bit_int_eq_self) (use that in auto)
  ultimately show "need < 0 \<or> need > PAIRMAX \<longleftrightarrow> ?n > 1008"
    by (cases "?n < 2 ^ 31") (auto simp: PAIRMAX_def)
qed

text \<open>The rest of a store, from the page without the value to replace.\<close>

lemma store_rest:
  assumes al: "at_leaf e (sdbm_hash key)" and own: "sdbm_own e"
    and lk: "\<not> rdonly e" "0 < lckcnt e" "shared_lock e \<or> exclusive_lock e" "lckcnt e = 1 \<or> exclusive_lock e \<and> \<not> shared_lock e"
    and need: "need = int (length key + length val)"
    and r: "(if \<not> fitpair (le e) (pagbuf e) need then makroom e (sdbm_hash key) need else (APR_SUCCESS, e)) = (st, f)"
  shows "length (pagf e) \<le> length (pagf f)"
    "st = APR_SUCCESS \<Longrightarrow> \<exists>d. write_page (f\<lparr>pagbuf := putpair (le f) (pagbuf f) key val\<rparr>) (putpair (le f) (pagbuf f) key val) (nat (pagbno f)) = (APR_SUCCESS, d) \<and>
       extent f \<le> length (pagf (snd (apr_sdbm_unlock d))) \<and>
       (extent f \<le> 65536 \<longrightarrow> sdbm_ok (snd (apr_sdbm_unlock d)) \<and>
          sdbm_view (snd (apr_sdbm_unlock d)) = (sdbm_view e)(key := sdbm_view e key @ [val]))"
    "st \<noteq> APR_SUCCESS \<Longrightarrow> extent f \<le> length (pagf f) \<and> pagf (snd (apr_sdbm_unlock f)) = pagf f"
    "st \<noteq> APR_SUCCESS \<Longrightarrow> extent f \<le> 65536 \<Longrightarrow> st = APR_ENOSPC \<and> sdbm_ok (snd (apr_sdbm_unlock f)) \<and>
       same_files f (snd (apr_sdbm_unlock f)) \<and>
       sdbm_view (snd (apr_sdbm_unlock f)) = sdbm_view e \<and> crowded (sdbm_view e) key val"
proof -
  let ?h = "sdbm_hash key"
  have ce: "sdbm_core e" and pe: "pagbno e = int (page_no (dirbit (dirf e)) ?h)" using al by (simp_all add: at_leaf_def)
  have main: "length (pagf e) \<le> length (pagf f) \<and>
     (extent f \<le> 65536 \<longrightarrow>
        sdbm_core f \<and> same_mode e f \<and> sdbm_view f = sdbm_view e \<and> sdbm_own f \<and> pagbno f = int (page_no (dirbit (dirf f)) ?h) \<and>
        (st = APR_SUCCESS \<and> fitpair (le f) (pagbuf f) need \<or>
         st = APR_ENOSPC \<and> \<not> fitpair (le f) (pagbuf f) need \<and> 10 \<le> depth (dirbit (dirf f)) ?h \<and> coherent f))"
  proof (cases "fitpair (le e) (pagbuf e) need")
    case True
    then show ?thesis using r ce own pe by (auto simp: same_mode_def)
  next
    case False
    then have "makroom_loop 10 e ?h need = (st, f)" using r by (simp add: makroom_def SPLTMAX_def)
    from makroom_ok [OF al this own False] show ?thesis by auto
  qed
  then show "length (pagf e) \<le> length (pagf f)" by blast
  have pages: "\<exists>ps. page_has (le f) (pagbuf f) ps \<and> sdbm_view f key = map snd (filter (\<lambda>p. fst p = key) ps)"
    if "extent f \<le> 65536"
    by (rule view_page) (use main that in auto)
  have io: "io f = []"
  proof (cases "fitpair (le e) (pagbuf e) need")
    case True
    then show ?thesis using r ce by (simp add: sdbm_core_def)
  next
    case False
    have "io e = []" "makroom_loop SPLTMAX e ?h need = (st, f)" using r ce False by (simp_all add: makroom_def sdbm_core_def)
    then show ?thesis using makroom_mono by blast
  qed
  show "extent f \<le> length (pagf f) \<and> pagf (snd (apr_sdbm_unlock f)) = pagf f" if st: "st \<noteq> APR_SUCCESS"
  proof
    have i: "io e = []" using ce by (simp add: sdbm_core_def)
    have mk: "makroom_loop SPLTMAX e ?h need = (st, f)" using r st by (auto simp: makroom_def split: if_splits)
    show "extent f \<le> length (pagf f)" using makroom_mono [OF i mk] st by (auto simp: SPLTMAX_def)
    show "pagf (snd (apr_sdbm_unlock f)) = pagf f" by (simp add: apr_sdbm_unlock_def Let_def io)
  qed
  show "\<exists>d. write_page (f\<lparr>pagbuf := putpair (le f) (pagbuf f) key val\<rparr>) (putpair (le f) (pagbuf f) key val) (nat (pagbno f)) = (APR_SUCCESS, d) \<and>
       extent f \<le> length (pagf (snd (apr_sdbm_unlock d))) \<and>
       (extent f \<le> 65536 \<longrightarrow> sdbm_ok (snd (apr_sdbm_unlock d)) \<and>
          sdbm_view (snd (apr_sdbm_unlock d)) = (sdbm_view e)(key := sdbm_view e key @ [val]))"
    if st: "st = APR_SUCCESS"
  proof (cases "extent f \<le> 65536")
    case True
    obtain ps where ps: "page_has (le f) (pagbuf f) ps" "sdbm_view f key = map snd (filter (\<lambda>p. fst p = key) ps)"
      using pages [OF True] by blast
    have m: "sdbm_core f" "same_mode e f" "sdbm_view f = sdbm_view e" "sdbm_own f" "pagbno f = int (page_no (dirbit (dirf f)) ?h)"
      "fitpair (le f) (pagbuf f) need" using main True st by auto
    have fit: "4 * length ps + 6 + length key + length val + length (pair_data ps) \<le> 1024"
      using m(6) unfolding need fitpair_iff [OF ps(1)] by simp
    have sm: "filter (\<lambda>p. fst p = k) (ps @ [(key, val)]) = filter (\<lambda>p. fst p = k) ps" if "k \<noteq> key" for k
      using that by simp
    note ch = change_page [OF m(1,4,5) ps(1) putpair_has [OF ps(1) fit] sm]
    let ?f = "f\<lparr>pagbuf := putpair (le f) (pagbuf f) key val\<rparr>"
    obtain d where d: "write_page ?f (pagbuf ?f) (nat (pagbno ?f)) = (APR_SUCCESS, d)" "sdbm_ok (snd (apr_sdbm_unlock d))"
      "sdbm_view (snd (apr_sdbm_unlock d)) = sdbm_view ?f" "extent ?f \<le> length (pagf (snd (apr_sdbm_unlock d)))"
      by (rule close_page [OF ch(1,2)]) (use lk m(2,5) in \<open>auto simp: same_mode_def\<close>)
    have "sdbm_view ?f = (sdbm_view e)(key := sdbm_view e key @ [val])" using ch(3) ps(2) m(3) by simp
    then show ?thesis using d by (auto simp: extent_def)
  next
    case False
    let ?f = "f\<lparr>pagbuf := putpair (le f) (pagbuf f) key val\<rparr>"
    let ?d = "?f\<lparr>pagf := put_block PBLKSIZ (pagf f) (nat (pagbno f)) (putpair (le f) (pagbuf f) key val), pagpos := Suc (nat (pagbno f))\<rparr>"
    have "write_page ?f (putpair (le f) (pagbuf f) key val) (nat (pagbno f)) = (APR_SUCCESS, ?d)"
      using write_page_ok [of ?f] io by simp
    moreover have "pagf (snd (apr_sdbm_unlock ?d)) = pagf ?d" by (simp add: apr_sdbm_unlock_def Let_def io)
    moreover have "extent f \<le> length (pagf ?d)" by (simp add: extent_def length_put)
    ultimately show ?thesis using False by auto
  qed
  show "st = APR_ENOSPC \<and> sdbm_ok (snd (apr_sdbm_unlock f)) \<and> same_files f (snd (apr_sdbm_unlock f)) \<and>
       sdbm_view (snd (apr_sdbm_unlock f)) = sdbm_view e \<and> crowded (sdbm_view e) key val"
    if st: "st \<noteq> APR_SUCCESS" and x: "extent f \<le> 65536"
  proof -
    have m: "sdbm_core f" "same_mode e f" "sdbm_view f = sdbm_view e" "sdbm_own f" "pagbno f = int (page_no (dirbit (dirf f)) ?h)"
      "st = APR_ENOSPC" "\<not> fitpair (le f) (pagbuf f) need" "10 \<le> depth (dirbit (dirf f)) ?h" "coherent f"
      using main x st by auto
    have u: "sdbm_ok (snd (apr_sdbm_unlock f)) \<and> same_files f (snd (apr_sdbm_unlock f)) \<and> sdbm_view (snd (apr_sdbm_unlock f)) = sdbm_view f"
      by (rule unlock_ok) (use m lk in \<open>auto simp: same_mode_def\<close>)
    obtain ps where ps: "page_has (le f) (pagbuf f) ps" using pages [OF x] by blast
    have cp: "page_pairs (le f) (cur_page f (page_no (dirbit (dirf f)) ?h)) = ps"
      using m(5) page_pairs_has [OF ps] by (simp add: cur_page_def)
    have B: "dir_ok (dirbit (dirf f))" using m(1) by (simp add: sdbm_core_def)
    have own': "page_no (dirbit (dirf f)) (sdbm_hash (fst p)) = page_no (dirbit (dirf f)) ?h" if "p \<in> set ps" for p
      using m(4) that cp unfolding sdbm_own_def by metis
    have "crowded (sdbm_view e) key val" unfolding crowded_def
    proof (intro exI [of _ ps] conjI ballI)
      fix p assume "p \<in> set ps"
      then have "take_bit (depth (dirbit (dirf f)) ?h) (sdbm_hash (fst p)) = take_bit (depth (dirbit (dirf f)) ?h) ?h"
        using own' page_no_inj [OF B] by blast
      then show "take_bit 10 (sdbm_hash (fst p)) = take_bit 10 ?h" using m(8) by (rule take_bit_less)
    next
      fix k assume "k \<in> fst ` set ps"
      then obtain p where p: "p \<in> set ps" "k = fst p" by auto
      show "map snd (filter (\<lambda>p. fst p = k) ps) = sdbm_view e k"
        unfolding m(3) [symmetric] sdbm_view_def p(2) own' [OF p(1)] cp ..
    next
      show "1022 < pairs_size (ps @ [(key, val)])"
        using m(7) unfolding need fitpair_iff [OF ps] by (simp add: pairs_size)
    qed
    then show ?thesis using u m by simp
  qed
qed

lemma store_ok:
  assumes ok: "sdbm_ok db" and sz: "length key < 2 ^ 31" "length val < 2 ^ 31"
    and st: "apr_sdbm_store db key val flags = (st, db')"
  shows "length (pagf db) \<le> length (pagf db') \<and>
    (length (pagf db') \<le> 65536 \<longrightarrow>
       sdbm_ok db' \<and>
       (\<exists>full. spec_store (sdbm_view db) key val flags full = (st, sdbm_view db') \<and>
          (full \<longrightarrow> crowded ((sdbm_view db)(key := if flags = APR_SDBM_REPLACE then tl (sdbm_view db key) else sdbm_view db key)) key val)))"
proof (cases "key = [] \<or> length key + length val > 1008")
  case True
  have "apr_sdbm_store db key val flags = (APR_EINVAL, db)"
  proof (cases "key = []")
    case False
    then have c: "(sint (of_nat (length key) + of_nat (length val) :: u32) < 0 \<or>
        sint (of_nat (length key) + of_nat (length val) :: u32) > PAIRMAX) = True"
      using True store_need(1) [OF sz] by blast
    show ?thesis unfolding apr_sdbm_store_def Let_def c by simp
  qed (simp add: apr_sdbm_store_def bad_def)
  then have "st = APR_EINVAL" "db' = db" using st by simp_all
  moreover have "spec_store (sdbm_view db) key val flags False = (APR_EINVAL, sdbm_view db)"
    using True by (simp add: spec_store_def)
  ultimately show ?thesis using ok by blast
next
  case False
  define need where "need = sint (of_nat (length key) + of_nat (length val) :: u32)"
  have need: "need = int (length key + length val)" "\<not> (need < 0 \<or> need > PAIRMAX)"
    using store_need [OF sz] False unfolding need_def by auto
  have key: "\<not> bad key" "\<not> apr_sdbm_rdonly db" using False ok by (auto simp: bad_def sdbm_ok_def apr_sdbm_rdonly_def)
  obtain d e ps where l: "apr_sdbm_lock db APR_FLOCK_EXCLUSIVE = (APR_SUCCESS, d)" and g: "getpage d (sdbm_hash key) = (APR_SUCCESS, e)"
    and al: "at_leaf e (sdbm_hash key)" and e: "coherent e" "sdbm_own e" "sdbm_view e = sdbm_view db"
    and lk: "\<not> rdonly e" "0 < lckcnt e" "shared_lock e \<or> exclusive_lock e" "lckcnt e = 1 \<or> exclusive_lock e \<and> \<not> shared_lock e"
    and pf: "pagf e = pagf db" and ps: "page_has (le e) (pagbuf e) ps" and v: "sdbm_view db key = map snd (filter (\<lambda>p. fst p = key) ps)"
    using open_page [OF ok, of key] by metis
  have c: "sdbm_core e" and pb: "pagbno e = int (page_no (dirbit (dirf e)) (sdbm_hash key))" using al by (simp_all add: at_leaf_def)
  have dup: "duppair (le e) (pagbuf e) key \<longleftrightarrow> sdbm_view db key \<noteq> []"
    unfolding duppair_has [OF ps] v by (auto simp: filter_empty_conv)
  show ?thesis
  proof (cases "flags \<noteq> APR_SDBM_REPLACE \<and> flags AND APR_SDBM_INSERTDUP = 0 \<and> duppair (le e) (pagbuf e) key")
    case True
    then have s: "st = APR_EEXIST" "db' = snd (apr_sdbm_unlock e)"
      using st key l g need(2) by (simp_all add: apr_sdbm_store_def Let_def need_def)
    have "sdbm_ok (snd (apr_sdbm_unlock e)) \<and> same_files e (snd (apr_sdbm_unlock e)) \<and> sdbm_view (snd (apr_sdbm_unlock e)) = sdbm_view e"
      by (rule unlock_ok [OF c e(1,2) lk])
    moreover have "spec_store (sdbm_view db) key val flags False = (APR_EEXIST, sdbm_view db)"
      using True False dup by (simp add: spec_store_def)
    ultimately show ?thesis using s e(3) pf by (auto simp: same_files_def)
  next
    case nodup: False
    define vals where "vals = (if flags = APR_SDBM_REPLACE then tl (sdbm_view db key) else sdbm_view db key)"
    define a where "a = (if flags = APR_SDBM_REPLACE then e\<lparr>pagbuf := snd (delpair (le e) (pagbuf e) key)\<rparr> else e)"
    have sm: "filter (\<lambda>p. fst p = k) (del_first key ps) = filter (\<lambda>p. fst p = k) ps" if "k \<noteq> key" for k
      using that by (simp add: filter_del_first)
    note ch = change_page [OF c e(2) pb ps delpair_has(2) [OF ps, of key] sm]
    have a: "sdbm_core a" "sdbm_own a" "sdbm_view a = (sdbm_view db)(key := vals)"
      using ch c e v by (auto simp: a_def vals_def filter_del_first map_tl)
    have fr: "dirf a = dirf e" "pagf a = pagf e" "pagbno a = pagbno e" "curbit a = curbit e" "hmask a = hmask e" "rdonly a = rdonly e"
      "lckcnt a = lckcnt e" "shared_lock a = shared_lock e" "exclusive_lock a = exclusive_lock e"
      by (simp_all add: a_def)
    have ala: "at_leaf a (sdbm_hash key)" using al a(1) by (simp add: at_leaf_def fr)
    obtain s f where r: "(if \<not> fitpair (le a) (pagbuf a) need then makroom a (sdbm_hash key) need else (APR_SUCCESS, a)) = (s, f)"
      by fastforce
    note sr = store_rest [OF ala a(2) lk [folded fr] need(1) r]
    have run: "apr_sdbm_store db key val flags =
        (if s \<noteq> APR_SUCCESS then (s, snd (apr_sdbm_unlock f))
         else (case write_page (f\<lparr>pagbuf := putpair (le f) (pagbuf f) key val\<rparr>) (putpair (le f) (pagbuf f) key val) (nat (pagbno f)) of
                 (status, db) \<Rightarrow> (status, snd (apr_sdbm_unlock db))))"
    proof -
      have c1: "(flags \<noteq> APR_SDBM_REPLACE \<and> flags AND APR_SDBM_INSERTDUP = 0 \<and> duppair (le e) (pagbuf e) key) = False"
        "bad key = False" "apr_sdbm_rdonly db = False" "(need < 0 \<or> need > PAIRMAX) = False" "(APR_SUCCESS \<noteq> APR_SUCCESS) = False"
        using nodup key need(2) by blast+
      show ?thesis
        unfolding apr_sdbm_store_def Let_def need_def [symmetric] l g prod.case c1 if_False a_def [symmetric] r by simp
    qed
    show ?thesis
    proof (cases "s = APR_SUCCESS")
      case True
      obtain d where d: "write_page (f\<lparr>pagbuf := putpair (le f) (pagbuf f) key val\<rparr>) (putpair (le f) (pagbuf f) key val) (nat (pagbno f)) = (APR_SUCCESS, d)"
        "extent f \<le> length (pagf (snd (apr_sdbm_unlock d)))"
        "extent f \<le> 65536 \<Longrightarrow> sdbm_ok (snd (apr_sdbm_unlock d)) \<and>
          sdbm_view (snd (apr_sdbm_unlock d)) = (sdbm_view a)(key := sdbm_view a key @ [val])"
        using sr(2) [OF True] by blast
      have s: "st = APR_SUCCESS" "db' = snd (apr_sdbm_unlock d)" using st unfolding run by (simp_all add: True d(1))
      have "length (pagf db) \<le> length (pagf db')" using sr(1) d(2) pf by (simp add: s fr extent_def)
      moreover have "spec_store (sdbm_view db) key val flags False = (APR_SUCCESS, (sdbm_view db)(key := vals @ [val]))"
        using False nodup dup by (simp add: spec_store_def vals_def Let_def)
      ultimately show ?thesis using d(2,3) a(3) by (auto simp: s)
    next
      case no: False
      have s: "st = s" "db' = snd (apr_sdbm_unlock f)" using st unfolding run by (simp_all add: no)
      have full: "spec_store (sdbm_view db) key val flags True = (APR_ENOSPC, (sdbm_view db)(key := vals))"
        using False nodup dup by (simp add: spec_store_def vals_def Let_def)
      note sr3 = sr(3) [OF no] and sr4 = sr(4) [OF no]
      have len: "length (pagf db) \<le> length (pagf db')" using sr(1) sr3 pf by (simp add: s fr)
      show ?thesis
      proof (cases "length (pagf db') \<le> 65536")
        case True
        then have "extent f \<le> 65536" using sr3 by (simp add: s)
        note q = sr4 [OF this]
        have "spec_store (sdbm_view db) key val flags True = (st, sdbm_view db')" using full q a(3) by (simp add: s)
        moreover have "crowded ((sdbm_view db)(key := vals)) key val" using q a(3) by simp
        ultimately show ?thesis using len q s(2) unfolding vals_def by blast
      qed (use len in simp)
    qed
  qed
qed

subsection \<open>Runs\<close>

datatype sdbm_op = Store "byte list" "byte list" u32 | Delete "byte list"

fun sdbm_do :: "sdbm \<Rightarrow> sdbm_op \<Rightarrow> apr_status \<times> sdbm" where
  "sdbm_do db (Store key val flags) = apr_sdbm_store db key val flags"
| "sdbm_do db (Delete key) = apr_sdbm_delete db key"

fun spec_do :: "spec \<Rightarrow> sdbm_op \<Rightarrow> bool \<Rightarrow> apr_status \<times> spec" where
  "spec_do m (Store key val flags) full = spec_store m key val flags full"
| "spec_do m (Delete key) full = spec_delete m key"

text \<open>\<open>full\<close> is a possible answer.\<close>

fun may_be_full :: "spec \<Rightarrow> sdbm_op \<Rightarrow> bool" where
  "may_be_full m (Store key val flags) =
     crowded (m(key := if flags = APR_SDBM_REPLACE then tl (m key) else m key)) key val"
| "may_be_full m (Delete key) = False"

fun op_sizes :: "sdbm_op \<Rightarrow> bool" where
  "op_sizes (Store key val flags) \<longleftrightarrow> length key < 2 ^ 31 \<and> length val < 2 ^ 31"
| "op_sizes (Delete key) \<longleftrightarrow> True"

fun sdbm_run :: "sdbm \<Rightarrow> sdbm_op list \<Rightarrow> apr_status list \<times> sdbm" where
  "sdbm_run db [] = ([], db)"
| "sdbm_run db (a # ops) =
     (case sdbm_do db a of (st, db) \<Rightarrow> (case sdbm_run db ops of (sts, db) \<Rightarrow> (st # sts, db)))"

inductive spec_run :: "spec \<Rightarrow> sdbm_op list \<Rightarrow> apr_status list \<Rightarrow> spec \<Rightarrow> bool" where
  spec_Nil: "spec_run m [] [] m"
| spec_Cons: "spec_do m a full = (st, m') \<Longrightarrow> (full \<longrightarrow> may_be_full m a) \<Longrightarrow> spec_run m' ops sts m'' \<Longrightarrow>
     spec_run m (a # ops) (st # sts) m''"

inductive_cases spec_run_NilE: "spec_run m [] sts m'"
inductive_cases spec_run_ConsE: "spec_run m (a # ops) sts m'"

lemma do_ok:
  assumes "sdbm_ok db" "op_sizes a" "sdbm_do db a = (st, db')"
  shows "length (pagf db) \<le> length (pagf db')"
    "length (pagf db') \<le> 65536 \<Longrightarrow> sdbm_ok db' \<and> (\<exists>full. spec_do (sdbm_view db) a full = (st, sdbm_view db') \<and> (full \<longrightarrow> may_be_full (sdbm_view db) a))"
proof -
  have "length (pagf db) \<le> length (pagf db') \<and> (length (pagf db') \<le> 65536 \<longrightarrow>
      sdbm_ok db' \<and> (\<exists>full. spec_do (sdbm_view db) a full = (st, sdbm_view db') \<and> (full \<longrightarrow> may_be_full (sdbm_view db) a)))"
  proof (cases a)
    case (Store key val flags)
    then show ?thesis using store_ok [OF assms(1), of key val flags st db'] assms by simp
  next
    case (Delete key)
    obtain s d where "apr_sdbm_delete db key = (s, d)" "sdbm_ok d" "spec_delete (sdbm_view db) key = (s, sdbm_view d)"
      "length (pagf db) \<le> length (pagf d)"
      using delete_ok [OF assms(1), of key] by blast
    then show ?thesis using assms(3) Delete by auto
  qed
  then show "length (pagf db) \<le> length (pagf db')"
    "length (pagf db') \<le> 65536 \<Longrightarrow> sdbm_ok db' \<and> (\<exists>full. spec_do (sdbm_view db) a full = (st, sdbm_view db') \<and> (full \<longrightarrow> may_be_full (sdbm_view db) a))"
    by blast+
qed

text \<open>Whatever the state, the page file does not shrink.\<close>

definition grows :: "sdbm \<Rightarrow> sdbm \<Rightarrow> bool" where
  "grows db db' \<longleftrightarrow> (io db = [] \<longrightarrow> io db' = [] \<and> length (pagf db) \<le> length (pagf db'))"

lemma grows_trans: "grows a b \<Longrightarrow> grows b c \<Longrightarrow> grows a c"
  by (auto simp: grows_def)

lemma grows_refl [simp]: "grows a a"
  by (simp add: grows_def)

lemma grows_lock: "grows db (snd (apr_sdbm_lock db type))"
  by (auto simp: grows_def apr_sdbm_lock_def Let_def SDBM_INVALIDATE_CACHE_def)

lemma grows_unlock: "grows db (snd (apr_sdbm_unlock db))"
  by (auto simp: grows_def apr_sdbm_unlock_def Let_def)

lemma grows_walk: "getpage_walk db h i n = (i', n', db') \<Longrightarrow> grows db db'"
proof (induction db h i n rule: getpage_walk.induct)
  case (1 db h i n)
  have g: "grows db (snd (getdbit db i))"
    by (auto simp: grows_def getdbit_def load_dir_def read_from_ok Let_def)
  show ?case using 1(2) g 1(1) [OF _ refl]
    by (subst (asm) getpage_walk.simps) (auto simp: Let_def split: if_splits intro: grows_trans)
qed

lemma grows_getpage: "grows db (snd (getpage db h))"
proof -
  obtain i n d where w: "getpage_walk db h 0 0 = (i, n, d)" by (cases "getpage_walk db h 0 0")
  have "grows d (snd (getpage db h))"
    unfolding getpage_def w prod.case Let_def by (auto simp: grows_def read_from_ok)
  with grows_walk [OF w] show ?thesis by (rule grows_trans)
qed

lemma grows_write: "grows db (snd (write_page db b p))"
  by (auto simp: grows_def write_page_ok length_put)

lemma grows_buf: "grows db (db\<lparr>pagbuf := b\<rparr>)"
  by (simp add: grows_def)

lemma grows_makroom: "grows db (snd (makroom db h need))"
  using makroom_mono [of db SPLTMAX h need] unfolding grows_def makroom_def
  by (metis prod.collapse)

lemma do_grows: "grows db (snd (sdbm_do db a))"
proof (cases a)
  case (Delete key)
  obtain s1 d where 1: "apr_sdbm_lock db APR_FLOCK_EXCLUSIVE = (s1, d)" by fastforce
  obtain s2 e where 2: "getpage d (sdbm_hash key) = (s2, e)" by fastforce
  obtain b p where 3: "delpair (le e) (pagbuf e) key = (b, p)" by fastforce
  obtain s4 f where 4: "write_page (e\<lparr>pagbuf := p\<rparr>) p (nat (pagbno e)) = (s4, f)" by fastforce
  have g: "grows db d" "grows db e" "grows db (snd (apr_sdbm_unlock e))" "grows db (snd (apr_sdbm_unlock (e\<lparr>pagbuf := p\<rparr>)))"
    "grows db (snd (apr_sdbm_unlock f))"
    using grows_lock [of db APR_FLOCK_EXCLUSIVE] grows_getpage [of d "sdbm_hash key"] grows_unlock grows_buf [of e p]
      grows_write [of "e\<lparr>pagbuf := p\<rparr>" p "nat (pagbno e)"] 1 2 4
    by (auto intro: grows_trans) (metis grows_trans grows_unlock snd_conv)+
  show ?thesis using g by (simp add: Delete apr_sdbm_delete_def 1 2 3 4 Let_def)
next
  case (Store key val flags)
  obtain s1 d where 1: "apr_sdbm_lock db APR_FLOCK_EXCLUSIVE = (s1, d)" by fastforce
  obtain s2 e where 2: "getpage d (sdbm_hash key) = (s2, e)" by fastforce
  define a where "a = (if flags = APR_SDBM_REPLACE then e\<lparr>pagbuf := snd (delpair (le e) (pagbuf e) key)\<rparr> else e)"
  define need where "need = sint (of_nat (length key) + of_nat (length val) :: u32)"
  obtain s3 f where 3: "(if \<not> fitpair (le a) (pagbuf a) need then makroom a (sdbm_hash key) need else (APR_SUCCESS, a)) = (s3, f)"
    by fastforce
  define q where "q = putpair (le f) (pagbuf f) key val"
  obtain s4 r where 4: "write_page (f\<lparr>pagbuf := q\<rparr>) q (nat (pagbno f)) = (s4, r)" by fastforce
  have "grows db d" "grows d e" using grows_lock [of db APR_FLOCK_EXCLUSIVE] grows_getpage [of d "sdbm_hash key"] 1 2 by simp_all
  moreover have "grows e a" by (simp add: a_def grows_buf)
  moreover have "grows a f" using grows_makroom [of a "sdbm_hash key" need] 3 by (auto split: if_splits)
  moreover have "grows f r" using grows_write [of "f\<lparr>pagbuf := q\<rparr>" q "nat (pagbno f)"] grows_buf [of f q] 4 by (auto intro: grows_trans)
  ultimately have g: "grows db d" "grows db e" "grows db f" "grows db r" by (blast intro: grows_trans)+
  have u: "grows db (snd (apr_sdbm_unlock e))" "grows db (snd (apr_sdbm_unlock f))" "grows db (snd (apr_sdbm_unlock r))"
    using g grows_unlock by (blast intro: grows_trans)+
  have "apr_sdbm_store db key val flags \<in> {(APR_EINVAL, db), (s1, d), (s2, snd (apr_sdbm_unlock e)),
      (APR_EEXIST, snd (apr_sdbm_unlock e)), (s3, snd (apr_sdbm_unlock f)), (s4, snd (apr_sdbm_unlock r))}"
    unfolding apr_sdbm_store_def Let_def need_def [symmetric] 1 2 prod.case a_def [symmetric] 3
    using 4 by (simp add: q_def)
  then show ?thesis using g u by (auto simp: Store)
qed

lemma run_grows: "sdbm_run db ops = (sts, db') \<Longrightarrow> grows db db'"
proof (induction ops arbitrary: db sts db')
  case (Cons a ops)
  obtain st d where d: "sdbm_do db a = (st, d)" by fastforce
  obtain sts' e where e: "sdbm_run d ops = (sts', e)" by fastforce
  have "db' = e" using Cons(2) by (simp add: d e)
  then show ?case using Cons(1) [OF e] do_grows [of db a] d by (auto intro: grows_trans)
qed simp

lemma run_ok:
  "sdbm_ok db \<Longrightarrow> list_all op_sizes ops \<Longrightarrow> sdbm_run db ops = (sts, db') \<Longrightarrow> length (pagf db') \<le> 65536 \<Longrightarrow>
     sdbm_ok db' \<and> spec_run (sdbm_view db) ops sts (sdbm_view db')"
proof (induction ops arbitrary: db sts)
  case Nil
  then show ?case by (auto intro: spec_Nil)
next
  case (Cons a ops)
  obtain st d where d: "sdbm_do db a = (st, d)" by fastforce
  obtain sts' where e: "sdbm_run d ops = (sts', db')" and sts: "sts = st # sts'"
    using Cons(4) by (auto simp: d split: prod.splits)
  have "io d = []" using do_grows [of db a] Cons(2) d by (simp add: grows_def sdbm_ok_def sdbm_core_def)
  then have "length (pagf d) \<le> 65536" using run_grows [OF e] Cons(5) by (simp add: grows_def)
  with do_ok(2) [OF Cons(2) _ d] Cons(3) obtain full where dk: "sdbm_ok d"
    "spec_do (sdbm_view db) a full = (st, sdbm_view d)" "full \<longrightarrow> may_be_full (sdbm_view db) a" by auto
  have ls: "list_all op_sizes ops" using Cons(3) by simp
  from Cons(1) [OF dk(1) ls e Cons(5)] show ?case
    unfolding sts using dk(2,3) by (auto intro: spec_Cons)
qed

text \<open>A new database.\<close>

lemma empty_ok:
  assumes f: "io db = []" "dirf db = []" "pagf db = []" and b: "dirbuf db = zeros DBLKSIZ" "dirbno db = 0" "pagbno db = -1" "maxbno db = 0"
    and l: "\<not> rdonly db" "\<not> shared_lock db" "lckcnt db = (if exclusive_lock db then 1 else 0)"
  shows "sdbm_ok db \<and> sdbm_view db = (\<lambda>key. [])"
proof -
  have co: "coherent db" by (simp add: coherent_def b)
  have cur: "cur_page db = (\<lambda>p. replicate 1024 0)"
    unfolding cur_page_coherent [OF co] by (rule ext) (simp add: block_at_def f zeros_def PBLKSIZ_def)
  have no: "page_pairs order (replicate 1024 0) = []" for order by (rule page_pairs_has [OF page_empty])
  have dir: "dirbit (dirf db) = (\<lambda>d. False)"
    by (rule ext) (simp add: f dirbit_def block_at_def zeros_def DBLKSIZ_def)
  have "sdbm_core db"
    unfolding sdbm_core_def cur dir using f b by (auto simp: block_at_def dir_ok_def intro: page_empty)
  moreover have "sdbm_own db" unfolding sdbm_own_def cur no by simp
  moreover have "sdbm_view db = (\<lambda>key. [])" unfolding sdbm_view_def cur no by simp
  ultimately show ?thesis using co l by (simp add: sdbm_ok_def)
qed

lemma prep_ok:
  assumes "prep order [] [] [] True sharelock = (APR_SUCCESS, Some db)"
  shows "sdbm_ok db \<and> sdbm_view db = (\<lambda>key. [])"
proof (rule empty_ok)
  have tt: "APR_FLOCK_EXCLUSIVE AND APR_FLOCK_TYPEMASK = APR_FLOCK_EXCLUSIVE"
    by (simp add: APR_FLOCK_EXCLUSIVE_def APR_FLOCK_TYPEMASK_def)
  have db: "db = \<lparr>le = order, dirf = [], pagf = [], pagpos = 0, io = [], rdonly = False, shared = sharelock,
      shared_lock = False, exclusive_lock = \<not> sharelock, maxbno = 0, curbit = 0, hmask = 0, blkptr = 0, keyptr = 0,
      pagbno = -1, pagbuf = zeros PBLKSIZ, dirbno = 0, dirbuf = zeros DBLKSIZ, lckcnt = (if sharelock then 0 else 1)\<rparr>"
    using assms unfolding prep_def apr_sdbm_lock_def apr_sdbm_unlock_def SDBM_INVALIDATE_CACHE_def Let_def
    by (cases sharelock) (auto simp: tt io_call_def APR_FLOCK_EXCLUSIVE_def APR_FLOCK_SHARED_def APR_FLOCK_TYPEMASK_def)
  show "io db = []" "dirf db = []" "pagf db = []" "dirbuf db = zeros DBLKSIZ" "dirbno db = 0" "pagbno db = -1" "maxbno db = 0"
    "\<not> rdonly db" "\<not> shared_lock db" "lckcnt db = (if exclusive_lock db then 1 else 0)"
    unfolding db by simp_all
qed

text \<open>The first store of a pair.\<close>

lemma prep_new:
  "prep order [] [] [] True True = (APR_SUCCESS, Some \<lparr>le = order, dirf = [], pagf = [], pagpos = 0, io = [], rdonly = False, shared = True,
      shared_lock = False, exclusive_lock = False, maxbno = 0, curbit = 0, hmask = 0, blkptr = 0, keyptr = 0,
      pagbno = -1, pagbuf = zeros PBLKSIZ, dirbno = 0, dirbuf = zeros DBLKSIZ, lckcnt = 0\<rparr>)"
  by (simp add: prep_def apr_sdbm_lock_def apr_sdbm_unlock_def SDBM_INVALIDATE_CACHE_def Let_def APR_FLOCK_EXCLUSIVE_def APR_FLOCK_SHARED_def APR_FLOCK_TYPEMASK_def)

lemma page_zeros: "page_has order (zeros PBLKSIZ) []"
  using page_empty by (simp add: zeros_def PBLKSIZ_def)

lemma fit_new: "fitpair order (zeros PBLKSIZ) 2"
  using fitpair_iff [OF page_zeros, of order 2] by (simp add: pair_data_def)

lemma first_store:
  assumes f: "io db = []" "dirf db = []" "pagf db = []" "\<not> rdonly db" "\<not> shared_lock db" "\<not> exclusive_lock db" "lckcnt db = 0"
  shows "fst (apr_sdbm_store db [107] [118] APR_SDBM_INSERT) = APR_SUCCESS"
    "length (pagf (snd (apr_sdbm_store db [107] [118] APR_SDBM_INSERT))) = 1"
proof -
  let ?h = "sdbm_hash [107]" and ?z = "zeros PBLKSIZ"
  define d where "d = (SDBM_INVALIDATE_CACHE db)\<lparr>lckcnt := 1, exclusive_lock := True\<rparr>"
  define e where "e = d\<lparr>curbit := 0, hmask := 0, pagbuf := ?z, pagbno := 0\<rparr>"
  define g where "g = e\<lparr>pagbuf := putpair (le e) ?z [107] [118], pagf := [putpair (le e) ?z [107] [118]], pagpos := 1\<rparr>"
  have l: "apr_sdbm_lock db APR_FLOCK_EXCLUSIVE = (APR_SUCCESS, d)"
    using f by (simp add: apr_sdbm_lock_def APR_FLOCK_EXCLUSIVE_def APR_FLOCK_SHARED_def APR_FLOCK_TYPEMASK_def Let_def d_def
        SDBM_INVALIDATE_CACHE_def)
  have d: "io d = []" "dirf d = []" "pagf d = []" "maxbno d = 0" "pagbno d = -1" "pagpos d = pagpos db"
    using f by (simp_all add: d_def SDBM_INVALIDATE_CACHE_def)
  have w: "getpage_walk d ?h 0 0 = (0, 0, d)" using d by (simp add: getpage_walk.simps)
  have r: "read_from (d\<lparr>curbit := 0, hmask := 0\<rparr>) [] (pagpos d) (pagbuf d) 0 PBLKSIZ = (APR_SUCCESS, ?z, 0, d\<lparr>curbit := 0, hmask := 0\<rparr>)"
    using d by (simp add: read_from_ok block_at_def del: PBLKSIZ_nat)
  have gp: "getpage d ?h = (APR_SUCCESS, e\<lparr>pagpos := 0\<rparr>)"
    unfolding getpage_def w prod.case Let_def
    using d r by (simp add: masks_def chkpage_has [OF page_zeros] e_def del: PBLKSIZ_nat)
  have dup: "\<not> duppair (le e) ?z [107]" by (simp add: duppair_has [OF page_zeros] del: PBLKSIZ_nat)
  have need: "sint (of_nat (length [107 :: byte]) + of_nat (length [118 :: byte]) :: u32) = 2" by simp
  have "apr_sdbm_store db [107] [118] APR_SDBM_INSERT = (APR_SUCCESS, snd (apr_sdbm_unlock g))"
    unfolding apr_sdbm_store_def l prod.case gp need Let_def
    using f d dup fit_new
    by (simp add: bad_def apr_sdbm_rdonly_def PAIRMAX_def APR_SDBM_INSERT_def APR_SDBM_REPLACE_def e_def write_page_ok put_block_def g_def del: PBLKSIZ_nat)
  moreover have "pagf (snd (apr_sdbm_unlock g)) = pagf g"
    using d by (simp add: apr_sdbm_unlock_def Let_def g_def e_def d_def del: PBLKSIZ_nat)
  ultimately show "fst (apr_sdbm_store db [107] [118] APR_SDBM_INSERT) = APR_SUCCESS"
    "length (pagf (snd (apr_sdbm_store db [107] [118] APR_SDBM_INSERT))) = 1" by (simp_all add: g_def)
qed

subsection \<open>The property\<close>

text \<open>
  C3: a database made from empty files (by \<open>prep\<close>, shared or not), after any
  sequence of stores and deletes in whose course no file operation fails and the page file stays
  within 65536 pages, answers the calls as a map from keys to lists of values does: a store adds
  a value, replaces the first one or is refused (\<open>APR_EEXIST\<close>, \<open>APR_EINVAL\<close>), and it answers
  \<open>APR_ENOSPC\<close> only when the pairs whose keys agree with its own in ten bits of the hash do not
  fit on a page; a delete takes the first value or answers \<open>APR_EGENERAL\<close>. A fetch then finds
  the first value of every key. Neither the splits of the pages nor the growth of the directory lose
  or misplace a pair.
\<close>

theorem sdbm_refines:
  assumes "prep order [] [] [] True sharelock = (APR_SUCCESS, Some db0)"
    and "list_all op_sizes ops" "sdbm_run db0 ops = (sts, db)" "length (pagf db) \<le> 65536"
  shows "\<exists>m. spec_run (\<lambda>_. []) ops sts m \<and>
    (\<forall>key. key \<noteq> [] \<longrightarrow> (\<exists>db'. apr_sdbm_fetch db key = (APR_SUCCESS, (case m key of [] \<Rightarrow> None | v # _ \<Rightarrow> Some v), db')))"
proof -
  have "sdbm_ok db \<and> spec_run (sdbm_view db0) ops sts (sdbm_view db)"
    using prep_ok [OF assms(1)] by (intro run_ok assms(2-4)) simp
  then show ?thesis using fetch_ok [of db] prep_ok [OF assms(1)] by (intro exI [of _ "sdbm_view db"]) auto
qed

theorem sdbm_refines_witness:
  "\<exists>db0 db db'. prep True [] [] [] True True = (APR_SUCCESS, Some db0) \<and>
     sdbm_run db0 [Store [107] [118] APR_SDBM_INSERT] = ([APR_SUCCESS], db) \<and>
     apr_sdbm_fetch db [107] = (APR_SUCCESS, Some [118], db')"
proof -
  let ?ops = "[Store [107] [118] APR_SDBM_INSERT]"
  obtain db0 where p: "prep True [] [] [] True True = (APR_SUCCESS, Some db0)"
    and f: "io db0 = []" "dirf db0 = []" "pagf db0 = []" "\<not> rdonly db0" "\<not> shared_lock db0" "\<not> exclusive_lock db0" "lckcnt db0 = 0"
    unfolding prep_new by simp
  obtain db where r: "sdbm_run db0 ?ops = ([APR_SUCCESS], db)" and l: "length (pagf db) = 1"
    using first_store [OF f] by (cases "apr_sdbm_store db0 [107] [118] APR_SDBM_INSERT") auto
  obtain m where m: "spec_run (\<lambda>_. []) ?ops [APR_SUCCESS] m"
    "\<forall>key. key \<noteq> [] \<longrightarrow> (\<exists>db'. apr_sdbm_fetch db key = (APR_SUCCESS, (case m key of [] \<Rightarrow> None | v # _ \<Rightarrow> Some v), db'))"
    using sdbm_refines [OF p _ r] l by auto
  have "m [107] = [[118]]"
    using m(1) by (auto elim!: spec_run_ConsE spec_run_NilE simp: spec_store_def APR_SDBM_INSERT_def APR_SDBM_REPLACE_def split: if_splits)
  then show ?thesis using m(2) p r by (metis list.simps(5) not_Cons_self2)
qed

end
