(* ===== verification/PT_Cond.thy ===== *)
theory PT_Cond
  imports PT_Sem PT_Mutex
begin

text \<open>
  The condition variables of pthreads-win32 (\<open>pthread_cond_init.c\<close>, \<open>pthread_cond_wait.c\<close>,
  \<open>pthread_cond_signal.c\<close>, \<open>pthread_cond_destroy.c\<close>, \<open>ptw32_cond_check_need_init.c\<close>).
  Threads interleave; each call of a semaphore function (its locked part, and the wait on the
  Windows semaphore, both from \<open>PT_Sem\<close>), each call of a mutex function and each group of
  accesses between two calls is a step. A mutex is its owner: \<open>PT_Mutex\<close> shows that there is at
  most one. A thread can be cancelled before and in its wait for the gate \<open>semBlockLock\<close>, where it
  leaves the call after the clean-up of \<open>sem_wait\<close>, and before and in its wait for
  \<open>semBlockQueue\<close>, where it runs the same clean-up as one that times out.
\<close>

subsection \<open>The object\<close>

record cond =
  nWaitersBlocked :: int
  nWaitersGone :: int
  nWaitersToUnblock :: int
  semBlockQueue :: sem
  semBlockLock :: sem
  mtxUnblockLock :: "nat option"

datatype 'c cond_ref = CondNull | CondInitializer | CondObj 'c

text \<open>
  \<open>lock_sem\<close> and \<open>queue_sem\<close> are the outcomes of allocation and CreateSemaphore in the two
  calls of \<open>sem_init\<close>, \<open>mtx_mem\<close> those in \<open>pthread_mutex_init\<close>.
\<close>

definition sem_errno :: "sem_result \<Rightarrow> rc" where
  "sem_errno r = (case r of Zero \<Rightarrow> OK | MinusOne (Some e) \<Rightarrow> e | MinusOne None \<Rightarrow> OK)"

definition pthread_cond_init ::
  "bool \<Rightarrow> bool \<times> bool \<Rightarrow> bool \<times> bool \<Rightarrow> bool \<times> bool \<Rightarrow> cond cond_ref option \<Rightarrow> pthread_condattr ref \<Rightarrow>
   rc \<times> cond cond_ref option" where
  "pthread_cond_init mem lock_sem queue_sem mtx_mem cond attr =
     (if cond = None then (EINVAL, cond)
      else if (case deref attr of Some a \<Rightarrow> ca_pshared a = PTHREAD_PROCESS_SHARED | None \<Rightarrow> False) then (ENOSYS, Some CondNull)
      else if \<not> mem then (ENOMEM, Some CondNull)
      else (case sem_init (fst lock_sem) OK (snd lock_sem) 0 1 of
              (Some lock, Zero) \<Rightarrow>
                (case sem_init (fst queue_sem) OK (snd queue_sem) 0 0 of
                   (Some queue, Zero) \<Rightarrow>
                     (case pthread_mutex_init (fst mtx_mem) (snd mtx_mem) (Some MutexNull) NullRef of
                        (e, _) \<Rightarrow>
                          if e \<noteq> OK then (e, Some CondNull)
                          else (OK, Some (CondObj
                            \<lparr>nWaitersBlocked = 0, nWaitersGone = 0, nWaitersToUnblock = 0,
                             semBlockQueue = queue, semBlockLock = lock, mtxUnblockLock = None\<rparr>)))
                 | (_, r) \<Rightarrow> (sem_errno r, Some CondNull))
            | (_, r) \<Rightarrow> (sem_errno r, Some CondNull)))"

text \<open>\<open>ptw32_cond_check_need_init\<close> runs under \<open>ptw32_cond_test_init_lock\<close>; \<open>init\<close> is the call of \<open>pthread_cond_init\<close>.\<close>

definition ptw32_cond_check_need_init ::
  "(cond cond_ref option \<Rightarrow> rc \<times> cond cond_ref option) \<Rightarrow> cond cond_ref \<Rightarrow> rc \<times> cond cond_ref" where
  "ptw32_cond_check_need_init init cond =
     (case cond of
        CondInitializer \<Rightarrow> (case init (Some cond) of (r, c) \<Rightarrow> (r, the c))
      | CondNull \<Rightarrow> (EINVAL, cond)
      | CondObj _ \<Rightarrow> (OK, cond))"

text \<open>The prologue of \<open>ptw32_cond_timedwait\<close>.\<close>

definition cond_wait_entry ::
  "(cond cond_ref option \<Rightarrow> rc \<times> cond cond_ref option) \<Rightarrow> cond cond_ref option \<Rightarrow> rc \<times> cond cond_ref option" where
  "cond_wait_entry init cond =
     (case cond of
        None \<Rightarrow> (EINVAL, cond)
      | Some CondNull \<Rightarrow> (EINVAL, cond)
      | Some CondInitializer \<Rightarrow>
          (case ptw32_cond_check_need_init init CondInitializer of
             (e, c) \<Rightarrow> (if e \<noteq> OK \<and> e \<noteq> EBUSY then e else OK, Some c))
      | Some (CondObj _) \<Rightarrow> (OK, cond))"

text \<open>That of \<open>ptw32_cond_unblock\<close>: None goes on with the object.\<close>

definition cond_unblock_entry :: "cond cond_ref option \<Rightarrow> rc option" where
  "cond_unblock_entry cond =
     (case cond of
        None \<Rightarrow> Some EINVAL
      | Some CondNull \<Rightarrow> Some EINVAL
      | Some CondInitializer \<Rightarrow> Some OK
      | Some (CondObj _) \<Rightarrow> None)"

subsection \<open>Waiting and signalling\<close>

text \<open>
  Where a thread is: \<open>W\<close> in \<open>ptw32_cond_timedwait\<close> and its clean-up, \<open>S\<close> in
  \<open>ptw32_cond_unblock\<close>. \<open>rc\<close> is the result so far, the int of \<open>WUnlockCv\<close> the variable
  \<open>nSignalsWasLeft\<close>, the bool \<open>unblockAll\<close>, the other ints \<open>nSignalsToIssue\<close>.
\<close>

datatype cond_pc =
    COut
  | WGate | WGateWait | WCount | WGatePost | WUnlock | WQueue | WQueueWait
  | WLock rc | WLeave rc | WAdjust rc | WAdjustWait rc | WAdjusted rc | WAdjustPost rc | WReset rc
  | WUnlockCv rc int | WOpen rc | WRelock rc
  | SLock bool | STest bool | SGate bool | SGateWait bool | SClosed bool | SReturn | SUnlock int | SPost int

text \<open>A call of \<open>sem_wait\<close> goes on at once or blocks.\<close>

definition sem_call :: "sem \<Rightarrow> cond_pc \<Rightarrow> cond_pc \<Rightarrow> sem \<times> cond_pc" where
  "sem_call s go blocked =
     (case sem_wait_enter OK False (Some s) of
        (Some s', Inr blocks) \<Rightarrow> (s', if blocks then blocked else go)
      | _ \<Rightarrow> (s, go))"

definition sem_raise :: "sem \<Rightarrow> sem \<times> rc" where
  "sem_raise s = (case sem_post OK False True (Some s) of (s', r) \<Rightarrow> (the s', sem_errno r))"

text \<open>The clean-up handler under \<open>mtxUnblockLock\<close>, with \<open>INT_MAX / 2\<close> written out.\<close>

definition cond_leave :: "rc \<Rightarrow> cond \<Rightarrow> cond \<times> cond_pc" where
  "cond_leave r cv =
     (let nSignalsWasLeft = nWaitersToUnblock cv
      in if 0 \<noteq> nSignalsWasLeft then
           (cv\<lparr>nWaitersToUnblock := nWaitersToUnblock cv - 1\<rparr>, WUnlockCv r nSignalsWasLeft)
         else
           (let cv = cv\<lparr>nWaitersGone := nWaitersGone cv + 1\<rparr>
            in if 1073741823 = nWaitersGone cv then (cv, WAdjust r) else (cv, WUnlockCv r nSignalsWasLeft)))"

text \<open>The decision of \<open>ptw32_cond_unblock\<close>, and its part with the gate closed.\<close>

definition cond_unblock_test :: "bool \<Rightarrow> cond \<Rightarrow> cond \<times> cond_pc" where
  "cond_unblock_test unblockAll cv =
     (if 0 \<noteq> nWaitersToUnblock cv then
        (if 0 = nWaitersBlocked cv then (cv, SReturn)
         else if unblockAll then
           (let nSignalsToIssue = nWaitersBlocked cv
            in (cv\<lparr>nWaitersToUnblock := nWaitersToUnblock cv + nSignalsToIssue, nWaitersBlocked := 0\<rparr>, SUnlock nSignalsToIssue))
         else
           (cv\<lparr>nWaitersToUnblock := nWaitersToUnblock cv + 1, nWaitersBlocked := nWaitersBlocked cv - 1\<rparr>, SUnlock 1))
      else if nWaitersBlocked cv > nWaitersGone cv then (cv, SGate unblockAll)
      else (cv, SReturn))"

definition cond_unblock_closed :: "bool \<Rightarrow> cond \<Rightarrow> cond \<times> cond_pc" where
  "cond_unblock_closed unblockAll cv =
     (let cv = (if 0 \<noteq> nWaitersGone cv
                then cv\<lparr>nWaitersBlocked := nWaitersBlocked cv - nWaitersGone cv, nWaitersGone := 0\<rparr> else cv)
      in if unblockAll then
           (cv\<lparr>nWaitersToUnblock := nWaitersBlocked cv, nWaitersBlocked := 0\<rparr>, SUnlock (nWaitersBlocked cv))
         else
           (cv\<lparr>nWaitersToUnblock := 1, nWaitersBlocked := nWaitersBlocked cv - 1\<rparr>, SUnlock 1))"

definition lock_cv :: "nat \<Rightarrow> cond \<Rightarrow> cond_pc \<Rightarrow> (cond \<times> cond_pc) option" where
  "lock_cv t cv go = (if mtxUnblockLock cv = None then Some (cv\<lparr>mtxUnblockLock := Some t\<rparr>, go) else None)"

text \<open>
  One step of thread \<open>t\<close> on the object and the external mutex: where it goes (\<open>Inl\<close>) or what it
  returns (\<open>Inr\<close>); None while it is blocked.
\<close>

fun cond_step :: "nat \<Rightarrow> cond \<Rightarrow> nat option \<Rightarrow> cond_pc \<Rightarrow> (cond \<times> nat option \<times> (cond_pc + rc)) option" where
  "cond_step t cv ext COut = None"
| "cond_step t cv ext WGate =
     (case sem_call (semBlockLock cv) WCount WGateWait of (s, p) \<Rightarrow> Some (cv\<lparr>semBlockLock := s\<rparr>, ext, Inl p))"
| "cond_step t cv ext WGateWait =
     map_option (\<lambda>s. (cv\<lparr>semBlockLock := s\<rparr>, ext, Inl WCount)) (wait_object (semBlockLock cv))"
| "cond_step t cv ext WCount = Some (cv\<lparr>nWaitersBlocked := nWaitersBlocked cv + 1\<rparr>, ext, Inl WGatePost)"
| "cond_step t cv ext WGatePost =
     (case sem_raise (semBlockLock cv) of
        (s, r) \<Rightarrow> Some (cv\<lparr>semBlockLock := s\<rparr>, ext, if r \<noteq> OK then Inr r else Inl WUnlock))"
| "cond_step t cv ext WUnlock =
     (if ext = Some t then Some (cv, None, Inl WQueue) else Some (cv, ext, Inl (WLock EPERM)))"
| "cond_step t cv ext WQueue =
     (case sem_call (semBlockQueue cv) (WLock OK) WQueueWait of (s, p) \<Rightarrow> Some (cv\<lparr>semBlockQueue := s\<rparr>, ext, Inl p))"
| "cond_step t cv ext WQueueWait =
     map_option (\<lambda>s. (cv\<lparr>semBlockQueue := s\<rparr>, ext, Inl (WLock OK))) (wait_object (semBlockQueue cv))"
| "cond_step t cv ext (WLock r) = map_option (\<lambda>(cv, p). (cv, ext, Inl p)) (lock_cv t cv (WLeave r))"
| "cond_step t cv ext (WLeave r) = (case cond_leave r cv of (cv, p) \<Rightarrow> Some (cv, ext, Inl p))"
| "cond_step t cv ext (WAdjust r) =
     (case sem_call (semBlockLock cv) (WAdjusted r) (WAdjustWait r) of (s, p) \<Rightarrow> Some (cv\<lparr>semBlockLock := s\<rparr>, ext, Inl p))"
| "cond_step t cv ext (WAdjustWait r) =
     map_option (\<lambda>s. (cv\<lparr>semBlockLock := s\<rparr>, ext, Inl (WAdjusted r))) (wait_object (semBlockLock cv))"
| "cond_step t cv ext (WAdjusted r) =
     Some (cv\<lparr>nWaitersBlocked := nWaitersBlocked cv - nWaitersGone cv\<rparr>, ext, Inl (WAdjustPost r))"
| "cond_step t cv ext (WAdjustPost r) =
     (case sem_raise (semBlockLock cv) of
        (s, e) \<Rightarrow> Some (cv\<lparr>semBlockLock := s\<rparr>, ext, if e \<noteq> OK then Inr e else Inl (WReset r)))"
| "cond_step t cv ext (WReset r) = Some (cv\<lparr>nWaitersGone := 0\<rparr>, ext, Inl (WUnlockCv r 0))"
| "cond_step t cv ext (WUnlockCv r left) =
     Some (cv\<lparr>mtxUnblockLock := None\<rparr>, ext, Inl (if 1 = left then WOpen r else WRelock r))"
| "cond_step t cv ext (WOpen r) =
     (case sem_raise (semBlockLock cv) of
        (s, e) \<Rightarrow> Some (cv\<lparr>semBlockLock := s\<rparr>, ext, if e \<noteq> OK then Inr e else Inl (WRelock r)))"
| "cond_step t cv ext (WRelock r) = (if ext = None then Some (cv, Some t, Inr r) else None)"
| "cond_step t cv ext (SLock unblockAll) = map_option (\<lambda>(cv, p). (cv, ext, Inl p)) (lock_cv t cv (STest unblockAll))"
| "cond_step t cv ext (STest unblockAll) = (case cond_unblock_test unblockAll cv of (cv, p) \<Rightarrow> Some (cv, ext, Inl p))"
| "cond_step t cv ext (SGate unblockAll) =
     (case sem_call (semBlockLock cv) (SClosed unblockAll) (SGateWait unblockAll) of
        (s, p) \<Rightarrow> Some (cv\<lparr>semBlockLock := s\<rparr>, ext, Inl p))"
| "cond_step t cv ext (SGateWait unblockAll) =
     map_option (\<lambda>s. (cv\<lparr>semBlockLock := s\<rparr>, ext, Inl (SClosed unblockAll))) (wait_object (semBlockLock cv))"
| "cond_step t cv ext (SClosed unblockAll) = (case cond_unblock_closed unblockAll cv of (cv, p) \<Rightarrow> Some (cv, ext, Inl p))"
| "cond_step t cv ext SReturn = Some (cv\<lparr>mtxUnblockLock := None\<rparr>, ext, Inr OK)"
| "cond_step t cv ext (SUnlock n) = Some (cv\<lparr>mtxUnblockLock := None\<rparr>, ext, Inl (SPost n))"
| "cond_step t cv ext (SPost n) =
     (case sem_post_multiple OK False True (Some (semBlockQueue cv)) n of
        (s, r) \<Rightarrow> Some (cv\<lparr>semBlockQueue := the s\<rparr>, ext, Inr (sem_errno r)))"

text \<open>The wait for \<open>semBlockQueue\<close> ends by its timeout or by cancellation.\<close>

definition cond_timeout :: "cond \<Rightarrow> cond \<times> cond_pc" where
  "cond_timeout cv =
     (case ptw32_sem_timedwait_cleanup (semBlockQueue cv) of
        (s, ok) \<Rightarrow> (cv\<lparr>semBlockQueue := s\<rparr>, WLock (if ok then OK else ETIMEDOUT)))"

text \<open>
  \<open>pthread_cond_destroy\<close> holds \<open>ptw32_cond_list_lock\<close>; None while \<open>semBlockLock\<close> is not
  free, \<open>lock_close\<close> and \<open>queue_close\<close> are the outcomes of CloseHandle. Its part before the
  object is freed is one step here.
\<close>

definition pthread_cond_destroy ::
  "bool \<Rightarrow> bool \<Rightarrow> rc \<Rightarrow> cond cond_ref option \<Rightarrow> (rc \<times> cond cond_ref option) option" where
  "pthread_cond_destroy lock_close queue_close mtx_rc cond =
     (case cond of
        None \<Rightarrow> Some (EINVAL, cond)
      | Some CondNull \<Rightarrow> Some (EINVAL, cond)
      | Some CondInitializer \<Rightarrow> Some (OK, Some CondNull)
      | Some (CondObj cv) \<Rightarrow>
          if sem_value (semBlockLock cv) \<le> 0 then None
          else if mtxUnblockLock cv \<noteq> None then Some (EBUSY, cond)
          else if nWaitersBlocked cv > nWaitersGone cv then Some (EBUSY, cond)
          else
            (let e = sem_errno (snd (sem_destroy OK lock_close
                   (Some ((semBlockLock cv)\<lparr>sem_value := sem_value (semBlockLock cv) - 1\<rparr>))));
                 e1 = sem_errno (snd (sem_destroy OK queue_close (Some (semBlockQueue cv))))
             in Some (if e \<noteq> OK then e else if e1 \<noteq> OK then e1 else mtx_rc, Some CondNull)))"

subsection \<open>The list of all condition variables\<close>

text \<open>
  The doubly linked list through \<open>next\<close> and \<open>prev\<close> with \<open>ptw32_cond_list_head\<close> and
  \<open>ptw32_cond_list_tail\<close>, under \<open>ptw32_cond_list_lock\<close>; the objects are numbers.
\<close>

record cond_list =
  cond_head :: "nat option"
  cond_tail :: "nat option"
  next_of :: "nat \<Rightarrow> nat option"
  prev_of :: "nat \<Rightarrow> nat option"

definition cond_list_append :: "nat \<Rightarrow> cond_list \<Rightarrow> cond_list" where
  "cond_list_append c l =
     (let l = l\<lparr>next_of := (next_of l)(c := None), prev_of := (prev_of l)(c := cond_tail l)\<rparr>;
          l = (case cond_tail l of None \<Rightarrow> l | Some d \<Rightarrow> l\<lparr>next_of := (next_of l)(d := Some c)\<rparr>);
          l = l\<lparr>cond_tail := Some c\<rparr>
      in if cond_head l = None then l\<lparr>cond_head := Some c\<rparr> else l)"

definition cond_list_remove :: "nat \<Rightarrow> cond_list \<Rightarrow> cond_list" where
  "cond_list_remove c l =
     (let l = (if cond_head l = Some c then l\<lparr>cond_head := next_of l c\<rparr>
               else l\<lparr>next_of := (next_of l)(the (prev_of l c) := next_of l c)\<rparr>)
      in if cond_tail l = Some c then l\<lparr>cond_tail := prev_of l c\<rparr>
         else l\<lparr>prev_of := (prev_of l)(the (next_of l c) := prev_of l c)\<rparr>)"

text \<open>
  The loop of \<open>pthread_timechange_handler_np\<close>: the objects it broadcasts, with \<open>bcast\<close> the result of
  each, and the result; \<open>n\<close> bounds the walk.
\<close>

fun timechange_loop :: "nat \<Rightarrow> (nat \<Rightarrow> rc) \<Rightarrow> cond_list \<Rightarrow> nat option \<Rightarrow> rc \<Rightarrow> nat list \<times> rc" where
  "timechange_loop (Suc n) bcast l (Some c) e =
     (if e \<noteq> OK then ([], e)
      else (case timechange_loop n bcast l (next_of l c) (bcast c) of (cs, r) \<Rightarrow> (c # cs, r)))"
| "timechange_loop n bcast l c e = ([], e)"

definition pthread_timechange_handler_np :: "nat \<Rightarrow> (nat \<Rightarrow> rc) \<Rightarrow> cond_list \<Rightarrow> nat list \<times> rc" where
  "pthread_timechange_handler_np n bcast l =
     (case timechange_loop n bcast l (cond_head l) OK of (cs, e) \<Rightarrow> (cs, if e \<noteq> OK then EAGAIN else OK))"

fun linked :: "(nat \<Rightarrow> nat option) \<Rightarrow> (nat \<Rightarrow> nat option) \<Rightarrow> nat option \<Rightarrow> nat list \<Rightarrow> nat option \<Rightarrow> bool" where
  "linked nx pv p [] n = True"
| "linked nx pv p (x # xs) n = (pv x = p \<and> nx x = (case xs of [] \<Rightarrow> n | y # _ \<Rightarrow> Some y) \<and> linked nx pv (Some x) xs n)"

definition first_of :: "nat list \<Rightarrow> nat option \<Rightarrow> nat option" where
  "first_of xs n = (case xs of [] \<Rightarrow> n | x # _ \<Rightarrow> Some x)"

definition last_of :: "nat option \<Rightarrow> nat list \<Rightarrow> nat option" where
  "last_of p xs = (if xs = [] then p else Some (last xs))"

definition holds_list :: "cond_list \<Rightarrow> nat list \<Rightarrow> bool" where
  "holds_list l xs \<longleftrightarrow> distinct xs \<and> cond_head l = first_of xs None \<and> cond_tail l = last_of None xs \<and>
     linked (next_of l) (prev_of l) None xs None"

lemma linked_append:
  "linked nx pv p (xs @ ys) n \<longleftrightarrow> linked nx pv p xs (first_of ys n) \<and> linked nx pv (last_of p xs) ys n"
  by (induction xs arbitrary: p) (auto simp: first_of_def last_of_def split: list.splits)

lemma linked_cong:
  "(\<And>x. x \<in> set xs \<Longrightarrow> nx x = nx' x \<and> pv x = pv' x) \<Longrightarrow> linked nx pv p xs n = linked nx' pv' p xs n"
  by (induction xs arbitrary: p) auto

text \<open>The last link of a segment.\<close>

lemma linked_relink:
  "xs \<noteq> [] \<Longrightarrow> distinct xs \<Longrightarrow> linked nx pv p xs n \<Longrightarrow> linked (nx(last xs := m)) pv p xs m"
proof (induction xs arbitrary: p)
  case (Cons x xs)
  show ?case
  proof (cases xs)
    case (Cons y ys)
    then show ?thesis using Cons.IH Cons.prems by auto
  qed (use Cons.prems in auto)
qed simp

lemma linked_reprev:
  "distinct (x # xs) \<Longrightarrow> linked nx pv p (x # xs) n \<Longrightarrow> linked nx (pv(x := q)) q (x # xs) n"
proof -
  assume a: "distinct (x # xs)" "linked nx pv p (x # xs) n"
  have "linked nx (pv(x := q)) (Some x) xs n = linked nx pv (Some x) xs n" by (rule linked_cong) (use a(1) in auto)
  then show ?thesis using a(2) by simp
qed

lemma append_holds:
  assumes "holds_list l xs" "c \<notin> set xs"
  shows "holds_list (cond_list_append c l) (xs @ [c])"
proof (cases "xs = []")
  case True
  then show ?thesis using assms by (simp add: holds_list_def cond_list_append_def Let_def first_of_def last_of_def)
next
  case False
  then have l: "last xs \<in> set xs" "last xs \<noteq> c" using assms(2) by auto
  have "linked ((next_of l)(c := None, last xs := Some c)) ((prev_of l)(c := Some (last xs))) None xs (Some c)"
  proof (rule linked_relink [OF False])
    show "linked ((next_of l)(c := None)) ((prev_of l)(c := Some (last xs))) None xs None"
      using assms by (subst linked_cong [where nx' = "next_of l" and pv' = "prev_of l"]) (auto simp: holds_list_def)
  qed (use assms in \<open>simp add: holds_list_def\<close>)
  then show ?thesis
    using assms False l
    by (auto simp: holds_list_def cond_list_append_def Let_def linked_append first_of_def last_of_def split: list.splits)
qed

lemma remove_holds:
  assumes "holds_list l (xs @ c # ys)"
  shows "holds_list (cond_list_remove c l) (xs @ ys)"
proof -
  have d: "distinct (xs @ c # ys)" and hd: "cond_head l = first_of (xs @ c # ys) None" and tl: "cond_tail l = last_of None (xs @ c # ys)"
    and k: "linked (next_of l) (prev_of l) None xs (Some c)" "prev_of l c = last_of None xs" "next_of l c = first_of ys None"
      "linked (next_of l) (prev_of l) (Some c) ys None"
    using assms by (auto simp: holds_list_def linked_append first_of_def split: list.splits)
  define nx where "nx = (if xs = [] then next_of l else (next_of l)(last xs := first_of ys None))"
  define pv where "pv = (if ys = [] then prev_of l else (prev_of l)(hd ys := last_of None xs))"
  have hc: "cond_head l = Some c \<longleftrightarrow> xs = []" "cond_tail l = Some c \<longleftrightarrow> ys = []"
    using d hd tl by (cases xs; auto simp: first_of_def last_of_def split: if_splits)+
  have r: "cond_list_remove c l = l\<lparr>cond_head := first_of (xs @ ys) None, cond_tail := last_of None (xs @ ys), next_of := nx, prev_of := pv\<rparr>"
    using hc k(2,3) hd tl
    by (cases xs; cases ys) (auto simp: cond_list_remove_def Let_def nx_def pv_def first_of_def last_of_def intro!: cond_list.equality)
  have x: "linked nx pv None xs (first_of ys None)"
  proof (cases "xs = []")
    case False
    have "linked nx (prev_of l) None xs (first_of ys None)"
      using linked_relink [OF False _ k(1)] d False by (simp add: nx_def)
    moreover have "pv x = prev_of l x" if "x \<in> set xs" for x
      using that d by (cases ys) (auto simp: pv_def)
    ultimately show ?thesis by (subst linked_cong [where nx' = nx and pv' = "prev_of l"]) auto
  qed simp
  have y: "linked nx pv (last_of None xs) ys None"
  proof (cases ys)
    case (Cons z zs)
    have "linked (next_of l) pv (last_of None xs) ys None"
      using linked_reprev [of z zs "next_of l" "prev_of l" "Some c" None "last_of None xs"] d k(4) by (simp add: pv_def Cons)
    moreover have "xs \<noteq> [] \<Longrightarrow> last xs \<notin> set ys" using d by (cases xs rule: rev_cases) auto
    then have "nx x = next_of l x" if "x \<in> set ys" for x
      using that by (cases "xs = []") (auto simp: nx_def)
    ultimately show ?thesis by (subst linked_cong [where nx' = "next_of l" and pv' = pv]) auto
  qed simp
  show ?thesis using d x y by (simp add: holds_list_def r linked_append)
qed

lemma timechange_all:
  assumes l: "holds_list l xs" "length xs \<le> n" and ok: "\<And>c. c \<in> set xs \<Longrightarrow> bcast c = OK"
  shows "pthread_timechange_handler_np n bcast l = (xs, OK)"
proof -
  have "linked (next_of l) pv p xs None \<Longrightarrow> length xs \<le> n \<Longrightarrow> (\<And>c. c \<in> set xs \<Longrightarrow> bcast c = OK) \<Longrightarrow>
      timechange_loop n bcast l (first_of xs None) OK = (xs, OK)" for pv p
  proof (induction xs arbitrary: n p)
    case (Cons x xs)
    then obtain m where m: "n = Suc m" "length xs \<le> m" by (cases n) auto
    have "next_of l x = first_of xs None" using Cons.prems by (simp add: first_of_def)
    moreover have "timechange_loop m bcast l (first_of xs None) OK = (xs, OK)"
      using Cons.IH [of "Some x" m] Cons.prems m by simp
    ultimately show ?case using m(1) Cons.prems(3) by (simp add: first_of_def [of "_ # _"])
  qed (cases n; simp add: first_of_def)
  from this [of "prev_of l" None] show ?thesis using assms by (simp add: holds_list_def pthread_timechange_handler_np_def)
qed

subsection \<open>Threads\<close>

text \<open>
  \<open>ext\<close> is the owner of the mutex that the callers use. \<open>fault\<close> records a call that returned
  the error of a semaphore, and a cancellation at the gate that came between the post of the gate and
  the wakeup of the thread, where the clean-up of \<open>sem_wait\<close> is wrong (\<open>PT_Sem.sem_wait_cancel_race\<close>). Outside the calls a thread locks and unlocks \<open>ext\<close> as it likes.
\<close>

record cond_sys =
  cv :: cond
  ext :: "nat option"
  cpc :: "nat \<Rightarrow> cond_pc"
  fault :: bool

definition cond_next :: "nat \<Rightarrow> cond_sys \<Rightarrow> cond \<times> nat option \<times> (cond_pc + rc) \<Rightarrow> cond_sys" where
  "cond_next t s = (\<lambda>(c, e, r). s\<lparr>cv := c, ext := e, cpc := (cpc s)(t := (case r of Inl p \<Rightarrow> p | Inr _ \<Rightarrow> COut)),
     fault := (fault s \<or> r = Inr ERANGE)\<rparr>)"

inductive cond_trans :: "nat \<Rightarrow> cond_sys \<Rightarrow> cond_sys \<Rightarrow> bool" for N where
  call: "t < N \<Longrightarrow> cpc s t = COut \<Longrightarrow> p \<in> {WGate, SLock False, SLock True} \<Longrightarrow>
    cond_trans N s (s\<lparr>cpc := (cpc s)(t := p)\<rparr>)"
| go: "t < N \<Longrightarrow> cond_step t (cv s) (ext s) (cpc s t) = Some r \<Longrightarrow> cond_trans N s (cond_next t s r)"
| timeout: "t < N \<Longrightarrow> cpc s t = WQueueWait \<Longrightarrow> cond_timeout (cv s) = (c, p) \<Longrightarrow>
    cond_trans N s (s\<lparr>cv := c, cpc := (cpc s)(t := p)\<rparr>)"
| cancel_early: "t < N \<Longrightarrow> cpc s t = WGate \<Longrightarrow> cond_trans N s (s\<lparr>cpc := (cpc s)(t := COut)\<rparr>)"
| cancel_gate: "t < N \<Longrightarrow> cpc s t = WGateWait \<Longrightarrow>
    cond_trans N s (s\<lparr>cv := (cv s)\<lparr>semBlockLock := ptw32_sem_wait_cleanup (semBlockLock (cv s))\<rparr>,
                      cpc := (cpc s)(t := COut), fault := fault s \<or> 0 < sem_handle (semBlockLock (cv s))\<rparr>)"
| cancel_queue: "t < N \<Longrightarrow> cpc s t = WQueue \<Longrightarrow> cond_trans N s (s\<lparr>cpc := (cpc s)(t := WLock ETIMEDOUT)\<rparr>)"
| user_lock: "t < N \<Longrightarrow> cpc s t = COut \<Longrightarrow> ext s = None \<Longrightarrow> cond_trans N s (s\<lparr>ext := Some t\<rparr>)"
| user_unlock: "t < N \<Longrightarrow> cpc s t = COut \<Longrightarrow> ext s = Some t \<Longrightarrow> cond_trans N s (s\<lparr>ext := None\<rparr>)"

inductive cond_reachable :: "nat \<Rightarrow> cond_sys \<Rightarrow> bool" for N where
  start: "pthread_cond_init True (True, True) (True, True) (True, True) (Some CondNull) NullRef = (OK, Some (CondObj c)) \<Longrightarrow>
    cond_reachable N \<lparr>cv = c, ext = None, cpc = (\<lambda>_. COut), fault = False\<rparr>"
| step: "cond_reachable N s \<Longrightarrow> cond_trans N s s' \<Longrightarrow> cond_reachable N s'"

subsection \<open>Semaphores as units\<close>

text \<open>The units of a semaphore, and what it holds of \<open>w\<close> threads blocked on it.\<close>

definition units :: "sem \<Rightarrow> int" where
  "units s = (if sem_value s > 0 then sem_value s else 0) + int (sem_handle s)"

definition sem_ok :: "sem \<Rightarrow> int \<Rightarrow> bool" where
  "sem_ok s w \<longleftrightarrow> w = int (sem_handle s) + (if sem_value s < 0 then - sem_value s else 0)"

lemma units_nonneg: "0 \<le> units s"
  by (simp add: units_def)

lemma sem_call_cases:
  assumes "sem_call s go blocked = (s', p)" "sem_ok s w"
  obtains "p = go" "units s' = units s - 1" "sem_ok s' w" "0 < units s"
  | "p = blocked" "units s' = units s" "sem_ok s' (w + 1)"
proof (cases "sem_value s - 1 < 0")
  case True
  then have p: "p = blocked" "s' = s\<lparr>sem_value := sem_value s - 1\<rparr>"
    using assms(1) by (auto simp: sem_call_def sem_wait_enter_def Let_def)
  show ?thesis by (rule that(2)) (use True p assms(2) in \<open>auto simp: units_def sem_ok_def\<close>)
next
  case False
  then have p: "p = go" "s' = s\<lparr>sem_value := sem_value s - 1\<rparr>"
    using assms(1) by (auto simp: sem_call_def sem_wait_enter_def Let_def)
  show ?thesis by (rule that(1)) (use False p assms(2) in \<open>auto simp: units_def sem_ok_def\<close>)
qed

lemma wait_object_units:
  "wait_object s = Some s' \<Longrightarrow> sem_ok s w \<Longrightarrow> units s' = units s - 1 \<and> sem_ok s' (w - 1) \<and> 0 < units s"
  by (auto simp: wait_object_def units_def sem_ok_def of_nat_diff split: if_splits)

lemma wait_object_None: "wait_object s = None \<Longrightarrow> sem_ok s w \<Longrightarrow> 0 < w \<Longrightarrow> units s = 0"
  by (auto simp: wait_object_def units_def sem_ok_def split: if_splits)

lemma sem_raise_units:
  "sem_raise s = (s', r) \<Longrightarrow> sem_ok s w \<Longrightarrow> units s < SEM_VALUE_MAX \<Longrightarrow> r = OK \<and> units s' = units s + 1 \<and> sem_ok s' w"
  by (auto simp: sem_raise_def sem_post_def sem_post_locked_def sem_return_def sem_errno_def units_def sem_ok_def Let_def
      split: if_splits prod.splits)

lemma sem_post_multiple_units:
  assumes p: "sem_post_multiple OK False True (Some s) n = (s', r)" and w: "sem_ok s w" and n: "0 < n" and r: "sem_errno r \<noteq> ERANGE"
  shows "units (the s') = units s + n \<and> sem_ok (the s') w"
proof -
  have fits: "sem_value s \<le> SEM_VALUE_MAX - n"
  proof (rule ccontr)
    assume "\<not> ?thesis"
    then have "r = MinusOne (Some ERANGE)"
      using p n by (simp add: sem_post_multiple_def sem_post_multiple_locked_def sem_return_def)
    then show False using r by (simp add: sem_errno_def)
  qed
  define m where "m = (if - sem_value s > 0 then nat (if - sem_value s \<le> n then - sem_value s else n) else 0)"
  have "s' = Some (s\<lparr>sem_value := sem_value s + n, sem_handle := sem_handle s + m\<rparr>)"
    using p n fits by (auto simp: sem_post_multiple_def sem_post_multiple_locked_def Let_def m_def)
  then show ?thesis using w n by (auto simp: units_def sem_ok_def m_def split: if_splits)
qed

lemma timedwait_cleanup_units:
  "ptw32_sem_timedwait_cleanup s = (s', ok) \<Longrightarrow> sem_ok s w \<Longrightarrow> 0 < w \<Longrightarrow>
     sem_ok s' (w - 1) \<and> units s' = units s - of_bool ok"
  by (auto simp: ptw32_sem_timedwait_cleanup_def wait_object_def units_def sem_ok_def of_nat_diff split: if_splits)

lemma wait_cleanup_units:
  "sem_ok s w \<Longrightarrow> 0 < w \<Longrightarrow> sem_handle s = 0 \<Longrightarrow>
     sem_ok (ptw32_sem_wait_cleanup s) (w - 1) \<and> units (ptw32_sem_wait_cleanup s) = units s"
  by (auto simp: ptw32_sem_wait_cleanup_def wait_object_def units_def sem_ok_def split: if_splits)

lemma cond_timeout_units:
  assumes "cond_timeout c = (c', p)" "sem_ok (semBlockQueue c) w" "0 < w"
  obtains r q where "p = WLock r" "c' = c\<lparr>semBlockQueue := q\<rparr>" "sem_ok q (w - 1)" "units q = units (semBlockQueue c) - of_bool (r = OK)"
proof -
  obtain q ok where q: "ptw32_sem_timedwait_cleanup (semBlockQueue c) = (q, ok)" by fastforce
  show thesis
    using that [of "if ok then OK else ETIMEDOUT" q] assms(1) timedwait_cleanup_units [OF q assms(2,3)]
    by (simp add: cond_timeout_def q)
qed

subsection \<open>The invariant\<close>

text \<open>
  Weights of the program counters, summed over the threads: those counted as waiting; those that
  hold the unit of \<open>semBlockLock\<close>; those blocked on the semaphores; the units of
  \<open>semBlockQueue\<close> that a thread has taken or has still to post; those inside
  \<open>mtxUnblockLock\<close>; those that correct the count after \<open>INT_MAX / 2\<close> timeouts.
\<close>

fun w_in :: "cond_pc \<Rightarrow> int" where
  "w_in WGatePost = 1" | "w_in WUnlock = 1" | "w_in WQueue = 1" | "w_in WQueueWait = 1"
| "w_in (WLock r) = 1" | "w_in (WLeave r) = 1" | "w_in p = 0"

fun w_gate :: "cond_pc \<Rightarrow> int" where
  "w_gate WCount = 1" | "w_gate WGatePost = 1" | "w_gate (WAdjusted r) = 1" | "w_gate (WAdjustPost r) = 1"
| "w_gate (SClosed a) = 1" | "w_gate (WUnlockCv r left) = (if left = 1 then 1 else 0)" | "w_gate (WOpen r) = 1" | "w_gate p = 0"

fun w_gatewait :: "cond_pc \<Rightarrow> int" where
  "w_gatewait WGateWait = 1" | "w_gatewait (WAdjustWait r) = 1" | "w_gatewait (SGateWait a) = 1" | "w_gatewait p = 0"

fun w_queue :: "cond_pc \<Rightarrow> int" where
  "w_queue WQueueWait = 1" | "w_queue p = 0"

fun w_unit :: "cond_pc \<Rightarrow> int" where
  "w_unit (WLock r) = (if r = OK then 1 else 0)" | "w_unit (WLeave r) = (if r = OK then 1 else 0)"
| "w_unit (SUnlock n) = max 0 n" | "w_unit (SPost n) = max 0 n" | "w_unit p = 0"

fun w_mtx :: "cond_pc \<Rightarrow> int" where
  "w_mtx (WLeave r) = 1" | "w_mtx (WAdjust r) = 1" | "w_mtx (WAdjustWait r) = 1" | "w_mtx (WAdjusted r) = 1"
| "w_mtx (WAdjustPost r) = 1" | "w_mtx (WReset r) = 1" | "w_mtx (WUnlockCv r left) = 1"
| "w_mtx (STest a) = 1" | "w_mtx (SGate a) = 1" | "w_mtx (SGateWait a) = 1" | "w_mtx (SClosed a) = 1"
| "w_mtx SReturn = 1" | "w_mtx (SUnlock n) = 1" | "w_mtx p = 0"

fun w_adj :: "cond_pc \<Rightarrow> int" where
  "w_adj (WAdjustPost r) = 1073741823" | "w_adj (WReset r) = 1073741823" | "w_adj p = 0"

fun w_adjusting :: "cond_pc \<Rightarrow> int" where
  "w_adjusting (WAdjust r) = 1" | "w_adjusting (WAdjustWait r) = 1" | "w_adjusting (WAdjusted r) = 1"
| "w_adjusting (WAdjustPost r) = 1" | "w_adjusting (WReset r) = 1" | "w_adjusting p = 0"

definition weigh :: "nat \<Rightarrow> (nat \<Rightarrow> cond_pc) \<Rightarrow> (cond_pc \<Rightarrow> int) \<Rightarrow> int" where
  "weigh N ps w = (\<Sum>t<N. w (ps t))"

lemma weigh_upd: "t < N \<Longrightarrow> weigh N (ps(t := p)) w = weigh N ps w - w (ps t) + w p"
proof -
  assume t: "t < N"
  have "(\<Sum>u\<in>{..<N} - {t}. w ((ps(t := p)) u)) = (\<Sum>u\<in>{..<N} - {t}. w (ps u))" by (rule sum.cong) auto
  then show ?thesis
    using sum.remove [of "{..<N}" t "\<lambda>u. w ((ps(t := p)) u)"] sum.remove [of "{..<N}" t "\<lambda>u. w (ps u)"] t
    by (simp add: weigh_def)
qed

lemma weigh_ge: "t < N \<Longrightarrow> (\<And>p. 0 \<le> w p) \<Longrightarrow> w (ps t) \<le> weigh N ps w"
  unfolding weigh_def by (rule member_le_sum) auto

lemma weigh_diff: "t < N \<Longrightarrow> (\<And>p. w p \<le> v p) \<Longrightarrow> weigh N ps w - w (ps t) \<le> weigh N ps v - v (ps t)"
  using sum_mono [of "{..<N} - {t}" "\<lambda>u. w (ps u)" "\<lambda>u. v (ps u)"]
    sum.remove [of "{..<N}" t "\<lambda>u. w (ps u)"] sum.remove [of "{..<N}" t "\<lambda>u. v (ps u)"]
  by (simp add: weigh_def)

lemma w_nonneg: "0 \<le> w_in p" "0 \<le> w_gate p" "0 \<le> w_gatewait p" "0 \<le> w_queue p" "0 \<le> w_unit p" "0 \<le> w_mtx p"
  "0 \<le> w_adj p" "0 \<le> w_adjusting p"
  by (cases p; simp)+

lemma w_adjusting_mtx: "w_adjusting p \<le> w_mtx p" "w_adj p \<le> 1073741823 * w_mtx p"
  by (cases p; simp)+

definition cond_num :: "cond \<Rightarrow> ((cond_pc \<Rightarrow> int) \<Rightarrow> int) \<Rightarrow> bool" where
  "cond_num c T \<longleftrightarrow>
     0 \<le> nWaitersBlocked c \<and> 0 \<le> nWaitersToUnblock c \<and> 0 \<le> nWaitersGone c \<and>
     (0 < nWaitersToUnblock c \<longrightarrow> nWaitersGone c = 0) \<and>
     T w_in = nWaitersBlocked c + nWaitersToUnblock c - nWaitersGone c + T w_adj \<and>
     units (semBlockLock c) + T w_gate + of_bool (0 < nWaitersToUnblock c) = 1 \<and>
     sem_ok (semBlockLock c) (T w_gatewait) \<and> sem_ok (semBlockQueue c) (T w_queue) \<and>
     nWaitersToUnblock c \<le> units (semBlockQueue c) + T w_unit \<and>
     T w_mtx = of_bool (mtxUnblockLock c \<noteq> None) \<and>
     nWaitersGone c \<le> 1073741822 + T w_adjusting"

text \<open>What a thread relies on where it is.\<close>

fun pc_ok :: "cond \<Rightarrow> cond_pc \<Rightarrow> bool" where
  "pc_ok c (SGate a) = (nWaitersToUnblock c = 0 \<and> nWaitersGone c < nWaitersBlocked c)"
| "pc_ok c (SGateWait a) = (nWaitersToUnblock c = 0 \<and> nWaitersGone c < nWaitersBlocked c)"
| "pc_ok c (SClosed a) = (nWaitersToUnblock c = 0 \<and> nWaitersGone c < nWaitersBlocked c)"
| "pc_ok c (SUnlock n) = (0 < n)"
| "pc_ok c (SPost n) = (0 < n)"
| "pc_ok c (WAdjust r) = (nWaitersToUnblock c = 0 \<and> nWaitersGone c = 1073741823)"
| "pc_ok c (WAdjustWait r) = (nWaitersToUnblock c = 0 \<and> nWaitersGone c = 1073741823)"
| "pc_ok c (WAdjusted r) = (nWaitersToUnblock c = 0 \<and> nWaitersGone c = 1073741823)"
| "pc_ok c (WAdjustPost r) = (nWaitersToUnblock c = 0 \<and> nWaitersGone c = 1073741823)"
| "pc_ok c (WReset r) = (nWaitersToUnblock c = 0 \<and> nWaitersGone c = 1073741823)"
| "pc_ok c p = True"

text \<open>The caller's mutex is released from \<open>WQueue\<close> to \<open>WRelock\<close>.\<close>

fun may_hold :: "cond_pc \<Rightarrow> bool" where
  "may_hold WQueue = False" | "may_hold WQueueWait = False" | "may_hold (WLock r) = False" | "may_hold (WLeave r) = False"
| "may_hold (WAdjust r) = False" | "may_hold (WAdjustWait r) = False" | "may_hold (WAdjusted r) = False"
| "may_hold (WAdjustPost r) = False" | "may_hold (WReset r) = False" | "may_hold (WUnlockCv r left) = False"
| "may_hold (WOpen r) = False" | "may_hold (WRelock r) = False" | "may_hold p = True"

definition cond_inv :: "nat \<Rightarrow> cond_sys \<Rightarrow> bool" where
  "cond_inv N s \<longleftrightarrow>
     cond_num (cv s) (weigh N (cpc s)) \<and>
     (\<forall>t<N. w_mtx (cpc s t) = 1 \<longrightarrow> mtxUnblockLock (cv s) = Some t) \<and> (\<forall>u. mtxUnblockLock (cv s) = Some u \<longrightarrow> u < N) \<and>
     (\<forall>t<N. pc_ok (cv s) (cpc s t)) \<and>
     (\<forall>u. ext s = Some u \<longrightarrow> u < N \<and> may_hold (cpc s u))"

lemma w_mtx_cases: "w_mtx p = 0 \<or> w_mtx p = 1"
  by (cases p) auto

lemma pc_ok_free: "w_mtx p = 0 \<Longrightarrow> pc_ok c p \<Longrightarrow> pc_ok c' p"
  by (cases p) auto

lemma pc_ok_mono:
  "pc_ok c p \<Longrightarrow> nWaitersToUnblock c' = nWaitersToUnblock c \<Longrightarrow> nWaitersGone c' = nWaitersGone c \<Longrightarrow>
     nWaitersBlocked c \<le> nWaitersBlocked c' \<Longrightarrow> pc_ok c' p"
  by (cases p) auto

lemma inv_update:
  assumes inv: "cond_inv N s" and t: "t < N"
    and num: "cond_num c' (\<lambda>w. weigh N (cpc s) w - w (cpc s t) + w p)"
    and mtx: "mtxUnblockLock c' = (if w_mtx p = 1 then Some t else if w_mtx (cpc s t) = 1 then None else mtxUnblockLock (cv s))"
      "w_mtx p = 1 \<Longrightarrow> w_mtx (cpc s t) = 1 \<or> mtxUnblockLock (cv s) = None"
    and ok: "pc_ok c' p"
    and others: "w_mtx (cpc s t) = 1 \<or> nWaitersToUnblock c' = nWaitersToUnblock (cv s) \<and> nWaitersGone c' = nWaitersGone (cv s) \<and>
      nWaitersBlocked (cv s) \<le> nWaitersBlocked c'"
    and hold: "e = ext s \<and> (ext s = Some t \<longrightarrow> may_hold p) \<or> e = None \<or> e = Some t \<and> may_hold p"
  shows "cond_inv N (s\<lparr>cv := c', ext := e, cpc := (cpc s)(t := p), fault := f\<rparr>)"
proof -
  have owner: "\<And>u. u < N \<Longrightarrow> w_mtx (cpc s u) = 1 \<Longrightarrow> mtxUnblockLock (cv s) = Some u"
    and lt: "\<And>u. mtxUnblockLock (cv s) = Some u \<Longrightarrow> u < N" and po: "\<And>u. u < N \<Longrightarrow> pc_ok (cv s) (cpc s u)"
    and eo: "\<And>u. ext s = Some u \<Longrightarrow> u < N \<and> may_hold (cpc s u)"
    using inv unfolding cond_inv_def by blast+
  have tot: "weigh N ((cpc s)(t := p)) = (\<lambda>w. weigh N (cpc s) w - w (cpc s t) + w p)"
    by (rule ext) (rule weigh_upd [OF t])
  have free: "w_mtx (cpc s u) = 0" if u: "u < N" "u \<noteq> t" and h: "w_mtx (cpc s t) = 1 \<or> w_mtx p = 1" for u
  proof (rule ccontr)
    assume "w_mtx (cpc s u) \<noteq> 0"
    then have "mtxUnblockLock (cv s) = Some u" using owner [OF u(1)] w_mtx_cases [of "cpc s u"] by blast
    moreover have "w_mtx (cpc s t) \<noteq> 1" using owner [OF t] u(2) calculation by auto
    ultimately show False using mtx(2) h by auto
  qed
  have A: "mtxUnblockLock c' = Some u" if u: "u < N" "w_mtx (((cpc s)(t := p)) u) = 1" for u
  proof (cases "u = t")
    case True
    then show ?thesis using u mtx(1) by simp
  next
    case False
    then have "w_mtx (cpc s u) = 1" using u by simp
    then show ?thesis using owner [OF u(1)] free [OF u(1) False] mtx(1) by auto
  qed
  have B: "u < N" if "mtxUnblockLock c' = Some u" for u
    using that mtx(1) t lt [of u] by (auto split: if_splits)
  have C: "pc_ok c' (((cpc s)(t := p)) u)" if u: "u < N" for u
  proof (cases "u = t")
    case True
    then show ?thesis using ok by simp
  next
    case False
    have "pc_ok c' (cpc s u)"
    proof (cases "w_mtx (cpc s t) = 1")
      case True
      then show ?thesis using pc_ok_free [OF free [OF u False] po [OF u]] by blast
    next
      case no: False
      then show ?thesis using others pc_ok_mono [OF po [OF u]] by blast
    qed
    then show ?thesis using False by simp
  qed
  have D: "u < N \<and> may_hold (((cpc s)(t := p)) u)" if "e = Some u" for u
    using hold
  proof (elim disjE conjE)
    assume "e = ext s" "ext s = Some t \<longrightarrow> may_hold p"
    then show ?thesis using eo [of u] that by (cases "u = t") simp_all
  qed (use that t in auto)
  define s' where "s' = s\<lparr>cv := c', ext := e, cpc := (cpc s)(t := p), fault := f\<rparr>"
  have s': "cv s' = c'" "ext s' = e" "cpc s' = (cpc s)(t := p)" by (simp_all add: s'_def)
  have "cond_inv N s'"
    unfolding cond_inv_def s' tot
    by (intro conjI allI impI num) (rule A B C conjunct1 [OF D] conjunct2 [OF D]; assumption)+
  then show ?thesis by (simp only: s'_def)
qed

lemma cond_numD:
  assumes "cond_inv N s" "t < N"
  shows "0 \<le> nWaitersBlocked (cv s)" "0 \<le> nWaitersToUnblock (cv s)" "0 \<le> nWaitersGone (cv s)"
    "0 < nWaitersToUnblock (cv s) \<Longrightarrow> nWaitersGone (cv s) = 0"
    "weigh N (cpc s) w_in = nWaitersBlocked (cv s) + nWaitersToUnblock (cv s) - nWaitersGone (cv s) + weigh N (cpc s) w_adj"
    "units (semBlockLock (cv s)) + weigh N (cpc s) w_gate + of_bool (0 < nWaitersToUnblock (cv s)) = 1"
    "sem_ok (semBlockLock (cv s)) (weigh N (cpc s) w_gatewait)" "sem_ok (semBlockQueue (cv s)) (weigh N (cpc s) w_queue)"
    "nWaitersToUnblock (cv s) \<le> units (semBlockQueue (cv s)) + weigh N (cpc s) w_unit"
    "weigh N (cpc s) w_mtx = of_bool (mtxUnblockLock (cv s) \<noteq> None)"
    "nWaitersGone (cv s) \<le> 1073741822 + weigh N (cpc s) w_adjusting"
    "pc_ok (cv s) (cpc s t)" "w_mtx (cpc s t) = 1 \<Longrightarrow> mtxUnblockLock (cv s) = Some t"
    "ext s = Some t \<Longrightarrow> may_hold (cpc s t)"
  using assms unfolding cond_inv_def cond_num_def by blast+

lemmas weigh_ges = weigh_ge [where w = w_in, OF _ w_nonneg(1)] weigh_ge [where w = w_gate, OF _ w_nonneg(2)]
  weigh_ge [where w = w_gatewait, OF _ w_nonneg(3)] weigh_ge [where w = w_queue, OF _ w_nonneg(4)]
  weigh_ge [where w = w_unit, OF _ w_nonneg(5)] weigh_ge [where w = w_mtx, OF _ w_nonneg(6)]
  weigh_ge [where w = w_adj, OF _ w_nonneg(7)] weigh_ge [where w = w_adjusting, OF _ w_nonneg(8)]

lemma lock_release:
  assumes inv: "cond_inv N s" and t: "t < N" and c: "w_gate (cpc s t) = 1" "w_gate p = 0"
    and same: "w_in p = w_in (cpc s t)" "w_gatewait p = w_gatewait (cpc s t)" "w_queue p = w_queue (cpc s t)"
      "w_unit p = w_unit (cpc s t)" "w_mtx p = w_mtx (cpc s t)" "w_adj p = w_adj (cpc s t)" "w_adjusting p = w_adjusting (cpc s t)"
    and ok: "pc_ok (cv s) p" and h: "may_hold (cpc s t) \<longrightarrow> may_hold p"
    and r: "sem_raise (semBlockLock (cv s)) = (q, e)"
  shows "e = OK" "cond_inv N (s\<lparr>cv := (cv s)\<lparr>semBlockLock := q\<rparr>, ext := ext s, cpc := (cpc s)(t := p), fault := f\<rparr>)"
proof -
  note d = cond_numD [OF inv t] and g = weigh_ges [OF t, of "cpc s"]
  have u: "e = OK \<and> units q = units (semBlockLock (cv s)) + 1 \<and> sem_ok q (weigh N (cpc s) w_gatewait)"
    using sem_raise_units [OF r d(7)] d(6) g(2) c(1) by (cases "0 < nWaitersToUnblock (cv s)") (simp_all add: SEM_VALUE_MAX_def)
  then show "e = OK" by simp
  show "cond_inv N (s\<lparr>cv := (cv s)\<lparr>semBlockLock := q\<rparr>, ext := ext s, cpc := (cpc s)(t := p), fault := f\<rparr>)"
  proof (rule inv_update [OF inv t])
    show "cond_num ((cv s)\<lparr>semBlockLock := q\<rparr>) (\<lambda>w. weigh N (cpc s) w - w (cpc s t) + w p)"
      unfolding cond_num_def using d u c same by simp
    show "pc_ok ((cv s)\<lparr>semBlockLock := q\<rparr>) p" using ok by (rule pc_ok_mono) simp_all
  qed (use same(5) d(13,14) h in auto)
qed

text \<open>A call that waits for \<open>semBlockLock\<close>, and its end.\<close>

lemma lock_call:
  assumes inv: "cond_inv N s" and t: "t < N" and w: "w_gate (cpc s t) = 0" "w_gatewait (cpc s t) = 0"
      "w_gate go = 1" "w_gatewait go = 0" "w_gate blocked = 0" "w_gatewait blocked = 1"
    and same: "w_in go = w_in (cpc s t)" "w_queue go = w_queue (cpc s t)"
      "w_unit go = w_unit (cpc s t)" "w_mtx go = w_mtx (cpc s t)" "w_adj go = w_adj (cpc s t)" "w_adjusting go = w_adjusting (cpc s t)"
      "w_in blocked = w_in (cpc s t)" "w_queue blocked = w_queue (cpc s t)"
      "w_unit blocked = w_unit (cpc s t)" "w_mtx blocked = w_mtx (cpc s t)" "w_adj blocked = w_adj (cpc s t)" "w_adjusting blocked = w_adjusting (cpc s t)"
    and ok: "pc_ok (cv s) go" "pc_ok (cv s) blocked" and h: "may_hold (cpc s t) \<longrightarrow> may_hold go \<and> may_hold blocked"
    and r: "sem_call (semBlockLock (cv s)) go blocked = (q, p)"
  shows "cond_inv N (s\<lparr>cv := (cv s)\<lparr>semBlockLock := q\<rparr>, ext := ext s, cpc := (cpc s)(t := p), fault := f\<rparr>)"
proof -
  note d = cond_numD [OF inv t]
  show ?thesis
  proof (rule sem_call_cases [OF r d(7)])
    assume c: "p = go" "units q = units (semBlockLock (cv s)) - 1" "sem_ok q (weigh N (cpc s) w_gatewait)"
    show ?thesis
    proof (rule inv_update [OF inv t])
      show "cond_num ((cv s)\<lparr>semBlockLock := q\<rparr>) (\<lambda>w. weigh N (cpc s) w - w (cpc s t) + w p)"
        unfolding cond_num_def using d c w same by simp
      show "pc_ok ((cv s)\<lparr>semBlockLock := q\<rparr>) p" using ok(1) unfolding c(1) by (rule pc_ok_mono) simp_all
    qed (use same d(13,14) h c(1) in auto)
  next
    assume c: "p = blocked" "units q = units (semBlockLock (cv s))" "sem_ok q (weigh N (cpc s) w_gatewait + 1)"
    show ?thesis
    proof (rule inv_update [OF inv t])
      show "cond_num ((cv s)\<lparr>semBlockLock := q\<rparr>) (\<lambda>w. weigh N (cpc s) w - w (cpc s t) + w p)"
        unfolding cond_num_def using d c w same by simp
      show "pc_ok ((cv s)\<lparr>semBlockLock := q\<rparr>) p" using ok(2) unfolding c(1) by (rule pc_ok_mono) simp_all
    qed (use same d(13,14) h c(1) in auto)
  qed
qed

lemma lock_granted:
  assumes inv: "cond_inv N s" and t: "t < N" and w: "w_gate (cpc s t) = 0" "w_gatewait (cpc s t) = 1" "w_gate p = 1" "w_gatewait p = 0"
    and same: "w_in p = w_in (cpc s t)" "w_queue p = w_queue (cpc s t)"
      "w_unit p = w_unit (cpc s t)" "w_mtx p = w_mtx (cpc s t)" "w_adj p = w_adj (cpc s t)" "w_adjusting p = w_adjusting (cpc s t)"
    and ok: "pc_ok (cv s) p" and h: "may_hold (cpc s t) \<longrightarrow> may_hold p"
    and r: "wait_object (semBlockLock (cv s)) = Some q"
  shows "cond_inv N (s\<lparr>cv := (cv s)\<lparr>semBlockLock := q\<rparr>, ext := ext s, cpc := (cpc s)(t := p), fault := f\<rparr>)"
proof -
  note d = cond_numD [OF inv t]
  note c = wait_object_units [OF r d(7)]
  show ?thesis
  proof (rule inv_update [OF inv t])
    show "cond_num ((cv s)\<lparr>semBlockLock := q\<rparr>) (\<lambda>w. weigh N (cpc s) w - w (cpc s t) + w p)"
      unfolding cond_num_def using d c w same by simp
    show "pc_ok ((cv s)\<lparr>semBlockLock := q\<rparr>) p" using ok by (rule pc_ok_mono) simp_all
  qed (use same d(13,14) h in auto)
qed

text \<open>A call that takes and one that releases \<open>mtxUnblockLock\<close>.\<close>

lemma mtx_taken:
  assumes inv: "cond_inv N s" and t: "t < N" and w: "w_mtx (cpc s t) = 0" "w_mtx p = 1"
    and same: "w_in p = w_in (cpc s t)" "w_gate p = w_gate (cpc s t)" "w_gatewait p = w_gatewait (cpc s t)" "w_queue p = w_queue (cpc s t)"
      "w_unit p = w_unit (cpc s t)" "w_adj p = w_adj (cpc s t)" "w_adjusting p = w_adjusting (cpc s t)"
    and ok: "pc_ok (cv s) p" and h: "may_hold (cpc s t) \<longrightarrow> may_hold p"
    and r: "lock_cv t (cv s) p = Some (c, p')"
  shows "p' = p" "cond_inv N (s\<lparr>cv := c, ext := ext s, cpc := (cpc s)(t := p), fault := f\<rparr>)"
proof -
  note d = cond_numD [OF inv t]
  have c: "mtxUnblockLock (cv s) = None" "c = (cv s)\<lparr>mtxUnblockLock := Some t\<rparr>" "p' = p"
    using r by (simp_all add: lock_cv_def split: if_splits)
  then show "p' = p" by simp
  show "cond_inv N (s\<lparr>cv := c, ext := ext s, cpc := (cpc s)(t := p), fault := f\<rparr>)"
  proof (rule inv_update [OF inv t])
    show "cond_num c (\<lambda>w. weigh N (cpc s) w - w (cpc s t) + w p)"
      unfolding cond_num_def c(2) using d c(1) w same by simp
    show "pc_ok c p" using ok unfolding c(2) by (rule pc_ok_mono) simp_all
  qed (use w c d(14) h in auto)
qed

lemma mtx_released:
  assumes inv: "cond_inv N s" and t: "t < N" and w: "w_mtx (cpc s t) = 1" "w_mtx p = 0"
    and same: "w_in p = w_in (cpc s t)" "w_gate p = w_gate (cpc s t)" "w_gatewait p = w_gatewait (cpc s t)" "w_queue p = w_queue (cpc s t)"
      "w_unit p = w_unit (cpc s t)" "w_adj p = w_adj (cpc s t)" "w_adjusting p = w_adjusting (cpc s t)"
    and ok: "pc_ok (cv s) p" and h: "may_hold (cpc s t) \<longrightarrow> may_hold p"
  shows "cond_inv N (s\<lparr>cv := (cv s)\<lparr>mtxUnblockLock := None\<rparr>, ext := ext s, cpc := (cpc s)(t := p), fault := f\<rparr>)"
proof -
  note d = cond_numD [OF inv t]
  show ?thesis
  proof (rule inv_update [OF inv t])
    show "cond_num ((cv s)\<lparr>mtxUnblockLock := None\<rparr>) (\<lambda>w. weigh N (cpc s) w - w (cpc s t) + w p)"
      unfolding cond_num_def using d w same by simp
    show "pc_ok ((cv s)\<lparr>mtxUnblockLock := None\<rparr>) p" using ok by (rule pc_ok_mono) simp_all
  qed (use w d(14) h in auto)
qed

text \<open>Changes of the counters.\<close>

lemma owner_alone:
  assumes inv: "cond_inv N s" and t: "t < N" and m: "w_mtx (cpc s t) = 1"
  shows "weigh N (cpc s) w_adjusting \<le> w_adjusting (cpc s t)" "weigh N (cpc s) w_adj \<le> w_adj (cpc s t)"
proof -
  have 1: "weigh N (cpc s) w_mtx = 1" using cond_numD(10,13) [OF inv t] m by simp
  show "weigh N (cpc s) w_adjusting \<le> w_adjusting (cpc s t)"
    using weigh_diff [where w = w_adjusting and v = w_mtx and ps = "cpc s", OF t w_adjusting_mtx(1)] 1 m by simp
  have "weigh N (cpc s) (\<lambda>p. 1073741823 * w_mtx p) = 1073741823 * weigh N (cpc s) w_mtx"
    by (simp add: weigh_def sum_distrib_left)
  then show "weigh N (cpc s) w_adj \<le> w_adj (cpc s t)"
    using weigh_diff [where w = w_adj and v = "\<lambda>p. 1073741823 * w_mtx p" and ps = "cpc s", OF t w_adjusting_mtx(2)] 1 m
    by simp
qed

lemma leave_inv:
  assumes inv: "cond_inv N s" and t: "t < N" and pc: "cpc s t = WLeave r" and c: "cond_leave r (cv s) = (c, p)"
  shows "cond_inv N (s\<lparr>cv := c, ext := ext s, cpc := (cpc s)(t := p), fault := f\<rparr>)"
proof -
  note d = cond_numD [OF inv t, unfolded pc] and g = weigh_ges [OF t, of "cpc s", unfolded pc]
  have m: "mtxUnblockLock (cv s) = Some t" using d(13) by simp
  have adj: "weigh N (cpc s) w_adjusting \<le> 0"
    using owner_alone(1) [OF inv t] by (simp add: pc)
  show ?thesis
  proof (cases "nWaitersToUnblock (cv s) = 0")
    case False
    then have e: "c = (cv s)\<lparr>nWaitersToUnblock := nWaitersToUnblock (cv s) - 1\<rparr>" "p = WUnlockCv r (nWaitersToUnblock (cv s))"
      using c by (auto simp: cond_leave_def Let_def)
    show ?thesis
    proof (rule inv_update [OF inv t])
      show "cond_num c (\<lambda>w. weigh N (cpc s) w - w (cpc s t) + w p)"
        unfolding cond_num_def e pc using d(1-11) g False by auto
    qed (use m d(14) in \<open>auto simp: e pc\<close>)
  next
    case True
    then have e: "c = (cv s)\<lparr>nWaitersGone := nWaitersGone (cv s) + 1\<rparr>"
      "p = (if nWaitersGone (cv s) + 1 = 1073741823 then WAdjust r else WUnlockCv r 0)"
      using c by (auto simp: cond_leave_def Let_def split: if_splits)
    show ?thesis
    proof (rule inv_update [OF inv t])
      show "cond_num c (\<lambda>w. weigh N (cpc s) w - w (cpc s t) + w p)"
        unfolding cond_num_def e pc using d(1-11) g True adj units_nonneg [of "semBlockQueue (cv s)"] by auto
    qed (use m d(14) True in \<open>auto simp: e pc split: if_splits\<close>)
  qed
qed

lemma test_inv:
  assumes inv: "cond_inv N s" and t: "t < N" and pc: "cpc s t = STest a" and c: "cond_unblock_test a (cv s) = (c, p)"
  shows "cond_inv N (s\<lparr>cv := c, ext := ext s, cpc := (cpc s)(t := p), fault := f\<rparr>)"
proof -
  note d = cond_numD [OF inv t, unfolded pc] and g = weigh_ges [OF t, of "cpc s", unfolded pc]
  have m: "mtxUnblockLock (cv s) = Some t" using d(13) by simp
  consider (stay) "c = cv s" "p = SReturn"
    | (all) "nWaitersToUnblock (cv s) \<noteq> 0" "nWaitersBlocked (cv s) \<noteq> 0" "p = SUnlock (nWaitersBlocked (cv s))"
      "c = (cv s)\<lparr>nWaitersToUnblock := nWaitersToUnblock (cv s) + nWaitersBlocked (cv s), nWaitersBlocked := 0\<rparr>"
    | (one) "nWaitersToUnblock (cv s) \<noteq> 0" "nWaitersBlocked (cv s) \<noteq> 0" "p = SUnlock 1"
      "c = (cv s)\<lparr>nWaitersToUnblock := nWaitersToUnblock (cv s) + 1, nWaitersBlocked := nWaitersBlocked (cv s) - 1\<rparr>"
    | (gate) "nWaitersToUnblock (cv s) = 0" "nWaitersBlocked (cv s) > nWaitersGone (cv s)" "c = cv s" "p = SGate a"
    using c by (auto simp: cond_unblock_test_def Let_def split: if_splits)
  then show ?thesis
  proof cases
    case stay
    show ?thesis
      by (rule inv_update [OF inv t]) (use d m stay in \<open>auto simp: pc cond_num_def\<close>)
  next
    case all
    show ?thesis
      by (rule inv_update [OF inv t]) (use d m all in \<open>auto simp: pc cond_num_def\<close>)
  next
    case one
    show ?thesis
      by (rule inv_update [OF inv t]) (use d m one in \<open>auto simp: pc cond_num_def\<close>)
  next
    case gate
    show ?thesis
      by (rule inv_update [OF inv t]) (use d m gate in \<open>auto simp: pc cond_num_def\<close>)
  qed
qed

lemma closed_inv:
  assumes inv: "cond_inv N s" and t: "t < N" and pc: "cpc s t = SClosed a" and c: "cond_unblock_closed a (cv s) = (c, p)"
  shows "cond_inv N (s\<lparr>cv := c, ext := ext s, cpc := (cpc s)(t := p), fault := f\<rparr>)"
proof -
  note d = cond_numD [OF inv t, unfolded pc] and g = weigh_ges [OF t, of "cpc s", unfolded pc]
  have m: "mtxUnblockLock (cv s) = Some t" using d(13) by simp
  define b where "b = nWaitersBlocked (cv s) - nWaitersGone (cv s)"
  define n where "n = (if a then b else 1)"
  have e: "nWaitersBlocked c = b - n" "nWaitersGone c = 0" "nWaitersToUnblock c = n" "p = SUnlock n"
    "semBlockLock c = semBlockLock (cv s)" "semBlockQueue c = semBlockQueue (cv s)" "mtxUnblockLock c = Some t"
    using c m by (auto simp: cond_unblock_closed_def Let_def b_def n_def split: if_splits)
  have n: "0 < n" "n \<le> b" using d(12) by (simp_all add: n_def b_def)
  have "weigh N (cpc s) w_adj \<le> 0" "weigh N (cpc s) w_adjusting \<le> 0"
    using owner_alone [OF inv t] by (simp_all add: pc)
  then show ?thesis
    by (intro inv_update [OF inv t]) (use d g m n e in \<open>auto simp: pc cond_num_def b_def\<close>)
qed

lemma adjusted_inv:
  assumes inv: "cond_inv N s" and t: "t < N"
  shows "cpc s t = WAdjusted r \<Longrightarrow> cond_inv N (s\<lparr>cv := (cv s)\<lparr>nWaitersBlocked := nWaitersBlocked (cv s) - nWaitersGone (cv s)\<rparr>,
      ext := ext s, cpc := (cpc s)(t := WAdjustPost r), fault := f\<rparr>)"
    "cpc s t = WReset r \<Longrightarrow> cond_inv N (s\<lparr>cv := (cv s)\<lparr>nWaitersGone := 0\<rparr>,
      ext := ext s, cpc := (cpc s)(t := WUnlockCv r 0), fault := f\<rparr>)"
proof -
  note d = cond_numD [OF inv t] and g = weigh_ges [OF t, of "cpc s"]
  { assume pc: "cpc s t = WAdjusted r"
    have "0 \<le> weigh N (cpc s) w_in" "weigh N (cpc s) w_adj \<le> 0"
      using g(1) owner_alone(2) [OF inv t] by (simp_all add: pc)
    then show "cond_inv N (s\<lparr>cv := (cv s)\<lparr>nWaitersBlocked := nWaitersBlocked (cv s) - nWaitersGone (cv s)\<rparr>,
      ext := ext s, cpc := (cpc s)(t := WAdjustPost r), fault := f\<rparr>)"
      by (intro inv_update [OF inv t]) (use d g pc in \<open>auto simp: cond_num_def\<close>) }
  { assume pc: "cpc s t = WReset r"
    show "cond_inv N (s\<lparr>cv := (cv s)\<lparr>nWaitersGone := 0\<rparr>, ext := ext s, cpc := (cpc s)(t := WUnlockCv r 0), fault := f\<rparr>)"
      by (intro inv_update [OF inv t]) (use d g pc in \<open>auto simp: cond_num_def\<close>) }
qed

lemma go_inv:
  assumes inv: "cond_inv N s" and t: "t < N" and r: "cond_step t (cv s) (ext s) (cpc s t) = Some r" and nf: "snd (snd r) \<noteq> Inr ERANGE"
  shows "cond_inv N (cond_next t s r)"
proof -
  note d = cond_numD [OF inv t] and g = weigh_ges [OF t, of "cpc s"]
  have n: "cond_next t s (c, e, q) = s\<lparr>cv := c, ext := e, cpc := (cpc s)(t := (case q of Inl p \<Rightarrow> p | Inr _ \<Rightarrow> COut)),
      fault := (fault s \<or> q = Inr ERANGE)\<rparr>" for c e q
    by (simp add: cond_next_def)
  show ?thesis
  proof (cases "cpc s t")
    case COut
    then show ?thesis using r by simp
  next
    case WGate
    obtain q p where q: "sem_call (semBlockLock (cv s)) WCount WGateWait = (q, p)" by fastforce
    then have r': "r = ((cv s)\<lparr>semBlockLock := q\<rparr>, ext s, Inl p)" using r WGate by simp
    show ?thesis unfolding r' n sum.case
      by (rule lock_call [OF inv t _ _ _ _ _ _ _ _ _ _ _ _ _ _ _ _ _ _ _ _ _ q]) (use d(12) in \<open>simp_all add: WGate\<close>)
  next
    case WGateWait
    obtain q where q: "wait_object (semBlockLock (cv s)) = Some q" and r': "r = ((cv s)\<lparr>semBlockLock := q\<rparr>, ext s, Inl WCount)"
      using r WGateWait by auto
    show ?thesis unfolding r' n sum.case
      by (rule lock_granted [OF inv t _ _ _ _ _ _ _ _ _ _ _ _ q]) (use d(12) in \<open>simp_all add: WGateWait\<close>)
  next
    case WCount
    then have r': "r = ((cv s)\<lparr>nWaitersBlocked := nWaitersBlocked (cv s) + 1\<rparr>, ext s, Inl WGatePost)" using r by simp
    show ?thesis unfolding r' n sum.case
      by (rule inv_update [OF inv t]) (use d g in \<open>auto simp: WCount cond_num_def\<close>)
  next
    case WGatePost
    obtain q e where q: "sem_raise (semBlockLock (cv s)) = (q, e)" by fastforce
    have l: "e = OK \<and> cond_inv N (s\<lparr>cv := (cv s)\<lparr>semBlockLock := q\<rparr>, ext := ext s, cpc := (cpc s)(t := WUnlock), fault := f\<rparr>)" for f
      by (intro conjI lock_release [OF inv t _ _ _ _ _ _ _ _ _ _ _ q, where p = "WUnlock"]) (use d(12) in \<open>simp_all add: WGatePost\<close>)
    then have r': "r = ((cv s)\<lparr>semBlockLock := q\<rparr>, ext s, Inl WUnlock)" using r q WGatePost by simp
    show ?thesis unfolding r' n sum.case using l by blast
  next
    case WUnlock
    show ?thesis
    proof (cases "ext s = Some t")
      case True
      then have r': "r = (cv s, None, Inl WQueue)" using r WUnlock by simp
      show ?thesis unfolding r' n sum.case
        by (rule inv_update [OF inv t]) (use d g in \<open>auto simp: WUnlock cond_num_def\<close>)
    next
      case False
      then have r': "r = (cv s, ext s, Inl (WLock EPERM))" using r WUnlock by simp
      show ?thesis unfolding r' n sum.case
        by (rule inv_update [OF inv t]) (use d g False in \<open>auto simp: WUnlock cond_num_def\<close>)
    qed
  next
    case WQueue
    obtain q p where q: "sem_call (semBlockQueue (cv s)) (WLock OK) WQueueWait = (q, p)" by fastforce
    then have r': "r = ((cv s)\<lparr>semBlockQueue := q\<rparr>, ext s, Inl p)" using r WQueue by simp
    show ?thesis unfolding r' n sum.case
      by (rule sem_call_cases [OF q d(8)]; rule inv_update [OF inv t])
        (use d g in \<open>auto simp: WQueue cond_num_def\<close>)
  next
    case WQueueWait
    obtain q where q: "wait_object (semBlockQueue (cv s)) = Some q" and r': "r = ((cv s)\<lparr>semBlockQueue := q\<rparr>, ext s, Inl (WLock OK))"
      using r WQueueWait by auto
    show ?thesis unfolding r' n sum.case
      by (rule inv_update [OF inv t]) (use d g wait_object_units [OF q d(8)] in \<open>auto simp: WQueueWait cond_num_def\<close>)
  next
    case (WLock x)
    obtain c where c: "lock_cv t (cv s) (WLeave x) = Some (c, WLeave x)" and r': "r = (c, ext s, Inl (WLeave x))"
      using r WLock by (auto simp: lock_cv_def split: if_splits)
    show ?thesis unfolding r' n sum.case by (rule mtx_taken(2) [OF inv t _ _ _ _ _ _ _ _ _ _ _ c]) (simp_all add: WLock)
  next
    case (WLeave x)
    obtain c p where c: "cond_leave x (cv s) = (c, p)" by fastforce
    then have r': "r = (c, ext s, Inl p)" using r WLeave by simp
    show ?thesis unfolding r' n sum.case by (rule leave_inv [OF inv t WLeave c])
  next
    case (WAdjust x)
    obtain q p where q: "sem_call (semBlockLock (cv s)) (WAdjusted x) (WAdjustWait x) = (q, p)" by fastforce
    then have r': "r = ((cv s)\<lparr>semBlockLock := q\<rparr>, ext s, Inl p)" using r WAdjust by simp
    show ?thesis unfolding r' n sum.case
      by (rule lock_call [OF inv t _ _ _ _ _ _ _ _ _ _ _ _ _ _ _ _ _ _ _ _ _ q]) (use d(12) in \<open>simp_all add: WAdjust\<close>)
  next
    case (WAdjustWait x)
    obtain q where q: "wait_object (semBlockLock (cv s)) = Some q" and r': "r = ((cv s)\<lparr>semBlockLock := q\<rparr>, ext s, Inl (WAdjusted x))"
      using r WAdjustWait by auto
    show ?thesis unfolding r' n sum.case
      by (rule lock_granted [OF inv t _ _ _ _ _ _ _ _ _ _ _ _ q]) (use d(12) in \<open>simp_all add: WAdjustWait\<close>)
  next
    case (WAdjusted x)
    then have r': "r = ((cv s)\<lparr>nWaitersBlocked := nWaitersBlocked (cv s) - nWaitersGone (cv s)\<rparr>, ext s, Inl (WAdjustPost x))" using r by simp
    show ?thesis unfolding r' n sum.case by (rule adjusted_inv(1) [OF inv t WAdjusted])
  next
    case (WAdjustPost x)
    obtain q e where q: "sem_raise (semBlockLock (cv s)) = (q, e)" by fastforce
    have l: "e = OK \<and> cond_inv N (s\<lparr>cv := (cv s)\<lparr>semBlockLock := q\<rparr>, ext := ext s, cpc := (cpc s)(t := (WReset x)), fault := f\<rparr>)" for f
      by (intro conjI lock_release [OF inv t _ _ _ _ _ _ _ _ _ _ _ q, where p = "(WReset x)"]) (use d(12) in \<open>simp_all add: WAdjustPost\<close>)
    then have r': "r = ((cv s)\<lparr>semBlockLock := q\<rparr>, ext s, Inl (WReset x))" using r q WAdjustPost by simp
    show ?thesis unfolding r' n sum.case using l by blast
  next
    case (WReset x)
    then have r': "r = ((cv s)\<lparr>nWaitersGone := 0\<rparr>, ext s, Inl (WUnlockCv x 0))" using r by simp
    show ?thesis unfolding r' n sum.case by (rule adjusted_inv(2) [OF inv t WReset])
  next
    case (WUnlockCv x left)
    have r': "r = ((cv s)\<lparr>mtxUnblockLock := None\<rparr>, ext s, Inl (if 1 = left then WOpen x else WRelock x))" using r WUnlockCv by simp
    show ?thesis unfolding r' n sum.case by (rule mtx_released [OF inv t]) (use d(12) in \<open>simp_all add: WUnlockCv\<close>)
  next
    case (WOpen x)
    obtain q e where q: "sem_raise (semBlockLock (cv s)) = (q, e)" by fastforce
    have l: "e = OK \<and> cond_inv N (s\<lparr>cv := (cv s)\<lparr>semBlockLock := q\<rparr>, ext := ext s, cpc := (cpc s)(t := (WRelock x)), fault := f\<rparr>)" for f
      by (intro conjI lock_release [OF inv t _ _ _ _ _ _ _ _ _ _ _ q, where p = "(WRelock x)"]) (use d(12) in \<open>simp_all add: WOpen\<close>)
    then have r': "r = ((cv s)\<lparr>semBlockLock := q\<rparr>, ext s, Inl (WRelock x))" using r q WOpen by simp
    show ?thesis unfolding r' n sum.case using l by blast
  next
    case (WRelock x)
    then have r': "r = (cv s, Some t, Inr x)" "ext s = None" using r by (auto split: if_splits)
    show ?thesis unfolding r'(1) n sum.case
      by (rule inv_update [OF inv t]) (use d g in \<open>auto simp: WRelock cond_num_def\<close>)
  next
    case (SLock x)
    obtain c where c: "lock_cv t (cv s) (STest x) = Some (c, STest x)" and r': "r = (c, ext s, Inl (STest x))"
      using r SLock by (auto simp: lock_cv_def split: if_splits)
    show ?thesis unfolding r' n sum.case by (rule mtx_taken(2) [OF inv t _ _ _ _ _ _ _ _ _ _ _ c]) (simp_all add: SLock)
  next
    case (STest x)
    obtain c p where c: "cond_unblock_test x (cv s) = (c, p)" by fastforce
    then have r': "r = (c, ext s, Inl p)" using r STest by simp
    show ?thesis unfolding r' n sum.case by (rule test_inv [OF inv t STest c])
  next
    case (SGate x)
    obtain q p where q: "sem_call (semBlockLock (cv s)) (SClosed x) (SGateWait x) = (q, p)" by fastforce
    then have r': "r = ((cv s)\<lparr>semBlockLock := q\<rparr>, ext s, Inl p)" using r SGate by simp
    show ?thesis unfolding r' n sum.case
      by (rule lock_call [OF inv t _ _ _ _ _ _ _ _ _ _ _ _ _ _ _ _ _ _ _ _ _ q]) (use d(12) in \<open>simp_all add: SGate\<close>)
  next
    case (SGateWait x)
    obtain q where q: "wait_object (semBlockLock (cv s)) = Some q" and r': "r = ((cv s)\<lparr>semBlockLock := q\<rparr>, ext s, Inl (SClosed x))"
      using r SGateWait by auto
    show ?thesis unfolding r' n sum.case
      by (rule lock_granted [OF inv t _ _ _ _ _ _ _ _ _ _ _ _ q]) (use d(12) in \<open>simp_all add: SGateWait\<close>)
  next
    case (SClosed x)
    obtain c p where c: "cond_unblock_closed x (cv s) = (c, p)" by fastforce
    then have r': "r = (c, ext s, Inl p)" using r SClosed by simp
    show ?thesis unfolding r' n sum.case by (rule closed_inv [OF inv t SClosed c])
  next
    case SReturn
    have r': "r = ((cv s)\<lparr>mtxUnblockLock := None\<rparr>, ext s, Inr OK)" using r SReturn by simp
    show ?thesis unfolding r' n sum.case by (rule mtx_released [OF inv t]) (use d(12) in \<open>simp_all add: SReturn\<close>)
  next
    case (SUnlock x)
    have r': "r = ((cv s)\<lparr>mtxUnblockLock := None\<rparr>, ext s, Inl (SPost x))" using r SUnlock by simp
    show ?thesis unfolding r' n sum.case by (rule mtx_released [OF inv t]) (use d(12) in \<open>simp_all add: SUnlock\<close>)
  next
    case (SPost x)
    obtain q e where q: "sem_post_multiple OK False True (Some (semBlockQueue (cv s))) x = (q, e)" by fastforce
    then have r': "r = ((cv s)\<lparr>semBlockQueue := the q\<rparr>, ext s, Inr (sem_errno e))" using r SPost by simp
    have "units (the q) = units (semBlockQueue (cv s)) + x \<and> sem_ok (the q) (weigh N (cpc s) w_queue)"
      using sem_post_multiple_units [OF q d(8)] nf d(12) by (simp add: SPost r')
    then show ?thesis unfolding r' n sum.case
      by (intro inv_update [OF inv t]) (use d g in \<open>auto simp: SPost cond_num_def\<close>)
  qed
qed

lemma inv_ext:
  assumes "cond_inv N s" "\<forall>u. e = Some u \<longrightarrow> u < N \<and> may_hold (cpc s u)"
  shows "cond_inv N (s\<lparr>ext := e\<rparr>)"
proof -
  define s' where "s' = s\<lparr>ext := e\<rparr>"
  have s': "cv s' = cv s" "cpc s' = cpc s" "ext s' = e" by (simp_all add: s'_def)
  have "cond_inv N s'"
    using assms unfolding cond_inv_def s' by (elim conjE) (intro conjI; assumption)
  then show ?thesis by (simp only: s'_def)
qed

lemma trans_inv:
  assumes "cond_trans N s s'" "cond_inv N s" "\<not> fault s'"
  shows "cond_inv N s'"
  using assms
proof (induction rule: cond_trans.induct)
  case (call t s p)
  note d = cond_numD [OF call(4,1)] and g = weigh_ges [OF call(1), of "cpc s"]
  have e: "s\<lparr>cpc := (cpc s)(t := p)\<rparr> = s\<lparr>cv := cv s, ext := ext s, cpc := (cpc s)(t := p), fault := fault s\<rparr>" by simp
  show ?case unfolding e
    by (rule inv_update [OF call(4,1)]) (use d g call in \<open>auto simp: cond_num_def\<close>)
next
  case (go t s r)
  then have "snd (snd r) \<noteq> Inr ERANGE" by (auto simp: cond_next_def split: prod.splits)
  then show ?case by (rule go_inv [OF go(3,1,2)])
next
  case (timeout t s c p)
  note d = cond_numD [OF timeout(4,1)] and g = weigh_ges [OF timeout(1), of "cpc s", unfolded timeout(2)]
  have "0 < weigh N (cpc s) w_queue" using g(4) by simp
  then obtain r q where q: "p = WLock r" "c = (cv s)\<lparr>semBlockQueue := q\<rparr>" "sem_ok q (weigh N (cpc s) w_queue - 1)"
    "units q = units (semBlockQueue (cv s)) - of_bool (r = OK)"
    using cond_timeout_units [OF timeout(3) d(8)] by blast
  have e: "s\<lparr>cv := c, cpc := (cpc s)(t := p)\<rparr> = s\<lparr>cv := c, ext := ext s, cpc := (cpc s)(t := p), fault := fault s\<rparr>" by simp
  have num: "cond_num c (\<lambda>w. weigh N (cpc s) w - w (cpc s t) + w p)"
    unfolding q(1,2) timeout(2) cond_num_def using d(1-11) q(3,4) by (cases "r = OK") simp_all
  have h: "ext s \<noteq> Some t" using d(14) timeout(2) by auto
  show ?case unfolding e
    by (rule inv_update [OF timeout(4,1) num]) (simp_all add: timeout(2) q(1,2) h)
next
  case (cancel_early t s)
  note d = cond_numD [OF cancel_early(3,1)]
  have e: "s\<lparr>cpc := (cpc s)(t := COut)\<rparr> = s\<lparr>cv := cv s, ext := ext s, cpc := (cpc s)(t := COut), fault := fault s\<rparr>" by simp
  show ?case unfolding e
    by (rule inv_update [OF cancel_early(3,1)]) (use d cancel_early in \<open>auto simp: cond_num_def\<close>)
next
  case (cancel_gate t s)
  note d = cond_numD [OF cancel_gate(3,1)] and g = weigh_ges [OF cancel_gate(1), of "cpc s", unfolded cancel_gate(2)]
  let ?c = "(cv s)\<lparr>semBlockLock := ptw32_sem_wait_cleanup (semBlockLock (cv s))\<rparr>"
  have u: "sem_ok (semBlockLock ?c) (weigh N (cpc s) w_gatewait - 1) \<and> units (semBlockLock ?c) = units (semBlockLock (cv s))"
    using wait_cleanup_units [OF d(7)] g(3) cancel_gate(4) by simp
  have num: "cond_num ?c (\<lambda>w. weigh N (cpc s) w - w (cpc s t) + w COut)"
    unfolding cancel_gate(2) cond_num_def using d(1-11) u by simp
  have e: "s\<lparr>cv := ?c, cpc := (cpc s)(t := COut), fault := fault s \<or> 0 < sem_handle (semBlockLock (cv s))\<rparr> =
      s\<lparr>cv := ?c, ext := ext s, cpc := (cpc s)(t := COut), fault := fault s \<or> 0 < sem_handle (semBlockLock (cv s))\<rparr>" by simp
  show ?case unfolding e
    by (rule inv_update [OF cancel_gate(3,1) num]) (simp_all add: cancel_gate(2))
next
  case (cancel_queue t s)
  note d = cond_numD [OF cancel_queue(3,1)]
  have e: "s\<lparr>cpc := (cpc s)(t := WLock ETIMEDOUT)\<rparr> =
      s\<lparr>cv := cv s, ext := ext s, cpc := (cpc s)(t := WLock ETIMEDOUT), fault := fault s\<rparr>" by simp
  show ?case unfolding e
    by (rule inv_update [OF cancel_queue(3,1)]) (use d cancel_queue in \<open>auto simp: cond_num_def\<close>)
next
  case (user_lock t s)
  then show ?case by (intro inv_ext) simp_all
next
  case (user_unlock t s)
  then show ?case by (intro inv_ext) simp_all
qed

lemma trans_fault: "cond_trans N s s' \<Longrightarrow> fault s \<Longrightarrow> fault s'"
  by (induction rule: cond_trans.induct) (auto simp: cond_next_def)

lemma cond_reachable_inv: "cond_reachable N s \<Longrightarrow> \<not> fault s \<Longrightarrow> cond_inv N s"
proof (induction rule: cond_reachable.induct)
  case (start c)
  then have "c = \<lparr>nWaitersBlocked = 0, nWaitersGone = 0, nWaitersToUnblock = 0, semBlockQueue = \<lparr>sem_value = 0, sem_handle = 0\<rparr>,
      semBlockLock = \<lparr>sem_value = 1, sem_handle = 0\<rparr>, mtxUnblockLock = None\<rparr>"
    by (simp add: pthread_cond_init_def sem_init_def pthread_mutex_init_def SEM_VALUE_MAX_def)
  then show ?case by (simp add: cond_inv_def cond_num_def weigh_def units_def sem_ok_def)
next
  case (step s s')
  then show ?case using trans_inv trans_fault by blast
qed

subsection \<open>No signal is lost\<close>

lemma weigh_pos: "weigh N ps w \<noteq> 0 \<Longrightarrow> \<exists>t<N. w (ps t) \<noteq> 0"
  unfolding weigh_def by (meson lessThan_iff sum.neutral)

lemma weigh_zero: "(\<And>t. t < N \<Longrightarrow> w (ps t) = 0) \<Longrightarrow> weigh N ps w = 0"
  by (simp add: weigh_def)

definition cond_waiting :: "nat \<Rightarrow> cond_sys \<Rightarrow> nat set" where
  "cond_waiting N s = {t. t < N \<and> w_in (cpc s t) = 1}"

lemma card_waiting: "int (card (cond_waiting N s)) = weigh N (cpc s) w_in"
proof -
  have "w_in p = (if w_in p = 1 then 1 else 0)" for p by (cases p) auto
  then have "weigh N (cpc s) w_in = (\<Sum>t<N. if w_in (cpc s t) = 1 then 1 else 0)"
    unfolding weigh_def by (intro sum.cong) auto
  also have "\<dots> = int (card {t \<in> {..<N}. w_in (cpc s t) = 1})" by (simp add: sum.If_cases Int_def)
  finally show ?thesis by (simp add: cond_waiting_def)
qed

text \<open>Where every thread is when none can go on.\<close>

lemma stuck_pc:
  assumes "cond_step t (cv s) (ext s) (cpc s t) = None"
  shows "cpc s t \<in> {COut, WGateWait, WQueueWait} \<or> (\<exists>r. cpc s t \<in> {WLock r, WAdjustWait r, WRelock r}) \<or> (\<exists>a. cpc s t \<in> {SLock a, SGateWait a})"
  using assms by (cases "cpc s t") (auto split: prod.splits if_splits)

lemma cond_quiescent:
  assumes inv: "cond_inv N s" and stuck: "\<forall>t<N. cond_step t (cv s) (ext s) (cpc s t) = None"
  shows "mtxUnblockLock (cv s) = None" "nWaitersToUnblock (cv s) = 0" "units (semBlockLock (cv s)) = 1"
    "\<And>t. t < N \<Longrightarrow> w_gatewait (cpc s t) = 0" "\<And>t. t < N \<Longrightarrow> cpc s t = WQueueWait \<Longrightarrow> units (semBlockQueue (cv s)) = 0"
proof -
  have pc: "cpc s t \<in> {COut, WGateWait, WQueueWait} \<or> (\<exists>r. cpc s t \<in> {WLock r, WAdjustWait r, WRelock r}) \<or>
      (\<exists>a. cpc s t \<in> {SLock a, SGateWait a})" if "t < N" for t
    using stuck that by (intro stuck_pc) blast
  have num: "cond_num (cv s) (weigh N (cpc s))" and po: "\<And>t. t < N \<Longrightarrow> pc_ok (cv s) (cpc s t)"
    using inv unfolding cond_inv_def by blast+
  have "w_gate (cpc s t) = 0" if "t < N" for t using pc [OF that] by auto
  then have nogate: "weigh N (cpc s) w_gate = 0" using weigh_pos by blast
  have gatewait: "units (semBlockLock (cv s)) = 0" if t: "t < N" and w: "w_gatewait (cpc s t) \<noteq> 0" for t
  proof -
    have "wait_object (semBlockLock (cv s)) = None" using stuck t w by (cases "cpc s t") auto
    moreover have "0 < weigh N (cpc s) w_gatewait"
      using weigh_ge [where w = w_gatewait and ps = "cpc s", OF t w_nonneg(3)] w w_nonneg(3) [of "cpc s t"] by simp
    ultimately show ?thesis using num wait_object_None unfolding cond_num_def by blast
  qed
  have queuewait: "units (semBlockQueue (cv s)) = 0" if t: "t < N" and w: "cpc s t = WQueueWait" for t
  proof -
    have "wait_object (semBlockQueue (cv s)) = None" using stuck [rule_format, OF t] w by auto
    moreover have "0 < weigh N (cpc s) w_queue"
      using weigh_ge [where w = w_queue and ps = "cpc s", OF t w_nonneg(4)] w by simp
    ultimately show ?thesis using num wait_object_None unfolding cond_num_def by blast
  qed
  show mtx: "mtxUnblockLock (cv s) = None"
  proof (rule ccontr)
    assume "mtxUnblockLock (cv s) \<noteq> None"
    then have "weigh N (cpc s) w_mtx \<noteq> 0" using num by (simp add: cond_num_def)
    then obtain t where t: "t < N" "w_mtx (cpc s t) \<noteq> 0" using weigh_pos by blast
    then have "w_gatewait (cpc s t) \<noteq> 0" "nWaitersToUnblock (cv s) = 0" using pc [OF t(1)] po [OF t(1)] by auto
    then show False using gatewait [OF t(1)] num nogate by (simp add: cond_num_def)
  qed
  have pc': "cpc s t \<in> {COut, WGateWait, WQueueWait} \<or> (\<exists>r. cpc s t = WRelock r)" if t: "t < N" for t
  proof -
    have "w_mtx (cpc s t) = 0"
      using num mtx weigh_ge [where w = w_mtx and ps = "cpc s", OF t w_nonneg(6)] w_nonneg(6) [of "cpc s t"]
      by (simp add: cond_num_def)
    then show ?thesis using pc [OF t] stuck [rule_format, OF t] mtx by (auto simp: lock_cv_def)
  qed
  show none: "nWaitersToUnblock (cv s) = 0"
  proof (rule ccontr)
    assume n: "nWaitersToUnblock (cv s) \<noteq> 0"
    have "w_unit (cpc s t) = 0" if "t < N" for t using pc' [OF that] by auto
    then have "weigh N (cpc s) w_unit = 0" using weigh_pos by blast
    then have q: "0 < units (semBlockQueue (cv s))" using num n by (auto simp: cond_num_def)
    have "w_adj (cpc s t) = 0" if "t < N" for t using pc' [OF that] by auto
    then have "weigh N (cpc s) w_adj = 0" using weigh_pos by blast
    then have "weigh N (cpc s) w_in \<noteq> 0" using num n by (auto simp: cond_num_def)
    then obtain t where t: "t < N" "w_in (cpc s t) \<noteq> 0" using weigh_pos by blast
    then have "cpc s t = WQueueWait" using pc' [OF t(1)] by auto
    then show False using queuewait [OF t(1)] q by simp
  qed
  show one: "units (semBlockLock (cv s)) = 1" using num none nogate by (simp add: cond_num_def)
  show "w_gatewait (cpc s t) = 0" if "t < N" for t using gatewait [OF that] one by auto
  show "units (semBlockQueue (cv s)) = 0" if "t < N" "cpc s t = WQueueWait" for t using queuewait that .
qed

text \<open>The exclusive writers of \<open>nWaitersBlocked\<close>.\<close>

fun cond_writes :: "cond \<Rightarrow> cond_pc \<Rightarrow> bool" where
  "cond_writes c WCount = True"
| "cond_writes c (WAdjusted r) = True"
| "cond_writes c (SClosed a) = True"
| "cond_writes c (STest a) = (nWaitersToUnblock c \<noteq> 0)"
| "cond_writes c p = False"

lemma weigh_two: "t < N \<Longrightarrow> u < N \<Longrightarrow> t \<noteq> u \<Longrightarrow> (\<And>p. 0 \<le> w p) \<Longrightarrow> w (ps t) + w (ps u) \<le> weigh N ps w"
  using sum_mono2 [of "{..<N}" "{t, u}" "\<lambda>i. w (ps i)"] by (simp add: weigh_def)

lemma writers_alone:
  assumes inv: "cond_inv N s" and t: "t < N" "cond_writes (cv s) (cpc s t)" and u: "u < N" "cond_writes (cv s) (cpc s u)"
  shows "t = u"
proof (rule ccontr)
  assume n: "t \<noteq> u"
  have num: "cond_num (cv s) (weigh N (cpc s))" using inv unfolding cond_inv_def by blast
  have wr: "w_gate p = 1 \<or> nWaitersToUnblock c \<noteq> 0 \<and> w_mtx p = 1" if "cond_writes c p" for c p
    using that by (cases p) auto
  note g = weigh_two [OF t(1) u(1) n, where w = w_gate and ps = "cpc s", OF w_nonneg(2)]
  note m = weigh_two [OF t(1) u(1) n, where w = w_mtx and ps = "cpc s", OF w_nonneg(6)]
  have "units (semBlockLock (cv s)) \<ge> 0" by (rule units_nonneg)
  then show False
    using wr [OF t(2)] wr [OF u(2)] g m num w_nonneg(2) [of "cpc s t"] w_nonneg(2) [of "cpc s u"]
    by (cases "nWaitersToUnblock (cv s) = 0"; cases "mtxUnblockLock (cv s)") (auto simp: cond_num_def)
qed

text \<open>While signals are outstanding no thread joins the waiters.\<close>

inductive gate_closed :: "nat \<Rightarrow> cond_sys \<Rightarrow> cond_sys \<Rightarrow> bool" for N s where
  now: "gate_closed N s s"
| later: "gate_closed N s s' \<Longrightarrow> cond_trans N s' s'' \<Longrightarrow> 0 < nWaitersToUnblock (cv s'') \<Longrightarrow> gate_closed N s s''"

lemma waiting_upd:
  "cpc s' = (cpc s)(t := p) \<Longrightarrow> w_in p \<le> w_in (cpc s t) \<Longrightarrow> cond_waiting N s' \<subseteq> cond_waiting N s"
  using w_nonneg(1) by (cases "cpc s t") (auto simp: cond_waiting_def split: if_splits)

lemma closed_go:
  assumes inv: "cond_inv N s" and t: "t < N" and n: "0 < nWaitersToUnblock (cv s)"
    and r: "cond_step t (cv s) (ext s) (cpc s t) = Some (c, e, q)"
  shows "nWaitersBlocked c \<le> nWaitersBlocked (cv s) \<and> nWaitersGone c = 0 \<and> w_in (case q of Inl p \<Rightarrow> p | Inr _ \<Rightarrow> COut) \<le> w_in (cpc s t)"
proof -
  note d = cond_numD [OF inv t] and g = weigh_ges [OF t, of "cpc s"]
  have gone: "nWaitersGone (cv s) = 0" using d(4) n by simp
  have "units (semBlockLock (cv s)) + weigh N (cpc s) w_gate = 0" using d(6) n by simp
  then have "w_gate (cpc s t) = 0" using g(2) w_nonneg(2) [of "cpc s t"] units_nonneg [of "semBlockLock (cv s)"] by simp
  then show ?thesis
    using r d(1,12) n gone w_nonneg(1)
    by (cases "cpc s t")
      (auto simp: sem_call_def lock_cv_def cond_leave_def cond_unblock_test_def Let_def split: prod.splits if_splits option.splits sum.splits)
qed

lemma closed_trans:
  assumes "cond_trans N s s'" "cond_inv N s" "0 < nWaitersToUnblock (cv s)"
  shows "nWaitersBlocked (cv s') \<le> nWaitersBlocked (cv s) \<and> nWaitersGone (cv s') = 0 \<and> cond_waiting N s' \<subseteq> cond_waiting N s"
  using assms
proof (induction rule: cond_trans.induct)
  case (call t s p)
  then have "nWaitersGone (cv s) = 0" using cond_numD(4) by blast
  moreover have "cond_waiting N (s\<lparr>cpc := (cpc s)(t := p)\<rparr>) \<subseteq> cond_waiting N s"
    by (rule waiting_upd [of _ _ t p]) (use call in auto)
  ultimately show ?case by simp
next
  case (go t s r)
  obtain c e q where r: "r = (c, e, q)" by (cases r)
  note cg = closed_go [OF go(3,1,4) go(2) [unfolded r]]
  have "cond_waiting N (cond_next t s r) \<subseteq> cond_waiting N s"
    by (rule waiting_upd [of _ _ t "case q of Inl p \<Rightarrow> p | Inr _ \<Rightarrow> COut"]) (use cg in \<open>simp_all add: r cond_next_def\<close>)
  then show ?case using cg by (simp add: r cond_next_def)
next
  case (timeout t s c p)
  then have "nWaitersGone (cv s) = 0" using cond_numD(4) by blast
  moreover obtain r where r: "p = WLock r" "nWaitersBlocked c = nWaitersBlocked (cv s)" "nWaitersGone c = nWaitersGone (cv s)"
    using timeout(3) by (auto simp: cond_timeout_def split: prod.splits)
  moreover have "cond_waiting N (s\<lparr>cv := c, cpc := (cpc s)(t := p)\<rparr>) \<subseteq> cond_waiting N s"
    by (rule waiting_upd [of _ _ t p]) (use timeout(2) r in auto)
  ultimately show ?case by simp
next
  case (cancel_early t s)
  then have "nWaitersGone (cv s) = 0" using cond_numD(4) by blast
  moreover have "cond_waiting N (s\<lparr>cpc := (cpc s)(t := COut)\<rparr>) \<subseteq> cond_waiting N s"
    by (rule waiting_upd [of _ _ t COut]) (use cancel_early in auto)
  ultimately show ?case by simp
next
  case (cancel_gate t s)
  then have "nWaitersGone (cv s) = 0" using cond_numD(4) by blast
  moreover have "cond_waiting N (s\<lparr>cv := (cv s)\<lparr>semBlockLock := ptw32_sem_wait_cleanup (semBlockLock (cv s))\<rparr>,
      cpc := (cpc s)(t := COut), fault := fault s \<or> 0 < sem_handle (semBlockLock (cv s))\<rparr>) \<subseteq> cond_waiting N s"
    by (rule waiting_upd [of _ _ t COut]) (use cancel_gate in auto)
  ultimately show ?case by simp
next
  case (cancel_queue t s)
  then have "nWaitersGone (cv s) = 0" using cond_numD(4) by blast
  moreover have "cond_waiting N (s\<lparr>cpc := (cpc s)(t := WLock ETIMEDOUT)\<rparr>) \<subseteq> cond_waiting N s"
    by (rule waiting_upd [of _ _ t "WLock ETIMEDOUT"]) (use cancel_queue in auto)
  ultimately show ?case by simp
next
  case (user_lock t s)
  then have "nWaitersGone (cv s) = 0" using cond_numD(4) by blast
  then show ?case by (simp add: cond_waiting_def)
next
  case (user_unlock t s)
  then have "nWaitersGone (cv s) = 0" using cond_numD(4) by blast
  then show ?case by (simp add: cond_waiting_def)
qed

lemma closed_path:
  assumes "gate_closed N s s'" "cond_inv N s" "0 < nWaitersToUnblock (cv s)" "\<not> fault s'"
  shows "cond_inv N s' \<and> 0 < nWaitersToUnblock (cv s') \<and> nWaitersBlocked (cv s') \<le> nWaitersBlocked (cv s) \<and>
    cond_waiting N s' \<subseteq> cond_waiting N s"
  using assms
proof (induction rule: gate_closed.induct)
  case (later s' s'')
  then have "\<not> fault s'" using trans_fault by blast
  then have i: "cond_inv N s'" "0 < nWaitersToUnblock (cv s')" "nWaitersBlocked (cv s') \<le> nWaitersBlocked (cv s)"
    "cond_waiting N s' \<subseteq> cond_waiting N s"
    using later(4) [OF later(5,6)] by blast+
  show ?case using closed_trans [OF later(2) i(1,2)] trans_inv [OF later(2) i(1)] later(3,7) i(3,4) by auto
qed simp

text \<open>The step of a signal that issues \<open>n\<close> signals.\<close>

lemma unblock_step:
  assumes inv: "cond_inv N s" and t: "t < N" and pc: "cpc s t \<in> {STest a, SClosed a}"
    and r: "cond_step t (cv s) (ext s) (cpc s t) = Some r" and n: "cpc (cond_next t s r) t = SUnlock n"
  shows "cond_inv N (cond_next t s r)" "0 < n" "n \<le> nWaitersToUnblock (cv (cond_next t s r))" "nWaitersGone (cv (cond_next t s r)) = 0"
    "cond_waiting N (cond_next t s r) = cond_waiting N s" "a \<longrightarrow> nWaitersBlocked (cv (cond_next t s r)) = 0"
proof -
  note d = cond_numD [OF inv t]
  obtain c e q where re: "r = (c, e, q)" by (cases r)
  have q: "q = Inl (SUnlock n)" using n pc r re by (auto simp: cond_next_def split: sum.splits prod.splits)
  show i: "cond_inv N (cond_next t s r)" by (rule go_inv [OF inv t r]) (simp add: re q)
  show "0 < n" using cond_numD(12) [OF i t] n by simp
  have "nWaitersGone c = 0 \<and> n \<le> nWaitersToUnblock c \<and> (a \<longrightarrow> nWaitersBlocked c = 0)"
    using pc r re q d(1,2,4,12)
    by (auto simp: cond_unblock_test_def cond_unblock_closed_def Let_def split: if_splits)
  then show "n \<le> nWaitersToUnblock (cv (cond_next t s r))" "nWaitersGone (cv (cond_next t s r)) = 0"
    "a \<longrightarrow> nWaitersBlocked (cv (cond_next t s r)) = 0"
    by (simp_all add: re cond_next_def)
  show "cond_waiting N (cond_next t s r) = cond_waiting N s"
    using pc by (auto simp: cond_waiting_def re q cond_next_def)
qed

lemma no_gone_adj: "cond_inv N s \<Longrightarrow> nWaitersGone (cv s) = 0 \<Longrightarrow> weigh N (cpc s) w_adj = 0"
proof (rule ccontr)
  assume i: "cond_inv N s" "nWaitersGone (cv s) = 0" and "weigh N (cpc s) w_adj \<noteq> 0"
  then obtain t where t: "t < N" "w_adj (cpc s t) \<noteq> 0" using weigh_pos by blast
  then show False using cond_numD(12) [OF i(1) t(1)] i(2) by (cases "cpc s t") auto
qed

text \<open>A condition variable on which threads wait is not destroyed.\<close>

lemma cond_destroy_busy:
  assumes "cond_reachable N s" "\<not> fault s" "cond_waiting N s \<noteq> {}"
  shows "pthread_cond_destroy lock_close queue_close mtx_rc (Some (CondObj (cv s))) \<in>
    {None, Some (EBUSY, Some (CondObj (cv s)))}"
proof -
  note inv = cond_reachable_inv [OF assms(1,2)]
  have num: "cond_num (cv s) (weigh N (cpc s))" using inv unfolding cond_inv_def by blast
  have f: "finite (cond_waiting N s)" by (simp add: cond_waiting_def)
  have w: "0 < weigh N (cpc s) w_in" using assms(3) f card_waiting [of N s] by (metis card_gt_0_iff of_nat_0_less_iff)
  have "nWaitersBlocked (cv s) > nWaitersGone (cv s)" if v: "0 < sem_value (semBlockLock (cv s))" and m: "mtxUnblockLock (cv s) = None"
  proof -
    have "0 < units (semBlockLock (cv s))" using v by (simp add: units_def)
    moreover have "0 \<le> weigh N (cpc s) w_gate" unfolding weigh_def by (intro sum_nonneg w_nonneg)
    ultimately have "nWaitersToUnblock (cv s) = 0"
      using num by (cases "0 < nWaitersToUnblock (cv s)") (simp_all add: cond_num_def)
    moreover have "w_adj (cpc s t) = 0" if "t < N" for t
      using num m weigh_ge [where w = w_mtx and ps = "cpc s", OF that w_nonneg(6)] by (cases "cpc s t") (auto simp: cond_num_def)
    then have "weigh N (cpc s) w_adj = 0" by (rule weigh_zero)
    ultimately show ?thesis using num w by (simp add: cond_num_def)
  qed
  then show ?thesis by (auto simp: pthread_cond_destroy_def)
qed

subsection \<open>Runs\<close>

text \<open>A run by its actions: \<open>Some COut\<close> locks the external mutex, \<open>Some p\<close> calls a function, None is a step.\<close>

fun cond_run :: "nat \<Rightarrow> (nat \<times> cond_pc option) list \<Rightarrow> cond_sys \<Rightarrow> cond_sys option" where
  "cond_run N [] s = Some s"
| "cond_run N ((t, Some p) # acts) s =
     (if t < N \<and> cpc s t = COut \<and> p \<in> {WGate, SLock False, SLock True} then cond_run N acts (s\<lparr>cpc := (cpc s)(t := p)\<rparr>)
      else if t < N \<and> cpc s t = COut \<and> p = COut \<and> ext s = None then cond_run N acts (s\<lparr>ext := Some t\<rparr>) else None)"
| "cond_run N ((t, None) # acts) s =
     (if t < N then Option.bind (cond_step t (cv s) (ext s) (cpc s t)) (\<lambda>r. cond_run N acts (cond_next t s r)) else None)"

lemma cond_run_reachable: "cond_run N acts s = Some s' \<Longrightarrow> cond_reachable N s \<Longrightarrow> cond_reachable N s'"
proof (induction acts s arbitrary: s' rule: cond_run.induct)
  case (2 N t p acts s)
  then show ?case
    by (auto split: if_splits intro: cond_reachable.step cond_trans.call cond_trans.user_lock)
next
  case (3 N t acts s)
  then obtain r where t: "t < N" "cond_step t (cv s) (ext s) (cpc s t) = Some r" "cond_run N acts (cond_next t s r) = Some s'"
    by (auto simp: bind_eq_Some_conv split: if_splits)
  then show ?case using 3(1) [OF t] 3(3) by (blast intro: cond_reachable.step cond_trans.go)
qed simp

definition new_cond_sys :: cond_sys where
  "new_cond_sys = \<lparr>cv = \<lparr>nWaitersBlocked = 0, nWaitersGone = 0, nWaitersToUnblock = 0, semBlockQueue = \<lparr>sem_value = 0, sem_handle = 0\<rparr>,
      semBlockLock = \<lparr>sem_value = 1, sem_handle = 0\<rparr>, mtxUnblockLock = None\<rparr>, ext = None, cpc = (\<lambda>_. COut), fault = False\<rparr>"

lemma new_reachable: "cond_reachable N new_cond_sys"
  unfolding new_cond_sys_def
  by (rule cond_reachable.start) (simp add: pthread_cond_init_def sem_init_def pthread_mutex_init_def SEM_VALUE_MAX_def)

text \<open>Thread 0 waits; thread 1 broadcasts.\<close>

definition wait_acts :: "(nat \<times> cond_pc option) list" where
  "wait_acts = [(0, Some COut), (0, Some WGate), (0, None), (0, None), (0, None), (0, None), (0, None)]"

definition bcast_acts :: "(nat \<times> cond_pc option) list" where
  "bcast_acts = wait_acts @ [(1, Some (SLock True)), (1, None), (1, None), (1, None)]"

subsection \<open>The properties\<close>

text \<open>
  C18: in every state that any number of threads reach in the calls of a condition
  variable, cancelled ones included, while no semaphore overflows and no thread is cancelled at the gate
  between the post of the gate and its wakeup, the counters account for the waiting threads:
  those blocked plus those to be unblocked less those gone (until the count of the gone, at
  \<open>INT_MAX / 2\<close>, is taken off the blocked ones) are the threads between their entry and the
  clean-up. The counters stay within the bounds of the threads, so none overflows, and at most one thread at a
  time is about to change \<open>nWaitersBlocked\<close>, which has no lock of its own.
\<close>

theorem cond_counts:
  assumes "cond_reachable N s" "\<not> fault s"
  shows "int (card (cond_waiting N s)) = nWaitersBlocked (cv s) + nWaitersToUnblock (cv s) -
      (if \<exists>t<N. \<exists>r. cpc s t \<in> {WAdjustPost r, WReset r} then 0 else nWaitersGone (cv s)) \<and>
    0 \<le> nWaitersBlocked (cv s) \<and> nWaitersBlocked (cv s) \<le> int N + 1073741823 \<and>
    0 \<le> nWaitersToUnblock (cv s) \<and> nWaitersToUnblock (cv s) \<le> int N \<and>
    0 \<le> nWaitersGone (cv s) \<and> nWaitersGone (cv s) \<le> 1073741823 \<and>
    (\<forall>t<N. \<forall>u<N. cond_writes (cv s) (cpc s t) \<and> cond_writes (cv s) (cpc s u) \<longrightarrow> t = u)"
proof -
  note inv = cond_reachable_inv [OF assms]
  have num: "cond_num (cv s) (weigh N (cpc s))" using inv unfolding cond_inv_def by blast
  have adj: "weigh N (cpc s) w_adj = (if \<exists>t<N. \<exists>r. cpc s t \<in> {WAdjustPost r, WReset r} then nWaitersGone (cv s) else 0)"
  proof (cases "\<exists>t<N. \<exists>r. cpc s t \<in> {WAdjustPost r, WReset r}")
    case True
    then obtain t r where t: "t < N" "cpc s t \<in> {WAdjustPost r, WReset r}" by blast
    then have "w_mtx (cpc s t) = 1" "w_adj (cpc s t) = 1073741823" "nWaitersGone (cv s) = 1073741823"
      using cond_numD(12) [OF inv t(1)] by auto
    then show ?thesis
      using True owner_alone(2) [OF inv t(1)] weigh_ge [where w = w_adj and ps = "cpc s", OF t(1) w_nonneg(7)] by simp
  next
    case False
    have "w_adj (cpc s t) = 0" if "t < N" for t using False that by (cases "cpc s t") auto
    then show ?thesis unfolding if_not_P [OF False] by (rule weigh_zero)
  qed
  have gone: "nWaitersGone (cv s) \<le> 1073741823"
  proof (cases "weigh N (cpc s) w_adjusting = 0")
    case True
    then show ?thesis using num by (simp add: cond_num_def)
  next
    case False
    then obtain t where t: "t < N" "w_adjusting (cpc s t) \<noteq> 0" using weigh_pos by blast
    then show ?thesis using cond_numD(12) [OF inv t(1)] by (cases "cpc s t") auto
  qed
  have le: "card (cond_waiting N s) \<le> N"
    using card_mono [of "{..<N}" "cond_waiting N s"] by (auto simp: cond_waiting_def)
  have nn: "0 \<le> weigh N (cpc s) w_adj" unfolding weigh_def by (intro sum_nonneg w_nonneg)
  show ?thesis
  proof (intro conjI allI impI)
    show "int (card (cond_waiting N s)) = nWaitersBlocked (cv s) + nWaitersToUnblock (cv s) -
      (if \<exists>t<N. \<exists>r. cpc s t \<in> {WAdjustPost r, WReset r} then 0 else nWaitersGone (cv s))"
      using num adj by (auto simp: card_waiting cond_num_def)
    show "nWaitersToUnblock (cv s) \<le> int N"
      using num le nn card_waiting [of N s] unfolding cond_num_def by (cases "0 < nWaitersToUnblock (cv s)") auto
    show "nWaitersBlocked (cv s) \<le> int N + 1073741823" using num le nn gone card_waiting [of N s] unfolding cond_num_def by linarith
  qed (use num gone writers_alone [OF inv] in \<open>auto simp: cond_num_def\<close>)
qed

theorem cond_counts_witness:
  "\<exists>s. cond_run 2 wait_acts new_cond_sys = Some s \<and> int (card (cond_waiting 2 s)) = 1 \<and> nWaitersBlocked (cv s) = 1"
proof -
  obtain s where s: "cond_run 2 wait_acts new_cond_sys = Some s" "\<not> fault s" "nWaitersBlocked (cv s) = 1" "nWaitersToUnblock (cv s) = 0"
    "nWaitersGone (cv s) = 0"
    by (simp add: wait_acts_def new_cond_sys_def sem_call_def sem_wait_enter_def sem_raise_def sem_post_def sem_post_locked_def
        cond_next_def sem_return_def sem_errno_def SEM_VALUE_MAX_def Let_def)
  then show ?thesis using cond_counts [OF cond_run_reachable [OF s(1) new_reachable] s(2)] by (auto split: if_splits)
qed

text \<open>
  C10: no signal is lost. In a state that threads reach (while no semaphore
  overflows and no thread is cancelled at the gate between the post of the gate and its
  wakeup) and in which no thread can go on without a timeout, a cancellation or a new
  call, no signal is outstanding and the locks of the condition variable are free; a thread inside a
  call either has not been signalled (it waits for \<open>semBlockQueue\<close>, which has no unit,
  and is counted as blocked) or waits for its own mutex, which a thread outside the calls holds.
\<close>

theorem cond_no_deadlock:
  assumes "cond_reachable N s" "\<not> fault s" "\<forall>t<N. cond_step t (cv s) (ext s) (cpc s t) = None"
  shows "mtxUnblockLock (cv s) = None \<and> nWaitersToUnblock (cv s) = 0 \<and> 0 < sem_value (semBlockLock (cv s)) \<and>
    int (card {t. t < N \<and> cpc s t = WQueueWait}) = nWaitersBlocked (cv s) - nWaitersGone (cv s) \<and>
    (\<forall>t<N. cpc s t = COut \<or> (cpc s t = WQueueWait \<and> units (semBlockQueue (cv s)) = 0) \<or>
       (\<exists>r. cpc s t = WRelock r) \<and> (\<exists>u<N. ext s = Some u \<and> cpc s u = COut))"
proof -
  note inv = cond_reachable_inv [OF assms(1,2)] and q = cond_quiescent [OF cond_reachable_inv [OF assms(1,2)] assms(3)]
  have num: "cond_num (cv s) (weigh N (cpc s))" using inv unfolding cond_inv_def by blast
  have m: "w_mtx (cpc s t) = 0" if "t < N" for t
    using num q(1) weigh_ge [where w = w_mtx and ps = "cpc s", OF that w_nonneg(6)] w_nonneg(6) [of "cpc s t"]
    by (simp add: cond_num_def)
  have pc: "cpc s t = COut \<or> cpc s t = WQueueWait \<or> (\<exists>r. cpc s t = WRelock r)" if t: "t < N" for t
    using stuck_pc [OF assms(3) [rule_format, OF t]] assms(3) [rule_format, OF t] q(1) q(4) [OF t] m [OF t]
    by (auto simp: lock_cv_def)
  have wait: "cond_waiting N s = {t. t < N \<and> cpc s t = WQueueWait}"
    using pc by (fastforce simp: cond_waiting_def)
  have adj: "weigh N (cpc s) w_adj = 0" by (rule weigh_zero) (use pc in fastforce)
  have "weigh N (cpc s) w_gatewait = 0" by (rule weigh_zero) (rule q(4))
  then have "sem_ok (semBlockLock (cv s)) 0" using num by (simp add: cond_num_def)
  then have lock: "0 < sem_value (semBlockLock (cv s))" using q(3) by (auto simp: sem_ok_def units_def split: if_splits)
  have held: "\<exists>u<N. ext s = Some u \<and> cpc s u = COut" if t: "t < N" and w: "cpc s t = WRelock r" for t r
  proof -
    obtain u where u: "ext s = Some u" using assms(3) [rule_format, OF t] w by (auto split: if_splits)
    then have "u < N" "may_hold (cpc s u)" using inv unfolding cond_inv_def by blast+
    then show ?thesis using u pc [of u] by auto
  qed
  show ?thesis
    using q(1,2,5) lock num adj card_waiting [of N s] pc held unfolding wait cond_num_def by auto
qed

text \<open>
  C2: when a signal or a broadcast issues \<open>n\<close> signals, then from that step
  until the signals are used up (\<open>nWaitersToUnblock\<close> is 0 again) no thread
  joins the waiters and at least \<open>n\<close> of those that waited at the signal finish their wait; after
  a broadcast all of them have. A thread that starts waiting later takes no signal from them. (While
  no semaphore overflows and no thread is cancelled at the gate between the post of the gate and its
  wakeup.)
\<close>

theorem cond_signal_releases:
  assumes "cond_reachable N s" "t < N" "cpc s t \<in> {STest unblockAll, SClosed unblockAll}"
    and "cond_step t (cv s) (ext s) (cpc s t) = Some r" "cpc (cond_next t s r) t = SUnlock n"
    and "gate_closed N (cond_next t s r) s'" "cond_trans N s' s''" "nWaitersToUnblock (cv s'') = 0" "\<not> fault s''"
  shows "0 < n \<and> cond_waiting N s'' \<subseteq> cond_waiting N s \<and>
    int (card (cond_waiting N s'')) + n \<le> int (card (cond_waiting N s)) \<and> (unblockAll \<longrightarrow> cond_waiting N s'' = {})"
proof -
  let ?s = "cond_next t s r"
  have f': "\<not> fault s'" using assms(7,9) trans_fault by blast
  have "fault s' \<or> \<not> fault ?s" using assms(6) by (induction rule: gate_closed.induct) (use trans_fault in blast)+
  then have "\<not> fault s" using f' by (auto simp: cond_next_def split: prod.splits)
  note inv = cond_reachable_inv [OF assms(1) this]
  note u = unblock_step [OF inv assms(2,3,4,5)]
  have c: "cond_inv N s' \<and> 0 < nWaitersToUnblock (cv s') \<and> nWaitersBlocked (cv s') \<le> nWaitersBlocked (cv ?s) \<and>
      cond_waiting N s' \<subseteq> cond_waiting N ?s"
    by (rule closed_path [OF assms(6) u(1) _ f']) (use u(2,3) in simp)
  then have "nWaitersBlocked (cv s'') \<le> nWaitersBlocked (cv s') \<and> nWaitersGone (cv s'') = 0 \<and> cond_waiting N s'' \<subseteq> cond_waiting N s'"
    by (intro closed_trans [OF assms(7)]) blast+
  then have l: "nWaitersBlocked (cv s'') \<le> nWaitersBlocked (cv ?s)" "nWaitersGone (cv s'') = 0" "cond_waiting N s'' \<subseteq> cond_waiting N s"
    using c u(5) by auto
  have i: "cond_inv N s''" using trans_inv [OF assms(7)] c assms(9) by blast
  have n1: "cond_num (cv ?s) (weigh N (cpc ?s))" and n2: "cond_num (cv s'') (weigh N (cpc s''))"
    using u(1) i unfolding cond_inv_def by blast+
  have w1: "int (card (cond_waiting N s)) = nWaitersBlocked (cv ?s) + nWaitersToUnblock (cv ?s)"
    using n1 no_gone_adj [OF u(1,4)] u(4) card_waiting [of N ?s] unfolding cond_num_def u(5) by simp
  have w2: "int (card (cond_waiting N s'')) = nWaitersBlocked (cv s'')"
    using n2 no_gone_adj [OF i l(2)] l(2) assms(8) card_waiting [of N s''] unfolding cond_num_def by simp
  have "cond_waiting N s'' = {}" if unblockAll
  proof -
    have "nWaitersBlocked (cv s'') = 0" using u(6) that l(1) n2 unfolding cond_num_def by simp
    moreover have "finite (cond_waiting N s'')" by (simp add: cond_waiting_def)
    ultimately show ?thesis using w2 by simp
  qed
  then show ?thesis using u(2,3) w1 w2 l by auto
qed

lemmas run_simps = wait_acts_def bcast_acts_def new_cond_sys_def sem_call_def sem_wait_enter_def sem_raise_def sem_post_def
  sem_post_locked_def cond_next_def sem_return_def sem_errno_def SEM_VALUE_MAX_def Let_def lock_cv_def cond_unblock_test_def
  cond_unblock_closed_def cond_leave_def wait_object_def sem_post_multiple_def sem_post_multiple_locked_def

theorem cond_no_deadlock_witness:
  "\<exists>s. cond_run 1 wait_acts new_cond_sys = Some s \<and> cpc s 0 = WQueueWait \<and> nWaitersBlocked (cv s) = 1 \<and>
     mtxUnblockLock (cv s) = None \<and> 0 < sem_value (semBlockLock (cv s))"
proof -
  obtain s where s: "cond_run 1 wait_acts new_cond_sys = Some s" "\<not> fault s" "cpc s 0 = WQueueWait" "nWaitersBlocked (cv s) = 1"
    "cond_step 0 (cv s) (ext s) (cpc s 0) = None"
    by (simp add: run_simps)
  have "\<forall>t<1. cond_step t (cv s) (ext s) (cpc s t) = None" using s(5) by simp
  from cond_no_deadlock [OF cond_run_reachable [OF s(1) new_reachable] s(2) this] show ?thesis using s by auto
qed

text \<open>
  The cancellation that \<open>fault\<close> excludes: a thread is cancelled at the gate after the wakeup for
  the next thread was posted, and its clean-up takes that wakeup. The gate is then lost: nobody holds it,
  no signal is outstanding, and the thread that still waits at it waits for ever.
\<close>

lemma cond_gate_cancel_blocks:
  "\<exists>s s'. cond_reachable 3 s \<and> \<not> fault s \<and> cpc s 1 = WGateWait \<and> cond_trans 3 s s' \<and> cpc s' 1 = COut \<and> fault s' \<and>
     (\<forall>t<3. cond_step t (cv s') (ext s') (cpc s' t) = None) \<and> cpc s' 2 = WGateWait \<and>
     nWaitersToUnblock (cv s') = 0 \<and> mtxUnblockLock (cv s') = None \<and> units (semBlockLock (cv s')) = 0"
proof -
  obtain s where s: "cond_run 3 [(0, Some COut), (0, Some WGate), (0, None), (1, Some WGate), (1, None), (2, Some WGate),
      (2, None), (0, None), (0, None), (0, None), (0, None)] new_cond_sys = Some s" "\<not> fault s"
    and p: "cpc s 0 = WQueueWait" "cpc s 1 = WGateWait" "cpc s 2 = WGateWait"
      "semBlockLock (cv s) = \<lparr>sem_value = -1, sem_handle = 1\<rparr>" "sem_handle (semBlockQueue (cv s)) = 0"
      "nWaitersToUnblock (cv s) = 0" "mtxUnblockLock (cv s) = None"
    by (simp add: run_simps)
  let ?s = "s\<lparr>cv := (cv s)\<lparr>semBlockLock := ptw32_sem_wait_cleanup (semBlockLock (cv s))\<rparr>,
      cpc := (cpc s)(1 := COut), fault := fault s \<or> 0 < sem_handle (semBlockLock (cv s))\<rparr>"
  have "cond_trans 3 s ?s" by (rule cond_trans.cancel_gate) (simp_all add: p del: One_nat_def)
  moreover have "cond_step t (cv ?s) (ext ?s) (cpc ?s t) = None" if "t < 3" for t
  proof -
    have "t = 0 \<or> t = 1 \<or> t = 2" using that by arith
    then show ?thesis using p by (elim disjE) (simp_all add: ptw32_sem_wait_cleanup_def wait_object_def del: One_nat_def)
  qed
  ultimately show ?thesis
    using s(2) p cond_run_reachable [OF s(1) new_reachable]
    by (intro exI [of _ s] exI [of _ ?s]) (simp add: ptw32_sem_wait_cleanup_def wait_object_def units_def del: One_nat_def)
qed

fun closed_run :: "nat \<Rightarrow> nat list \<Rightarrow> cond_sys \<Rightarrow> cond_sys option" where
  "closed_run N [] s = Some s"
| "closed_run N (t # ts) s =
     (case cond_step t (cv s) (ext s) (cpc s t) of
        None \<Rightarrow> None
      | Some r \<Rightarrow> if t < N \<and> 0 < nWaitersToUnblock (cv (cond_next t s r)) then closed_run N ts (cond_next t s r) else None)"

lemma closed_run: "closed_run N ts s = Some s' \<Longrightarrow> gate_closed N s0 s \<Longrightarrow> gate_closed N s0 s'"
proof (induction N ts s rule: closed_run.induct)
  case (2 N t ts s)
  then obtain r where r: "t < N" "cond_step t (cv s) (ext s) (cpc s t) = Some r" "0 < nWaitersToUnblock (cv (cond_next t s r))"
    "closed_run N ts (cond_next t s r) = Some s'"
    by (auto split: option.splits if_splits)
  then show ?case using 2(1) [OF r(2)] gate_closed.later [OF 2(3) cond_trans.go [OF r(1,2)] r(3)] by blast
qed simp

theorem cond_signal_releases_witness:
  "\<exists>s r s' s''. cond_run 2 bcast_acts new_cond_sys = Some s \<and> cpc s 0 = WQueueWait \<and>
     cond_step 1 (cv s) (ext s) (cpc s 1) = Some r \<and> gate_closed 2 (cond_next 1 s r) s' \<and> cond_trans 2 s' s'' \<and> cond_waiting 2 s'' = {}"
proof -
  obtain s r s' r' where s: "cond_run 2 bcast_acts new_cond_sys = Some s" "cpc s 1 = SClosed True" "cpc s 0 = WQueueWait"
    and r: "cond_step 1 (cv s) (ext s) (cpc s 1) = Some r" "cpc (cond_next 1 s r) 1 = SUnlock 1"
    and s': "closed_run 2 [1, 1, 0, 0] (cond_next 1 s r) = Some s'"
    and r': "cond_step 0 (cv s') (ext s') (cpc s' 0) = Some r'" "nWaitersToUnblock (cv (cond_next 0 s' r')) = 0" "\<not> fault (cond_next 0 s' r')"
    by (simp add: run_simps)
  have g: "gate_closed 2 (cond_next 1 s r) s'" by (rule closed_run [OF s' gate_closed.now])
  have t: "cond_trans 2 s' (cond_next 0 s' r')" by (rule cond_trans.go [OF _ r'(1)]) simp
  have "cond_waiting 2 (cond_next 0 s' r') = {}"
    using cond_signal_releases [OF cond_run_reachable [OF s(1) new_reachable] _ _ r(1,2) g t r'(2,3), of True] s(2) by simp
  then show ?thesis using s r g t by blast
qed

end
