(* ===== verification/Spec2Isabelle.thy ===== *)
theory Spec2Isabelle
  imports Prelude PT_Attr PT_Mutex PT_Sem PT_Rwlock PT_Mcs Apr_Hash Apu_Queue Apu_Strmatch Apu_Base64
    Apr_Compress Apr_Escape PT_Barrier Apu_Md Apu_Sha1 Apu_Passwd Apr_Fnmatch
    Apu_Sdbm_Page Apu_Sdbm PT_Cond
begin

text \<open>
  Verification of the C libraries of this collection: Pthreads-win32
  (\<open>src/pthreads/pthreads.2\<close>), the Apache Portable Runtime (\<open>src/log4cxx/apr-1.5.2\<close>) and its
  utility library (\<open>src/log4cxx/apr-util-1.5.4\<close>). The theories are named after the library,
  \<open>PT_\<close>, \<open>Apr_\<close> and \<open>Apu_\<close>, and keep the names of the C functions.

  \<^bold>\<open>Common ground.\<close> \<open>Prelude\<close> has the machine integers (\<open>byte\<close>, \<open>u16\<close>, \<open>u32\<close>, \<open>u64\<close> are words,
  which wrap), the conversions to \<open>int\<close> and \<open>int64_t\<close> (\<open>c_int\<close>, \<open>c_int64\<close>) and the truncating
  division (\<open>c_div\<close>), the error codes of both libraries as datatypes and general lemmas. \<open>C_String\<close> has
  C strings: the list of the bytes before the NUL, where \<open>str_at s i\<close> is \<open>s[i]\<close> with the NUL at the
  end, and a pointer into a string is the rest of the string; the character classes of the C locale;
  \<open>apr_pstrdup\<close>. An error return is a value: a status of its own or beside the result.

  \<^bold>\<open>Pthreads-win32.\<close> The library implements POSIX threads on Windows. Windows itself (events,
  semaphores, clocks, allocation) is what the code calls: a function of the model or an outcome that
  an interleaving chooses.
  \<^item> \<open>PT_Attr\<close>: attribute objects of threads, mutexes, condition variables, read-write locks and
    barriers, and scheduling parameters. Every getter and setter with its checks; the getters read
    back what the setters last accepted.
  \<^item> \<open>PT_Mutex\<close>: \<open>pthread_mutex_init\<close>, \<open>lock\<close>, \<open>timedlock\<close>, \<open>trylock\<close>, \<open>unlock\<close> for the
    three non-robust kinds, and \<open>ptw32_relmillisecs\<close>. A thread is a program counter, each
    interlocked operation and each wait is a step of \<open>lock_step\<close> or \<open>unlock_step\<close>; an inductive
    relation interleaves any number of threads. The invariants give mutual exclusion and that no
    wakeup is lost. \<open>recursive_count\<close>, an \<open>int\<close> of the code that is incremented without
    a check, is not bounded in the steps; \<open>reachable_in_range\<close> are the runs in which it stays below
    \<open>2\<^sup>3\<^sup>1\<close>, and what is said of its value is said of those.
  \<^item> \<open>PT_Sem\<close>, \<open>PT_Rwlock\<close>, \<open>PT_Barrier\<close>: semaphores, read-write locks and barriers, built
    alike: the critical sections as functions, and a step relation over them. Counting lemmas over
    the program counters carry the invariants. The read-write lock is bounded to fewer than
    \<open>INT_MAX\<close> threads, the barrier to a height of at most \<open>2\<^sup>3\<^sup>1\<close>: the C counters are \<open>int\<close>.
    A timed read lock may time out while it settles the counters of the read-write lock, which leaves the shared
    count at \<open>INT_MAX\<close>; \<open>rw_within\<close> says that a run has not gone beyond, and exclusion holds
    with such timeouts as long as it does.
  \<^item> \<open>PT_Cond\<close>: condition variables, built of two semaphores (the steps of \<open>PT_Sem\<close>) and a mutex.
    Weights of the program counters, summed over the threads, tie the three counters and the units
    of the semaphores to the threads; no signal is lost, and those waiting at a broadcast all leave
    before anyone joins. A thread may time out, or be cancelled at the gate or in the queue. \<open>fault\<close>
    marks the runs in which a semaphore exceeds \<open>SEM_VALUE_MAX\<close> or a thread is cancelled at the
    gate after its unit was posted and before it woke: there the semaphore loses count
    (\<open>cond_gate_cancel_blocks\<close>), and the properties are of the other runs.
  \<^item> \<open>PT_Mcs\<close>: the MCS queue lock at the granularity of its shared accesses, with the heap of its
    nodes, and the flag handshake, where \<open>CreateEvent\<close> and \<open>WaitForSingleObject\<close> may fail
    (the properties are for runs in which they do not). Its users see it as an owner.

  \<^bold>\<open>Containers.\<close>
  \<^item> \<open>Apr_Array\<close>, \<open>Apr_Tables\<close>, \<open>Apr_Compress\<close>: \<open>tables/apr_tables.c\<close>. Arrays with their
    capacity; tables with the index by first character and the key checksum; the merge sort over
    pointers, compression and overlap. A locale states what a table promises as a list of pairs
    without case, and the operations refine it. The sizes, an \<open>int\<close> of the code, are natural
    numbers; arrays have fewer than \<open>2\<^sup>3\<^sup>0\<close> elements, below which
    the doubling of \<open>int nalloc\<close> does not overflow.
  \<^item> \<open>Apr_Hash\<close>: \<open>tables/apr_hash.c\<close>. The buckets with their chains, the free list, expansion,
    iterators, merge; the contract of a map is a locale, interpreted on the C operations. Bounds of
    \<open>2\<^sup>2\<^sup>9\<close> operations keep \<open>count\<close> and \<open>max\<close> within their integers.
  \<^item> \<open>Apu_Queue\<close>: \<open>misc/apr_queue.c\<close>, the bounded queue with its two condition variables. The
    signals sent are counted, so that a missing one shows.
  \<^item> \<open>Apu_Sdbm_Page\<close>, \<open>Apu_Sdbm\<close>: \<open>dbm/sdbm\<close>, the SDBM database. The pages and the directory
    are bytes; a file is the list of its blocks, and each file call takes its outcome (success, or
    a status and what a failed read leaves in the buffer) off a list in the state. A page of bytes
    stands for a list of pairs; the bits of the directory form a binary tree over the low bits of
    the hash, whose leaves are the pages. From empty files, while no file call fails, the database
    refines a map from keys to lists of values. The bound of 65536 pages is that of the tree of 16
    levels, up to which \<open>setdbit\<close> keeps \<open>maxbno\<close> ahead of the bits. (Within it
    the \<open>1 << hbit\<close> of \<open>getpage_walk\<close>, an \<open>int\<close>, stays far from the sign bit.) One process uses the files.

  \<^bold>\<open>Strings, encodings, digests.\<close>
  \<^item> \<open>Apr_Fnmatch\<close>: \<open>strings/apr_fnmatch.c\<close>. The greedy search, whose loops are partial functions,
    ends on every input and agrees with a reference definition by recursion on the pattern. Lengths of
    matches, an \<open>int\<close> of the code, are natural numbers: strings are shorter than \<open>2\<^sup>3\<^sup>1\<close>.
  \<^item> \<open>Apr_Escape\<close>: \<open>encoding/apr_escape.c\<close> with the table that \<open>tools/gen_test_char.c\<close> generates:
    each function twice, measuring and writing.
  \<^item> \<open>Apu_Strmatch\<close>: \<open>strmatch/apr_strmatch.c\<close>. The loops are fuelled by the length of the
    searched string plus one: each round moves ahead by at least one.
  \<^item> \<open>Apu_Base64\<close>: \<open>encoding/apr_base64.c\<close>; lengths are converted to \<open>int\<close> where the code
    does, and the properties bound the input so that these conversions are exact.
  \<^item> \<open>Block_Hash\<close>: the interface of a digest that takes a message in pieces, as a locale;
    \<open>Apu_Md\<close> and \<open>Apu_Sha1\<close> interpret it on \<open>crypto/apr_md5.c\<close>, \<open>apr_md4.c\<close> and
    \<open>apr_sha1.c\<close>. A piece is shorter than \<open>2\<^sup>3\<^sup>2\<close> bytes for SHA-1, and than \<open>2\<^sup>3\<^sup>2 - 63\<close>
    for MD5 and MD4: their loop has a 32-bit index that wraps (\<open>md_loop\<close>, a partial function, with
    \<open>md_lost\<close> set when it does not return or reads behind the piece).
  \<^item> \<open>Apu_Passwd\<close>: the password hashes made of them, and \<open>apr_password_validate\<close>. What a
    call finds on its stack is an argument of that call; passwords have fewer than \<open>2\<^sup>3\<^sup>1\<close> characters.

  \<^bold>\<open>Not modelled.\<close> Code whose substance is in calls outside the source: files, networking, polling,
  processes, shared memory, database, LDAP and DBM drivers, OpenSSL and NSS, iconv; for the same
  reason creation, signals and the delivery of a cancellation of Pthreads-win32 (what a cancelled wait leaves
  behind is modelled). Memory pools and failing allocation:
  the models take values for addresses, and where aliasing matters (nodes of the MCS lock, table
  entries) they have indices. Third-party code: expat, bcrypt, flann. The C++ programs (log4cxx, the
  panorama stitcher, blobs, region properties) and the MATLAB code.
\<close>

end
